(* ===== verification/Prelude.thy ===== *)
theory Prelude
  imports Main "HOL-Library.Word" "HOL-Library.Multiset" "HOL-Library.Sublist"
begin

text \<open>
  Shared vocabulary of the development: machine integers, bytes, C strings, the byte-order
  helpers the wire formats use, the faults of C that the models make explicit, and the generic
  lemmas the component theories share.

  A pointer into a byte object is modelled by the bytes from the address it holds to the end of
  the object; \<open>None\<close> is \<open>NULL\<close>.  Reading or writing past the end of that list, a failed
  \<open>assert\<close>, a dereferenced \<open>NULL\<close>, a dereferenced address that holds no object and a shift by more than the width
  are values of \<open>cfault\<close>, so that a theorem that an operation returns \<open>Inr\<close> is a memory-safety statement.
\<close>

unbundle bit_operations_syntax

type_synonym u8 = "8 word"
type_synonym u16 = "16 word"
type_synonym u32 = "32 word"
type_synonym u64 = "64 word"
type_synonym bytes = "8 word list"

named_theorems codec_simps \<open>byte-order and C-string rewriting\<close>

datatype cfault = Assert_Failed | Out_Of_Bounds | Null_Deref | Bad_Pointer | Bad_Shift

type_synonym 'a cres = "cfault + 'a"

text \<open>Sequencing: the first fault ends the computation.\<close>

definition cbind :: "'a cres \<Rightarrow> ('a \<Rightarrow> 'b cres) \<Rightarrow> 'b cres" where
  "cbind m f = (case m of Inl e \<Rightarrow> Inl e | Inr x \<Rightarrow> f x)"

section \<open>Bytes and byte order\<close>

text \<open>Network byte order of 16 and 32 bit values, and reading it back.\<close>

definition be16 :: "u16 \<Rightarrow> bytes" where
  "be16 w = [ucast (drop_bit 8 w), ucast w]"

definition be32 :: "u32 \<Rightarrow> bytes" where
  "be32 w = [ucast (drop_bit 24 w), ucast (drop_bit 16 w), ucast (drop_bit 8 w), ucast w]"

definition rd16 :: "u8 \<Rightarrow> u8 \<Rightarrow> u16" where
  "rd16 a b = push_bit 8 (ucast a) OR ucast b"

definition rd32 :: "u8 \<Rightarrow> u8 \<Rightarrow> u8 \<Rightarrow> u8 \<Rightarrow> u32" where
  "rd32 a b c d = push_bit 24 (ucast a) OR push_bit 16 (ucast b) OR push_bit 8 (ucast c) OR ucast d"

text \<open>A string literal of the source as the bytes of its characters.\<close>

definition str :: "string \<Rightarrow> bytes" where
  "str s = map of_char s"

text \<open>\<open>strlen\<close> on the bytes at a pointer: \<open>None\<close> when no terminator is in the object.\<close>

fun c_strlen :: "bytes \<Rightarrow> nat option" where
  "c_strlen [] = None"
| "c_strlen (b # bs) = (if b = 0 then Some 0 else map_option Suc (c_strlen bs))"

text \<open>A pointer that may be \<open>NULL\<close>, dereferenced.\<close>

definition deref :: "'a option \<Rightarrow> 'a cres" where
  "deref p = (case p of None \<Rightarrow> Inl Null_Deref | Some x \<Rightarrow> Inr x)"

section \<open>Lemmas\<close>

lemma cbind_simps [simp]: "cbind (Inl e) f = Inl e" "cbind (Inr x) f = f x"
  by (simp_all add: cbind_def)

lemma cbind_cong [fundef_cong]: "m = m' \<Longrightarrow> (\<And>x. m' = Inr x \<Longrightarrow> f x = g x) \<Longrightarrow> cbind m f = cbind m' g"
  by (cases m') auto

lemma cbind_assoc: "cbind (cbind m f) g = cbind m (\<lambda>x. cbind (f x) g)"
  by (cases m) simp_all

lemma cbind_Inr_right: "cbind m Inr = m"
  by (cases m) simp_all

lemma cbind_InrE: "cbind m f = Inr y \<Longrightarrow> (\<And>x. m = Inr x \<Longrightarrow> f x = Inr y \<Longrightarrow> P) \<Longrightarrow> P"
  by (cases m) simp_all

lemma if_InrE: "(if b then x else y) = Inr z \<Longrightarrow> (b \<Longrightarrow> x = Inr z \<Longrightarrow> P) \<Longrightarrow> (\<not> b \<Longrightarrow> y = Inr z \<Longrightarrow> P) \<Longrightarrow> P"
  by (cases b) simp_all

lemma cbind_eq_Inl: "cbind m f = Inl e \<longleftrightarrow> m = Inl e \<or> (\<exists>x. m = Inr x \<and> f x = Inl e)"
  by (cases m) auto

lemma cbind_eq_Inr: "cbind m f = Inr y \<longleftrightarrow> (\<exists>x. m = Inr x \<and> f x = Inr y)"
  by (cases m) auto

text \<open>The measure of a loop that counts a word index up to a bound.\<close>

lemma unat_Suc_less: "i < n \<Longrightarrow> unat (i + 1) = Suc (unat (i :: 'a::len word))"
proof -
  assume "i < n"
  moreover have "unat n < 2 ^ LENGTH('a)" by (rule unsigned_less)
  ultimately have "Suc (unat i) < 2 ^ LENGTH('a)" unfolding word_less_nat_alt by linarith
  then show ?thesis by (simp add: unat_word_ariths)
qed

lemma word_loop_measure: "i < n \<Longrightarrow> unat n - unat (i + 1) < unat n - unat (i :: 'a::len word)"
  by (simp add: unat_Suc_less word_less_nat_alt)

lemma unat_u8: "unat (b :: u8) < 256"
proof -
  have "unat b < 2 ^ LENGTH(8)" by (rule unsigned_less)
  then show ?thesis by simp
qed

lemma unat_minus_one_32: "unat (-1 :: u32) = 2 ^ 32 - 1"
  by (simp add: unsigned_minus_1_eq_mask mask_eq_exp_minus_1)

lemma unat_byte: "8 \<le> LENGTH('a) \<Longrightarrow> unat (ucast (b :: u8) :: 'a::len word) = unat b"
proof -
  assume "8 \<le> LENGTH('a)"
  then have "(2 :: nat) ^ 8 \<le> 2 ^ LENGTH('a)" by (intro power_increasing) auto
  moreover have "unat b < 2 ^ 8" using unat_u8 by simp
  ultimately show ?thesis by (simp add: unsigned_ucast_eq take_bit_nat_eq_self)
qed

lemma length_be16 [simp]: "length (be16 w) = 2"
  by (simp add: be16_def)

lemma length_be32 [simp]: "length (be32 w) = 4"
  by (simp add: be32_def)

lemma rd16_be16 [codec_simps]: "rd16 (ucast (drop_bit 8 w)) (ucast w) = w"
  by (rule bit_word_eqI) (auto simp: rd16_def bit_simps)

lemma rd32_be32 [codec_simps]:
  "rd32 (ucast (drop_bit 24 w)) (ucast (drop_bit 16 w)) (ucast (drop_bit 8 w)) (ucast w) = w"
proof (rule bit_word_eqI)
  fix n :: nat
  assume "n < LENGTH(32)"
  then consider "n < 8" | "8 \<le> n \<and> n < 16" | "16 \<le> n \<and> n < 24" | "24 \<le> n \<and> n < 32"
    by force
  then show "bit (rd32 (ucast (drop_bit 24 w)) (ucast (drop_bit 16 w)) (ucast (drop_bit 8 w)) (ucast w)) n
    \<longleftrightarrow> bit w n"
    by cases (auto simp: rd32_def bit_simps)
qed

lemma c_strlen_append [codec_simps]: "0 \<notin> set s \<Longrightarrow> c_strlen (s @ 0 # r) = Some (length s)"
  by (induction s) auto

lemma c_strlen_Some_less: "c_strlen p = Some n \<Longrightarrow> n < length p"
  by (induction p arbitrary: n) (auto split: if_splits)

lemma c_strlen_Some_nth: "c_strlen p = Some n \<Longrightarrow> p ! n = 0 \<and> 0 \<notin> set (take n p)"
  by (induction p arbitrary: n) (auto split: if_splits)

lemma c_strlen_None_iff: "c_strlen p = None \<longleftrightarrow> 0 \<notin> set p"
  by (induction p) auto

text \<open>Comparing words that are images of small naturals.\<close>

lemma word_less_of_nat [codec_simps]:
  "m < 2 ^ LENGTH('a) \<Longrightarrow> n < 2 ^ LENGTH('a) \<Longrightarrow>
     (of_nat m :: 'a::len word) < of_nat n \<longleftrightarrow> m < n"
  by (simp add: word_less_nat_alt unat_of_nat take_bit_nat_eq_self)

lemma word_le_of_nat [codec_simps]:
  "m < 2 ^ LENGTH('a) \<Longrightarrow> n < 2 ^ LENGTH('a) \<Longrightarrow>
     (of_nat m :: 'a::len word) \<le> of_nat n \<longleftrightarrow> m \<le> n"
  by (simp add: word_le_nat_alt unat_of_nat take_bit_nat_eq_self)

lemma unat_of_nat_small [codec_simps]: "m < 2 ^ LENGTH('a) \<Longrightarrow> unat (of_nat m :: 'a::len word) = m"
  by (simp add: unat_of_nat take_bit_nat_eq_self)

lemma uint_of_nat_small [codec_simps]: "m < 2 ^ LENGTH('a) \<Longrightarrow> uint (of_nat m :: 'a::len word) = int m"
  by (simp add: unsigned_of_nat take_bit_nat_eq_self)

lemma word_of_nat_eq_iff: 
  "m < 2 ^ LENGTH('a) \<Longrightarrow> n < 2 ^ LENGTH('a) \<Longrightarrow> (of_nat m :: 'a::len word) = of_nat n \<longleftrightarrow> m = n"
  by (metis unat_of_nat_small)

lemma word_of_nat_eq_0_iff: "m < 2 ^ LENGTH('a) \<Longrightarrow> (of_nat m :: 'a::len word) = 0 \<longleftrightarrow> m = 0"
  using word_of_nat_eq_iff [of m 0] by simp

section \<open>Removing the first match\<close>

text \<open>What the unlink loops over singly linked lists compute: the first element with the property and
  the list without it.\<close>

fun remove_first :: "('a \<Rightarrow> bool) \<Rightarrow> 'a list \<Rightarrow> 'a option \<times> 'a list" where
  "remove_first P [] = (None, [])"
| "remove_first P (x # xs) =
     (if P x then (Some x, xs) else (case remove_first P xs of (r, ys) \<Rightarrow> (r, x # ys)))"

lemma remove_first_None: "remove_first P xs = (None, ys) \<longleftrightarrow> ys = xs \<and> (\<forall>x \<in> set xs. \<not> P x)"
proof (induction xs arbitrary: ys)
  case (Cons x xs)
  obtain r zs where "remove_first P xs = (r, zs)" by force
  with Cons.IH [of zs] Cons.IH [of xs] show ?case by auto
qed auto

lemma remove_first_Some:
  "remove_first P xs = (Some y, ys) \<Longrightarrow> \<exists>as bs. xs = as @ y # bs \<and> ys = as @ bs \<and> P y \<and> (\<forall>a \<in> set as. \<not> P a)"
proof (induction xs arbitrary: ys)
  case (Cons x xs)
  show ?case
  proof (cases "P x")
    case True
    with Cons.prems have "x # xs = [] @ y # xs \<and> ys = [] @ xs \<and> P y \<and> (\<forall>a \<in> set []. \<not> P a)" by simp
    then show ?thesis by blast
  next
    case False
    then obtain zs where z: "remove_first P xs = (Some y, zs)" "ys = x # zs"
      using Cons.prems by (auto split: prod.splits)
    then obtain as bs where "xs = as @ y # bs \<and> zs = as @ bs \<and> P y \<and> (\<forall>a \<in> set as. \<not> P a)" using Cons.IH by blast
    with False z(2) have "x # xs = (x # as) @ y # bs \<and> ys = (x # as) @ bs \<and> P y \<and> (\<forall>a \<in> set (x # as). \<not> P a)" by simp
    then show ?thesis by blast
  qed
qed simp

end
