(* ===== verification/Kv_Store.thy ===== *)
theory Kv_Store
  imports Prelude
begin

text \<open>
  The contract of a keyed store, as the clients of the variable header
  use it: what a lookup returns after an update, and that an update keeps the
  invariant.  The locale proves once what a sequence of updates does.
\<close>

locale kv_store =
  fixes lookup :: "'s \<Rightarrow> 'k \<Rightarrow> 'v option"
    and update :: "'k \<Rightarrow> 'v \<Rightarrow> 's \<Rightarrow> 's"
    and invar :: "'s \<Rightarrow> bool"
  assumes lookup_update: "invar s \<Longrightarrow> lookup (update k v s) k' = (if k' = k then Some v else lookup s k')"
    and invar_update: "invar s \<Longrightarrow> invar (update k v s)"
begin

lemma update_all_invar: "invar s \<Longrightarrow> invar (fold (\<lambda>(k, v). update k v) kvs s)"
  by (induction kvs arbitrary: s) (auto simp: invar_update)

lemma update_all_lookup:
  "invar s \<Longrightarrow> lookup (fold (\<lambda>(k, v). update k v) kvs s) k =
     (case map_of (rev kvs) k of Some v \<Rightarrow> Some v | None \<Rightarrow> lookup s k)"
proof (induction kvs arbitrary: s)
  case Nil
  then show ?case by simp
next
  case (Cons kv kvs)
  obtain k1 v1 where kv: "kv = (k1, v1)" by force
  have "lookup (fold (\<lambda>(k, v). update k v) kvs (update k1 v1 s)) k =
     (case map_of (rev kvs) k of Some v \<Rightarrow> Some v | None \<Rightarrow> lookup (update k1 v1 s) k)"
    using Cons by (simp add: invar_update)
  then show ?case
    using Cons.prems by (auto simp: kv lookup_update map_add_def split: option.splits)
qed

lemma last_update_wins:
  "invar s \<Longrightarrow> lookup (fold (\<lambda>(k, v). update k v) (kvs @ [(k, v)]) s) k = Some v"
  by (simp add: update_all_invar lookup_update)

end

end
