(* ===== verification/Ilink_Vheader.thy ===== *)
theory Ilink_Vheader
  imports Kv_Store
begin

text \<open>
  The variable header of an iLink message,
  \<open>src/framework/iagent-core/src/variable_header.c\<close>: a growable table of typed
  key/value nodes, its wire format, the full decoder and the single-key decoder.

  Strings a node points to are held by value; \<open>key_alloc\<close> and \<open>value_alloc\<close> record, as in the
  source, whether the node owns them.  \<open>malloc\<close> succeeds (the source does not check it).  The
  unused members \<open>data\<close>, \<open>value_len\<close> and \<open>value_offet\<close> are left out.  A buffer argument is the
  object it points into; a read past its end is \<open>Out_Of_Bounds\<close>.
\<close>

section \<open>Data\<close>

datatype vtype = T_Char | T_Short | T_Long | T_Str | T_Blob

definition vtype_code :: "vtype \<Rightarrow> u8" where
  "vtype_code t = (case t of T_Char \<Rightarrow> 0 | T_Short \<Rightarrow> 1 | T_Long \<Rightarrow> 2 | T_Str \<Rightarrow> 3 | T_Blob \<Rightarrow> 4)"

datatype vval = V_Zero | V_I32 u32 | V_Str bytes

record vheader_node =
  vn_key :: "bytes option"
  vn_key_alloc :: bool
  vn_value_alloc :: bool
  vn_used :: bool
  vn_type :: vtype
  vn_value :: vval

definition vnode0 :: vheader_node where
  "vnode0 = \<lparr>vn_key = None, vn_key_alloc = False, vn_value_alloc = False, vn_used = False,
             vn_type = T_Char, vn_value = V_Zero\<rparr>"

record ilink_vheader =
  vh_num :: nat
  vh_nodes :: "vheader_node list"
  vh_increase_num :: nat

section \<open>The node table\<close>

definition vheader_init :: "u16 \<Rightarrow> u16 \<Rightarrow> ilink_vheader" where
  "vheader_init initial_num increase =
     \<lparr>vh_num = unat initial_num, vh_nodes = replicate (unat initial_num) vnode0,
      vh_increase_num = (if increase \<noteq> 0 then unat increase else 5)\<rparr>"

definition vheader_unset_node :: "vheader_node \<Rightarrow> vheader_node" where
  "vheader_unset_node n = n\<lparr>vn_used := False, vn_key_alloc := False, vn_value_alloc := False\<rparr>"

text \<open>Unsets and frees every node, then zeroes the structure.\<close>

definition vheader_destroy :: "ilink_vheader \<Rightarrow> ilink_vheader" where
  "vheader_destroy vh = \<lparr>vh_num = 0, vh_nodes = [], vh_increase_num = 0\<rparr>"

text \<open>The loop of \<open>vheader_find_node\<close> from index \<open>i\<close>: the index of the node found, or the first
  free slot seen.\<close>

fun vheader_scan :: "bytes \<Rightarrow> bool \<Rightarrow> nat \<Rightarrow> nat option \<Rightarrow> vheader_node list \<Rightarrow> nat + nat option" where
  "vheader_scan key alloc_if_miss i first_free [] = Inr first_free"
| "vheader_scan key alloc_if_miss i first_free (n # ns) =
     (if alloc_if_miss \<and> first_free = None \<and> \<not> vn_used n
      then vheader_scan key alloc_if_miss (Suc i) (Some i) ns
      else if vn_used n \<and> vn_key n = Some key then Inl i
      else vheader_scan key alloc_if_miss (Suc i) first_free ns)"

definition vheader_find_node ::
  "ilink_vheader \<Rightarrow> bytes \<Rightarrow> bool \<Rightarrow> bool \<Rightarrow> nat option \<times> ilink_vheader" where
  "vheader_find_node vh key alloc_if_miss alloc_key =
     (case vheader_scan key alloc_if_miss 0 None (vh_nodes vh) of
        Inl i \<Rightarrow> (Some i, vh)
      | Inr first_free \<Rightarrow>
          if alloc_if_miss then
            let (i, vh1) =
              (case first_free of
                 None \<Rightarrow>
                   let inc = (if vh_increase_num vh \<noteq> 0 then vh_increase_num vh else 3)
                   in (vh_num vh, vh\<lparr>vh_nodes := vh_nodes vh @ replicate inc vnode0,
                                     vh_num := vh_num vh + inc\<rparr>)
               | Some f \<Rightarrow> (f, vh))
            in (Some i, vh1\<lparr>vh_nodes := (vh_nodes vh1)[i := (vh_nodes vh1 ! i)
                  \<lparr>vn_used := True, vn_key := Some key, vn_key_alloc := alloc_key\<rparr>]\<rparr>)
          else (None, vh))"

definition vheader_set_node_i :: "vheader_node \<Rightarrow> u32 \<Rightarrow> vheader_node" where
  "vheader_set_node_i n v = n\<lparr>vn_value_alloc := False, vn_type := T_Long, vn_value := V_I32 v\<rparr>"

definition vheader_set_node_str :: "vheader_node \<Rightarrow> bytes \<Rightarrow> bool \<Rightarrow> vheader_node" where
  "vheader_set_node_str n v alloc_value =
     n\<lparr>vn_type := T_Str, vn_value := V_Str v, vn_value_alloc := alloc_value\<rparr>"

text \<open>A write through the node pointer \<open>vheader_find_node\<close> returned.\<close>

definition vh_upd_node :: "ilink_vheader \<Rightarrow> nat \<Rightarrow> (vheader_node \<Rightarrow> vheader_node) \<Rightarrow> ilink_vheader" where
  "vh_upd_node vh i f = vh\<lparr>vh_nodes := (vh_nodes vh)[i := f (vh_nodes vh ! i)]\<rparr>"

definition vheader_set_value_s :: "ilink_vheader \<Rightarrow> bytes \<Rightarrow> bytes \<Rightarrow> ilink_vheader" where
  "vheader_set_value_s vh key v =
     (case vheader_find_node vh key True False of
        (None, vh1) \<Rightarrow> vh1
      | (Some i, vh1) \<Rightarrow> vh_upd_node vh1 i (\<lambda>n. vheader_set_node_str n v True))"

definition vheader_set_value_i :: "ilink_vheader \<Rightarrow> bytes \<Rightarrow> u32 \<Rightarrow> ilink_vheader" where
  "vheader_set_value_i vh key v =
     (case vheader_find_node vh key True False of
        (None, vh1) \<Rightarrow> vh1
      | (Some i, vh1) \<Rightarrow> vh_upd_node vh1 i (\<lambda>n. vheader_set_node_i n v))"

section \<open>The encoder\<close>

definition vheader_get_nodes_num :: "ilink_vheader \<Rightarrow> u16" where
  "vheader_get_nodes_num vh = of_nat (length (filter vn_used (vh_nodes vh)))"

definition vheader_node_len :: "vheader_node \<Rightarrow> nat cres" where
  "vheader_node_len n =
     (if \<not> vn_used n then Inr 0
      else case vn_type n of
        T_Str \<Rightarrow>
          (case (vn_key n, vn_value n) of
             (Some k, V_Str s) \<Rightarrow> Inr (length k + 1 + (length s + 1) + 1)
           | _ \<Rightarrow> Inl Null_Deref)
      | T_Long \<Rightarrow> (case vn_key n of Some k \<Rightarrow> Inr (length k + 1 + 4 + 1) | None \<Rightarrow> Inl Null_Deref)
      | _ \<Rightarrow> Inr 0)"

fun vheader_total :: "vheader_node list \<Rightarrow> nat cres" where
  "vheader_total [] = Inr 0"
| "vheader_total (n # ns) =
     (case vheader_node_len n of
        Inl e \<Rightarrow> Inl e
      | Inr l \<Rightarrow> (case vheader_total ns of Inl e \<Rightarrow> Inl e | Inr t \<Rightarrow> Inr (l + t)))"

text \<open>The bytes the body loop of \<open>vheader_compose\<close> writes for one node.\<close>

definition vheader_node_bytes :: "vheader_node \<Rightarrow> bytes cres" where
  "vheader_node_bytes n =
     (if \<not> vn_used n then Inr []
      else case vn_key n of
        None \<Rightarrow> Inl Null_Deref
      | Some k \<Rightarrow>
          (case vn_type n of
             T_Str \<Rightarrow> (case vn_value n of
                        V_Str s \<Rightarrow> Inr (k @ [0] @ [vtype_code T_Str] @ s @ [0])
                      | _ \<Rightarrow> Inl Null_Deref)
           | T_Long \<Rightarrow> Inr (k @ [0] @ [vtype_code T_Long] @
                            be32 (case vn_value n of V_I32 v \<Rightarrow> v | _ \<Rightarrow> 0))
           | t \<Rightarrow> Inr (k @ [0] @ [vtype_code t])))"

fun vheader_body :: "vheader_node list \<Rightarrow> bytes cres" where
  "vheader_body [] = Inr []"
| "vheader_body (n # ns) =
     (case vheader_node_bytes n of
        Inl e \<Rightarrow> Inl e
      | Inr b \<Rightarrow> (case vheader_body ns of Inl e \<Rightarrow> Inl e | Inr bs \<Rightarrow> Inr (b @ bs)))"

text \<open>\<open>Inr None\<close> is the \<open>NULL\<close> with \<open>*len = 0\<close>.  Writing more bytes than were allocated ends in
  the failed \<open>assert\<close>.\<close>

definition vheader_compose :: "ilink_vheader \<Rightarrow> bytes option cres" where
  "vheader_compose vh =
     (case vheader_total (vh_nodes vh) of
        Inl e \<Rightarrow> Inl e
      | Inr tot \<Rightarrow>
          if tot = 0 then Inr None
          else
            (case vheader_body (vh_nodes vh) of
               Inl e \<Rightarrow> Inl e
             | Inr body \<Rightarrow>
                 if length body \<noteq> tot then Inl Assert_Failed
                 else Inr (Some (be16 (of_nat (tot + 4)) @ be16 (vheader_get_nodes_num vh) @ body))))"

section \<open>The decoders\<close>

text \<open>One iteration of the loop of \<open>vheader_decompose\<close>: \<open>Inl\<close> is an error code, \<open>Inr\<close> the table,
  the rest of the buffer and the offset after the item.  \<open>offset\<close> is 16 bits wide as in the source.\<close>

definition vheader_dec_item ::
  "u16 \<Rightarrow> bool \<Rightarrow> ilink_vheader \<Rightarrow> bytes \<Rightarrow> u16 \<Rightarrow> (int + ilink_vheader \<times> bytes \<times> u16) cres" where
  "vheader_dec_item tot alloc vh p offset =
     (case c_strlen p of
        None \<Rightarrow> Inl Out_Of_Bounds
      | Some kl \<Rightarrow>
          let offset = offset + of_nat (kl + 1) in
          if offset \<ge> tot then Inr (Inl (-20))
          else
            (case vheader_find_node vh (take kl p) True alloc of
               (None, vh) \<Rightarrow> Inr (Inl (-30))
             | (Some i, vh) \<Rightarrow>
                 (case drop (kl + 1) p of
                    [] \<Rightarrow> Inl Out_Of_Bounds
                  | t # p \<Rightarrow>
                      let offset = offset + 1 in
                      if offset \<ge> tot then Inr (Inl (-40))
                      else if t = vtype_code T_Str then
                        (case c_strlen p of
                           None \<Rightarrow> Inl Out_Of_Bounds
                         | Some vl \<Rightarrow>
                             let offset = offset + of_nat (vl + 1) in
                             if offset > tot then Inr (Inl (-50))
                             else Inr (Inr (vh_upd_node vh i (\<lambda>n. vheader_set_node_str n (take vl p) alloc),
                                            drop (vl + 1) p, offset)))
                      else if t = vtype_code T_Long then
                        (let offset = offset + 4 in
                         if offset > tot then Inr (Inl (-60))
                         else
                           (case p of
                              a # b # c # d # p \<Rightarrow>
                                Inr (Inr (vh_upd_node vh i (\<lambda>n. vheader_set_node_i n (rd32 a b c d)), p, offset))
                            | _ \<Rightarrow> Inl Out_Of_Bounds))
                      else Inr (Inl (-100)))))"

function vheader_dec_loop ::
  "u16 \<Rightarrow> u16 \<Rightarrow> bool \<Rightarrow> ilink_vheader \<Rightarrow> bytes \<Rightarrow> u16 \<Rightarrow> u16 \<Rightarrow> (int + ilink_vheader \<times> u16 \<times> u16) cres" where
  "vheader_dec_loop tot num alloc vh p offset idx =
     (if offset < tot \<and> idx < num then
        (case vheader_dec_item tot alloc vh p offset of
           Inl e \<Rightarrow> Inl e
         | Inr (Inl err) \<Rightarrow> Inr (Inl err)
         | Inr (Inr (vh, p, offset)) \<Rightarrow> vheader_dec_loop tot num alloc vh p offset (idx + 1))
      else Inr (Inr (vh, offset, idx)))"
  by pat_completeness auto
termination
proof (relation "measure (\<lambda>(tot, num, alloc, vh, p, offset, idx). unat num - unat idx)")
qed (auto simp: word_loop_measure)

declare vheader_dec_loop.simps [simp del]

definition vheader_decompose ::
  "ilink_vheader \<Rightarrow> bytes \<Rightarrow> int \<Rightarrow> bool \<Rightarrow> (int \<times> ilink_vheader) cres" where
  "vheader_decompose vh buffer vheader_len reuse_buffer =
     (case buffer of
        t1 # t0 # n1 # n0 # p \<Rightarrow>
          let tot = rd16 t1 t0; num = rd16 n1 n0 in
          if int (unat tot) > vheader_len then Inr (-99, vh)
          else
            (case vheader_dec_loop tot num (\<not> reuse_buffer) (vheader_init num 5) p 4 0 of
               Inl e \<Rightarrow> Inl e
             | Inr (Inl err) \<Rightarrow> Inr (err, vheader_destroy vh)
             | Inr (Inr (vh1, offset, idx)) \<Rightarrow>
                 if idx \<noteq> num then Inr (-70, vheader_destroy vh1)
                 else if offset \<noteq> tot then Inr (-80, vheader_destroy vh1)
                 else Inr (int (unat num), vh1))
      | _ \<Rightarrow> Inl Out_Of_Bounds)"

text \<open>One iteration of \<open>vheader_raw_find_key\<close>: \<open>Inl\<close> is a return, \<open>Inr\<close> goes on.\<close>

definition vheader_raw_item ::
  "u16 \<Rightarrow> bool \<Rightarrow> bytes \<Rightarrow> vheader_node \<Rightarrow> bytes \<Rightarrow> u16 \<Rightarrow> (int \<times> vheader_node + bytes \<times> u16) cres" where
  "vheader_raw_item tot alloc key node p offset =
     (case c_strlen p of
        None \<Rightarrow> Inl Out_Of_Bounds
      | Some kl \<Rightarrow>
          let offset = offset + of_nat (kl + 1) in
          if offset \<ge> tot then Inr (Inl (-20, node))
          else
            let match = (take kl p = key) in
            (case drop (kl + 1) p of
               [] \<Rightarrow> Inl Out_Of_Bounds
             | t # p \<Rightarrow>
                 let offset = offset + 1 in
                 if offset \<ge> tot then Inr (Inl (-40, node))
                 else if t = vtype_code T_Str then
                   (case c_strlen p of
                      None \<Rightarrow> Inl Out_Of_Bounds
                    | Some vl \<Rightarrow>
                        let offset = offset + of_nat (vl + 1) in
                        if offset > tot then Inr (Inl (-50, node))
                        else if match then Inr (Inl (0, vheader_set_node_str node (take vl p) alloc))
                        else Inr (Inr (drop (vl + 1) p, offset)))
                 else if t = vtype_code T_Long then
                   (let offset = offset + 4 in
                    if offset > tot then Inr (Inl (-60, node))
                    else
                      (case p of
                         a # b # c # d # p \<Rightarrow>
                           if match then Inr (Inl (0, vheader_set_node_i node (rd32 a b c d)))
                           else Inr (Inr (p, offset))
                       | _ \<Rightarrow> Inl Out_Of_Bounds))
                 else Inr (Inl (-100, node))))"

function vheader_raw_loop ::
  "u16 \<Rightarrow> u16 \<Rightarrow> bool \<Rightarrow> bytes \<Rightarrow> vheader_node \<Rightarrow> bytes \<Rightarrow> u16 \<Rightarrow> u16 \<Rightarrow> (int \<times> vheader_node) cres" where
  "vheader_raw_loop tot num alloc key node p offset idx =
     (if offset < tot \<and> idx < num then
        (case vheader_raw_item tot alloc key node p offset of
           Inl e \<Rightarrow> Inl e
         | Inr (Inl r) \<Rightarrow> Inr r
         | Inr (Inr (p, offset)) \<Rightarrow> vheader_raw_loop tot num alloc key node p offset (idx + 1))
      else Inr (-1, node))"
  by pat_completeness auto
termination
proof (relation "measure (\<lambda>(tot, num, alloc, key, node, p, offset, idx). unat num - unat idx)")
qed (auto simp: word_loop_measure)

declare vheader_raw_loop.simps [simp del]

text \<open>Unlike the full decoder this one starts its \<open>offset\<close> at 0, not behind the 4 header bytes.\<close>

definition vheader_raw_find_key ::
  "vheader_node \<Rightarrow> bytes \<Rightarrow> bytes \<Rightarrow> int \<Rightarrow> bool \<Rightarrow> (int \<times> vheader_node) cres" where
  "vheader_raw_find_key node key buffer len reuse_buffer =
     (case buffer of
        t1 # t0 # rest \<Rightarrow>
          let tot = rd16 t1 t0 in
          if int (unat tot) > len then Inr (-99, node)
          else (case rest of
                  n1 # n0 # p \<Rightarrow>
                    vheader_raw_loop tot (rd16 n1 n0) (\<not> reuse_buffer) key node p 0 0
                | _ \<Rightarrow> Inl Out_Of_Bounds)
      | _ \<Rightarrow> Inl Out_Of_Bounds)"

section \<open>The table is a keyed store\<close>

text \<open>What a reader of the table sees under a key.\<close>

fun vval_abs :: "vval \<Rightarrow> (bytes + u32) option" where
  "vval_abs (V_Str s) = Some (Inl s)"
| "vval_abs (V_I32 v) = Some (Inr v)"
| "vval_abs V_Zero = None"

definition vheader_lookup :: "ilink_vheader \<Rightarrow> bytes \<Rightarrow> (bytes + u32) option" where
  "vheader_lookup vh key =
     (case fst (vheader_find_node vh key False False) of
        None \<Rightarrow> None
      | Some i \<Rightarrow> vval_abs (vn_value (vh_nodes vh ! i)))"

text \<open>Both setters as one update with a tagged value.\<close>

fun vheader_put :: "bytes \<Rightarrow> bytes + u32 \<Rightarrow> ilink_vheader \<Rightarrow> ilink_vheader" where
  "vheader_put key (Inl s) vh = vheader_set_value_s vh key s"
| "vheader_put key (Inr v) vh = vheader_set_value_i vh key v"

text \<open>Well-formed tables: the slot count is the array's length, used nodes have a key, and the keys
  of used nodes are distinct.\<close>

definition vnodes_wf :: "vheader_node list \<Rightarrow> bool" where
  "vnodes_wf ns \<longleftrightarrow>
     (\<forall>i < length ns. vn_used (ns ! i) \<longrightarrow> vn_key (ns ! i) \<noteq> None) \<and>
     (\<forall>i < length ns. \<forall>j < length ns.
        vn_used (ns ! i) \<and> vn_used (ns ! j) \<and> vn_key (ns ! i) = vn_key (ns ! j) \<longrightarrow> i = j)"

definition vheader_wf :: "ilink_vheader \<Rightarrow> bool" where
  "vheader_wf vh \<longleftrightarrow> vh_num vh = length (vh_nodes vh) \<and> vnodes_wf (vh_nodes vh)"

lemma vnodes_wf_update:
  assumes "vnodes_wf ns" "vn_key m \<noteq> None"
    and "\<And>j. j < length ns \<Longrightarrow> j \<noteq> i \<Longrightarrow> vn_used (ns ! j) \<Longrightarrow> vn_key (ns ! j) \<noteq> vn_key m"
  shows "vnodes_wf (ns[i := m])"
  unfolding vnodes_wf_def
proof (intro conjI allI impI)
  fix j assume "j < length (ns[i := m])" "vn_used (ns[i := m] ! j)"
  then show "vn_key (ns[i := m] ! j) \<noteq> None"
    using assms by (cases "j = i") (auto simp: vnodes_wf_def nth_list_update)
next
  fix j l
  assume "j < length (ns[i := m])" "l < length (ns[i := m])"
    "vn_used (ns[i := m] ! j) \<and> vn_used (ns[i := m] ! l) \<and> vn_key (ns[i := m] ! j) = vn_key (ns[i := m] ! l)"
  then show "j = l"
    using assms by (cases "j = i"; cases "l = i") (auto simp: vnodes_wf_def nth_list_update)
qed

lemma vnodes_wf_grow: "vnodes_wf ns \<Longrightarrow> vnodes_wf (ns @ replicate n vnode0)"
  unfolding vnodes_wf_def by (auto simp: nth_append vnode0_def split: if_splits)

lemma vnodes_wf_Cons:
  assumes "vnodes_wf (n # ns)"
  shows "vnodes_wf ns" "vn_used n \<Longrightarrow> m \<in> set ns \<Longrightarrow> vn_used m \<Longrightarrow> vn_key m \<noteq> vn_key n"
proof -
  show "vnodes_wf ns"
    using assms unfolding vnodes_wf_def by (metis Suc_less_eq Suc_inject length_Cons nth_Cons_Suc)
next
  assume n: "vn_used n" and "m \<in> set ns" "vn_used m"
  then obtain i where "i < length ns" "ns ! i = m" by (auto simp: set_conv_nth)
  then show "vn_key m \<noteq> vn_key n"
    using assms n \<open>vn_used m\<close> unfolding vnodes_wf_def
    by (metis Suc_less_eq Zero_not_Suc length_Cons nth_Cons_0 nth_Cons_Suc zero_less_Suc)
qed

lemma vheader_wf_distinct: "vheader_wf vh \<Longrightarrow> distinct (map vn_key (filter vn_used (vh_nodes vh)))"
proof -
  have "vnodes_wf ns \<Longrightarrow> distinct (map vn_key (filter vn_used ns))" for ns
    by (induction ns) (force dest: vnodes_wf_Cons)+
  then show "vheader_wf vh \<Longrightarrow> ?thesis" by (simp add: vheader_wf_def)
qed

lemma vnode0_unused [simp]: "\<not> vn_used vnode0"
  by (simp add: vnode0_def)

lemma vheader_scan_Inl:
  "vheader_scan k a i ff ns = Inl j \<Longrightarrow>
     i \<le> j \<and> j - i < length ns \<and> vn_used (ns ! (j - i)) \<and> vn_key (ns ! (j - i)) = Some k"
proof (induction k a i ff ns rule: vheader_scan.induct)
  case (2 k a i ff n ns)
  show ?case
  proof (cases "j = i")
    case True
    with 2 show ?thesis by (fastforce split: if_splits)
  next
    case False
    with 2 have "Suc i \<le> j \<and> j - Suc i < length ns \<and> vn_used (ns ! (j - Suc i))
        \<and> vn_key (ns ! (j - Suc i)) = Some k"
      by (auto split: if_splits)
    moreover from this have "j - i = Suc (j - Suc i)" by arith
    ultimately show ?thesis by simp
  qed
qed simp

lemma vheader_scan_Inr_absent:
  "vheader_scan k a i ff ns = Inr ff' \<Longrightarrow> n \<in> set ns \<Longrightarrow> vn_used n \<Longrightarrow> vn_key n \<noteq> Some k"
  by (induction k a i ff ns rule: vheader_scan.induct) (auto split: if_splits)

lemma vheader_scan_Inr_free:
  "vheader_scan k a i ff ns = Inr (Some f) \<Longrightarrow>
     ff = Some f \<or> (i \<le> f \<and> f - i < length ns \<and> \<not> vn_used (ns ! (f - i)))"
proof (induction k a i ff ns rule: vheader_scan.induct)
  case (2 k a i ff n ns)
  consider "a \<and> ff = None \<and> \<not> vn_used n" "f = i" | "ff = Some f"
    | "Suc i \<le> f \<and> f - Suc i < length ns \<and> \<not> vn_used (ns ! (f - Suc i))"
    using 2 by (auto split: if_splits)
  then show ?case
  proof cases
    case 3
    then have "f - i = Suc (f - Suc i)" by arith
    with 3 show ?thesis by simp
  qed auto
qed simp

text \<open>What \<open>vheader_find_node\<close> does when it may allocate: it returns a slot that carries the key and
  leaves every other used slot alone.\<close>

lemma vheader_find_alloc:
  assumes wf: "vheader_wf vh" and f: "vheader_find_node vh k True ak = (r, vh1)"
  shows "\<exists>i. r = Some i \<and> vheader_wf vh1 \<and> i < length (vh_nodes vh1) \<and>
     vn_used (vh_nodes vh1 ! i) \<and> vn_key (vh_nodes vh1 ! i) = Some k \<and>
     (\<forall>j < length (vh_nodes vh1). j \<noteq> i \<longrightarrow>
        (if j < length (vh_nodes vh) then vh_nodes vh1 ! j = vh_nodes vh ! j
         else \<not> vn_used (vh_nodes vh1 ! j))) \<and>
     length (vh_nodes vh) \<le> length (vh_nodes vh1) \<and>
     (i < length (vh_nodes vh) \<longrightarrow> \<not> vn_used (vh_nodes vh ! i) \<or> vn_key (vh_nodes vh ! i) = Some k)"
proof (cases "vheader_scan k True 0 None (vh_nodes vh)")
  case (Inl i)
  then have "r = Some i" "vh1 = vh" using f by (auto simp: vheader_find_node_def)
  with vheader_scan_Inl [OF Inl] wf show ?thesis by auto
next
  case (Inr ff)
  note absent = vheader_scan_Inr_absent [OF Inr]
  show ?thesis
  proof (cases ff)
    case (Some i)
    with vheader_scan_Inr_free [OF Inr [unfolded Some]]
    have i: "i < length (vh_nodes vh)" "\<not> vn_used (vh_nodes vh ! i)" by auto
    have r: "r = Some i" "vh1 = vh\<lparr>vh_nodes := (vh_nodes vh)[i := (vh_nodes vh ! i)
        \<lparr>vn_used := True, vn_key := Some k, vn_key_alloc := ak\<rparr>]\<rparr>"
      using f Inr Some by (auto simp: vheader_find_node_def)
    have "vheader_wf vh1"
      using wf absent unfolding vheader_wf_def r by (auto intro!: vnodes_wf_update)
    with i show ?thesis by (auto simp: r nth_list_update)
  next
    case None
    let ?inc = "if vh_increase_num vh \<noteq> 0 then vh_increase_num vh else 3"
    let ?ns = "vh_nodes vh @ replicate ?inc vnode0"
    have num: "vh_num vh = length (vh_nodes vh)" using wf by (simp add: vheader_wf_def)
    have inc: "0 < ?inc" by simp
    have r: "r = Some (vh_num vh)"
      "vh_nodes vh1 = ?ns[vh_num vh := vnode0\<lparr>vn_used := True, vn_key := Some k, vn_key_alloc := ak\<rparr>]"
      "vh_num vh1 = length (vh_nodes vh) + ?inc"
      using f Inr None num inc
      by (auto simp: vheader_find_node_def Let_def nth_append split: if_splits)
    have "vnodes_wf ?ns" using wf by (simp add: vheader_wf_def vnodes_wf_grow)
    moreover have "vn_key (?ns ! j) \<noteq> Some k" if "j < length ?ns" "vn_used (?ns ! j)" for j
      using that absent by (cases "j < length (vh_nodes vh)") (auto simp: nth_append)
    ultimately have "vheader_wf vh1"
      unfolding vheader_wf_def r by (auto intro!: vnodes_wf_update)
    then show ?thesis
      using inc by (auto simp: r num nth_list_update nth_append)
  qed
qed

lemma vheader_lookup_eq:
  assumes "vheader_wf vh" "i < length (vh_nodes vh)" "vn_used (vh_nodes vh ! i)"
    and "vn_key (vh_nodes vh ! i) = Some k"
  shows "vheader_lookup vh k = vval_abs (vn_value (vh_nodes vh ! i))"
proof (cases "vheader_scan k False 0 None (vh_nodes vh)")
  case (Inl j)
  with vheader_scan_Inl [OF Inl] assms have "j = i"
    unfolding vheader_wf_def vnodes_wf_def by auto
  with Inl show ?thesis by (simp add: vheader_lookup_def vheader_find_node_def)
next
  case (Inr ff)
  from vheader_scan_Inr_absent [OF Inr] assms show ?thesis by (auto simp: set_conv_nth)
qed

lemma vheader_lookup_None:
  assumes "\<And>i. i < length (vh_nodes vh) \<Longrightarrow> vn_used (vh_nodes vh ! i) \<Longrightarrow> vn_key (vh_nodes vh ! i) \<noteq> Some k"
  shows "vheader_lookup vh k = None"
proof (cases "vheader_scan k False 0 None (vh_nodes vh)")
  case (Inl j)
  with vheader_scan_Inl [OF Inl] assms [of j] show ?thesis by auto
next
  case (Inr ff)
  then show ?thesis by (simp add: vheader_lookup_def vheader_find_node_def)
qed

text \<open>Writing a value through the node of a key: the shared core of both setters.\<close>

lemma vheader_write:
  assumes wf: "vheader_wf vh" and f: "vheader_find_node vh k True ak = (Some i, vh1)"
    and keep: "\<And>n. vn_used (g n) = vn_used n" "\<And>n. vn_key (g n) = vn_key n"
    and val: "\<And>n. vval_abs (vn_value (g n)) = Some v"
  shows "vheader_wf (vh_upd_node vh1 i g) \<and>
     vheader_lookup (vh_upd_node vh1 i g) k' = (if k' = k then Some v else vheader_lookup vh k')"
proof -
  let ?vh2 = "vh_upd_node vh1 i g"
  obtain i' where "Some i = Some i'" and wf1: "vheader_wf vh1" and i: "i < length (vh_nodes vh1)"
      "vn_used (vh_nodes vh1 ! i)" "vn_key (vh_nodes vh1 ! i) = Some k"
    and others: "\<And>j. j < length (vh_nodes vh1) \<Longrightarrow> j \<noteq> i \<Longrightarrow>
        (if j < length (vh_nodes vh) then vh_nodes vh1 ! j = vh_nodes vh ! j
         else \<not> vn_used (vh_nodes vh1 ! j))"
    and len: "length (vh_nodes vh) \<le> length (vh_nodes vh1)"
    and old: "i < length (vh_nodes vh) \<Longrightarrow> \<not> vn_used (vh_nodes vh ! i) \<or> vn_key (vh_nodes vh ! i) = Some k"
    using vheader_find_alloc [OF wf f] by auto
  have nodes2: "vh_nodes ?vh2 = (vh_nodes vh1)[i := g (vh_nodes vh1 ! i)]"
    "vh_num ?vh2 = vh_num vh1" by (simp_all add: vh_upd_node_def)
  have key2: "vn_key (vh_nodes ?vh2 ! j) = vn_key (vh_nodes vh1 ! j)"
    "vn_used (vh_nodes ?vh2 ! j) = vn_used (vh_nodes vh1 ! j)" if "j < length (vh_nodes vh1)" for j
    using that keep by (cases "j = i"; auto simp: nodes2)+
  have wf2: "vheader_wf ?vh2"
    using wf1 key2 unfolding vheader_wf_def vnodes_wf_def by (auto simp: nodes2(2)) (auto simp: nodes2)
  moreover have "vheader_lookup ?vh2 k' = (if k' = k then Some v else vheader_lookup vh k')"
  proof (cases "k' = k")
    case True
    then show ?thesis
      using vheader_lookup_eq [OF wf2, of i k] i key2 [of i] val by (simp add: nodes2)
  next
    case False
    show ?thesis
    proof (cases "\<exists>j < length (vh_nodes vh). vn_used (vh_nodes vh ! j) \<and> vn_key (vh_nodes vh ! j) = Some k'")
      case True
      then obtain j where j: "j < length (vh_nodes vh)" "vn_used (vh_nodes vh ! j)"
        "vn_key (vh_nodes vh ! j) = Some k'" by blast
      with False old have ji: "j \<noteq> i" by auto
      with others [of j] j len have "vh_nodes ?vh2 ! j = vh_nodes vh ! j" by (auto simp: nodes2)
      with j len show ?thesis
        using False vheader_lookup_eq [OF wf, of j k'] vheader_lookup_eq [OF wf2, of j k']
        by (simp add: nodes2)
    next
      case absent: False
      have "vheader_lookup ?vh2 k' = None"
      proof (rule vheader_lookup_None)
        fix j assume j: "j < length (vh_nodes ?vh2)" "vn_used (vh_nodes ?vh2 ! j)"
        then show "vn_key (vh_nodes ?vh2 ! j) \<noteq> Some k'"
          using others [of j] absent i key2 [of j] False by (cases "j = i") (auto simp: nodes2 split: if_splits)
      qed
      moreover have "vheader_lookup vh k' = None"
        using absent by (intro vheader_lookup_None) auto
      ultimately show ?thesis using False by simp
    qed
  qed
  ultimately show ?thesis by blast
qed

lemma vheader_put_spec:
  assumes "vheader_wf vh"
  shows "vheader_wf (vheader_put k v vh) \<and>
     vheader_lookup (vheader_put k v vh) k' = (if k' = k then Some v else vheader_lookup vh k')"
proof -
  obtain r vh1 where f: "vheader_find_node vh k True False = (r, vh1)" by force
  with vheader_find_alloc [OF assms f] obtain i where r: "r = Some i" by blast
  note w = vheader_write [OF assms f [unfolded r]]
  show ?thesis
  proof (cases v)
    case (Inl s)
    then show ?thesis
      using w [of "\<lambda>n. vheader_set_node_str n s True" v k'] f r
      by (simp add: vheader_set_value_s_def vheader_set_node_str_def)
  next
    case (Inr x)
    then show ?thesis
      using w [of "\<lambda>n. vheader_set_node_i n x" v k'] f r
      by (simp add: vheader_set_value_i_def vheader_set_node_i_def)
  qed
qed

interpretation vh: kv_store vheader_lookup vheader_put vheader_wf
  by unfold_locales (use vheader_put_spec in auto)

lemma vheader_init_wf: "vheader_wf (vheader_init n inc)"
  by (simp add: vheader_wf_def vnodes_wf_def vheader_init_def)

lemma vheader_init_lookup: "vheader_lookup (vheader_init n inc) k = None"
  by (rule vheader_lookup_None) (simp add: vheader_init_def)

section \<open>Decoding inverts encoding\<close>

text \<open>The nodes the encoder supports: a key and, for strings, a value without terminator bytes.\<close>

definition vnode_ok :: "vheader_node \<Rightarrow> bool" where
  "vnode_ok n \<longleftrightarrow>
     vn_used n \<and>
     (case vn_key n of None \<Rightarrow> False | Some k \<Rightarrow> 0 \<notin> set k) \<and>
     (case vn_type n of
        T_Str \<Rightarrow> (case vn_value n of V_Str s \<Rightarrow> 0 \<notin> set s | _ \<Rightarrow> False)
      | T_Long \<Rightarrow> (case vn_value n of V_I32 v \<Rightarrow> True | _ \<Rightarrow> False)
      | _ \<Rightarrow> False)"

text \<open>The node the decoder builds for an encoded node.\<close>

definition vnode_reload :: "bool \<Rightarrow> vheader_node \<Rightarrow> vheader_node" where
  "vnode_reload alloc n = \<lparr>vn_key = vn_key n, vn_key_alloc = alloc,
     vn_value_alloc = (alloc \<and> vn_type n = T_Str), vn_used = True,
     vn_type = vn_type n, vn_value = vn_value n\<rparr>"

lemma vnode_okE:
  assumes "vnode_ok n"
  obtains (Str) k v where "vn_used n" "vn_key n = Some k" "0 \<notin> set k" "vn_type n = T_Str"
      "vn_value n = V_Str v" "0 \<notin> set v"
      "vheader_node_bytes n = Inr (k @ 0 # 3 # v @ [0])" "vheader_node_len n = Inr (length k + length v + 3)"
    | (Long) k v where "vn_used n" "vn_key n = Some k" "0 \<notin> set k" "vn_type n = T_Long"
      "vn_value n = V_I32 v"
      "vheader_node_bytes n = Inr (k @ 0 # 2 # be32 v)" "vheader_node_len n = Inr (length k + 6)"
proof (cases "vn_type n")
  case T_Str
  with assms show ?thesis
    using that(1) by (auto simp: vnode_ok_def vheader_node_bytes_def vheader_node_len_def vtype_code_def
        split: option.splits vval.splits)
next
  case T_Long
  with assms show ?thesis
    using that(2) by (auto simp: vnode_ok_def vheader_node_bytes_def vheader_node_len_def vtype_code_def
        split: option.splits vval.splits)
qed (use assms in \<open>auto simp: vnode_ok_def\<close>)

definition vnode_enc :: "vheader_node \<Rightarrow> bytes" where
  "vnode_enc n = (case vheader_node_bytes n of Inr b \<Rightarrow> b | Inl _ \<Rightarrow> [])"

lemma vnode_enc_count:
  "(\<And>n. n \<in> set ms \<Longrightarrow> vnode_ok n) \<Longrightarrow> length ms \<le> length (concat (map vnode_enc ms))"
proof (induction ms)
  case (Cons n ms)
  have "vnode_ok n" using Cons.prems by simp
  then have "0 < length (vnode_enc n)" by (cases rule: vnode_okE) (auto simp: vnode_enc_def)
  moreover have "length ms \<le> length (concat (map vnode_enc ms))" using Cons by simp
  ultimately show ?case unfolding list.map concat.simps length_append list.size(4) by linarith
qed simp

lemma vheader_total_ok:
  "(\<And>n. n \<in> set ns \<Longrightarrow> vn_used n \<Longrightarrow> vnode_ok n) \<Longrightarrow>
     vheader_total ns = Inr (length (concat (map vnode_enc (filter vn_used ns))))"
proof (induction ns)
  case (Cons n ns)
  have "vheader_node_len n = Inr (if vn_used n then length (vnode_enc n) else 0)"
  proof (cases "vn_used n")
    case True
    with Cons.prems [of n] have "vnode_ok n" by simp
    then show ?thesis using True by (cases rule: vnode_okE) (auto simp: vnode_enc_def)
  qed (simp add: vheader_node_len_def)
  with Cons show ?case by simp
qed simp

lemma vheader_body_ok:
  "(\<And>n. n \<in> set ns \<Longrightarrow> vn_used n \<Longrightarrow> vnode_ok n) \<Longrightarrow>
     vheader_body ns = Inr (concat (map vnode_enc (filter vn_used ns)))"
proof (induction ns)
  case (Cons n ns)
  have "vheader_node_bytes n = Inr (if vn_used n then vnode_enc n else [])"
  proof (cases "vn_used n")
    case True
    with Cons.prems [of n] have "vnode_ok n" by simp
    then show ?thesis using True by (cases rule: vnode_okE) (auto simp: vnode_enc_def)
  qed (simp add: vheader_node_bytes_def)
  with Cons show ?case by simp
qed simp

lemma vheader_compose_ok:
  assumes "\<And>n. n \<in> set (vh_nodes vh) \<Longrightarrow> vn_used n \<Longrightarrow> vnode_ok n" "filter vn_used (vh_nodes vh) \<noteq> []"
  defines "body \<equiv> concat (map vnode_enc (filter vn_used (vh_nodes vh)))"
  shows "vheader_compose vh = Inr (Some (be16 (of_nat (length body + 4)) @
           be16 (of_nat (length (filter vn_used (vh_nodes vh)))) @ body))"
proof -
  obtain n ns where f: "filter vn_used (vh_nodes vh) = n # ns"
    using assms(2) by (meson list.exhaust)
  then have "n \<in> set (vh_nodes vh)" "vn_used n" by (auto simp: filter_eq_Cons_iff)
  then have "vnode_enc n \<noteq> []"
    using assms(1) [of n] by (auto elim!: vnode_okE simp: vnode_enc_def)
  then have "length body \<noteq> 0" by (simp add: body_def f)
  then show ?thesis
    using vheader_total_ok [OF assms(1)] vheader_body_ok [OF assms(1)]
    by (simp add: vheader_compose_def vheader_get_nodes_num_def body_def)
qed

lemma vheader_scan_unused:
  "(\<And>n. n \<in> set ns \<Longrightarrow> \<not> vn_used n) \<Longrightarrow> vheader_scan k True i (Some f) ns = Inr (Some f)"
  by (induction ns arbitrary: i) auto

lemma vheader_scan_first_free:
  "(\<And>n. n \<in> set ds \<Longrightarrow> vn_used n \<and> vn_key n \<noteq> Some k) \<Longrightarrow>
     vheader_scan k True i None (ds @ replicate (Suc m) vnode0) = Inr (Some (i + length ds))"
  by (induction ds arbitrary: i) (auto intro!: vheader_scan_unused)

lemma vheader_find_fresh:
  assumes "\<And>d. d \<in> set ds \<Longrightarrow> vn_used d \<and> vn_key d \<noteq> Some k"
  shows "vheader_find_node \<lparr>vh_num = N, vh_nodes = ds @ replicate (Suc m) vnode0, vh_increase_num = c\<rparr> k True ak =
    (Some (length ds), \<lparr>vh_num = N, vh_nodes = ds @ vnode0\<lparr>vn_used := True, vn_key := Some k, vn_key_alloc := ak\<rparr>
        # replicate m vnode0, vh_increase_num = c\<rparr>)"
  using vheader_scan_first_free [where i = 0 and m = m, OF assms]
  by (simp add: vheader_find_node_def nth_append list_update_append)

text \<open>One iteration of the decoder on one encoded node.\<close>

lemma vheader_dec_step:
  assumes ok: "vnode_ok n" and fresh: "\<And>d. d \<in> set ds \<Longrightarrow> vn_used d \<and> vn_key d \<noteq> vn_key n"
    and off: "off + length (vnode_enc n) \<le> T" "T < 2 ^ 16" and idx: "idx < num"
  shows "vheader_dec_loop (of_nat T) num alloc
      \<lparr>vh_num = N, vh_nodes = ds @ replicate (Suc m) vnode0, vh_increase_num = c\<rparr>
      (vnode_enc n @ q) (of_nat off) idx =
    vheader_dec_loop (of_nat T) num alloc
      \<lparr>vh_num = N, vh_nodes = (ds @ [vnode_reload alloc n]) @ replicate m vnode0, vh_increase_num = c\<rparr>
      q (of_nat (off + length (vnode_enc n))) (idx + 1)"
  using ok
proof (cases rule: vnode_okE)
  case (Str k v)
  note find = vheader_find_fresh [of ds k N m c alloc]
  have enc: "vnode_enc n = k @ 0 # 3 # v @ [0]" by (simp add: vnode_enc_def Str)
  have "(of_nat off :: u16) + of_nat (length k + 1) = of_nat (off + length k + 1)"
    "(of_nat (off + length k + 1) :: u16) + 1 = of_nat (off + length k + 2)"
    "(of_nat (off + length k + 2) :: u16) + of_nat (length v + 1) = of_nat (off + length (vnode_enc n))"
    by (simp_all add: enc algebra_simps)
  then show ?thesis
    using off idx fresh Str find
    by (subst vheader_dec_loop.simps)
      (simp add: vheader_dec_item_def enc codec_simps vtype_code_def Let_def vh_upd_node_def nth_append list_update_append
        vheader_set_node_str_def vnode_reload_def vnode0_def del: of_nat_add of_nat_Suc replicate_Suc)
next
  case (Long k v)
  note find = vheader_find_fresh [of ds k N m c alloc]
  have enc: "vnode_enc n = k @ 0 # 2 # be32 v" by (simp add: vnode_enc_def Long)
  have "(of_nat off :: u16) + of_nat (length k + 1) = of_nat (off + length k + 1)"
    "(of_nat (off + length k + 1) :: u16) + 1 = of_nat (off + length k + 2)"
    "(of_nat (off + length k + 2) :: u16) + 4 = of_nat (off + length (vnode_enc n))"
    by (simp_all add: enc algebra_simps)
  then show ?thesis
    using off idx fresh Long find
    by (subst vheader_dec_loop.simps)
      (simp add: vheader_dec_item_def enc be32_def codec_simps vtype_code_def Let_def vh_upd_node_def nth_append list_update_append
        vheader_set_node_i_def vnode_reload_def vnode0_def del: of_nat_add of_nat_Suc replicate_Suc)
qed

lemma vheader_dec_loop_enc:
  assumes "\<And>n. n \<in> set ms \<Longrightarrow> vnode_ok n" "\<And>d. d \<in> set ds \<Longrightarrow> vn_used d"
    and "distinct (map vn_key (ds @ ms))"
    and "off + length (concat (map vnode_enc ms)) = T" "T < 2 ^ 16"
    and "length ds + length ms = N" "N < 2 ^ 16"
  shows "vheader_dec_loop (of_nat T) (of_nat N) alloc
      \<lparr>vh_num = N, vh_nodes = ds @ replicate (length ms) vnode0, vh_increase_num = c\<rparr>
      (concat (map vnode_enc ms) @ q) (of_nat off) (of_nat (length ds)) =
    Inr (Inr (\<lparr>vh_num = N, vh_nodes = ds @ map (vnode_reload alloc) ms, vh_increase_num = c\<rparr>,
              of_nat T, of_nat N))"
  using assms
proof (induction ms arbitrary: ds off)
  case Nil
  then show ?case by (subst vheader_dec_loop.simps) simp
next
  case (Cons n ms)
  have key: "vn_key (vnode_reload alloc n) = vn_key n" "vn_used (vnode_reload alloc n)"
    by (simp_all add: vnode_reload_def)
  have idx: "(of_nat (length ds) :: u16) < of_nat N" "(of_nat (length ds) :: u16) + 1 = of_nat (length (ds @ [vnode_reload alloc n]))"
    using Cons.prems by (simp_all add: codec_simps)
  have fresh: "vn_used d \<and> vn_key d \<noteq> vn_key n" if "d \<in> set ds" for d
  proof -
    have "vn_key n \<notin> vn_key ` set ds" using Cons.prems(3) by simp
    with that Cons.prems(2) show ?thesis by (metis imageI)
  qed
  have "vheader_dec_loop (of_nat T) (of_nat N) alloc
      \<lparr>vh_num = N, vh_nodes = (ds @ [vnode_reload alloc n]) @ replicate (length ms) vnode0, vh_increase_num = c\<rparr>
      (concat (map vnode_enc ms) @ q) (of_nat (off + length (vnode_enc n))) (of_nat (length (ds @ [vnode_reload alloc n]))) =
    Inr (Inr (\<lparr>vh_num = N, vh_nodes = (ds @ [vnode_reload alloc n]) @ map (vnode_reload alloc) ms, vh_increase_num = c\<rparr>,
              of_nat T, of_nat N))"
    using Cons.prems by (intro Cons.IH) (auto simp: key)
  moreover have "vheader_dec_loop (of_nat T) (of_nat N) alloc
      \<lparr>vh_num = N, vh_nodes = ds @ replicate (Suc (length ms)) vnode0, vh_increase_num = c\<rparr>
      (vnode_enc n @ concat (map vnode_enc ms) @ q) (of_nat off) (of_nat (length ds)) =
    vheader_dec_loop (of_nat T) (of_nat N) alloc
      \<lparr>vh_num = N, vh_nodes = (ds @ [vnode_reload alloc n]) @ replicate (length ms) vnode0, vh_increase_num = c\<rparr>
      (concat (map vnode_enc ms) @ q) (of_nat (off + length (vnode_enc n))) (of_nat (length ds) + 1)"
    using Cons.prems fresh idx by (intro vheader_dec_step) auto
  ultimately show ?case by (simp only: idx(2) list.map concat.simps append_assoc list.size add_Suc_right) simp
qed

text \<open>C7.  For every table whose used nodes are string or integer nodes with distinct keys and whose
  encoding fits the 16-bit length field, decoding what \<open>vheader_compose\<close> wrote (followed by any
  bytes) returns the number of used nodes and exactly those nodes, in order, with the ownership flags
  the \<open>reuse_buffer\<close> argument asks for.\<close>

theorem vheader_roundtrip:
  assumes "\<forall>n \<in> set (vh_nodes vh). vn_used n \<longrightarrow> vnode_ok n" and wf: "vheader_wf vh"
    and "vheader_compose vh = Inr (Some buf)" "length buf < 65536"
  shows "vheader_decompose vh0 (buf @ rest) (int (length buf)) reuse =
    Inr (int (length (filter vn_used (vh_nodes vh))),
      \<lparr>vh_num = length (filter vn_used (vh_nodes vh)),
       vh_nodes = map (vnode_reload (\<not> reuse)) (filter vn_used (vh_nodes vh)), vh_increase_num = 5\<rparr>)"
proof -
  let ?ms = "filter vn_used (vh_nodes vh)" and ?body = "concat (map vnode_enc (filter vn_used (vh_nodes vh)))"
  have ok: "\<And>n. n \<in> set (vh_nodes vh) \<Longrightarrow> vn_used n \<Longrightarrow> vnode_ok n" using assms(1) by blast
  have "vheader_total (vh_nodes vh) \<noteq> Inr 0" using assms(3) by (auto simp: vheader_compose_def)
  with vheader_total_ok [OF ok] have ne: "?ms \<noteq> []" by (auto simp: filter_empty_conv)
  have buf: "buf = be16 (of_nat (length ?body + 4)) @ be16 (of_nat (length ?ms)) @ ?body"
    using vheader_compose_ok [OF ok ne] assms(3) by simp
  have "length ?ms \<le> length ?body" using ok by (intro vnode_enc_count) auto
  then have small: "length ?body + 4 < 2 ^ 16" "length ?ms < 2 ^ 16" using assms(4) by (simp_all add: buf)
  have "vheader_dec_loop (of_nat (length ?body + 4)) (of_nat (length ?ms)) (\<not> reuse)
      \<lparr>vh_num = length ?ms, vh_nodes = [] @ replicate (length ?ms) vnode0, vh_increase_num = 5\<rparr>
      (?body @ rest) (of_nat 4) (of_nat (length ([] :: vheader_node list))) =
    Inr (Inr (\<lparr>vh_num = length ?ms, vh_nodes = [] @ map (vnode_reload (\<not> reuse)) ?ms, vh_increase_num = 5\<rparr>,
              of_nat (length ?body + 4), of_nat (length ?ms)))"
    using ok vheader_wf_distinct [OF wf] small by (intro vheader_dec_loop_enc) auto
  moreover have "unat (of_nat (length ?body + 4) :: u16) = length ?body + 4" "unat (of_nat (length ?ms) :: u16) = length ?ms"
    using small by (simp_all add: codec_simps del: of_nat_add)
  moreover have "uint (of_nat (length ?body + 4) :: u16) = int (length ?body) + 4"
    "uint (of_nat (length ?ms) :: u16) = int (length ?ms)"
    using small by (simp_all add: uint_of_nat_small del: of_nat_add)
  ultimately show ?thesis
    by (simp add: vheader_decompose_def buf be16_def codec_simps vheader_init_def Let_def del: of_nat_add)
qed

text \<open>The single-key decoder on an encoded table.\<close>

lemma vheader_raw_step:
  assumes ok: "vnode_ok n"
    and off: "off + length (vnode_enc n) < T" "T < 2 ^ 16" and idx: "idx < num"
  shows "vheader_raw_loop (of_nat T) num alloc key node (vnode_enc n @ q) (of_nat off) idx =
    (if vn_key n = Some key then
       Inr (0, case vn_value n of
                 V_Str s \<Rightarrow> vheader_set_node_str node s alloc
               | V_I32 v \<Rightarrow> vheader_set_node_i node v
               | V_Zero \<Rightarrow> node)
     else vheader_raw_loop (of_nat T) num alloc key node q (of_nat (off + length (vnode_enc n))) (idx + 1))"
  using ok
proof (cases rule: vnode_okE)
  case (Str k v)
  have enc: "vnode_enc n = k @ 0 # 3 # v @ [0]" by (simp add: vnode_enc_def Str)
  have "(of_nat off :: u16) + of_nat (length k + 1) = of_nat (off + length k + 1)"
    "(of_nat (off + length k + 1) :: u16) + 1 = of_nat (off + length k + 2)"
    "(of_nat (off + length k + 2) :: u16) + of_nat (length v + 1) = of_nat (off + length (vnode_enc n))"
    by (simp_all add: enc algebra_simps)
  then show ?thesis
    using off idx Str
    by (subst vheader_raw_loop.simps)
      (simp add: vheader_raw_item_def enc codec_simps vtype_code_def Let_def del: of_nat_add of_nat_Suc)
next
  case (Long k v)
  have enc: "vnode_enc n = k @ 0 # 2 # be32 v" by (simp add: vnode_enc_def Long)
  have "(of_nat off :: u16) + of_nat (length k + 1) = of_nat (off + length k + 1)"
    "(of_nat (off + length k + 1) :: u16) + 1 = of_nat (off + length k + 2)"
    "(of_nat (off + length k + 2) :: u16) + 4 = of_nat (off + length (vnode_enc n))"
    by (simp_all add: enc algebra_simps)
  then show ?thesis
    using off idx Long
    by (subst vheader_raw_loop.simps)
      (simp add: vheader_raw_item_def enc be32_def codec_simps vtype_code_def Let_def del: of_nat_add of_nat_Suc)
qed

text \<open>The write a match performs.\<close>

definition vnode_assign :: "bool \<Rightarrow> vheader_node \<Rightarrow> bytes + u32 \<Rightarrow> vheader_node" where
  "vnode_assign alloc node v =
     (case v of Inl s \<Rightarrow> vheader_set_node_str node s alloc | Inr i \<Rightarrow> vheader_set_node_i node i)"

fun vnodes_get :: "vheader_node list \<Rightarrow> bytes \<Rightarrow> (bytes + u32) option" where
  "vnodes_get [] k = None"
| "vnodes_get (n # ns) k = (if vn_key n = Some k then vval_abs (vn_value n) else vnodes_get ns k)"

lemma vheader_raw_loop_enc:
  assumes "\<And>n. n \<in> set ms \<Longrightarrow> vnode_ok n"
    and "off + length (concat (map vnode_enc ms)) < T" "T < 2 ^ 16"
    and "d + length ms = N" "N < 2 ^ 16"
  shows "vheader_raw_loop (of_nat T) (of_nat N) alloc key node
      (concat (map vnode_enc ms) @ q) (of_nat off) (of_nat d) =
    (case vnodes_get ms key of
       Some v \<Rightarrow> Inr (0, vnode_assign alloc node v)
     | None \<Rightarrow> Inr (-1, node))"
  using assms
proof (induction ms arbitrary: d off)
  case Nil
  then show ?case by (subst vheader_raw_loop.simps) simp
next
  case (Cons n ms)
  have ok: "vnode_ok n" using Cons.prems by simp
  have idx: "(of_nat d :: u16) < of_nat N" "(of_nat d :: u16) + 1 = of_nat (Suc d)"
    using Cons.prems by (simp_all add: codec_simps)
  have step: "vheader_raw_loop (of_nat T) (of_nat N) alloc key node
      (vnode_enc n @ concat (map vnode_enc ms) @ q) (of_nat off) (of_nat d) =
    (if vn_key n = Some key then
       Inr (0, case vn_value n of
                 V_Str s \<Rightarrow> vheader_set_node_str node s alloc
               | V_I32 v \<Rightarrow> vheader_set_node_i node v
               | V_Zero \<Rightarrow> node)
     else vheader_raw_loop (of_nat T) (of_nat N) alloc key node (concat (map vnode_enc ms) @ q)
            (of_nat (off + length (vnode_enc n))) (of_nat d + 1))"
    using Cons.prems idx ok by (intro vheader_raw_step) auto
  have IH: "vheader_raw_loop (of_nat T) (of_nat N) alloc key node (concat (map vnode_enc ms) @ q)
            (of_nat (off + length (vnode_enc n))) (of_nat (Suc d)) =
    (case vnodes_get ms key of
       Some v \<Rightarrow> Inr (0, vnode_assign alloc node v)
     | None \<Rightarrow> Inr (-1, node))"
    using Cons.prems by (intro Cons.IH) auto
  show ?case
    using ok step IH
    by (cases rule: vnode_okE) (auto simp: vnode_assign_def idx(2) simp del: of_nat_add of_nat_Suc)
qed

lemma vnodes_get_lookup: "vheader_wf vh \<Longrightarrow> vnodes_get (filter vn_used (vh_nodes vh)) k = vheader_lookup vh k"
proof (cases "\<exists>i < length (vh_nodes vh). vn_used (vh_nodes vh ! i) \<and> vn_key (vh_nodes vh ! i) = Some k")
  case True
  assume wf: "vheader_wf vh"
  from True obtain i where i: "i < length (vh_nodes vh)" "vn_used (vh_nodes vh ! i)" "vn_key (vh_nodes vh ! i) = Some k"
    by blast
  have "distinct (map vn_key ns) \<Longrightarrow> n \<in> set ns \<Longrightarrow> vn_key n = Some k \<Longrightarrow> vnodes_get ns k = vval_abs (vn_value n)" for n ns
    by (induction ns) (auto simp: rev_image_eqI)
  from this [OF vheader_wf_distinct [OF wf], of "vh_nodes vh ! i"] i
  show ?thesis using vheader_lookup_eq [OF wf, of i k] by simp
next
  case False
  have "(\<And>n. n \<in> set ns \<Longrightarrow> vn_key n \<noteq> Some k) \<Longrightarrow> vnodes_get ns k = None" for ns
    by (induction ns) auto
  moreover have "vn_key n \<noteq> Some k" if "n \<in> set (filter vn_used (vh_nodes vh))" for n
    using that False by (auto simp: in_set_conv_nth)
  ultimately have "vnodes_get (filter vn_used (vh_nodes vh)) k = None" by blast
  moreover have "vheader_lookup vh k = None" using False by (intro vheader_lookup_None) auto
  ultimately show ?thesis by simp
qed

lemma vheader_raw_find_encoded:
  assumes "\<forall>n \<in> set (vh_nodes vh). vn_used n \<longrightarrow> vnode_ok n" and wf: "vheader_wf vh"
    and "vheader_compose vh = Inr (Some buf)" "length buf < 65536"
  shows "vheader_raw_find_key node key (buf @ rest) (int (length buf)) reuse =
    (case vheader_lookup vh key of
       Some v \<Rightarrow> Inr (0, vnode_assign (\<not> reuse) node v)
     | None \<Rightarrow> Inr (-1, node))"
proof -
  let ?ms = "filter vn_used (vh_nodes vh)" and ?body = "concat (map vnode_enc (filter vn_used (vh_nodes vh)))"
  have ok: "\<And>n. n \<in> set (vh_nodes vh) \<Longrightarrow> vn_used n \<Longrightarrow> vnode_ok n" using assms(1) by blast
  have "vheader_total (vh_nodes vh) \<noteq> Inr 0" using assms(3) by (auto simp: vheader_compose_def)
  with vheader_total_ok [OF ok] have ne: "?ms \<noteq> []" by (auto simp: filter_empty_conv)
  have buf: "buf = be16 (of_nat (length ?body + 4)) @ be16 (of_nat (length ?ms)) @ ?body"
    using vheader_compose_ok [OF ok ne] assms(3) by simp
  have "length ?ms \<le> length ?body" using ok by (intro vnode_enc_count) auto
  then have small: "length ?body + 4 < 2 ^ 16" "length ?ms < 2 ^ 16" using assms(4) by (simp_all add: buf)
  have "vheader_raw_loop (of_nat (length ?body + 4)) (of_nat (length ?ms)) (\<not> reuse) key node
      (?body @ rest) (of_nat 0) (of_nat 0) =
    (case vnodes_get ?ms key of
       Some v \<Rightarrow> Inr (0, vnode_assign (\<not> reuse) node v)
     | None \<Rightarrow> Inr (-1, node))"
    using ok small by (intro vheader_raw_loop_enc) auto
  moreover have "uint (of_nat (length ?body + 4) :: u16) = int (length ?body) + 4"
    using small by (simp add: uint_of_nat_small del: of_nat_add)
  ultimately show ?thesis
    by (simp add: vheader_raw_find_key_def buf be16_def codec_simps Let_def vnodes_get_lookup [OF wf] del: of_nat_add)
qed

text \<open>C25.  The single-key decoder and the full decoder agree on encoded tables: on the bytes
  \<open>vheader_compose\<close> wrote, \<open>vheader_raw_find_key\<close> stores the value the table holds under the key and
  returns 0, and returns -1 leaving the node alone when the table has no such key.\<close>

theorem vheader_raw_find_composed:
  assumes "\<forall>n \<in> set (vh_nodes vh). vn_used n \<longrightarrow> vnode_ok n" and "vheader_wf vh"
    and "vheader_compose vh = Inr (Some buf)" "length buf < 65536"
  shows "vheader_raw_find_key node key (buf @ rest) (int (length buf)) reuse =
    (case vheader_lookup vh key of
       Some v \<Rightarrow> Inr (0, vnode_assign (\<not> reuse) node v)
     | None \<Rightarrow> Inr (-1, node))"
  using assms by (rule vheader_raw_find_encoded)

definition vh_sample :: ilink_vheader where
  "vh_sample = vheader_put [99] (Inr 7) (vheader_put [95, 97] (Inl [98]) (vheader_init 1 0))"

definition vh_sample_bytes :: bytes where
  "vh_sample_bytes = [0, 17, 0, 2, 95, 97, 0, 3, 98, 0, 99, 0, 2, 0, 0, 0, 7]"

lemma vh_sample_wf: "vheader_wf vh_sample"
  unfolding vh_sample_def by (intro vh.invar_update vheader_init_wf)

lemma vh_sample_compose: "vheader_compose vh_sample = Inr (Some vh_sample_bytes)"
  by code_simp

lemma vh_sample_ok: "\<forall>n \<in> set (vh_nodes vh_sample). vn_used n \<longrightarrow> vnode_ok n"
  by code_simp

theorem vheader_roundtrip_witness:
  "vheader_decompose (vheader_init 0 0) (vh_sample_bytes @ [5]) 17 True =
    Inr (2, \<lparr>vh_num = 2, vh_nodes = map (vnode_reload False) (filter vn_used (vh_nodes vh_sample)),
            vh_increase_num = 5\<rparr>)"
proof -
  have l: "length vh_sample_bytes = 17" "length (filter vn_used (vh_nodes vh_sample)) = 2" by code_simp+
  show ?thesis
    using vheader_roundtrip [OF vh_sample_ok vh_sample_wf vh_sample_compose, of "vheader_init 0 0" "[5]" True]
    by (simp add: l)
qed

theorem vheader_raw_find_composed_witness:
  "vheader_raw_find_key vnode0 [99] (vh_sample_bytes @ []) 17 True = Inr (0, vheader_set_node_i vnode0 7)"
proof -
  have l: "length vh_sample_bytes = 17" "vheader_lookup vh_sample [99] = Some (Inr 7)" by code_simp+
  show ?thesis
    using vheader_raw_find_composed [OF vh_sample_ok vh_sample_wf vh_sample_compose, of vnode0 "[99]" "[]" True]
    by (simp add: l vnode_assign_def)
qed

section \<open>The decoder keeps the table well-formed and stays in its buffer\<close>

lemma vheader_find_alloc_some:
  "vheader_find_node vh k True ak = (r, vh1) \<Longrightarrow> \<exists>i. r = Some i"
  by (auto simp: vheader_find_node_def Let_def split: sum.splits option.splits prod.splits)

lemma vheader_upd_wf:
  assumes "vheader_wf vh" "vheader_find_node vh k True ak = (Some i, vh1)"
  shows "vheader_wf (vh_upd_node vh1 i (\<lambda>n. vheader_set_node_str n v a))"
    and "vheader_wf (vh_upd_node vh1 i (\<lambda>n. vheader_set_node_i n w))"
  using vheader_write [OF assms, of "\<lambda>n. vheader_set_node_str n v a" "Inl v"]
    vheader_write [OF assms, of "\<lambda>n. vheader_set_node_i n w" "Inr w"]
  by (simp_all add: vheader_set_node_str_def vheader_set_node_i_def)

lemma vheader_dec_item_wf:
  assumes "vheader_wf vh" "vheader_dec_item tot alloc vh p offset = Inr (Inr (vh', p', offset'))"
  shows "vheader_wf vh'"
  using assms(2) unfolding vheader_dec_item_def
  by (auto simp: Let_def dest: vheader_upd_wf [OF assms(1)]
      split: if_splits option.splits prod.splits list.splits)

text \<open>On an object that ends in a terminator and is at least as long as the announced length, one
  iteration reads only bytes of the object and leaves the cursor at the offset it counts.\<close>

lemma strlen_at:
  assumes "last buf = 0" "n < length buf"
  shows "\<exists>l. c_strlen (drop n buf) = Some l \<and> n + l < length buf"
proof -
  have "last (drop n buf) = 0" "drop n buf \<noteq> []" using assms by auto
  then have "0 \<in> set (drop n buf)" by (metis last_in_set)
  then obtain l where l: "c_strlen (drop n buf) = Some l" using c_strlen_None_iff by blast
  with c_strlen_Some_less [OF l] show ?thesis by auto
qed

lemma unat_plus_small:
  "unat (a :: 'a::len word) + n < 2 ^ LENGTH('a) \<Longrightarrow> unat (a + of_nat n) = unat a + n"
  by (simp add: unat_word_ariths unat_of_nat take_bit_nat_eq_self)

lemma vheader_dec_item_safe:
  assumes off: "offset < tot" and tot: "unat tot \<le> length buf" and len: "length buf \<le> 65532"
    and last: "last buf = 0" and wf: "vheader_wf vh"
  shows "case vheader_dec_item tot alloc vh (drop (unat offset) buf) offset of
      Inl e \<Rightarrow> False
    | Inr (Inl err) \<Rightarrow> err < 0
    | Inr (Inr (vh', p', offset')) \<Rightarrow> p' = drop (unat offset') buf \<and> vheader_wf vh'"
proof -
  define q where "q = drop (unat offset) buf"
  have "unat offset < length buf" using off tot unfolding word_less_nat_alt by linarith
  from strlen_at [OF last this] obtain kl where kl: "c_strlen q = Some kl"
    "unat offset + kl < length buf" unfolding q_def by blast
  define o1 where "o1 = offset + of_nat (Suc kl)"
  have o1: "unat o1 = unat offset + Suc kl"
    unfolding o1_def using kl len by (intro unat_plus_small) simp
  obtain i vh1 where find: "vheader_find_node vh (take kl q) True alloc = (Some i, vh1)"
    using vheader_find_alloc_some by (metis surj_pair)
  show ?thesis
  proof (cases "o1 \<ge> tot")
    case True
    then show ?thesis by (simp add: vheader_dec_item_def kl q_def [symmetric] o1_def [symmetric] Let_def del: of_nat_add of_nat_Suc)
  next
    case False
    then have "unat o1 < length buf" using tot by (simp add: word_le_nat_alt)
    define o2 where "o2 = o1 + 1"
    define r where "r = drop (unat o2) buf"
    have o2: "unat o2 = Suc (unat o1)" unfolding o2_def using False by (simp add: unat_Suc_less [of _ tot] not_le)
    have d1: "drop (Suc kl) q = buf ! unat o1 # r"
      using \<open>unat o1 < length buf\<close> by (simp add: r_def o2 o1 q_def add.commute Cons_nth_drop_Suc)
    show ?thesis
    proof (cases "o2 \<ge> tot")
      case True
      with False show ?thesis
        by (simp add: vheader_dec_item_def kl d1 find Let_def q_def [symmetric] o1_def [symmetric] o2_def [symmetric]
            del: of_nat_add of_nat_Suc)
    next
      case o2t: False
      then have "unat o2 < length buf" using tot by (simp add: word_le_nat_alt)
      from strlen_at [OF last this] obtain vl where vl: "c_strlen r = Some vl"
        "unat o2 + vl < length buf" unfolding r_def by blast
      have o3: "unat (o2 + of_nat (Suc vl)) = unat o2 + Suc vl" "unat (o2 + of_nat 4) = unat o2 + 4"
        using vl len by (intro unat_plus_small; simp)+
      then have d3: "drop (Suc vl) r = drop (unat (o2 + of_nat (Suc vl))) buf"
        by (simp add: r_def add.commute del: of_nat_Suc)
      have four: "\<exists>a b c d. r = a # b # c # d # drop (unat (o2 + 4)) buf" if "\<not> tot < o2 + 4"
      proof -
        have "unat o2 + 4 \<le> length buf" using that tot o3(2) by (simp add: word_le_nat_alt not_less)
        then show ?thesis using o3(2) by (simp add: r_def Cons_nth_drop_Suc [symmetric] numeral_eq_Suc)
      qed
      have "vheader_dec_item tot alloc vh q offset =
        (if buf ! unat o1 = vtype_code T_Str then
           if o2 + of_nat (Suc vl) > tot then Inr (Inl (-50))
           else Inr (Inr (vh_upd_node vh1 i (\<lambda>n. vheader_set_node_str n (take vl r) alloc),
                          drop (Suc vl) r, o2 + of_nat (Suc vl)))
         else if buf ! unat o1 = vtype_code T_Long then
           if o2 + 4 > tot then Inr (Inl (-60))
           else (case r of
                   a # b # c # d # p \<Rightarrow> Inr (Inr (vh_upd_node vh1 i (\<lambda>n. vheader_set_node_i n (rd32 a b c d)), p, o2 + 4))
                 | _ \<Rightarrow> Inl Out_Of_Bounds)
         else Inr (Inl (-100)))"
        using False o2t vl
        by (simp add: vheader_dec_item_def kl d1 find Let_def o1_def [symmetric] o2_def [symmetric]
            del: of_nat_add of_nat_Suc)
      then show ?thesis
        using four vheader_upd_wf [OF wf find] unfolding q_def [symmetric]
        by (auto simp: d3 simp del: of_nat_add of_nat_Suc)
    qed
  qed
qed

lemma vheader_dec_loop_safe:
  assumes "p = drop (unat offset) buf" "vheader_wf vh" "unat tot \<le> length buf" "length buf \<le> 65532" "last buf = 0"
  shows "case vheader_dec_loop tot num alloc vh p offset idx of
      Inl e \<Rightarrow> False
    | Inr (Inl err) \<Rightarrow> err < 0
    | Inr (Inr (vh', offset', idx')) \<Rightarrow> vheader_wf vh'"
  using assms
proof (induction tot num alloc vh p offset idx rule: vheader_dec_loop.induct)
  case (1 tot num alloc vh p offset idx)
  show ?case
  proof (cases "offset < tot \<and> idx < num")
    case True
    then have item: "case vheader_dec_item tot alloc vh p offset of
        Inl e \<Rightarrow> False
      | Inr (Inl err) \<Rightarrow> err < 0
      | Inr (Inr (vh', p', offset')) \<Rightarrow> p' = drop (unat offset') buf \<and> vheader_wf vh'"
      using "1.prems" vheader_dec_item_safe by blast
    show ?thesis
    proof (cases "vheader_dec_item tot alloc vh p offset")
      case (Inr r)
      show ?thesis
      proof (cases r)
        case r2: (Inr t)
        obtain vh2 p2 off2 where t: "t = (vh2, p2, off2)" using prod_cases3 by blast
        note eq = Inr [unfolded r2 t]
        have "case vheader_dec_loop tot num alloc vh2 p2 off2 (idx + 1) of
            Inl e \<Rightarrow> False
          | Inr (Inl err) \<Rightarrow> err < 0
          | Inr (Inr (vh', offset', idx')) \<Rightarrow> vheader_wf vh'"
          using item [unfolded eq] "1.prems" by (intro "1.IH" [OF True eq refl refl refl]) simp_all
        then show ?thesis using True by (subst vheader_dec_loop.simps) (simp add: eq)
      qed (use True item Inr in \<open>subst vheader_dec_loop.simps, simp\<close>)
    qed (use True item in \<open>subst vheader_dec_loop.simps, simp\<close>)
  next
    case False
    with "1.prems" show ?thesis by (subst vheader_dec_loop.simps) auto
  qed
qed

text \<open>C26.  Decoding received bytes is memory safe and yields a well-formed table: when the object
  ends in a zero byte, holds the announced length and is at most 65532 bytes long, \<open>vheader_decompose\<close>
  reads inside it whatever the bytes are, and a non-negative result comes with distinct keyed nodes.\<close>

theorem vheader_decompose_safe:
  assumes "4 \<le> length buf" "last buf = 0" "length buf \<le> 65532" "len \<le> int (length buf)"
  shows "\<exists>r vh'. vheader_decompose vh buf len reuse = Inr (r, vh') \<and> (0 \<le> r \<longrightarrow> vheader_wf vh')"
proof -
  from assms(1) obtain t1 t0 n1 n0 p where buf: "buf = t1 # t0 # n1 # n0 # p"
    by (auto simp: Suc_le_length_iff numeral_eq_Suc)
  show ?thesis
  proof (cases "int (unat (rd16 t1 t0)) > len")
    case True
    then show ?thesis by (simp add: vheader_decompose_def buf Let_def)
  next
    case False
    then have "unat (rd16 t1 t0) \<le> length buf" using assms(4) by linarith
    then have "case vheader_dec_loop (rd16 t1 t0) (rd16 n1 n0) (\<not> reuse) (vheader_init (rd16 n1 n0) 5) p 4 0 of
        Inl e \<Rightarrow> False
      | Inr (Inl err) \<Rightarrow> err < 0
      | Inr (Inr (vh', offset', idx')) \<Rightarrow> vheader_wf vh'"
      using assms by (intro vheader_dec_loop_safe [of _ _ buf]) (simp_all add: buf vheader_init_wf)
    then show ?thesis using False
      by (auto simp: vheader_decompose_def buf Let_def split: sum.splits)
  qed
qed

theorem vheader_decompose_safe_witness:
  "\<exists>r vh'. vheader_decompose (vheader_init 0 0) [0, 8, 0, 1, 107, 0, 3, 0] 8 True = Inr (r, vh') \<and>
     (0 \<le> r \<longrightarrow> vheader_wf vh')"
  by (rule vheader_decompose_safe) simp_all

text \<open>The bound on the length in \<open>vheader_decompose_safe\<close> is needed: with a key of 65527 bytes the 16 bit
  offset wraps before it is compared with the announced length, and the four bytes of a 32 bit value are
  read behind a terminated buffer of 65535 bytes.\<close>

theorem vheader_decompose_wraps:
  assumes "length key = 65527" "0 \<notin> set key"
  shows "vheader_decompose vh ([255, 255, 0, 1] @ key @ [0, vtype_code T_Long, x, 0]) 65535 reuse = Inl Out_Of_Bounds \<and>
    length ([255, 255, 0, 1] @ key @ [0, vtype_code T_Long, x, 0]) = 65535"
proof
  have r: "rd16 255 255 = 65535" "rd16 0 1 = 1" by code_simp+
  have l: "c_strlen (key @ 0 # zs) = Some (length key)" for zs using assms(2) by (rule c_strlen_append)
  obtain i vh1 where f: "vheader_find_node (vheader_init 1 5) key True (\<not> reuse) = (Some i, vh1)"
    using vheader_find_alloc_some by (metis surj_pair)
  have d: "vheader_dec_item 65535 (\<not> reuse) (vheader_init 1 5) (key @ [0, vtype_code T_Long, x, 0]) 4 = Inl Out_Of_Bounds"
    using l [of "[vtype_code T_Long, x, 0]"] f assms(1) by (simp add: vheader_dec_item_def Let_def vtype_code_def)
  then show "vheader_decompose vh ([255, 255, 0, 1] @ key @ [0, vtype_code T_Long, x, 0]) 65535 reuse = Inl Out_Of_Bounds"
    by (simp add: vheader_decompose_def r Let_def vheader_dec_loop.simps)
qed (use assms in simp)

text \<open>The table is a store: starting from a fresh table, whatever the capacity it was created
  with, after any sequence of \<open>vheader_set_value_s\<close> and \<open>vheader_set_value_i\<close> calls a lookup returns the
  last value set under the key, and nothing for a key never set.\<close>

theorem vheader_last_set_wins:
  "vheader_lookup (fold (\<lambda>(k, v). vheader_put k v) kvs (vheader_init cap inc)) key = map_of (rev kvs) key"
  by (simp add: vh.update_all_lookup [OF vheader_init_wf] vheader_init_lookup split: option.splits)

text \<open>The single-key decoder counts its offset from 0 although it starts behind the four header
  bytes, so a header that announces more than it holds passes its bound check: on an eight byte
  message whose last item is a truncated 32 bit value the full decoder reports -60, the single-key
  decoder reads past the end of the message.\<close>

theorem vheader_raw_find_overread:
  "vheader_decompose vh [0, 8, 0, 1, 107, 0, 2, 1] 8 True = Inr (-60, vheader_destroy vh) \<and>
   vheader_raw_find_key node [107] [0, 8, 0, 1, 107, 0, 2, 1] 8 True = Inl Out_Of_Bounds"
proof
  have r: "rd16 0 8 = 8" "rd16 0 1 = 1" by code_simp+
  have f: "\<exists>i vh1. vheader_find_node (vheader_init 1 5) [107] True False = (Some i, vh1)"
    using vheader_find_alloc_some by (metis surj_pair)
  then show "vheader_decompose vh [0, 8, 0, 1, 107, 0, 2, 1] 8 True = Inr (-60, vheader_destroy vh)"
    by (subst vheader_decompose_def)
      (auto simp: r Let_def vheader_dec_loop.simps vheader_dec_item_def vtype_code_def)
  show "vheader_raw_find_key node [107] [0, 8, 0, 1, 107, 0, 2, 1] 8 True = Inl Out_Of_Bounds"
    by (subst vheader_raw_find_key_def)
      (auto simp: r Let_def vheader_raw_loop.simps vheader_raw_item_def vtype_code_def)
qed

end
