(* ===== verification/Ilink_Frame.thy ===== *)
theory Ilink_Frame
  imports Ilink_Vheader
begin

text \<open>
  The iLink framing layer, \<open>src/framework/iagent-core/src/ilink_frame.c\<close>: the byte-by-byte
  receiver, the block fast path and the frame composer, with the receive loop
  \<open>handle_cloud_packet\<close> of \<open>platforms/linux/ports_handler.c\<close> and the two key readers of
  \<open>ilink_handler.c\<close>.

  A pointer is the object it points into with an index, so that \<open>vheader\<close> and \<open>payload\<close> of a
  received message share one object as in the source.  While \<open>payload\<close> points at the static buffer of
  the context its view holds the buffer's contents.  \<open>malloc\<close> is a parameter: the object a request of
  that size yields, \<open>None\<close> for \<open>NULL\<close>.  The phase only takes the enumerators, so the \<open>default\<close>
  branch of the receiver's switch has no counterpart.  Calls of \<open>handle_ilink_message\<close> are the list
  of the messages it is called with; freeing is not modelled.
\<close>

section \<open>Pointers with an index\<close>

type_synonym objptr = "bytes \<times> nat"

definition ptr_write :: "objptr option \<Rightarrow> nat \<Rightarrow> bytes \<Rightarrow> objptr cres" where
  "ptr_write p i bs =
     (case p of
        None \<Rightarrow> Inl Null_Deref
      | Some (obj, b) \<Rightarrow>
          if b + i + length bs \<le> length obj
          then Inr (take (b + i) obj @ bs @ drop (b + i + length bs) obj, b)
          else Inl Out_Of_Bounds)"

definition ptr_read :: "objptr option \<Rightarrow> nat \<Rightarrow> bytes cres" where
  "ptr_read p n =
     (if n = 0 then Inr []
      else case p of
        None \<Rightarrow> Inl Null_Deref
      | Some (obj, b) \<Rightarrow> if b + n \<le> length obj then Inr (take n (drop b obj)) else Inl Out_Of_Bounds)"

section \<open>Messages and the receive context\<close>

record ilink_message =
  im_leading_byte :: u8
  im_has_mid :: bool
  im_is_req :: bool
  im_msgID :: u64
  im_msgType :: u32
  im_has_vheader :: bool
  im_is_payload_alloc :: bool
  im_is_vheader_alloc :: bool
  im_vheader_len :: u32
  im_payload_len :: u32
  im_vheader :: "objptr option"
  im_payload :: "objptr option"

datatype phase = P_Not_Start | P_In_Mid | P_In_Type | P_In_Base_Len | P_In_Ext_Len | P_In_Payload

record recv_context =
  rc_phase :: phase
  rc_offset :: nat
  rc_phase_len :: int
  rc_head_buff :: bytes
  rc_msglen :: u32
  rc_msglenex :: u32
  rc_msg :: ilink_message
  rc_buffer :: bytes

definition FIXEDCHAR_NO_MSGID :: u8 where "FIXEDCHAR_NO_MSGID = 0xBA"

definition FIXEDCHAR_REQUEST :: u8 where "FIXEDCHAR_REQUEST = 0xFA"

definition FIXEDCHAR_RESPINSE :: u8 where "FIXEDCHAR_RESPINSE = 0xCE"

text \<open>\<open>memset(msg, 0, sizeof *msg)\<close> and \<open>memset(ctx, 0, sizeof *ctx)\<close>.\<close>

definition im_zero :: ilink_message where
  "im_zero = \<lparr>im_leading_byte = 0, im_has_mid = False, im_is_req = False, im_msgID = 0, im_msgType = 0,
     im_has_vheader = False, im_is_payload_alloc = False, im_is_vheader_alloc = False,
     im_vheader_len = 0, im_payload_len = 0, im_vheader = None, im_payload = None\<rparr>"

definition rc_zero :: recv_context where
  "rc_zero = \<lparr>rc_phase = P_Not_Start, rc_offset = 0, rc_phase_len = 0, rc_head_buff = replicate 10 0,
     rc_msglen = 0, rc_msglenex = 0, rc_msg = im_zero, rc_buffer = replicate 1024 0\<rparr>"

definition reset_ilink_message :: "ilink_message \<Rightarrow> ilink_message" where
  "reset_ilink_message msg = im_zero"

section \<open>The receiver\<close>

text \<open>Splits the received bytes into variable header and payload.  The lengths are 32 bits wide, so a
  header that announces more than was received makes \<open>payload_len\<close> wrap around.\<close>

definition payload_recieve_done :: "recv_context \<Rightarrow> recv_context cres" where
  "payload_recieve_done ctx =
     (let ctx = ctx\<lparr>rc_phase := P_Not_Start, rc_phase_len := 1, rc_offset := 0\<rparr>; m = rc_msg ctx in
      if im_has_vheader m then
        (case ptr_read (im_payload m) 2 of
           Inl e \<Rightarrow> Inl e
         | Inr bs \<Rightarrow>
             let vl = ucast (rd16 (bs ! 0) (bs ! 1)) in
             Inr (ctx\<lparr>rc_msg := m\<lparr>
               im_vheader_len := vl,
               im_vheader := im_payload m,
               im_is_vheader_alloc := im_is_payload_alloc m,
               im_is_payload_alloc := False,
               im_payload_len := im_payload_len m - vl,
               im_payload := map_option (\<lambda>(obj, b). (obj, b + unat vl)) (im_payload m)\<rparr>\<rparr>))
      else Inr ctx)"

definition length_recieve_done :: "(nat \<Rightarrow> bytes option) \<Rightarrow> recv_context \<Rightarrow> (int \<times> recv_context) cres" where
  "length_recieve_done malloc ctx =
     (let ctx = ctx\<lparr>rc_phase := P_In_Payload, rc_phase_len := sint (rc_msglen ctx), rc_offset := 0\<rparr> in
      if im_payload (rc_msg ctx) \<noteq> None then Inl Assert_Failed
      else
        let m = (rc_msg ctx)\<lparr>im_payload_len := rc_msglen ctx\<rparr> in
        if im_payload_len m = 0 then
          Inr (0, ctx\<lparr>rc_msg := m, rc_phase := P_Not_Start, rc_phase_len := 1\<rparr>)
        else if unat (im_payload_len m) < length (rc_buffer ctx) then
          Inr (1, ctx\<lparr>rc_msg := m\<lparr>im_payload := Some (rc_buffer ctx, 0), im_is_payload_alloc := False\<rparr>\<rparr>)
        else
          (case malloc (unat (im_payload_len m)) of
             None \<Rightarrow> Inr (-1, ctx\<lparr>rc_msg := m, rc_phase := P_Not_Start, rc_phase_len := 1\<rparr>)
           | Some obj \<Rightarrow>
               Inr (1, ctx\<lparr>rc_msg := m\<lparr>im_payload := Some (obj, 0), im_is_payload_alloc := True\<rparr>\<rparr>)))"

text \<open>\<open>ctx->head_buff[ctx->offset] = ch; ctx->offset ++\<close>, and the common \<open>END\<close> of the receiver.\<close>

definition head_put :: "u8 \<Rightarrow> recv_context \<Rightarrow> recv_context cres" where
  "head_put ch ctx =
     (if rc_offset ctx < length (rc_head_buff ctx)
      then Inr (ctx\<lparr>rc_head_buff := (rc_head_buff ctx)[rc_offset ctx := ch], rc_offset := rc_offset ctx + 1\<rparr>)
      else Inl Out_Of_Bounds)"

definition recv_end :: "int \<Rightarrow> u8 \<Rightarrow> recv_context \<Rightarrow> (int \<times> recv_context) cres" where
  "recv_end ret ch ctx =
     (if rc_phase ctx = P_In_Payload then Inl Assert_Failed
      else case head_put ch ctx of Inl e \<Rightarrow> Inl e | Inr ctx \<Rightarrow> Inr (ret, ctx))"

definition shift_in :: "'a::len word \<Rightarrow> u8 \<Rightarrow> 'a word" where
  "shift_in acc ch = (push_bit 8 acc AND 0xFFFFFF00) OR ucast ch"

definition on_byte_arrive ::
  "(nat \<Rightarrow> bytes option) \<Rightarrow> u8 \<Rightarrow> recv_context \<Rightarrow> (int \<times> recv_context) cres" where
  "on_byte_arrive malloc ch ctx =
     (case rc_phase ctx of
        P_Not_Start \<Rightarrow>
          (let ctx = rc_zero; m = rc_msg ctx in
           if ch = FIXEDCHAR_NO_MSGID then
             recv_end 1 ch (ctx\<lparr>rc_phase := P_In_Type, rc_phase_len := 1,
               rc_msg := m\<lparr>im_leading_byte := ch, im_has_mid := False\<rparr>\<rparr>)
           else if ch = FIXEDCHAR_REQUEST \<or> ch = FIXEDCHAR_RESPINSE then
             recv_end 1 ch (ctx\<lparr>rc_phase := P_In_Mid, rc_phase_len := 4,
               rc_msg := m\<lparr>im_leading_byte := ch, im_has_mid := True,
                 im_is_req := (if ch = FIXEDCHAR_REQUEST then True else im_is_req m)\<rparr>\<rparr>)
           else Inr (1, ctx\<lparr>rc_phase := P_Not_Start\<rparr>))
      | P_In_Mid \<Rightarrow>
          (let m = rc_msg ctx;
               ctx = ctx\<lparr>rc_msg := m\<lparr>im_msgID := shift_in (im_msgID m) ch\<rparr>,
                         rc_phase_len := rc_phase_len ctx - 1\<rparr> in
           recv_end 1 ch
             (if rc_phase_len ctx = 0 then ctx\<lparr>rc_phase := P_In_Type, rc_phase_len := 1\<rparr> else ctx))
      | P_In_Type \<Rightarrow>
          (let m = rc_msg ctx; ctx = ctx\<lparr>rc_phase_len := rc_phase_len ctx - 1\<rparr> in
           recv_end 1 ch
             (if rc_phase_len ctx = 0 then
                ctx\<lparr>rc_phase := P_In_Base_Len, rc_phase_len := 2,
                    rc_msg := m\<lparr>im_msgType := ucast (ch AND 0x7F),
                      im_has_vheader := (if ch AND 0x80 \<noteq> 0 then True else im_has_vheader m)\<rparr>\<rparr>
              else ctx))
      | P_In_Base_Len \<Rightarrow>
          (let ctx = ctx\<lparr>rc_msglen := shift_in (rc_msglen ctx) ch, rc_phase_len := rc_phase_len ctx - 1\<rparr> in
           if rc_phase_len ctx = 0 then
             if rc_msglen ctx AND 0x8000 \<noteq> 0 then
               recv_end 1 ch (ctx\<lparr>rc_phase := P_In_Ext_Len, rc_phase_len := 2\<rparr>)
             else
               (case head_put ch ctx of
                  Inl e \<Rightarrow> Inl e
                | Inr ctx \<Rightarrow> length_recieve_done malloc ctx)
           else recv_end 1 ch ctx)
      | P_In_Ext_Len \<Rightarrow>
          (let ctx = ctx\<lparr>rc_msglenex := shift_in (rc_msglenex ctx) ch, rc_phase_len := rc_phase_len ctx - 1\<rparr> in
           if rc_phase_len ctx = 0 then
             let ctx = ctx\<lparr>rc_msglen :=
               (push_bit 15 (rc_msglenex ctx) AND 0x7FFF8000) OR (rc_msglen ctx AND 0x7FFF)\<rparr> in
             (case head_put ch ctx of
                Inl e \<Rightarrow> Inl e
              | Inr ctx \<Rightarrow> length_recieve_done malloc ctx)
           else recv_end 1 ch ctx)
      | P_In_Payload \<Rightarrow>
          (let ctx = ctx\<lparr>rc_phase_len := rc_phase_len ctx - 1\<rparr>; m = rc_msg ctx in
           case ptr_write (im_payload m) (rc_offset ctx) [ch] of
             Inl e \<Rightarrow> Inl e
           | Inr p \<Rightarrow>
               let ctx = ctx\<lparr>rc_msg := m\<lparr>im_payload := Some p\<rparr>, rc_offset := rc_offset ctx + 1\<rparr> in
               if rc_phase_len ctx = 0 then
                 (case payload_recieve_done ctx of Inl e \<Rightarrow> Inl e | Inr ctx \<Rightarrow> Inr (0, ctx))
               else Inr (2, ctx)))"

text \<open>Result, context and the number of bytes taken (\<open>*len\<close>).\<close>

definition on_payload_block :: "recv_context \<Rightarrow> bytes \<Rightarrow> int \<Rightarrow> (int \<times> recv_context \<times> int) cres" where
  "on_payload_block ctx buffer len =
     (if rc_phase ctx \<noteq> P_In_Payload then Inl Assert_Failed
      else
        let copy_len = (if len < rc_phase_len ctx then len else rc_phase_len ctx) in
        if copy_len < 0 \<or> int (length buffer) < copy_len then Inl Out_Of_Bounds
        else
          (case ptr_write (im_payload (rc_msg ctx)) (rc_offset ctx) (take (nat copy_len) buffer) of
             Inl e \<Rightarrow> Inl e
           | Inr p \<Rightarrow>
               let ctx = ctx\<lparr>rc_msg := (rc_msg ctx)\<lparr>im_payload := Some p\<rparr>,
                             rc_phase_len := rc_phase_len ctx - copy_len,
                             rc_offset := rc_offset ctx + nat copy_len\<rparr> in
               if rc_phase_len ctx = 0 then
                 (case payload_recieve_done ctx of Inl e \<Rightarrow> Inl e | Inr ctx \<Rightarrow> Inr (0, ctx, copy_len))
               else Inr (1, ctx, copy_len)))"

text \<open>The receive loop over one packet: the last result, the context and the messages handed to
  \<open>handle_ilink_message\<close> in order.  The packet is the bytes at \<open>pos\<close>, \<open>string_len\<close> of them.\<close>

function handle_cloud_packet ::
  "(nat \<Rightarrow> bytes option) \<Rightarrow> bytes \<Rightarrow> int \<Rightarrow> recv_context \<Rightarrow> (int \<times> recv_context \<times> ilink_message list) cres" where
  "handle_cloud_packet malloc [] result ctx = Inr (result, ctx, [])"
| "handle_cloud_packet malloc (ch # pos) result ctx =
     (case on_byte_arrive malloc ch ctx of
        Inl e \<Rightarrow> Inl e
      | Inr (result, ctx) \<Rightarrow>
          if result = 2 then
            (case on_payload_block ctx pos (int (length pos)) of
               Inl e \<Rightarrow> Inl e
             | Inr (r, ctx, len) \<Rightarrow>
                 (case handle_cloud_packet malloc (drop (nat len) pos) result ctx of
                    Inl e \<Rightarrow> Inl e
                  | Inr (result, ctx', ms) \<Rightarrow> Inr (result, ctx', (if r = 0 then [rc_msg ctx] else []) @ ms)))
          else
            (case handle_cloud_packet malloc pos result ctx of
               Inl e \<Rightarrow> Inl e
             | Inr (result', ctx', ms) \<Rightarrow> Inr (result', ctx', (if result = 0 then [rc_msg ctx] else []) @ ms)))"
  by pat_completeness auto
termination
  by (relation "measure (\<lambda>(malloc, bs, r, ctx). length bs)") auto

section \<open>Building and composing messages\<close>

definition init_ilink_message :: "u32 \<Rightarrow> ilink_message" where
  "init_ilink_message t = im_zero\<lparr>im_msgType := t\<rparr>"

definition ilink_set_req_resp :: "bool \<Rightarrow> u64 \<Rightarrow> ilink_message \<Rightarrow> ilink_message" where
  "ilink_set_req_resp yes_as_req msg_id m = m\<lparr>im_has_mid := True, im_is_req := yes_as_req, im_msgID := msg_id\<rparr>"

definition ilink_set_payload :: "objptr option \<Rightarrow> u32 \<Rightarrow> ilink_message \<Rightarrow> ilink_message" where
  "ilink_set_payload payload len m =
     m\<lparr>im_is_payload_alloc := False, im_payload_len := len, im_payload := (if len \<noteq> 0 then payload else None)\<rparr>"

definition ilink_set_vheader :: "ilink_vheader \<Rightarrow> ilink_message \<Rightarrow> ilink_message cres" where
  "ilink_set_vheader vheader m =
     (case vheader_compose vheader of
        Inl e \<Rightarrow> Inl e
      | Inr None \<Rightarrow> Inr (m\<lparr>im_is_vheader_alloc := False, im_vheader := None, im_vheader_len := 0\<rparr>)
      | Inr (Some buf) \<Rightarrow>
          Inr (m\<lparr>im_is_vheader_alloc := True, im_vheader := Some (buf, 0), im_vheader_len := of_nat (length buf)\<rparr>))"

text \<open>The bytes written to the header array (at most 14 of its 20).  A \<open>uint32_t\<close> store of a 16 bit
  \<open>htons\<close> result on the little-endian host puts the two network-order bytes first.\<close>

definition compose_ilink_header :: "ilink_message \<Rightarrow> bytes" where
  "compose_ilink_header m =
     [if \<not> im_has_mid m then FIXEDCHAR_NO_MSGID
      else if im_is_req m then FIXEDCHAR_REQUEST else FIXEDCHAR_RESPINSE] @
     (if im_has_mid m then be32 (ucast (im_msgID m)) else []) @
     [if im_vheader_len m \<noteq> 0 then ucast (im_msgType m) OR 0x80 else ucast (im_msgType m)] @
     (let msg_len = im_payload_len m + im_vheader_len m in
      if msg_len \<ge> 0x80000000 then
        be16 (ucast (msg_len AND 0x7FFF)) @ [0, 0] @
        be16 (ucast (drop_bit 15 (msg_len AND 0x7FFF8000))) @ [0, 0]
      else be16 (ucast msg_len))"

definition compose_ilink_frame :: "ilink_message \<Rightarrow> bytes cres" where
  "compose_ilink_frame m =
     (let header = compose_ilink_header m;
          frame_len = of_nat (length header) + im_vheader_len m + im_payload_len m in
      case ptr_read (im_vheader m) (unat (im_vheader_len m)) of
        Inl e \<Rightarrow> Inl e
      | Inr vb \<Rightarrow>
          (case ptr_read (im_payload m) (unat (im_payload_len m)) of
             Inl e \<Rightarrow> Inl e
           | Inr pb \<Rightarrow>
               if unat frame_len < length header + length vb + length pb then Inl Out_Of_Bounds
               else Inr (header @ vb @ pb)))"

section \<open>Reading a key of a received message\<close>

text \<open>The bytes at the header pointer to the end of its object.\<close>

definition ptr_view :: "objptr option \<Rightarrow> bytes cres" where
  "ptr_view p = (case p of None \<Rightarrow> Inl Null_Deref | Some (obj, b) \<Rightarrow> Inr (drop b obj))"

definition get_key_value :: "ilink_message \<Rightarrow> bytes \<Rightarrow> bytes option cres" where
  "get_key_value msg key =
     (case ptr_view (im_vheader msg) of
        Inl e \<Rightarrow> Inl e
      | Inr buf \<Rightarrow>
          (case vheader_raw_find_key vnode0 key buf (sint (im_vheader_len msg)) True of
             Inl e \<Rightarrow> Inl e
           | Inr (r, node) \<Rightarrow>
               Inr (if r = 0 \<and> vn_type node = T_Str
                    then (case vn_value node of V_Str s \<Rightarrow> Some s | _ \<Rightarrow> None) else None)))"

definition get_key_value_i :: "ilink_message \<Rightarrow> bytes \<Rightarrow> u32 option cres" where
  "get_key_value_i msg key =
     (case ptr_view (im_vheader msg) of
        Inl e \<Rightarrow> Inl e
      | Inr buf \<Rightarrow>
          (case vheader_raw_find_key vnode0 key buf (sint (im_vheader_len msg)) True of
             Inl e \<Rightarrow> Inl e
           | Inr (r, node) \<Rightarrow>
               Inr (if r = 0 \<and> vn_type node = T_Long
                    then (case vn_value node of V_I32 v \<Rightarrow> Some v | _ \<Rightarrow> None) else None)))"

section \<open>The receiver never leaves its buffers\<close>

text \<open>What \<open>malloc\<close> promises: an object of the requested size.\<close>

definition malloc_ok :: "(nat \<Rightarrow> bytes option) \<Rightarrow> bool" where
  "malloc_ok malloc \<longleftrightarrow> (\<forall>n obj. malloc n = Some obj \<longrightarrow> length obj = n)"

text \<open>In every phase the header array has room for the bytes still to come, and in the payload phase
  the object has room for the rest of the payload.\<close>

definition recv_inv :: "recv_context \<Rightarrow> bool" where
  "recv_inv ctx \<longleftrightarrow>
     (let m = rc_msg ctx; pl = rc_phase_len ctx; off = int (rc_offset ctx);
          t = (if im_has_mid m then 5 else 1);
          head = (length (rc_head_buff ctx) = 10 \<and> length (rc_buffer ctx) = 1024 \<and> im_payload m = None) in
      case rc_phase ctx of
        P_Not_Start \<Rightarrow> True
      | P_In_Mid \<Rightarrow> head \<and> rc_msglen ctx = 0 \<and> im_has_mid m \<and> 1 \<le> pl \<and> pl \<le> 4 \<and> off + pl = 5
      | P_In_Type \<Rightarrow> head \<and> rc_msglen ctx = 0 \<and> pl = 1 \<and> off = t
      | P_In_Base_Len \<Rightarrow> head \<and> 1 \<le> pl \<and> pl \<le> 2 \<and> off + pl = t + 3 \<and>
          (if pl = 2 then rc_msglen ctx = 0 else rc_msglen ctx < 256)
      | P_In_Ext_Len \<Rightarrow> head \<and> 1 \<le> pl \<and> pl \<le> 2 \<and> off + pl = t + 5
      | P_In_Payload \<Rightarrow>
          (case im_payload m of
             Some (obj, b) \<Rightarrow> b = 0 \<and> 1024 \<le> length obj \<and> 0 < pl \<and> off + pl = uint (im_payload_len m) \<and>
               uint (im_payload_len m) \<le> int (length obj)
           | None \<Rightarrow> False))"

lemma sint_nonneg_31: "\<not> bit (w :: u32) 31 \<Longrightarrow> sint w = uint w"
proof -
  assume b: "\<not> bit w 31"
  then have "signed_take_bit 31 (uint w) = take_bit 31 (uint w)"
    by (intro signed_take_bit_eq_if_positive) (simp add: bit_uint_iff)
  moreover have "n < 31" if "bit w n" for n
    using bit_imp_le_length [OF that] b that by (cases "n = 31") auto
  then have "take_bit 31 (uint w) = uint w" by (intro bit_eqI) (auto simp: bit_simps)
  ultimately show ?thesis by (simp add: sint_uint)
qed

lemma bit_small_word:
  assumes "unat (w :: 'a::len word) < 2 ^ k" "bit w n"
  shows "n < k"
proof (rule ccontr)
  assume "\<not> n < k"
  then have "(2 :: nat) ^ k \<le> 2 ^ n" by (intro power_increasing) auto
  then have "unat w < 2 ^ n" using assms(1) by linarith
  then have "unat w div 2 ^ n = 0" by simp
  then have "\<not> bit (unat w) n" by (simp add: bit_iff_odd)
  with assms(2) show False by (simp add: bit_unsigned_iff)
qed

lemma shift_in_bits: "bit (shift_in (w :: u32) ch) n \<longleftrightarrow> n < 32 \<and> (if n < 8 then bit ch n else bit w (n - 8))"
proof -
  have m: "bit (0xFFFFFF00 :: u32) n \<longleftrightarrow> 8 \<le> n \<and> n < 32" for n
  proof -
    have "(0xFFFFFF00 :: u32) = push_bit 8 (mask 24)" by (simp add: mask_eq_exp_minus_1)
    then have "bit (0xFFFFFF00 :: u32) n \<longleftrightarrow> bit (push_bit 8 (mask 24) :: u32) n" by simp
    also have "\<dots> \<longleftrightarrow> 8 \<le> n \<and> n < 32" by (auto simp: bit_simps)
    finally show ?thesis .
  qed
  show ?thesis unfolding shift_in_def using m [of n] by (auto simp: bit_simps dest: bit_imp_le_length)
qed

lemma shift_in_lt_256: "shift_in (0 :: u32) ch < 256"
proof -
  have "shift_in (0 :: u32) ch = ucast ch" by (simp add: shift_in_def)
  then show ?thesis using unat_u8 by (simp add: word_less_nat_alt unat_byte)
qed

lemma length_recieve_done_inv:
  assumes "malloc_ok malloc" "length (rc_buffer ctx) = 1024" "im_payload (rc_msg ctx) = None" "\<not> bit (rc_msglen ctx) 31"
  shows "\<exists>r ctx'. length_recieve_done malloc ctx = Inr (r, ctx') \<and> recv_inv ctx' \<and> r \<noteq> 2"
proof (cases "rc_msglen ctx = 0")
  case True
  then show ?thesis using assms by (simp add: length_recieve_done_def Let_def recv_inv_def)
next
  case False
  have s: "sint (rc_msglen ctx) = uint (rc_msglen ctx)" using assms(4) by (rule sint_nonneg_31)
  have pos: "0 < uint (rc_msglen ctx)"
    using False unsigned_greater_eq [of "rc_msglen ctx"] by (metis less_le uint_0_iff)
  show ?thesis
  proof (cases "unat (rc_msglen ctx) < 1024")
    case True
    then have "int (unat (rc_msglen ctx)) < 1024" by linarith
    then have "uint (rc_msglen ctx) < 1024" by simp
    moreover have "length_recieve_done malloc ctx =
        Inr (1, ctx\<lparr>rc_phase := P_In_Payload, rc_phase_len := uint (rc_msglen ctx), rc_offset := 0,
          rc_msg := (rc_msg ctx)\<lparr>im_payload_len := rc_msglen ctx, im_payload := Some (rc_buffer ctx, 0),
            im_is_payload_alloc := False\<rparr>\<rparr>)"
      using True False assms(2,3) by (simp only: length_recieve_done_def Let_def s) simp
    ultimately show ?thesis
      using assms(2) pos by (simp add: recv_inv_def)
  next
    case big: False
    show ?thesis
    proof (cases "malloc (unat (rc_msglen ctx))")
      case None
      with False big assms(2,3) show ?thesis
        by (simp add: length_recieve_done_def Let_def recv_inv_def)
    next
      case (Some obj)
      then have "length obj = unat (rc_msglen ctx)" using assms(1) by (simp add: malloc_ok_def)
      with Some False big assms(2,3) pos show ?thesis
        by (simp add: length_recieve_done_def Let_def recv_inv_def s)
    qed
  qed
qed

lemma payload_recieve_done_ok:
  assumes "im_payload (rc_msg ctx) = Some (obj, 0)" "2 \<le> length obj"
  shows "\<exists>ctx'. payload_recieve_done ctx = Inr ctx' \<and> rc_phase ctx' = P_Not_Start"
  using assms by (simp add: payload_recieve_done_def Let_def ptr_read_def)

text \<open>The state of the payload phase after storing some more bytes.\<close>

definition payload_adv :: "bytes \<Rightarrow> recv_context \<Rightarrow> recv_context" where
  "payload_adv bs ctx = ctx\<lparr>
     rc_msg := (rc_msg ctx)\<lparr>im_payload := map_option (\<lambda>(obj, b).
       (take (rc_offset ctx) obj @ bs @ drop (rc_offset ctx + length bs) obj, b)) (im_payload (rc_msg ctx))\<rparr>,
     rc_phase_len := rc_phase_len ctx - int (length bs), rc_offset := rc_offset ctx + length bs\<rparr>"

lemma payload_invE:
  assumes "recv_inv ctx" "rc_phase ctx = P_In_Payload"
  obtains obj where "im_payload (rc_msg ctx) = Some (obj, 0)" "1024 \<le> length obj" "0 < rc_phase_len ctx"
    "int (rc_offset ctx) + rc_phase_len ctx = uint (im_payload_len (rc_msg ctx))"
    "uint (im_payload_len (rc_msg ctx)) \<le> int (length obj)"
  using assms by (auto simp: recv_inv_def Let_def split: option.splits)

lemma payload_adv_inv:
  assumes "recv_inv ctx" "rc_phase ctx = P_In_Payload" "int (length bs) < rc_phase_len ctx"
  shows "recv_inv (payload_adv bs ctx)" "rc_phase (payload_adv bs ctx) = P_In_Payload"
proof -
  obtain obj where "im_payload (rc_msg ctx) = Some (obj, 0)" "1024 \<le> length obj" "0 < rc_phase_len ctx"
    "int (rc_offset ctx) + rc_phase_len ctx = uint (im_payload_len (rc_msg ctx))"
    "uint (im_payload_len (rc_msg ctx)) \<le> int (length obj)"
    by (rule payload_invE [OF assms(1,2)])
  with assms(2,3) show "recv_inv (payload_adv bs ctx)" "rc_phase (payload_adv bs ctx) = P_In_Payload"
    by (simp_all add: recv_inv_def payload_adv_def Let_def)
qed

lemma payload_adv_Nil: "recv_inv ctx \<Longrightarrow> rc_phase ctx = P_In_Payload \<Longrightarrow> payload_adv [] ctx = ctx"
  by (erule (1) payload_invE) (simp add: payload_adv_def)

lemma payload_adv_append:
  assumes "recv_inv ctx" "rc_phase ctx = P_In_Payload" "int (length (as @ bs)) \<le> rc_phase_len ctx"
  shows "payload_adv bs (payload_adv as ctx) = payload_adv (as @ bs) ctx"
proof -
  obtain obj where p: "im_payload (rc_msg ctx) = Some (obj, 0)"
    "int (rc_offset ctx) + rc_phase_len ctx = uint (im_payload_len (rc_msg ctx))"
    "uint (im_payload_len (rc_msg ctx)) \<le> int (length obj)"
    by (rule payload_invE [OF assms(1,2)])
  have "rc_offset ctx + length as + length bs \<le> length obj" using p assms(3) by simp
  then show ?thesis using p(1) by (simp add: payload_adv_def algebra_simps)
qed

lemma on_byte_arrive_payload:
  assumes "recv_inv ctx" "rc_phase ctx = P_In_Payload"
  shows "on_byte_arrive malloc ch ctx =
    (if rc_phase_len ctx = 1
     then (case payload_recieve_done (payload_adv [ch] ctx) of Inl e \<Rightarrow> Inl e | Inr ctx' \<Rightarrow> Inr (0, ctx'))
     else Inr (2, payload_adv [ch] ctx))"
proof -
  obtain obj where p: "im_payload (rc_msg ctx) = Some (obj, 0)" "0 < rc_phase_len ctx"
    "int (rc_offset ctx) + rc_phase_len ctx = uint (im_payload_len (rc_msg ctx))"
    "uint (im_payload_len (rc_msg ctx)) \<le> int (length obj)"
    by (rule payload_invE [OF assms])
  then have "rc_offset ctx + 1 \<le> length obj" by simp
  then show ?thesis
    using assms(2) p(1) by (cases ctx) (simp add: on_byte_arrive_def payload_adv_def Let_def ptr_write_def)
qed

lemma on_payload_block_eq:
  assumes "recv_inv ctx" "rc_phase ctx = P_In_Payload" "n = min (length bs) (nat (rc_phase_len ctx))"
  shows "on_payload_block ctx bs (int (length bs)) =
    (if int n = rc_phase_len ctx
     then (case payload_recieve_done (payload_adv (take n bs) ctx) of Inl e \<Rightarrow> Inl e | Inr ctx' \<Rightarrow> Inr (0, ctx', int n))
     else Inr (1, payload_adv (take n bs) ctx, int n))"
proof -
  obtain obj where p: "im_payload (rc_msg ctx) = Some (obj, 0)" "0 < rc_phase_len ctx"
    "int (rc_offset ctx) + rc_phase_len ctx = uint (im_payload_len (rc_msg ctx))"
    "uint (im_payload_len (rc_msg ctx)) \<le> int (length obj)"
    by (rule payload_invE [OF assms(1,2)])
  have n: "(if int (length bs) < rc_phase_len ctx then int (length bs) else rc_phase_len ctx) = int n"
    and le: "n \<le> length bs" "int n \<le> rc_phase_len ctx"
    using p(2) by (auto simp: assms(3))
  have "rc_offset ctx + n \<le> length obj" using p(3,4) le by simp
  then show ?thesis
    unfolding on_payload_block_def Let_def n
    using assms(2) p(1) le by (cases ctx) (clarsimp simp: ptr_write_def payload_adv_def)
qed

lemmas recv_step_defs = on_byte_arrive_def recv_end_def head_put_def Let_def recv_inv_def

lemma on_byte_arrive_start:
  assumes "rc_phase ctx = P_Not_Start"
  shows "\<exists>ctx'. on_byte_arrive malloc ch ctx = Inr (1, ctx') \<and> recv_inv ctx'"
  using assms by (simp add: recv_step_defs rc_zero_def im_zero_def)

lemma on_byte_arrive_mid:
  assumes "rc_phase ctx = P_In_Mid" "recv_inv ctx"
  shows "\<exists>ctx'. on_byte_arrive malloc ch ctx = Inr (1, ctx') \<and> recv_inv ctx'"
  using assms by (auto simp: recv_step_defs)

lemma on_byte_arrive_type:
  assumes "rc_phase ctx = P_In_Type" "recv_inv ctx"
  shows "\<exists>ctx'. on_byte_arrive malloc ch ctx = Inr (1, ctx') \<and> recv_inv ctx'"
  using assms by (auto simp: recv_step_defs split: if_splits)

lemma recv_inv_len:
  assumes "rc_phase ctx = P_In_Base_Len \<or> rc_phase ctx = P_In_Ext_Len" "recv_inv ctx"
  shows "length (rc_head_buff ctx) = 10" "length (rc_buffer ctx) = 1024" "im_payload (rc_msg ctx) = None"
    "rc_offset ctx < 10"
  using assms by (auto simp: recv_inv_def Let_def split: if_splits)

lemma on_byte_arrive_base:
  assumes "malloc_ok malloc" "rc_phase ctx = P_In_Base_Len" "recv_inv ctx"
  shows "\<exists>r ctx'. on_byte_arrive malloc ch ctx = Inr (r, ctx') \<and> recv_inv ctx' \<and> r \<noteq> 2"
proof (cases "rc_phase_len ctx = 1 \<and> shift_in (rc_msglen ctx) ch AND 0x8000 = 0")
  case True
  let ?ctx = "ctx\<lparr>rc_msglen := shift_in (rc_msglen ctx) ch, rc_phase_len := 0,
    rc_head_buff := (rc_head_buff ctx)[rc_offset ctx := ch], rc_offset := rc_offset ctx + 1\<rparr>"
  have "rc_msglen ctx < 256" using assms True by (simp add: recv_inv_def Let_def)
  then have "\<not> bit (shift_in (rc_msglen ctx) ch) 31"
    using bit_small_word [of "rc_msglen ctx" 8 23] by (auto simp: shift_in_bits word_less_nat_alt)
  moreover have "on_byte_arrive malloc ch ctx = length_recieve_done malloc ?ctx"
    using True assms recv_inv_len [of ctx] by (simp add: on_byte_arrive_def Let_def head_put_def)
  ultimately show ?thesis
    using assms recv_inv_len [of ctx] length_recieve_done_inv [of malloc ?ctx] by simp
next
  case False
  with assms show ?thesis by (auto simp: recv_step_defs shift_in_lt_256 split: if_splits)
qed

lemma on_byte_arrive_ext:
  assumes "malloc_ok malloc" "rc_phase ctx = P_In_Ext_Len" "recv_inv ctx"
  shows "\<exists>r ctx'. on_byte_arrive malloc ch ctx = Inr (r, ctx') \<and> recv_inv ctx' \<and> r \<noteq> 2"
proof (cases "rc_phase_len ctx = 1")
  case True
  let ?len = "push_bit 15 (shift_in (rc_msglenex ctx) ch) AND 0x7FFF8000 OR rc_msglen ctx AND 0x7FFF"
  let ?ctx = "ctx\<lparr>rc_msglenex := shift_in (rc_msglenex ctx) ch, rc_phase_len := 0, rc_msglen := ?len,
    rc_head_buff := (rc_head_buff ctx)[rc_offset ctx := ch], rc_offset := rc_offset ctx + 1\<rparr>"
  have "\<not> bit ?len 31" by (simp add: bit_simps)
  moreover have "on_byte_arrive malloc ch ctx = length_recieve_done malloc ?ctx"
    using True assms recv_inv_len [of ctx] by (simp add: on_byte_arrive_def Let_def head_put_def)
  ultimately show ?thesis
    using assms recv_inv_len [of ctx] length_recieve_done_inv [of malloc ?ctx] by simp
next
  case False
  with assms show ?thesis by (auto simp: recv_step_defs split: if_splits)
qed

lemma payload_done_adv:
  assumes "recv_inv ctx" "rc_phase ctx = P_In_Payload" "int (length bs) \<le> rc_phase_len ctx"
  shows "\<exists>ctx'. payload_recieve_done (payload_adv bs ctx) = Inr ctx' \<and> recv_inv ctx'"
proof -
  obtain obj where p: "im_payload (rc_msg ctx) = Some (obj, 0)" "1024 \<le> length obj"
    "int (rc_offset ctx) + rc_phase_len ctx = uint (im_payload_len (rc_msg ctx))"
    "uint (im_payload_len (rc_msg ctx)) \<le> int (length obj)"
    by (rule payload_invE [OF assms(1,2)])
  then have "im_payload (rc_msg (payload_adv bs ctx)) =
      Some (take (rc_offset ctx) obj @ bs @ drop (rc_offset ctx + length bs) obj, 0)"
    "2 \<le> length (take (rc_offset ctx) obj @ bs @ drop (rc_offset ctx + length bs) obj)"
    using assms(3) by (simp_all add: payload_adv_def)
  from payload_recieve_done_ok [OF this] show ?thesis by (auto simp: recv_inv_def Let_def)
qed

lemma on_byte_arrive_inv:
  assumes "malloc_ok malloc" "recv_inv ctx"
  shows "\<exists>r ctx'. on_byte_arrive malloc ch ctx = Inr (r, ctx') \<and> recv_inv ctx' \<and>
     (r = 2 \<longrightarrow> rc_phase ctx' = P_In_Payload)"
proof (cases "rc_phase ctx")
  case P_Not_Start
  from on_byte_arrive_start [OF this] show ?thesis by fastforce
next
  case P_In_Mid
  from on_byte_arrive_mid [OF this assms(2)] show ?thesis by fastforce
next
  case P_In_Type
  from on_byte_arrive_type [OF this assms(2)] show ?thesis by fastforce
next
  case P_In_Base_Len
  from on_byte_arrive_base [OF assms(1) this assms(2)] show ?thesis by fastforce
next
  case P_In_Ext_Len
  from on_byte_arrive_ext [OF assms(1) this assms(2)] show ?thesis by fastforce
next
  case P_In_Payload
  have "0 < rc_phase_len ctx" by (rule payload_invE [OF assms(2) P_In_Payload])
  then show ?thesis
    using payload_adv_inv [OF assms(2) P_In_Payload, of "[ch]"] payload_done_adv [OF assms(2) P_In_Payload, of "[ch]"]
    by (auto simp: on_byte_arrive_payload [OF assms(2) P_In_Payload])
qed

section \<open>Blocks and bytes\<close>

text \<open>The reference receiver: one byte after the other.\<close>

fun recv_bytes ::
  "(nat \<Rightarrow> bytes option) \<Rightarrow> bytes \<Rightarrow> recv_context \<Rightarrow> (recv_context \<times> ilink_message list) cres" where
  "recv_bytes malloc [] ctx = Inr (ctx, [])"
| "recv_bytes malloc (ch # bs) ctx =
     (case on_byte_arrive malloc ch ctx of
        Inl e \<Rightarrow> Inl e
      | Inr (r, ctx) \<Rightarrow>
          (case recv_bytes malloc bs ctx of
             Inl e \<Rightarrow> Inl e
           | Inr (ctx', ms) \<Rightarrow> Inr (ctx', (if r = 0 then [rc_msg ctx] else []) @ ms)))"

lemma recv_bytes_append:
  "recv_bytes malloc (as @ bs) ctx =
     (case recv_bytes malloc as ctx of
        Inl e \<Rightarrow> Inl e
      | Inr (ctx1, ms1) \<Rightarrow>
          (case recv_bytes malloc bs ctx1 of
             Inl e \<Rightarrow> Inl e
           | Inr (ctx2, ms2) \<Rightarrow> Inr (ctx2, ms1 @ ms2)))"
  by (induction as arbitrary: ctx) (auto split: sum.splits prod.splits)

lemma recv_bytes_inv:
  assumes "malloc_ok malloc" "recv_inv ctx"
  shows "\<exists>ctx' ms. recv_bytes malloc bs ctx = Inr (ctx', ms) \<and> recv_inv ctx'"
  using assms(2)
proof (induction bs arbitrary: ctx)
  case (Cons ch bs)
  from on_byte_arrive_inv [OF assms(1) Cons.prems, of ch] obtain r ctx1 where
    "on_byte_arrive malloc ch ctx = Inr (r, ctx1)" "recv_inv ctx1" by blast
  with Cons.IH [OF this(2)] show ?case by auto
qed simp

text \<open>Storing a block equals receiving its bytes.\<close>

lemma recv_bytes_block:
  assumes "recv_inv ctx" "rc_phase ctx = P_In_Payload" "int (length bs) \<le> rc_phase_len ctx"
  shows "recv_bytes malloc bs ctx =
    (if int (length bs) = rc_phase_len ctx
     then (case payload_recieve_done (payload_adv bs ctx) of Inl e \<Rightarrow> Inl e | Inr ctx' \<Rightarrow> Inr (ctx', [rc_msg ctx']))
     else Inr (payload_adv bs ctx, []))"
  using assms
proof (induction bs arbitrary: ctx)
  case Nil
  have "0 < rc_phase_len ctx" by (rule payload_invE [OF Nil.prems(1,2)])
  with Nil show ?case by (simp add: payload_adv_Nil)
next
  case (Cons ch bs)
  note step = on_byte_arrive_payload [OF Cons.prems(1,2), of malloc ch]
  show ?case
  proof (cases "rc_phase_len ctx = 1")
    case True
    with Cons.prems have "bs = []" by simp
    with True show ?thesis by (simp add: step split: sum.splits)
  next
    case False
    let ?c = "payload_adv [ch] ctx"
    have len: "rc_phase_len ?c = rc_phase_len ctx - 1" by (simp add: payload_adv_def)
    have lt: "int (length [ch]) < rc_phase_len ctx" using False Cons.prems(3) by simp
    have "recv_bytes malloc bs ?c =
        (if int (length bs) = rc_phase_len ?c
         then (case payload_recieve_done (payload_adv bs ?c) of Inl e \<Rightarrow> Inl e | Inr ctx' \<Rightarrow> Inr (ctx', [rc_msg ctx']))
         else Inr (payload_adv bs ?c, []))"
      using payload_adv_inv [OF Cons.prems(1,2) lt] Cons.prems(3) by (intro Cons.IH) (simp_all add: len)
    moreover have "payload_adv bs ?c = payload_adv (ch # bs) ctx"
      using payload_adv_append [of ctx "[ch]" bs] Cons.prems by simp
    ultimately show ?thesis using False by (auto simp: step len split: sum.splits)
  qed
qed

lemma on_payload_block_bytes:
  assumes "recv_inv ctx" "rc_phase ctx = P_In_Payload" "n = min (length bs) (nat (rc_phase_len ctx))"
  shows "\<exists>r ctx'. on_payload_block ctx bs (int (length bs)) = Inr (r, ctx', int n) \<and>
     recv_bytes malloc (take n bs) ctx = Inr (ctx', if r = 0 then [rc_msg ctx'] else []) \<and> recv_inv ctx'"
proof -
  have "0 < rc_phase_len ctx" by (rule payload_invE [OF assms(1,2)])
  then have n: "length (take n bs) = n" "int n \<le> rc_phase_len ctx" by (auto simp: assms(3))
  note eqs = on_payload_block_eq [OF assms] recv_bytes_block [OF assms(1,2), of "take n bs" malloc, unfolded n(1)]
  show ?thesis
  proof (cases "int n = rc_phase_len ctx")
    case True
    then show ?thesis
      using payload_done_adv [OF assms(1,2), of "take n bs", unfolded n(1)] by (auto simp: eqs)
  next
    case False
    then show ?thesis
      using n(2) payload_adv_inv [OF assms(1,2), of "take n bs", unfolded n(1)] by (simp add: eqs)
  qed
qed

lemma handle_cloud_packet_eq:
  assumes "malloc_ok malloc" "recv_inv ctx"
  shows "\<exists>r ctx' ms. handle_cloud_packet malloc bs r0 ctx = Inr (r, ctx', ms) \<and>
     recv_bytes malloc bs ctx = Inr (ctx', ms) \<and> recv_inv ctx'"
  using assms
proof (induction malloc bs r0 ctx rule: handle_cloud_packet.induct)
  case (2 malloc ch bs r0 ctx)
  from on_byte_arrive_inv [OF "2.prems", of ch] obtain r1 ctx1 where
    step: "on_byte_arrive malloc ch ctx = Inr (r1, ctx1)" "recv_inv ctx1" "r1 = 2 \<longrightarrow> rc_phase ctx1 = P_In_Payload"
    by blast
  show ?case
  proof (cases "r1 = 2")
    case False
    from "2.IH"(2) [OF step(1) refl False "2.prems"(1) step(2)] show ?thesis
      using False step(1) by auto
  next
    case True
    let ?n = "min (length bs) (nat (rc_phase_len ctx1))"
    have ph: "rc_phase ctx1 = P_In_Payload" using True step(3) by simp
    obtain r ctx2 where blk: "on_payload_block ctx1 bs (int (length bs)) = Inr (r, ctx2, int ?n)"
      and bytes: "recv_bytes malloc (take ?n bs) ctx1 = Inr (ctx2, if r = 0 then [rc_msg ctx2] else [])"
      and inv: "recv_inv ctx2"
      using on_payload_block_bytes [OF step(2) ph refl] by blast
    from "2.IH"(1) [OF step(1) refl True blk refl refl "2.prems"(1) inv] obtain r3 ctx3 ms3 where
      rest: "handle_cloud_packet malloc (drop ?n bs) r1 ctx2 = Inr (r3, ctx3, ms3)"
      "recv_bytes malloc (drop ?n bs) ctx2 = Inr (ctx3, ms3)" "recv_inv ctx3" by auto
    have "recv_bytes malloc bs ctx1 = Inr (ctx3, (if r = 0 then [rc_msg ctx2] else []) @ ms3)"
      using recv_bytes_append [of malloc "take ?n bs" "drop ?n bs" ctx1] bytes rest(2) by simp
    then show ?thesis using True step(1) blk rest by simp
  qed
qed simp

text \<open>C3.  The receiver is memory safe and splits a stream the same way however it is cut into packets:
  from any state the receiver can be in, \<open>handle_cloud_packet\<close> accepts arbitrary bytes without leaving
  the header array or the payload object and without a failed assertion, keeps the receiver's
  invariant, and delivers exactly the messages that feeding the bytes one at a time delivers.\<close>

theorem handle_cloud_packet_bytes:
  assumes "malloc_ok malloc" "recv_inv ctx"
  shows "\<exists>r ctx' ms. handle_cloud_packet malloc bs r0 ctx = Inr (r, ctx', ms) \<and>
     recv_bytes malloc bs ctx = Inr (ctx', ms) \<and> recv_inv ctx'"
  using assms by (rule handle_cloud_packet_eq)

definition malloc_sample :: "nat \<Rightarrow> bytes option" where
  "malloc_sample n = Some (replicate n 0)"

lemma malloc_sample_ok: "malloc_ok malloc_sample"
  by (simp add: malloc_ok_def malloc_sample_def)

theorem handle_cloud_packet_bytes_witness:
  "\<exists>r ctx' ms. handle_cloud_packet malloc_sample [0xBA, 0x80, 0, 3, 0, 9, 5, 0xFA] (-1) rc_zero = Inr (r, ctx', ms) \<and>
     recv_bytes malloc_sample [0xBA, 0x80, 0, 3, 0, 9, 5, 0xFA] rc_zero = Inr (ctx', ms) \<and> recv_inv ctx'"
  by (rule handle_cloud_packet_bytes) (simp_all add: malloc_sample_ok recv_inv_def rc_zero_def)

section \<open>Round trip\<close>

text \<open>What a message carries: its identification, and its header and payload bytes.\<close>

definition ilink_view :: "ilink_message \<Rightarrow> bool \<times> bool \<times> u64 \<times> u32 \<times> bytes cres \<times> bytes cres" where
  "ilink_view m =
     (im_has_mid m, im_has_mid m \<and> im_is_req m, if im_has_mid m then im_msgID m AND 0xFFFFFFFF else 0,
      im_msgType m, ptr_read (im_vheader m) (unat (im_vheader_len m)),
      ptr_read (im_payload m) (unat (im_payload_len m)))"

text \<open>Messages the two byte length field can carry: below 0x8000 bytes, with readable contents, and
  with a variable header that starts with its own length, as \<open>vheader_compose\<close> makes it.\<close>

definition ilink_sendable :: "ilink_message \<Rightarrow> bool" where
  "ilink_sendable m \<longleftrightarrow> im_msgType m < 0x80 \<and>
     (case (ptr_read (im_vheader m) (unat (im_vheader_len m)), ptr_read (im_payload m) (unat (im_payload_len m))) of
        (Inr vb, Inr pb) \<Rightarrow> length vb + length pb < 0x8000 \<and> (vb = [] \<or> take 2 vb = be16 (of_nat (length vb)))
      | _ \<Rightarrow> False)"

lemma ptr_read_length: "ptr_read p n = Inr bs \<Longrightarrow> length bs = n"
  by (auto simp: ptr_read_def split: if_splits option.splits)

lemma shift_in_bits64: "bit (shift_in (w :: u64) ch) n \<longleftrightarrow> n < 32 \<and> (if n < 8 then bit ch n else bit w (n - 8))"
proof -
  have m: "bit (0xFFFFFF00 :: u64) n \<longleftrightarrow> 8 \<le> n \<and> n < 32" for n
  proof -
    have "(0xFFFFFF00 :: u64) = push_bit 8 (mask 24)" by (simp add: mask_eq_exp_minus_1)
    then have "bit (0xFFFFFF00 :: u64) n \<longleftrightarrow> bit (push_bit 8 (mask 24) :: u64) n" by simp
    also have "\<dots> \<longleftrightarrow> 8 \<le> n \<and> n < 32" by (auto simp: bit_simps)
    finally show ?thesis .
  qed
  show ?thesis unfolding shift_in_def using m [of n] by (auto simp: bit_simps dest: bit_imp_le_length)
qed

lemma msgid_roundtrip:
  "shift_in (shift_in (shift_in (shift_in 0 (ucast (drop_bit 24 i))) (ucast (drop_bit 16 i)))
     (ucast (drop_bit 8 i))) (ucast i) = (ucast (i :: u32) :: u64)"
proof (rule bit_word_eqI)
  fix n :: nat
  assume "n < LENGTH(64)"
  consider "n < 8" | "8 \<le> n \<and> n < 16" | "16 \<le> n \<and> n < 24" | "24 \<le> n \<and> n < 32" | "32 \<le> n" by linarith
  then show "bit (shift_in (shift_in (shift_in (shift_in (0 :: u64) (ucast (drop_bit 24 i))) (ucast (drop_bit 16 i)))
     (ucast (drop_bit 8 i))) (ucast i)) n = bit (ucast i :: u64) n"
    by cases (auto simp: shift_in_bits64 bit_simps diff_diff_left dest: bit_imp_le_length)
qed

lemma len_roundtrip:
  assumes "unat (l :: u32) < 0x8000"
  shows "shift_in (shift_in 0 (ucast (drop_bit 8 (ucast l :: u16)))) (ucast (ucast l :: u16)) = l"
proof (rule bit_word_eqI)
  fix n :: nat
  assume "n < LENGTH(32)"
  consider "n < 8" | "8 \<le> n \<and> n < 16" | "16 \<le> n" by linarith
  then show "bit (shift_in (shift_in (0 :: u32) (ucast (drop_bit 8 (ucast l :: u16)))) (ucast (ucast l :: u16))) n = bit l n"
    using bit_small_word [of l 15 n] assms \<open>n < LENGTH(32)\<close>
    by cases (auto simp: shift_in_bits bit_simps dest: bit_imp_le_length)
qed

lemma len_no_ext: "unat (l :: u32) < 0x8000 \<Longrightarrow> l AND 0x8000 = 0"
proof (rule bit_word_eqI)
  fix n
  assume "unat l < 0x8000" "n < LENGTH(32)"
  then have "bit l n \<Longrightarrow> n < 15" using bit_small_word [of l 15 n] by auto
  moreover have "bit (0x8000 :: u32) n \<Longrightarrow> n = 15" using bit_exp_iff [where 'a = u32, of 15 n] by auto
  ultimately show "bit (l AND 0x8000) n = bit (0 :: u32) n" by (auto simp only: bit_and_iff bit_0_eq)
qed

text \<open>The header bytes, up to the end of the length field.\<close>

definition hdr_ctx :: "nat \<Rightarrow> bytes \<Rightarrow> u32 \<Rightarrow> ilink_message \<Rightarrow> recv_context" where
  "hdr_ctx off hb len m = \<lparr>rc_phase = P_In_Base_Len, rc_offset = off, rc_phase_len = 0, rc_head_buff = hb,
     rc_msglen = len, rc_msglenex = 0, rc_msg = m, rc_buffer = replicate 1024 0\<rparr>"

definition hdr_msg :: "u8 \<Rightarrow> u64 \<Rightarrow> u8 \<Rightarrow> ilink_message" where
  "hdr_msg lead i ty = im_zero\<lparr>im_leading_byte := lead, im_has_mid := (lead \<noteq> FIXEDCHAR_NO_MSGID),
     im_is_req := (lead = FIXEDCHAR_REQUEST), im_msgID := i,
     im_msgType := ucast (ty AND 0x7F), im_has_vheader := (ty AND 0x80 \<noteq> 0)\<rparr>"

definition recv_done :: "(int \<times> recv_context) cres \<Rightarrow> (recv_context \<times> ilink_message list) cres" where
  "recv_done r = (case r of Inl e \<Rightarrow> Inl e | Inr (r, ctx) \<Rightarrow> Inr (ctx, if r = 0 then [rc_msg ctx] else []))"

lemmas lead_defs = FIXEDCHAR_NO_MSGID_def FIXEDCHAR_REQUEST_def FIXEDCHAR_RESPINSE_def

lemmas header_run = on_byte_arrive_def recv_end_def head_put_def Let_def rc_zero_def im_zero_def
  hdr_ctx_def hdr_msg_def recv_done_def

lemma recv_header_len:
  assumes "unat l < 0x8000" "rc_phase ctx = P_In_Base_Len" "rc_phase_len ctx = 2" "rc_msglen ctx = 0"
    "rc_offset ctx + 1 < length (rc_head_buff ctx)"
  shows "recv_bytes malloc (be16 (ucast l)) ctx =
    recv_done (length_recieve_done malloc
      (ctx\<lparr>rc_phase_len := 0, rc_msglen := l, rc_offset := rc_offset ctx + 2,
        rc_head_buff := (rc_head_buff ctx)[rc_offset ctx := ucast (drop_bit 8 (ucast l :: u16)),
          Suc (rc_offset ctx) := ucast (ucast l :: u16)]\<rparr>))"
  using assms(2-) len_roundtrip [OF assms(1)] len_no_ext [OF assms(1)]
  by (cases ctx) (auto simp: be16_def on_byte_arrive_def recv_end_def head_put_def Let_def recv_done_def
      split: sum.splits)

lemma recv_header:
  assumes "recv_bytes malloc hs ctx = Inr (\<lparr>rc_phase = P_In_Base_Len, rc_offset = off, rc_phase_len = 2,
      rc_head_buff = hb, rc_msglen = 0, rc_msglenex = 0, rc_msg = m, rc_buffer = replicate 1024 0\<rparr>, [])"
    and "off + 1 < length hb" "unat l < 0x8000"
  shows "\<exists>off hb. recv_bytes malloc (hs @ be16 (ucast l)) ctx =
    recv_done (length_recieve_done malloc (hdr_ctx off hb l m))"
proof (intro exI)
  show "recv_bytes malloc (hs @ be16 (ucast l)) ctx =
    recv_done (length_recieve_done malloc (hdr_ctx (off + 2)
      (hb[off := ucast (drop_bit 8 (ucast l :: u16)), Suc off := ucast (ucast l :: u16)]) l m))"
    using assms by (simp add: recv_bytes_append recv_header_len hdr_ctx_def recv_done_def split: sum.splits)
qed

lemma recv_header_nomid:
  assumes "rc_phase ctx = P_Not_Start" "unat l < 0x8000"
  shows "\<exists>off hb. recv_bytes malloc ([FIXEDCHAR_NO_MSGID, ty] @ be16 (ucast l)) ctx =
    recv_done (length_recieve_done malloc (hdr_ctx off hb l (hdr_msg FIXEDCHAR_NO_MSGID 0 ty)))"
  by (rule recv_header [where off = 2 and hb = "(replicate 10 0)[0 := FIXEDCHAR_NO_MSGID, 1 := ty]"])
    (use assms in \<open>simp_all add: header_run lead_defs\<close>)

lemma recv_header_mid:
  assumes "rc_phase ctx = P_Not_Start" "unat l < 0x8000"
    and lead: "lead = FIXEDCHAR_REQUEST \<or> lead = FIXEDCHAR_RESPINSE"
  shows "\<exists>off hb. recv_bytes malloc ((lead # be32 i @ [ty]) @ be16 (ucast l)) ctx =
    recv_done (length_recieve_done malloc (hdr_ctx off hb l (hdr_msg lead (ucast i) ty)))"
proof (rule recv_header [where off = 6 and hb = "(replicate 10 0)[0 := lead, 1 := ucast (drop_bit 24 i),
      Suc 1 := ucast (drop_bit 16 i), Suc (Suc 1) := ucast (drop_bit 8 i), Suc (Suc (Suc 1)) := ucast i,
      Suc (Suc (Suc (Suc 1))) := ty]"])
  have ne: "lead \<noteq> FIXEDCHAR_NO_MSGID" using lead by (auto simp: lead_defs)
  show "recv_bytes malloc (lead # be32 i @ [ty]) ctx = Inr (\<lparr>rc_phase = P_In_Base_Len, rc_offset = 6, rc_phase_len = 2,
      rc_head_buff = (replicate 10 0)[0 := lead, 1 := ucast (drop_bit 24 i),
      Suc 1 := ucast (drop_bit 16 i), Suc (Suc 1) := ucast (drop_bit 8 i), Suc (Suc (Suc 1)) := ucast i,
      Suc (Suc (Suc (Suc 1))) := ty], rc_msglen = 0, rc_msglenex = 0,
      rc_msg = hdr_msg lead (ucast i) ty, rc_buffer = replicate 1024 0\<rparr>, [])"
    using assms(1) lead ne by (auto simp: header_run be32_def msgid_roundtrip)
qed (use assms in simp_all)

text \<open>The received object, split at the announced header length.\<close>

lemma payload_recieve_done_view:
  assumes p: "im_payload (rc_msg ctx) = Some (vb @ pb @ rest, 0)" "im_payload_len (rc_msg ctx) = of_nat (length vb + length pb)"
    "im_vheader (rc_msg ctx) = None" "im_vheader_len (rc_msg ctx) = 0" "im_has_vheader (rc_msg ctx) \<longleftrightarrow> vb \<noteq> []"
    and len: "length vb + length pb < 0x8000" and hd: "vb = [] \<or> take 2 vb = be16 (of_nat (length vb))"
  shows "\<exists>ctx'. payload_recieve_done ctx = Inr ctx' \<and> rc_phase ctx' = P_Not_Start \<and>
    ilink_view (rc_msg ctx') = (im_has_mid (rc_msg ctx), im_has_mid (rc_msg ctx) \<and> im_is_req (rc_msg ctx),
      if im_has_mid (rc_msg ctx) then im_msgID (rc_msg ctx) AND 0xFFFFFFFF else 0,
      im_msgType (rc_msg ctx), Inr vb, Inr pb)"
proof (cases "vb = []")
  case True
  have "unat (of_nat (length pb) :: u32) = length pb" using len by (simp add: codec_simps)
  then have "ptr_read (Some (pb @ rest, 0)) (unat (of_nat (length pb) :: u32)) = Inr pb" by (simp add: ptr_read_def)
  then show ?thesis
    using True p by (simp add: payload_recieve_done_def Let_def ilink_view_def) (simp add: ptr_read_def)
next
  case False
  with hd have two: "take 2 vb = be16 (of_nat (length vb))" by simp
  then have "length (take 2 vb) = 2" by simp
  then have l2: "2 \<le> length vb" by simp
  have "vb ! 0 = be16 (of_nat (length vb)) ! 0" "vb ! 1 = be16 (of_nat (length vb)) ! 1"
    unfolding two [symmetric] by simp_all
  then have rd: "rd16 (vb ! 0) (vb ! Suc 0) = of_nat (length vb)" by (simp add: be16_def rd16_be16)
  have uc: "(ucast (of_nat (length vb) :: u16) :: u32) = of_nat (length vb)"
    using len by (intro word_unat_eq_iff [THEN iffD2]) (simp add: unsigned_ucast_eq codec_simps take_bit_nat_eq_self)
  have uv: "unat (of_nat (length vb) :: u32) = length vb" "unat (of_nat (length pb) :: u32) = length pb"
    using len by (simp_all add: codec_simps)
  have rd2: "ptr_read (Some (vb @ pb @ rest, 0)) 2 = Inr (take 2 vb)" using l2 by (simp add: ptr_read_def)
  have "ptr_read (Some (vb @ pb @ rest, 0)) (length vb) = Inr vb" "ptr_read (Some (vb @ pb @ rest, length vb)) (length pb) = Inr pb"
    by (simp_all add: ptr_read_def)
  then show ?thesis
    using False p rd uc uv by (simp add: payload_recieve_done_def Let_def rd2 ilink_view_def)
qed

lemma length_recieve_done_start:
  assumes m: "im_payload m = None" and n: "0 < n" "n < 0x8000"
    and mal: "malloc_ok malloc" "\<forall>n. malloc n \<noteq> None"
  shows "\<exists>obj a ctx. length_recieve_done malloc (hdr_ctx off hb (of_nat n) m) = Inr (1, ctx) \<and> recv_inv ctx \<and>
    rc_phase ctx = P_In_Payload \<and> rc_phase_len ctx = int n \<and> rc_offset ctx = 0 \<and> n \<le> length obj \<and>
    rc_msg ctx = m\<lparr>im_payload_len := of_nat n, im_payload := Some (obj, 0), im_is_payload_alloc := a\<rparr>"
proof -
  let ?l = "of_nat n :: u32"
  have u: "unat ?l = n" "uint ?l = int n" using n by (simp_all add: codec_simps)
  have nz: "?l \<noteq> 0" using n u by (metis less_irrefl unat_0)
  have "\<not> bit ?l 31" using bit_small_word [of ?l 15 31] n u by auto
  then have si: "sint ?l = int n" using sint_nonneg_31 u by metis
  show ?thesis
  proof (cases "n < 1024")
    case True
    then show ?thesis
      using m n nz u si
      by (intro exI [where x = "replicate 1024 0"] exI [where x = False])
        (simp add: length_recieve_done_def Let_def hdr_ctx_def recv_inv_def)
  next
    case False
    obtain obj where "malloc n = Some obj" using mal(2) by auto
    moreover from this have "length obj = n" using mal(1) by (simp add: malloc_ok_def)
    ultimately show ?thesis
      using False m n nz u si by (auto simp: length_recieve_done_def Let_def hdr_ctx_def recv_inv_def)
  qed
qed

lemma recv_frame_tail:
  assumes m: "im_payload m = None" "im_vheader m = None" "im_vheader_len m = 0" "im_has_vheader m \<longleftrightarrow> vb \<noteq> []"
    and len: "length vb + length pb < 0x8000" and hd: "vb = [] \<or> take 2 vb = be16 (of_nat (length vb))"
    and mal: "malloc_ok malloc" "\<forall>n. malloc n \<noteq> None"
  shows "\<exists>ctx1 ms1 ctx2 ms2. recv_done (length_recieve_done malloc (hdr_ctx off hb (of_nat (length vb + length pb)) m)) = Inr (ctx1, ms1) \<and>
    recv_bytes malloc (vb @ pb) ctx1 = Inr (ctx2, ms2) \<and> rc_phase ctx2 = P_Not_Start \<and>
    map ilink_view (ms1 @ ms2) = [(im_has_mid m, im_has_mid m \<and> im_is_req m,
      if im_has_mid m then im_msgID m AND 0xFFFFFFFF else 0, im_msgType m, Inr vb, Inr pb)]"
proof (cases "vb @ pb = []")
  case True
  with assms show ?thesis
    by (simp add: recv_done_def length_recieve_done_def Let_def hdr_ctx_def ilink_view_def ptr_read_def)
next
  case False
  then have pos: "0 < length vb + length pb" by simp
  from length_recieve_done_start [OF m(1) pos len mal, of off hb]
  obtain ctx1 obj a where l: "length_recieve_done malloc (hdr_ctx off hb (of_nat (length vb + length pb)) m) = Inr (1, ctx1)"
    "recv_inv ctx1" "rc_phase ctx1 = P_In_Payload" "rc_phase_len ctx1 = int (length (vb @ pb))" "rc_offset ctx1 = 0"
    "length vb + length pb \<le> length obj"
    "rc_msg ctx1 = m\<lparr>im_payload_len := of_nat (length vb + length pb), im_payload := Some (obj, 0), im_is_payload_alloc := a\<rparr>"
    by auto
  let ?c = "payload_adv (vb @ pb) ctx1"
  have "im_payload (rc_msg ?c) = Some (vb @ pb @ drop (length vb + length pb) obj, 0)"
    "im_payload_len (rc_msg ?c) = of_nat (length vb + length pb)"
    "im_vheader (rc_msg ?c) = None" "im_vheader_len (rc_msg ?c) = 0" "im_has_vheader (rc_msg ?c) \<longleftrightarrow> vb \<noteq> []"
    using m l by (simp_all add: payload_adv_def)
  from payload_recieve_done_view [OF this len hd] obtain ctx2 where
    d: "payload_recieve_done ?c = Inr ctx2" "rc_phase ctx2 = P_Not_Start"
      "ilink_view (rc_msg ctx2) = (im_has_mid (rc_msg ?c), im_has_mid (rc_msg ?c) \<and> im_is_req (rc_msg ?c),
        if im_has_mid (rc_msg ?c) then im_msgID (rc_msg ?c) AND 0xFFFFFFFF else 0,
        im_msgType (rc_msg ?c), Inr vb, Inr pb)" by blast
  have "recv_bytes malloc (vb @ pb) ctx1 = Inr (ctx2, [rc_msg ctx2])"
    using recv_bytes_block [OF l(2,3), of "vb @ pb" malloc] l(4) d(1) by simp
  moreover have "recv_done (length_recieve_done malloc (hdr_ctx off hb (of_nat (length vb + length pb)) m)) = Inr (ctx1, [])"
    using l(1) by (simp add: recv_done_def)
  ultimately show ?thesis using d(2,3) l(7) by (simp add: payload_adv_def)
qed

lemma type_byte:
  assumes "(t :: u32) < 0x80"
  shows "(ucast ((ucast t OR 0x80 :: u8) AND 0x7F) :: u32) = t" "(ucast ((ucast t :: u8) AND 0x7F) :: u32) = t"
    "(ucast t OR 0x80 :: u8) AND 0x80 \<noteq> 0" "(ucast t :: u8) AND 0x80 = 0"
proof -
  have b: "bit t n \<Longrightarrow> n < 7" for n using bit_small_word [of t 7 n] assms by (simp add: word_less_nat_alt)
  have m: "(0x7F :: u8) = mask 7" by (simp add: mask_eq_exp_minus_1)
  have e: "bit (0x80 :: u8) n \<longleftrightarrow> n = 7" for n using bit_exp_iff [where 'a = u8, of 7 n] by auto
  have "bit (ucast ((ucast t OR 0x80 :: u8) AND mask 7) :: u32) n = bit t n" for n
    using b [of n] e [of n] by (auto simp: bit_simps)
  then show "(ucast ((ucast t OR 0x80 :: u8) AND 0x7F) :: u32) = t" unfolding m by (intro bit_word_eqI)
  have "bit (ucast ((ucast t :: u8) AND mask 7) :: u32) n = bit t n" for n
    using b [of n] by (auto simp: bit_simps)
  then show "(ucast ((ucast t :: u8) AND 0x7F) :: u32) = t" unfolding m by (intro bit_word_eqI)
  have "bit ((ucast t OR 0x80 :: u8) AND 0x80) 7" by (simp add: bit_simps)
  then show "(ucast t OR 0x80 :: u8) AND 0x80 \<noteq> 0" by auto
  show "(ucast t :: u8) AND 0x80 = 0" 
  proof (rule bit_word_eqI)
    fix n
    show "bit ((ucast t :: u8) AND 0x80) n = bit 0 n" using b [of n] e [of n] by (auto simp only: bit_simps bit_0_eq)
  qed
qed

lemma msgid_mask: "(ucast (ucast (i :: u64) :: u32) :: u64) AND 0xFFFFFFFF = i AND 0xFFFFFFFF"
proof -
  have m: "(0xFFFFFFFF :: u64) = mask 32" by (simp add: mask_eq_exp_minus_1)
  show ?thesis unfolding m by (rule bit_word_eqI) (auto simp: bit_simps)
qed

text \<open>One frame, received from an idle receiver.\<close>

lemma recv_frame:
  assumes ok: "ilink_sendable m" and ph: "rc_phase ctx = P_Not_Start"
    and mal: "malloc_ok malloc" "\<forall>n. malloc n \<noteq> None"
  shows "\<exists>frame ctx' ms. compose_ilink_frame m = Inr frame \<and> recv_bytes malloc frame ctx = Inr (ctx', ms) \<and>
    rc_phase ctx' = P_Not_Start \<and> map ilink_view ms = [ilink_view m]"
proof -
  obtain vb pb where v: "ptr_read (im_vheader m) (unat (im_vheader_len m)) = Inr vb"
    and p: "ptr_read (im_payload m) (unat (im_payload_len m)) = Inr pb"
    and len: "length vb + length pb < 0x8000" and hd: "vb = [] \<or> take 2 vb = be16 (of_nat (length vb))"
    and ty: "im_msgType m < 0x80"
    using ok by (auto simp: ilink_sendable_def split: sum.splits)
  let ?l = "of_nat (length vb + length pb) :: u32"
  let ?ty = "if im_vheader_len m \<noteq> 0 then ucast (im_msgType m) OR 0x80 else ucast (im_msgType m) :: u8"
  have lv: "length vb = unat (im_vheader_len m)" "length pb = unat (im_payload_len m)"
    using ptr_read_length [OF v] ptr_read_length [OF p] by simp_all
  then have ml: "im_payload_len m + im_vheader_len m = ?l" by simp
  have ul: "unat ?l = length vb + length pb" using len by (simp add: codec_simps del: of_nat_add)
  have vz: "im_vheader_len m = 0 \<longleftrightarrow> vb = []" using lv(1) by (metis length_0_conv unat_0 unat_eq_zero)
  obtain hs where hs: "compose_ilink_header m = hs @ be16 (ucast ?l)" "length hs < 10"
    and hrun: "\<exists>off hb. recv_bytes malloc (hs @ be16 (ucast ?l)) ctx = recv_done (length_recieve_done malloc
      (hdr_ctx off hb ?l (hdr_msg (hs ! 0) (if im_has_mid m then ucast (ucast (im_msgID m) :: u32) else 0) ?ty)))"
    and h0: "hs ! 0 = FIXEDCHAR_NO_MSGID \<longleftrightarrow> \<not> im_has_mid m" "hs ! 0 = FIXEDCHAR_REQUEST \<longleftrightarrow> im_has_mid m \<and> im_is_req m"
  proof (cases "im_has_mid m")
    case False
    have "compose_ilink_header m = [FIXEDCHAR_NO_MSGID, ?ty] @ be16 (ucast ?l)"
      using False ul len unfolding compose_ilink_header_def Let_def ml by (simp add: word_le_nat_alt del: of_nat_add)
    with recv_header_nomid [OF ph, of ?l malloc ?ty] ul len False show ?thesis
      by (intro that [of "[FIXEDCHAR_NO_MSGID, ?ty]"]) (simp_all add: lead_defs del: of_nat_add)
  next
    case True
    let ?lead = "if im_is_req m then FIXEDCHAR_REQUEST else FIXEDCHAR_RESPINSE"
    have "compose_ilink_header m = (?lead # be32 (ucast (im_msgID m)) @ [?ty]) @ be16 (ucast ?l)"
      using True ul len unfolding compose_ilink_header_def Let_def ml by (simp add: word_le_nat_alt del: of_nat_add)
    with recv_header_mid [OF ph, of ?l ?lead malloc "ucast (im_msgID m)" ?ty] ul len True show ?thesis
      by (intro that [of "?lead # be32 (ucast (im_msgID m)) @ [?ty]"]) (simp_all add: lead_defs del: of_nat_add)
  qed
  then obtain off hb where run: "recv_bytes malloc (hs @ be16 (ucast ?l)) ctx = recv_done (length_recieve_done malloc
      (hdr_ctx off hb ?l (hdr_msg (hs ! 0) (if im_has_mid m then ucast (ucast (im_msgID m) :: u32) else 0) ?ty)))"
    by blast
  let ?h = "hdr_msg (hs ! 0) (if im_has_mid m then ucast (ucast (im_msgID m) :: u32) else 0) ?ty"
  have h: "im_payload ?h = None" "im_vheader ?h = None" "im_vheader_len ?h = 0" "im_has_vheader ?h \<longleftrightarrow> vb \<noteq> []"
    using type_byte [OF ty] vz by (auto simp: hdr_msg_def im_zero_def)
  have view: "ilink_view m = (im_has_mid ?h, im_has_mid ?h \<and> im_is_req ?h,
      if im_has_mid ?h then im_msgID ?h AND 0xFFFFFFFF else 0, im_msgType ?h, Inr vb, Inr pb)"
    using type_byte [OF ty] h0 v p by (auto simp: ilink_view_def hdr_msg_def im_zero_def msgid_mask)
  from recv_frame_tail [OF h len hd mal, of off hb, folded run view] obtain ctx1 ms1 ctx2 ms2 where
    t: "recv_bytes malloc (hs @ be16 (ucast ?l)) ctx = Inr (ctx1, ms1)"
      "recv_bytes malloc (vb @ pb) ctx1 = Inr (ctx2, ms2)" "rc_phase ctx2 = P_Not_Start"
      "map ilink_view (ms1 @ ms2) = [ilink_view m]"
    by (elim exE conjE) (rule that)
  have "unat (of_nat (length (compose_ilink_header m)) + im_vheader_len m + im_payload_len m) =
      length (compose_ilink_header m) + length vb + length pb"
  proof -
    have "of_nat (length (compose_ilink_header m)) + im_vheader_len m + im_payload_len m =
        (of_nat (length (compose_ilink_header m) + length vb + length pb) :: u32)" by (simp add: lv)
    moreover have "length (compose_ilink_header m) + length vb + length pb < 2 ^ LENGTH(32)"
      using hs len by simp
    ultimately show ?thesis by (simp only: unat_of_nat_small)
  qed
  then have "compose_ilink_frame m = Inr ((hs @ be16 (ucast ?l)) @ vb @ pb)"
    by (simp add: compose_ilink_frame_def Let_def v p hs(1))
  moreover have "recv_bytes malloc ((hs @ be16 (ucast ?l)) @ vb @ pb) ctx = Inr (ctx2, ms1 @ ms2)"
    using t(1,2) by (subst recv_bytes_append) simp
  ultimately show ?thesis using t(3,4) by (intro exI conjI)
qed

text \<open>The thread loop: one \<open>handle_cloud_packet\<close> call per packet read from the socket.\<close>

fun recv_packets ::
  "(nat \<Rightarrow> bytes option) \<Rightarrow> bytes list \<Rightarrow> recv_context \<Rightarrow> (recv_context \<times> ilink_message list) cres" where
  "recv_packets malloc [] ctx = Inr (ctx, [])"
| "recv_packets malloc (pk # pks) ctx =
     (case handle_cloud_packet malloc pk (-1) ctx of
        Inl e \<Rightarrow> Inl e
      | Inr (r, ctx, ms) \<Rightarrow>
          (case recv_packets malloc pks ctx of
             Inl e \<Rightarrow> Inl e
           | Inr (ctx', ms') \<Rightarrow> Inr (ctx', ms @ ms')))"

lemma recv_packets_bytes:
  assumes "malloc_ok malloc" "recv_inv ctx"
  shows "recv_packets malloc pks ctx = recv_bytes malloc (concat pks) ctx"
  using assms(2)
proof (induction pks arbitrary: ctx)
  case (Cons pk pks)
  from handle_cloud_packet_eq [OF assms(1) Cons.prems, of pk "-1"] obtain r ctx1 ms where
    "handle_cloud_packet malloc pk (-1) ctx = Inr (r, ctx1, ms)" "recv_bytes malloc pk ctx = Inr (ctx1, ms)" "recv_inv ctx1"
    by blast
  with Cons.IH show ?case by (simp add: recv_bytes_append)
qed simp

text \<open>The frames of a list of messages back to back.\<close>

fun compose_all :: "ilink_message list \<Rightarrow> bytes cres" where
  "compose_all [] = Inr []"
| "compose_all (m # ms) =
     (case compose_ilink_frame m of
        Inl e \<Rightarrow> Inl e
      | Inr f \<Rightarrow> (case compose_all ms of Inl e \<Rightarrow> Inl e | Inr fs \<Rightarrow> Inr (f @ fs)))"

lemma recv_frames:
  assumes "\<And>m. m \<in> set ms \<Longrightarrow> ilink_sendable m" "rc_phase ctx = P_Not_Start"
    and mal: "malloc_ok malloc" "\<forall>n. malloc n \<noteq> None"
  shows "\<exists>fs ctx' ds. compose_all ms = Inr fs \<and> recv_bytes malloc fs ctx = Inr (ctx', ds) \<and>
     rc_phase ctx' = P_Not_Start \<and> map ilink_view ds = map ilink_view ms"
  using assms(1,2)
proof (induction ms arbitrary: ctx)
  case (Cons m ms)
  have "ilink_sendable m" using Cons.prems by simp
  from recv_frame [OF this Cons.prems(2) mal] obtain f ctx1 d where
    f: "compose_ilink_frame m = Inr f" "recv_bytes malloc f ctx = Inr (ctx1, d)" "rc_phase ctx1 = P_Not_Start"
      "map ilink_view d = [ilink_view m]"
    by (elim exE conjE) (rule that)
  from Cons.IH [OF _ f(3)] Cons.prems obtain fs ctx2 ds where
    g: "compose_all ms = Inr fs" "recv_bytes malloc fs ctx1 = Inr (ctx2, ds)" "rc_phase ctx2 = P_Not_Start"
      "map ilink_view ds = map ilink_view ms"
    by (metis list.set_intros(2))
  have "compose_all (m # ms) = Inr (f @ fs)" "recv_bytes malloc (f @ fs) ctx = Inr (ctx2, d @ ds)"
    "map ilink_view (d @ ds) = map ilink_view (m # ms)"
    using f g by (simp_all add: recv_bytes_append)
  with g(3) show ?case by (intro exI conjI)
qed simp

text \<open>C2.  Sending and receiving: the frames of any list of messages shorter than 0x8000 bytes, cut
  into packets at arbitrary places, are delivered by the receiver in order and once each, with the
  identification, type, variable header and payload they were composed from.\<close>

theorem ilink_stream_roundtrip:
  assumes "malloc_ok malloc" "\<forall>n. malloc n \<noteq> None" "\<forall>m \<in> set ms. ilink_sendable m"
    "rc_phase ctx = P_Not_Start" "compose_all ms = Inr (concat pks)"
  shows "\<exists>ctx' ds. recv_packets malloc pks ctx = Inr (ctx', ds) \<and> rc_phase ctx' = P_Not_Start \<and>
     map ilink_view ds = map ilink_view ms"
proof -
  have "recv_inv ctx" using assms(4) by (simp add: recv_inv_def Let_def)
  moreover have "\<exists>fs ctx' ds. compose_all ms = Inr fs \<and> recv_bytes malloc fs ctx = Inr (ctx', ds) \<and>
     rc_phase ctx' = P_Not_Start \<and> map ilink_view ds = map ilink_view ms"
    using assms by (intro recv_frames) auto
  ultimately show ?thesis using assms(1,5) by (simp add: recv_packets_bytes)
qed

definition im_sample :: ilink_message where
  "im_sample = (ilink_set_payload (Some ([1, 2, 3], 0)) 3 (ilink_set_req_resp True 77 (init_ilink_message 4)))
     \<lparr>im_vheader := Some (vh_sample_bytes, 0), im_vheader_len := 17\<rparr>"

theorem ilink_stream_roundtrip_witness:
  "\<exists>ctx' ds. recv_packets malloc_sample
      [[0xFA, 0, 0, 0], [77, 0x84, 0, 20, 0, 17, 0, 2, 95, 97, 0, 3, 98, 0, 99, 0, 2, 0, 0, 0, 7, 1, 2], [3]] rc_zero =
      Inr (ctx', ds) \<and> rc_phase ctx' = P_Not_Start \<and> map ilink_view ds = map ilink_view [im_sample]"
proof -
  have "compose_all [im_sample] = Inr (concat [[0xFA, 0, 0, 0],
      [77, 0x84, 0, 20, 0, 17, 0, 2, 95, 97, 0, 3, 98, 0, 99, 0, 2, 0, 0, 0, 7, 1, 2], [3]])" by code_simp
  moreover have "ilink_sendable im_sample" by code_simp
  ultimately show ?thesis
    by (intro ilink_stream_roundtrip) (simp_all add: malloc_sample_ok malloc_sample_def rc_zero_def)
qed

section \<open>Keys of a received message\<close>

text \<open>The key readers work on received messages: when the header bytes of a message are the
  composed form of a table, \<open>get_key_value\<close> and \<open>get_key_value_i\<close> return what the table holds under the key
  as a string or as an integer, and nothing for a missing key or a value of the other type.\<close>

theorem get_key_value_composed:
  assumes "\<forall>n \<in> set (vh_nodes vh). vn_used n \<longrightarrow> vnode_ok n" "vheader_wf vh"
    and "vheader_compose vh = Inr (Some buf)" "length buf < 65536"
    and rd: "ptr_read (im_vheader d) (unat (im_vheader_len d)) = Inr buf"
  shows "get_key_value d key = Inr (case vheader_lookup vh key of Some (Inl s) \<Rightarrow> Some s | _ \<Rightarrow> None) \<and>
    get_key_value_i d key = Inr (case vheader_lookup vh key of Some (Inr v) \<Rightarrow> Some v | _ \<Rightarrow> None)"
proof -
  have len: "length buf = unat (im_vheader_len d)" using ptr_read_length [OF rd] .
  then have "\<not> bit (im_vheader_len d) 31" using assms(4) bit_small_word [of "im_vheader_len d" 16 31] by auto
  then have s: "sint (im_vheader_len d) = int (length buf)" by (simp add: sint_nonneg_31 len)
  have "buf \<noteq> []" using assms(3) by (auto simp: vheader_compose_def be16_def split: sum.splits if_splits)
  with rd len obtain obj b where "im_vheader d = Some (obj, b)" "b + length buf \<le> length obj" "buf = take (length buf) (drop b obj)"
    by (auto simp: ptr_read_def split: if_splits option.splits)
  then have "ptr_view (im_vheader d) = Inr (buf @ drop (length buf) (drop b obj))"
    by (metis (mono_tags, lifting) append_take_drop_id case_prod_conv option.simps(5) ptr_view_def)
  then show ?thesis
    using vheader_raw_find_encoded [OF assms(1-4), of vnode0 key "drop (length buf) (drop b obj)" True]
    by (auto simp: get_key_value_def get_key_value_i_def s vnode_assign_def vheader_set_node_str_def
        vheader_set_node_i_def split: option.splits sum.splits)
qed

theorem get_key_value_composed_witness:
  "get_key_value im_sample [95, 97] = Inr (case vheader_lookup vh_sample [95, 97] of Some (Inl s) \<Rightarrow> Some s | _ \<Rightarrow> None) \<and>
   get_key_value_i im_sample [95, 97] = Inr (case vheader_lookup vh_sample [95, 97] of Some (Inr v) \<Rightarrow> Some v | _ \<Rightarrow> None)"
proof (rule get_key_value_composed [OF vh_sample_ok vh_sample_wf vh_sample_compose])
  show "length vh_sample_bytes < 65536" by code_simp
  show "ptr_read (im_vheader im_sample) (unat (im_vheader_len im_sample)) = Inr vh_sample_bytes" by code_simp
qed

section \<open>Length defects\<close>

text \<open>The sender switches to the extended length field only from 0x80000000 on, where the receiver
  expects it from 0x8000 on: below 2 GiB the header only depends on the low 16 bits of the length, so a
  frame of 65536 bytes of payload announces an empty message.\<close>

theorem ilink_header_truncates_length:
  assumes "len < 0x80000000"
  shows "compose_ilink_header (m\<lparr>im_vheader_len := 0, im_payload_len := len\<rparr>) =
    compose_ilink_header (m\<lparr>im_vheader_len := 0, im_payload_len := len AND 0xFFFF\<rparr>)"
proof -
  have m: "(0xFFFF :: u32) = mask 16" by (simp add: mask_eq_exp_minus_1)
  have "(ucast len :: u16) = ucast (len AND 0xFFFF)" unfolding m by (rule bit_word_eqI) (auto simp: bit_simps)
  moreover have "len AND 0xFFFF \<le> len" by (rule word_and_le2)
  then have "\<not> 0x80000000 \<le> len AND 0xFFFF" "\<not> 0x80000000 \<le> len" using assms by (simp_all add: not_le)
  ultimately show ?thesis by (simp add: compose_ilink_header_def Let_def)
qed

theorem ilink_header_truncates_length_witness:
  "compose_ilink_header (im_zero\<lparr>im_vheader_len := 0, im_payload_len := 0x10000\<rparr>) =
   compose_ilink_header (im_zero\<lparr>im_vheader_len := 0, im_payload_len := 0x10000 AND 0xFFFF\<rparr>)"
  by (rule ilink_header_truncates_length) simp

text \<open>The receiver does not check the announced header length against the received length: a two
  byte body that announces a nine byte variable header is delivered with a payload length of
  \<open>2^32 - 7\<close>.\<close>

theorem ilink_vheader_len_underflow:
  "case recv_bytes malloc [0xBA, 0x80, 0, 2, 0, 9] rc_zero of
     Inr (ctx, [d]) \<Rightarrow> im_vheader_len d = 9 \<and> unat (im_payload_len d) = 2 ^ 32 - 7
   | _ \<Rightarrow> False"
  by (simp add: header_run lead_defs length_recieve_done_def ptr_write_def payload_recieve_done_def ptr_read_def
      shift_in_def rd16_def)

end
