(* ===== verification/Transactions.thy ===== *)
theory Transactions
  imports Prelude
begin

text \<open>
  The request/response transactions of \<open>src/idr-mgt-shared-libs/lib/transaction.c\<close> and the elapsed
  time computation of \<open>lib/linux/sync_bsp.c\<close> they rest on.

  The linked list of a context is a list of nodes; a node carries its address, so that identity checks
  and frees can be stated.  The functions here are the sequential behaviour; \<open>bh_wait_response\<close>, which
  blocks, is split at the wait, and \<open>bh_feed_response\<close> at the point where it holds the node outside the
  list without a lock.  The interleavings of the threads, with one step per locked region, are in
  \<open>Trans_Threads\<close>.  Callbacks, posts to a worker thread, wake-ups and frees are events in the order the
  code performs them.  The clock value read is an argument.
\<close>

section \<open>Elapsed time\<close>

definition bh_get_elpased_ms :: "u64 \<Rightarrow> u32 \<Rightarrow> u32 \<times> u32" where
  "bh_get_elpased_ms now last_clock =
     (if now < ucast last_clock then (ucast (now + ucast (0xFFFFFFFF - last_clock) + 1), ucast now)
      else (ucast (now - ucast last_clock), ucast now))"

section \<open>Nodes, contexts and events\<close>

record sync_node =
  sn_addr :: nat
  sn_id :: u32
  sn_sync_type :: u8
  sn_timeout :: u32
  sn_context_data :: nat
  sn_cb :: "nat option"
  sn_work_thread :: "nat option"
  sn_response :: "bytes option"
  sn_response_len :: u32
  sn_pending_delete :: bool
  sn_response_fmt :: u8

definition sync_node0 :: "nat \<Rightarrow> sync_node" where
  "sync_node0 a = \<lparr>sn_addr = a, sn_id = 0, sn_sync_type = 0, sn_timeout = 0, sn_context_data = 0, sn_cb = None,
     sn_work_thread = None, sn_response = None, sn_response_len = 0, sn_pending_delete = False, sn_response_fmt = 0\<rparr>"

record sync_ctx =
  sc_cnt :: u32
  sc_list :: "sync_node list"
  sc_last_check :: u32
  sc_new_id :: u32

record callback =
  ck_data :: "bytes option"
  ck_len :: u32
  ck_format :: u8
  ck_transaction :: sync_node

text \<open>Events: \<open>cb(context_data, data, len, format)\<close> called for a node, a callback record handed to a
  worker thread, a waiter woken up, a node freed.\<close>

datatype trans_event =
    Ev_Callback nat nat nat "bytes option" u32 u8
  | Ev_Post nat callback
  | Ev_Wakeup nat
  | Ev_Free nat

definition create_sync_ctx :: "u64 \<Rightarrow> sync_ctx" where
  "create_sync_ctx now = \<lparr>sc_cnt = 0, sc_list = [], sc_last_check = snd (bh_get_elpased_ms now 0), sc_new_id = 0\<rparr>"

definition add_sync_node :: "sync_node \<Rightarrow> sync_ctx \<Rightarrow> sync_ctx" where
  "add_sync_node node ctx = ctx\<lparr>sc_list := node # sc_list ctx, sc_cnt := sc_cnt ctx + 1\<rparr>"

fun remove_loop :: "u32 \<Rightarrow> sync_node list \<Rightarrow> sync_node option \<times> sync_node list" where
  "remove_loop i [] = (None, [])"
| "remove_loop i (n # ns) =
     (if sn_id n = i then (Some n, ns)
      else (case remove_loop i ns of (r, ns') \<Rightarrow> (r, n # ns')))"

definition remove_sync_node :: "u32 \<Rightarrow> sync_ctx \<Rightarrow> sync_node option \<times> sync_ctx" where
  "remove_sync_node i ctx =
     (case remove_loop i (sc_list ctx) of
        (None, ns) \<Rightarrow> (None, ctx)
      | (Some n, ns) \<Rightarrow> (Some n, ctx\<lparr>sc_list := ns, sc_cnt := sc_cnt ctx - 1\<rparr>))"

definition bh_gen_id :: "sync_ctx \<Rightarrow> u32 \<times> sync_ctx" where
  "bh_gen_id ctx =
     (let i = (if sc_new_id ctx = -1 then 0 else sc_new_id ctx) in (i, ctx\<lparr>sc_new_id := i + 1\<rparr>))"

section \<open>Blocking requests\<close>

text \<open>\<open>bh_wait_response\<close> up to the wait: the node and the context it was put in.\<close>

definition bh_wait_response_begin :: "nat \<Rightarrow> u32 \<Rightarrow> sync_ctx \<Rightarrow> sync_node \<times> sync_ctx" where
  "bh_wait_response_begin a i ctx =
     (let (i, ctx) = (if i = -1 then bh_gen_id ctx else (i, ctx));
          node = (sync_node0 a)\<lparr>sn_id := i, sn_sync_type := 1\<rparr>
      in (node, add_sync_node node ctx))"

text \<open>\<open>bh_wait_response\<close> after the wait: the result, the response, the context and whether the node was
  left to the waker marked \<open>S_PENDING_DELETE\<close>.\<close>

definition bh_wait_response_end :: "sync_node \<Rightarrow> sync_ctx \<Rightarrow> (int \<times> bytes option \<times> sync_ctx \<times> bool) cres" where
  "bh_wait_response_end node ctx =
     (case remove_sync_node (sn_id node) ctx of
        (Some n, ctx) \<Rightarrow>
          if sn_addr n \<noteq> sn_addr node then Inl Assert_Failed
          else Inr (sint (sn_response_len n), sn_response n, ctx, False)
      | (None, ctx) \<Rightarrow> Inr (-1, None, ctx, True))"

section \<open>Responses\<close>

definition bh_feed_transaction :: "sync_node \<Rightarrow> bytes option \<Rightarrow> u32 \<Rightarrow> u8 \<Rightarrow> trans_event list cres" where
  "bh_feed_transaction node response len format =
     (if sn_sync_type node = 2 then
        if sn_work_thread node \<noteq> None then Inl Assert_Failed
        else
          (case sn_cb node of
             Some cb \<Rightarrow> Inr [Ev_Callback (sn_addr node) cb (sn_context_data node) response len format, Ev_Free (sn_addr node)]
           | None \<Rightarrow> Inr [Ev_Free (sn_addr node)])
      else Inr [Ev_Free (sn_addr node)])"

text \<open>\<open>memcpy\<close> of \<open>len\<close> bytes from the response pointer.\<close>

definition copy_response :: "bytes option \<Rightarrow> u32 \<Rightarrow> bytes cres" where
  "copy_response response len =
     (case response of
        None \<Rightarrow> Inl Null_Deref
      | Some bs \<Rightarrow> if unat len \<le> length bs then Inr (take (unat len) bs) else Inl Out_Of_Bounds)"

text \<open>\<open>bh_feed_response\<close> once it holds the node; \<open>mem\<close> says whether \<open>malloc\<close> of a size succeeds.\<close>

definition bh_feed_node ::
  "(nat \<Rightarrow> bool) \<Rightarrow> sync_node \<Rightarrow> bytes option \<Rightarrow> u32 \<Rightarrow> u8 \<Rightarrow> sync_ctx \<Rightarrow> (sync_ctx \<times> trans_event list) cres" where
  "bh_feed_node mem node response len format ctx =
     (if sn_sync_type node = 1 then
        if sn_pending_delete node then Inr (ctx, [Ev_Free (sn_addr node)])
        else
          (case (if len = 0 then Inr (node\<lparr>sn_response_len := 0\<rparr>)
                 else if \<not> mem (unat len) then Inr (node\<lparr>sn_response_len := 0, sn_response := None\<rparr>)
                 else map_sum id (\<lambda>bs. node\<lparr>sn_response := Some bs, sn_response_len := len\<rparr>) (copy_response response len)) of
             Inl e \<Rightarrow> Inl e
           | Inr node \<Rightarrow> Inr (add_sync_node (node\<lparr>sn_response_fmt := format\<rparr>) ctx, [Ev_Wakeup (sn_addr node)]))
      else if sn_sync_type node = 2 \<and> sn_work_thread node \<noteq> None then
        (case (if len = 0 then Inr response else map_sum id Some (copy_response response len)) of
           Inl e \<Rightarrow> Inl e
         | Inr d \<Rightarrow> Inr (ctx, [Ev_Post (the (sn_work_thread node)) \<lparr>ck_data = d, ck_len = len, ck_format = format,
                                        ck_transaction = node\<lparr>sn_work_thread := None\<rparr>\<rparr>]))
      else map_sum id (\<lambda>evs. (ctx, evs)) (bh_feed_transaction node response len format))"

definition bh_feed_response ::
  "(nat \<Rightarrow> bool) \<Rightarrow> u32 \<Rightarrow> bytes option \<Rightarrow> u32 \<Rightarrow> u8 \<Rightarrow> sync_ctx \<Rightarrow> (sync_ctx \<times> trans_event list) cres" where
  "bh_feed_response mem i response len format ctx =
     (case remove_sync_node i ctx of
        (None, ctx) \<Rightarrow> Inr (ctx, [])
      | (Some node, ctx) \<Rightarrow> bh_feed_node mem node response len format ctx)"

definition execute_callback_node :: "callback \<Rightarrow> trans_event list cres" where
  "execute_callback_node cb = bh_feed_transaction (ck_transaction cb) (ck_data cb) (ck_len cb) (ck_format cb)"

section \<open>Timers\<close>

fun timer_loop :: "u32 \<Rightarrow> sync_node list \<Rightarrow> bool \<times> sync_node list" where
  "timer_loop el [] = (False, [])"
| "timer_loop el (n # ns) =
     (case timer_loop el ns of
        (t, ns') \<Rightarrow>
          if sn_timeout n > el then (t, n\<lparr>sn_timeout := sn_timeout n - el\<rparr> # ns')
          else (True, n\<lparr>sn_timeout := 0\<rparr> # ns'))"

definition bh_update_trans_timer :: "u64 \<Rightarrow> sync_ctx \<Rightarrow> bool \<times> sync_ctx" where
  "bh_update_trans_timer now ctx =
     (case bh_get_elpased_ms now (sc_last_check ctx) of
        (el, clk) \<Rightarrow>
          (case timer_loop el (sc_list ctx) of
             (t, ns) \<Rightarrow> (t, ctx\<lparr>sc_last_check := clk, sc_list := ns\<rparr>)))"

definition bh_wait_response_async ::
  "u64 \<Rightarrow> nat \<Rightarrow> u32 \<Rightarrow> nat option \<Rightarrow> nat \<Rightarrow> u32 \<Rightarrow> nat option \<Rightarrow> sync_ctx \<Rightarrow> u32 \<times> sync_ctx" where
  "bh_wait_response_async now a i cb ctx_data timeout worker_thread ctx =
     (let ctx = snd (bh_update_trans_timer now ctx);
          (i, ctx) = (if i = -1 then bh_gen_id ctx else (i, ctx));
          node = (sync_node0 a)\<lparr>sn_id := i, sn_sync_type := 2, sn_context_data := ctx_data,
                                sn_work_thread := worker_thread, sn_cb := cb, sn_timeout := timeout\<rparr>
      in (i, add_sync_node node ctx))"

text \<open>The loop of \<open>bh_remove_expired_trans\<close>: the nearest timeout so far, the expired nodes so far (last
  found first), the number removed so far; it returns the kept nodes too.\<close>

fun expire_loop ::
  "u32 \<Rightarrow> u32 \<Rightarrow> sync_node list \<Rightarrow> sync_node list \<Rightarrow> u32 \<times> sync_node list \<times> sync_node list" where
  "expire_loop el nearest expired [] = (nearest, expired, [])"
| "expire_loop el nearest expired (n # ns) =
     (if sn_timeout n > el then
        (let n = n\<lparr>sn_timeout := sn_timeout n - el\<rparr>;
             nearest = (if nearest = -1 then sn_timeout n
                        else if nearest > sn_timeout n then sn_timeout n else nearest) in
         case expire_loop el nearest expired ns of (r, e, k) \<Rightarrow> (r, e, n # k))
      else if sn_sync_type n = 1 then
        (case expire_loop el nearest expired ns of (r, e, k) \<Rightarrow> (r, e, n # k))
      else expire_loop el nearest (n\<lparr>sn_timeout := 0\<rparr> # expired) ns)"

definition bh_remove_expired_trans :: "u64 \<Rightarrow> sync_ctx \<Rightarrow> u32 \<times> sync_node list \<times> sync_ctx" where
  "bh_remove_expired_trans now ctx =
     (case bh_get_elpased_ms now (sc_last_check ctx) of
        (el, clk) \<Rightarrow>
          (case expire_loop el (-1) [] (sc_list ctx) of
             (nearest, expired, kept) \<Rightarrow>
               (nearest, expired,
                ctx\<lparr>sc_last_check := clk, sc_list := kept, sc_cnt := sc_cnt ctx - of_nat (length expired)\<rparr>)))"

text \<open>What \<open>bh_handle_expired_trans\<close> does with one expired node.\<close>

definition expire_node :: "sync_node \<Rightarrow> trans_event list" where
  "expire_node n =
     (if sn_sync_type n = 2 then
        (case sn_work_thread n of
           Some w \<Rightarrow> [Ev_Post w \<lparr>ck_data = None, ck_len = 0, ck_format = 0,
                                 ck_transaction = n\<lparr>sn_work_thread := None\<rparr>\<rparr>]
         | None \<Rightarrow>
             (case sn_cb n of
                Some cb \<Rightarrow> [Ev_Callback (sn_addr n) cb (sn_context_data n) None 0 0, Ev_Free (sn_addr n)]
              | None \<Rightarrow> [Ev_Free (sn_addr n)]))
      else [Ev_Free (sn_addr n)])"

definition bh_handle_expired_trans :: "u64 \<Rightarrow> sync_ctx \<Rightarrow> u32 \<times> sync_ctx \<times> trans_event list" where
  "bh_handle_expired_trans now ctx =
     (case bh_remove_expired_trans now ctx of
        (timeout, expired, ctx) \<Rightarrow> (timeout, ctx, concat (map expire_node expired)))"

section \<open>Time\<close>

lemma ucast_add_down: "(ucast (a + b :: u64) :: u32) = ucast a + ucast b"
  by (intro word_uint_eqI) (simp add: unsigned_ucast_eq uint_word_ariths take_bit_eq_mod mod_simps mod_mod_cancel)

lemma ucast_diff_down: "(ucast (a - b :: u64) :: u32) = ucast a - ucast b"
  by (intro word_uint_eqI) (simp add: unsigned_ucast_eq uint_word_ariths take_bit_eq_mod mod_simps mod_mod_cancel)

lemma ucast_up_down: "(ucast (ucast (a :: u32) :: u64) :: u32) = a"
  by (rule bit_word_eqI) (simp add: bit_simps)

text \<open>Both branches compute the difference modulo 2 to the 32.\<close>

lemma elapsed_eq: "bh_get_elpased_ms now l = (ucast now - l, ucast now)"
proof -
  have "(0xFFFFFFFF :: u32) = -1" by simp
  then show ?thesis
    by (simp add: bh_get_elpased_ms_def ucast_add_down ucast_diff_down ucast_up_down)
qed

text \<open>C34.  Elapsed time survives the wrap of the 32 bit clock: when the stored value is the low half of
  the tick at the previous check and less than 2 to the 32 milliseconds have passed, the result is the
  number of milliseconds passed and the stored value becomes the low half of the present tick.\<close>

theorem elapsed_ms_exact:
  assumes "unat prev \<le> unat now" "unat now - unat prev < 2 ^ 32"
  shows "unat (fst (bh_get_elpased_ms now (ucast (prev :: u64)))) = unat now - unat prev \<and>
    snd (bh_get_elpased_ms now (ucast prev)) = ucast now"
proof -
  have "(ucast now - ucast prev :: u32) = ucast (now - prev)" by (simp add: ucast_diff_down)
  moreover have "unat (now - prev) = unat now - unat prev"
    using assms(1) by (simp add: unat_sub word_le_nat_alt)
  ultimately show ?thesis
    using assms(2) by (simp add: elapsed_eq unsigned_ucast_eq take_bit_nat_eq_self)
qed

theorem elapsed_ms_exact_witness:
  "unat (fst (bh_get_elpased_ms 0x100000005 (ucast (0xFFFFFFF0 :: u64)))) = unat (0x100000005 :: u64) - unat (0xFFFFFFF0 :: u64) \<and>
   snd (bh_get_elpased_ms 0x100000005 (ucast (0xFFFFFFF0 :: u64))) = ucast (0x100000005 :: u64)"
  by (rule elapsed_ms_exact) simp_all

section \<open>Identifiers\<close>

fun gen_ids :: "nat \<Rightarrow> sync_ctx \<Rightarrow> u32 list" where
  "gen_ids 0 ctx = []"
| "gen_ids (Suc k) ctx = (case bh_gen_id ctx of (i, ctx) \<Rightarrow> i # gen_ids k ctx)"

lemma bh_gen_id_nat:
  "unat (fst (bh_gen_id ctx)) = unat (sc_new_id ctx) mod (2 ^ 32 - 1)"
  "unat (sc_new_id (snd (bh_gen_id ctx))) = unat (sc_new_id ctx) mod (2 ^ 32 - 1) + 1"
proof -
  let ?n = "sc_new_id ctx"
  have le: "unat ?n < 2 ^ LENGTH(32)" by (rule unsigned_less)
  have m1: "unat (-1 :: u32) = 2 ^ 32 - 1" by (rule unat_minus_one_32)
  have i: "unat (fst (bh_gen_id ctx)) = unat ?n mod (2 ^ 32 - 1)"
  proof (cases "?n = -1")
    case True
    then show ?thesis using m1 by (simp add: bh_gen_id_def)
  next
    case False
    then have "unat ?n \<noteq> 2 ^ 32 - 1" using m1 by (metis word_unat_eq_iff)
    then have "unat ?n < 2 ^ 32 - 1" using le by simp
    with False show ?thesis by (simp add: bh_gen_id_def Let_def)
  qed
  then have "unat (fst (bh_gen_id ctx)) + 1 < 2 ^ 32"
    using mod_less_divisor [of "2 ^ 32 - 1" "unat ?n"] by simp
  then have "unat (fst (bh_gen_id ctx) + 1) = unat (fst (bh_gen_id ctx)) + 1"
    by (simp add: unat_word_ariths)
  moreover have "sc_new_id (snd (bh_gen_id ctx)) = fst (bh_gen_id ctx) + 1" by (simp add: bh_gen_id_def Let_def)
  ultimately show "unat (sc_new_id (snd (bh_gen_id ctx))) = unat ?n mod (2 ^ 32 - 1) + 1" using i by simp
  show "unat (fst (bh_gen_id ctx)) = unat ?n mod (2 ^ 32 - 1)" by (rule i)
qed

lemma gen_ids_nat:
  "map unat (gen_ids k ctx) = map (\<lambda>j. (unat (sc_new_id ctx) + j) mod (2 ^ 32 - 1)) [0..<k]"
proof (induction k arbitrary: ctx)
  case (Suc k)
  obtain i ctx1 where g: "bh_gen_id ctx = (i, ctx1)" by force
  have "[0..<Suc k] = 0 # map Suc [0..<k]" by (simp add: map_Suc_upt upt_conv_Cons)
  moreover have "(unat (sc_new_id ctx) mod (2 ^ 32 - 1) + 1 + j) mod (2 ^ 32 - 1) = (unat (sc_new_id ctx) + Suc j) mod (2 ^ 32 - 1)" for j
    by (metis (no_types, lifting) add.assoc add_Suc_right mod_add_left_eq plus_1_eq_Suc add.commute)
  ultimately show ?case using Suc [of ctx1] bh_gen_id_nat [of ctx] g by simp
qed simp

lemma inj_mod_window:
  assumes k: "k \<le> (m :: nat)"
  shows "inj_on (\<lambda>j. (a + j) mod m) {0..<k}"
proof (rule linorder_inj_onI)
  fix x y
  assume lt: "x < y" and "y \<in> {0..<k}"
  then have "y - x < m" "0 < y - x" using k by auto
  then have "\<not> m dvd (a + y) - (a + x)" using nat_dvd_not_less by simp
  then show "(a + x) mod m \<noteq> (a + y) mod m" using mod_eq_dvd_iff_nat [of "a + x" "a + y" m] lt by (metis add_left_mono less_imp_le)
qed auto

text \<open>Generated identifiers: \<open>bh_gen_id\<close> never returns the reserved value -1, and any run of up to
  2 to the 32 minus 1 calls returns pairwise different identifiers, also across the wrap.\<close>

theorem gen_ids_distinct:
  assumes "k \<le> 2 ^ 32 - 1"
  shows "distinct (gen_ids k ctx) \<and> -1 \<notin> set (gen_ids k ctx)"
proof
  have "distinct (map (\<lambda>j. (unat (sc_new_id ctx) + j) mod (2 ^ 32 - 1)) [0..<k])"
    using inj_mod_window [OF assms, of "unat (sc_new_id ctx)"] by (simp add: distinct_map)
  then have "distinct (map unat (gen_ids k ctx))" by (simp only: gen_ids_nat)
  then show "distinct (gen_ids k ctx)" by (simp add: distinct_map)
  have "\<forall>v \<in> set (map unat (gen_ids k ctx)). v < 2 ^ 32 - 1" unfolding gen_ids_nat by auto
  moreover have "unat (-1 :: u32) = 2 ^ 32 - 1" by (rule unat_minus_one_32)
  ultimately show "-1 \<notin> set (gen_ids k ctx)" by force
qed

theorem gen_ids_distinct_witness:
  "distinct (gen_ids 3 ((create_sync_ctx 0)\<lparr>sc_new_id := -1\<rparr>)) \<and> -1 \<notin> set (gen_ids 3 ((create_sync_ctx 0)\<lparr>sc_new_id := -1\<rparr>))"
  by (rule gen_ids_distinct) simp

section \<open>Expiry\<close>

definition trans_expired :: "u32 \<Rightarrow> sync_node \<Rightarrow> bool" where
  "trans_expired el n \<longleftrightarrow> sn_timeout n \<le> el \<and> sn_sync_type n \<noteq> 1"

definition trans_tick :: "u32 \<Rightarrow> sync_node \<Rightarrow> sync_node" where
  "trans_tick el n = (if sn_timeout n > el then n\<lparr>sn_timeout := sn_timeout n - el\<rparr> else n)"

lemma expire_loop_eq:
  "expire_loop el nearest expired ns =
     (fold min (map (\<lambda>n. sn_timeout n - el) (filter (\<lambda>n. sn_timeout n > el) ns)) nearest,
      rev (map (\<lambda>n. n\<lparr>sn_timeout := 0\<rparr>) (filter (trans_expired el) ns)) @ expired,
      map (trans_tick el) (filter (\<lambda>n. \<not> trans_expired el n) ns))"
proof (induction el nearest expired ns rule: expire_loop.induct)
  case (2 el nearest expired n ns)
  have top: "m \<le> (-1 :: u32)" for m by simp
  then have m: "min a (-1) = a" "min (-1) a = a" for a :: u32 by (simp_all add: min_def order_antisym)
  show ?case
    using 2 m by (auto simp: Let_def trans_expired_def trans_tick_def not_less min_def not_le)
qed simp

text \<open>C27.  Expiry partitions the pending list: exactly the asynchronous nodes whose timeout has run out
  leave it, with their timeout zeroed and last found first; every other node stays in order with the
  elapsed time deducted if it was still running; and the returned delay is the smallest remaining
  timeout, -1 when none is running.\<close>

theorem bh_remove_expired_spec:
  "bh_remove_expired_trans now ctx =
     (let el = ucast now - sc_last_check ctx; ns = sc_list ctx;
          running = filter (\<lambda>n. sn_timeout n > el) ns;
          gone = filter (trans_expired el) ns in
      (Min (insert (-1) (set (map (\<lambda>n. sn_timeout n - el) running))),
       rev (map (\<lambda>n. n\<lparr>sn_timeout := 0\<rparr>) gone),
       ctx\<lparr>sc_last_check := ucast now, sc_list := map (trans_tick el) (filter (\<lambda>n. \<not> trans_expired el n) ns),
           sc_cnt := sc_cnt ctx - of_nat (length gone)\<rparr>))"
  by (simp add: bh_remove_expired_trans_def elapsed_eq expire_loop_eq Let_def Min.set_eq_fold [symmetric]
      del: Min_insert set_map)

section \<open>Blocking requests return the response\<close>

lemma remove_loop_Some:
  "remove_loop i ns = (Some n, ns') \<Longrightarrow> sn_id n = i \<and> mset ns = add_mset n (mset ns') \<and> length ns = Suc (length ns')"
  by (induction ns arbitrary: ns') (auto split: if_splits prod.splits)

lemma remove_loop_None: "remove_loop i ns = (None, ns') \<Longrightarrow> ns' = ns \<and> i \<notin> sn_id ` set ns"
  by (induction ns arbitrary: ns') (auto split: if_splits prod.splits)

lemma bh_wait_response_beginE:
  assumes "bh_wait_response_begin a i ctx = (node, ctx1)"
  obtains i' ctx0 where "node = (sync_node0 a)\<lparr>sn_id := i', sn_sync_type := 1\<rparr>" "ctx1 = add_sync_node node ctx0"
    "sc_list ctx0 = sc_list ctx" "sc_cnt ctx0 = sc_cnt ctx"
  using assms by (auto simp: bh_wait_response_begin_def bh_gen_id_def Let_def split: if_splits)

text \<open>C28.  A blocking request whose response arrives gets it: after the waiter has entered its node, a
  non-empty response for its identifier wakes exactly that waiter, the wait then returns the length and
  the bytes of the response, and the pending list is as before the request.\<close>

theorem bh_wait_response_delivers:
  assumes "bh_wait_response_begin a i ctx = (node, ctx1)" "mem (length resp)" "0 < length resp" "length resp < 2 ^ 31"
  shows "\<exists>ctx2 ctx3.
     bh_feed_response mem (sn_id node) (Some (resp @ rest)) (of_nat (length resp)) fmt ctx1 = Inr (ctx2, [Ev_Wakeup a]) \<and>
     bh_wait_response_end node ctx2 = Inr (int (length resp), Some resp, ctx3, False) \<and>
     sc_list ctx3 = sc_list ctx \<and> sc_cnt ctx3 = sc_cnt ctx"
proof -
  let ?l = "of_nat (length resp) :: u32"
  from assms(1) obtain i' ctx0 where node: "node = (sync_node0 a)\<lparr>sn_id := i', sn_sync_type := 1\<rparr>" "ctx1 = add_sync_node node ctx0"
    and c0: "sc_list ctx0 = sc_list ctx" "sc_cnt ctx0 = sc_cnt ctx"
    by (rule bh_wait_response_beginE)
  have u: "unat ?l = length resp" using assms(4) by (simp add: codec_simps)
  have nz: "?l \<noteq> 0" using u assms(3) by (metis less_irrefl unat_0)
  have si: "sint ?l = int (length resp)"
    using assms(4) u by (simp add: signed_of_nat signed_take_bit_int_eq_self)
  have rm: "remove_sync_node i' ctx1 = (Some node, ctx0)"
    by (cases ctx0) (simp add: node remove_sync_node_def add_sync_node_def)
  let ?n = "node\<lparr>sn_response := Some resp, sn_response_len := ?l, sn_response_fmt := fmt\<rparr>"
  have cp: "copy_response (Some (resp @ rest)) ?l = Inr resp" by (simp add: copy_response_def u)
  have "bh_feed_response mem (sn_id node) (Some (resp @ rest)) ?l fmt ctx1 = Inr (add_sync_node ?n ctx0, [Ev_Wakeup a])"
    using rm nz assms(2) by (simp add: bh_feed_response_def bh_feed_node_def node(1) u cp sync_node0_def)
  moreover have "bh_wait_response_end node (add_sync_node ?n ctx0) = Inr (int (length resp), Some resp, ctx0, False)"
    by (cases ctx0) (simp add: bh_wait_response_end_def remove_sync_node_def add_sync_node_def node(1) si)
  ultimately show ?thesis using c0 by blast
qed

theorem bh_wait_response_delivers_witness:
  "\<exists>ctx2 ctx3.
     bh_feed_response (\<lambda>_. True) 0 (Some ([4, 5] @ [])) (of_nat (length [4, 5 :: u8])) 1
       (snd (bh_wait_response_begin 9 (-1) (create_sync_ctx 0))) = Inr (ctx2, [Ev_Wakeup 9]) \<and>
     bh_wait_response_end (fst (bh_wait_response_begin 9 (-1) (create_sync_ctx 0))) ctx2 =
       Inr (int (length [4, 5 :: u8]), Some [4, 5], ctx3, False) \<and>
     sc_list ctx3 = sc_list (create_sync_ctx 0) \<and> sc_cnt ctx3 = sc_cnt (create_sync_ctx 0)"
proof -
  have "sn_id (fst (bh_wait_response_begin 9 (-1) (create_sync_ctx 0))) = 0" by code_simp
  then show ?thesis
    using bh_wait_response_delivers [of 9 "-1" "create_sync_ctx 0"
        "fst (bh_wait_response_begin 9 (-1) (create_sync_ctx 0))" "snd (bh_wait_response_begin 9 (-1) (create_sync_ctx 0))"
        "\<lambda>_. True" "[4, 5]" "[]" 1] by simp
qed

text \<open>The race of a timeout with a response: when the waiter gives up while the responder holds the
  node outside the list, the wait returns -1 and leaves the node to the responder, which frees it once
  and neither wakes a waiter nor puts the node back.\<close>

theorem bh_wait_response_race:
  assumes "bh_wait_response_begin a i ctx = (node, ctx1)" "remove_sync_node (sn_id node) ctx1 = (Some held, ctx2)"
    "sn_id node \<notin> sn_id ` set (sc_list ctx)"
  shows "held = node \<and> bh_wait_response_end node ctx2 = Inr (-1, None, ctx2, True) \<and>
    bh_feed_node mem (held\<lparr>sn_pending_delete := True\<rparr>) response len fmt ctx2 = Inr (ctx2, [Ev_Free a]) \<and>
    sc_list ctx2 = sc_list ctx"
proof -
  from assms(1) obtain i' ctx0 where node: "node = (sync_node0 a)\<lparr>sn_id := i', sn_sync_type := 1\<rparr>" "ctx1 = add_sync_node node ctx0"
    and c0: "sc_list ctx0 = sc_list ctx" "sc_cnt ctx0 = sc_cnt ctx"
    by (rule bh_wait_response_beginE)
  have "held = node" "ctx2 = ctx0"
    using assms(2) by (cases ctx0; simp add: node remove_sync_node_def add_sync_node_def)+
  moreover have "remove_loop i' (sc_list ctx0) = (None, sc_list ctx0)"
  proof (cases "remove_loop i' (sc_list ctx0)")
    case (Pair r ns)
    with remove_loop_Some [of i' "sc_list ctx0"] remove_loop_None [of i' "sc_list ctx0"] assms(3) show ?thesis
      by (cases r) (force simp: node c0 dest: arg_cong [where f = set_mset])+
  qed
  ultimately show ?thesis
    by (simp add: bh_wait_response_end_def remove_sync_node_def bh_feed_node_def node(1) sync_node0_def c0)
qed

theorem bh_wait_response_race_witness:
  "bh_wait_response_end ((sync_node0 9)\<lparr>sn_id := 0, sn_sync_type := 1\<rparr>) ((create_sync_ctx 0)\<lparr>sc_new_id := 1\<rparr>) =
     Inr (-1, None, (create_sync_ctx 0)\<lparr>sc_new_id := 1\<rparr>, True)"
proof -
  have b: "bh_wait_response_begin 9 (-1) (create_sync_ctx 0) =
      ((sync_node0 9)\<lparr>sn_id := 0, sn_sync_type := 1\<rparr>,
       add_sync_node ((sync_node0 9)\<lparr>sn_id := 0, sn_sync_type := 1\<rparr>) ((create_sync_ctx 0)\<lparr>sc_new_id := 1\<rparr>))"
    by code_simp
  have r: "remove_sync_node (sn_id ((sync_node0 9)\<lparr>sn_id := 0, sn_sync_type := 1\<rparr>))
      (add_sync_node ((sync_node0 9)\<lparr>sn_id := 0, sn_sync_type := 1\<rparr>) ((create_sync_ctx 0)\<lparr>sc_new_id := 1\<rparr>)) =
      (Some ((sync_node0 9)\<lparr>sn_id := 0, sn_sync_type := 1\<rparr>), (create_sync_ctx 0)\<lparr>sc_new_id := 1\<rparr>)"
    by code_simp
  show ?thesis using bh_wait_response_race [OF b r] by (simp add: create_sync_ctx_def)
qed

end
