(* ===== verification/Trans_Threads.thy ===== *)
theory Trans_Threads
  imports Transactions
begin

text \<open>
  The threads that share a transaction context (\<open>src/idr-mgt-shared-libs/lib/transaction.c\<close>).

  A step is one locked region of the source.  The context lock covers \<open>add_sync_node\<close>,
  \<open>remove_sync_node\<close>, \<open>bh_gen_id\<close>, \<open>bh_update_trans_timer\<close> and \<open>bh_remove_expired_trans\<close>, and nothing is
  held between two of them: a thread that feeds a response owns the node between line 237, which takes
  it off the list, and the lock of the node at line 245; a thread that handles expired transactions
  owns the nodes it removed and handles them one by one.  The lock of a blocking request's node covers
  lines 245-273 of \<open>bh_feed_response\<close> and lines 189-208 of \<open>bh_wait_response\<close> after the wait, and is what
  decides the race between them: a waiter that does not find its node marks it \<open>S_PENDING_DELETE\<close>.
  The wait may end at any moment, by a wake-up or by its timeout.
\<close>

section \<open>The system\<close>

text \<open>The context; the nodes held by threads inside \<open>bh_feed_response\<close>; the expired nodes not yet
  handled; the callback records in the queues of worker threads; the nodes of the threads blocked in
  \<open>bh_wait_response\<close>; the nodes allocated so far and the events so far.\<close>

record trans_sys =
  ts_ctx :: sync_ctx
  ts_held :: "sync_node list"
  ts_expired :: "sync_node list"
  ts_posted :: "callback list"
  ts_waiting :: "sync_node list"
  ts_made :: "nat list"
  ts_log :: "trans_event list"

fun ev_posts :: "trans_event list \<Rightarrow> callback list" where
  "ev_posts [] = []"
| "ev_posts (Ev_Post w c # evs) = c # ev_posts evs"
| "ev_posts (_ # evs) = ev_posts evs"

fun ev_frees :: "trans_event list \<Rightarrow> nat list" where
  "ev_frees [] = []"
| "ev_frees (Ev_Free a # evs) = a # ev_frees evs"
| "ev_frees (_ # evs) = ev_frees evs"

fun ev_calls :: "trans_event list \<Rightarrow> nat list" where
  "ev_calls [] = []"
| "ev_calls (Ev_Callback a cb d r l f # evs) = a # ev_calls evs"
| "ev_calls (_ # evs) = ev_calls evs"

definition wait_node :: "nat \<Rightarrow> u32 \<Rightarrow> sync_node" where
  "wait_node a i = (sync_node0 a)\<lparr>sn_id := i, sn_sync_type := 1\<rparr>"

definition async_node :: "nat \<Rightarrow> u32 \<Rightarrow> nat option \<Rightarrow> nat \<Rightarrow> u32 \<Rightarrow> nat option \<Rightarrow> sync_node" where
  "async_node a i cb d timeout w = (sync_node0 a)\<lparr>sn_id := i, sn_sync_type := 2, sn_context_data := d,
     sn_work_thread := w, sn_cb := cb, sn_timeout := timeout\<rparr>"

text \<open>The waiter's write \<open>node->sync_data.status = S_PENDING_DELETE\<close>, seen by the thread holding the node.\<close>

definition mark_pending :: "nat \<Rightarrow> sync_node \<Rightarrow> sync_node" where
  "mark_pending a n = (if sn_addr n = a then n\<lparr>sn_pending_delete := True\<rparr> else n)"

inductive trans_step :: "trans_sys \<Rightarrow> trans_sys \<Rightarrow> bool" where
  Gen_Id: "trans_step s (s\<lparr>ts_ctx := snd (bh_gen_id (ts_ctx s))\<rparr>)"
| Timer: "trans_step s (s\<lparr>ts_ctx := snd (bh_update_trans_timer now (ts_ctx s))\<rparr>)"
| Add_Async: "a \<notin> set (ts_made s) \<Longrightarrow>
    trans_step s (s\<lparr>ts_ctx := add_sync_node (async_node a i cb d timeout w) (ts_ctx s), ts_made := a # ts_made s\<rparr>)"
| Add_Wait: "a \<notin> set (ts_made s) \<Longrightarrow>
    trans_step s (s\<lparr>ts_ctx := add_sync_node (wait_node a i) (ts_ctx s), ts_made := a # ts_made s,
                    ts_waiting := wait_node a i # ts_waiting s\<rparr>)"
| Take: "remove_sync_node i (ts_ctx s) = (Some n, ctx') \<Longrightarrow>
    trans_step s (s\<lparr>ts_ctx := ctx', ts_held := n # ts_held s\<rparr>)"
| Feed: "ts_held s = hs @ n # hs' \<Longrightarrow> bh_feed_node mem n r l f (ts_ctx s) = Inr (ctx', evs) \<Longrightarrow>
    trans_step s (s\<lparr>ts_ctx := ctx', ts_held := hs @ hs', ts_posted := ts_posted s @ ev_posts evs, ts_log := ts_log s @ evs\<rparr>)"
| Finish: "ts_waiting s = ws @ node # ws' \<Longrightarrow> bh_wait_response_end node (ts_ctx s) = Inr (res, resp, ctx', False) \<Longrightarrow>
    trans_step s (s\<lparr>ts_ctx := ctx', ts_waiting := ws @ ws', ts_log := ts_log s @ [Ev_Free (sn_addr node)]\<rparr>)"
| Give_Up: "ts_waiting s = ws @ node # ws' \<Longrightarrow> bh_wait_response_end node (ts_ctx s) = Inr (res, resp, ctx', True) \<Longrightarrow>
    trans_step s (s\<lparr>ts_ctx := ctx', ts_waiting := ws @ ws', ts_held := map (mark_pending (sn_addr node)) (ts_held s)\<rparr>)"
| Expire: "bh_remove_expired_trans now (ts_ctx s) = (nearest, ex, ctx') \<Longrightarrow>
    trans_step s (s\<lparr>ts_ctx := ctx', ts_expired := ts_expired s @ ex\<rparr>)"
| Expire_One: "ts_expired s = es @ n # es' \<Longrightarrow> expire_node n = evs \<Longrightarrow>
    trans_step s (s\<lparr>ts_expired := es @ es', ts_posted := ts_posted s @ ev_posts evs, ts_log := ts_log s @ evs\<rparr>)"
| Run: "ts_posted s = cs @ c # cs' \<Longrightarrow> execute_callback_node c = Inr evs \<Longrightarrow>
    trans_step s (s\<lparr>ts_posted := cs @ cs', ts_log := ts_log s @ evs\<rparr>)"

inductive trans_reach :: "trans_sys \<Rightarrow> bool" where
  Init: "trans_reach \<lparr>ts_ctx = create_sync_ctx now, ts_held = [], ts_expired = [], ts_posted = [], ts_waiting = [],
     ts_made = [], ts_log = []\<rparr>"
| Step: "trans_reach s \<Longrightarrow> trans_step s s' \<Longrightarrow> trans_reach s'"

lemma ev_append [simp]:
  "ev_posts (as @ bs) = ev_posts as @ ev_posts bs"
  "ev_frees (as @ bs) = ev_frees as @ ev_frees bs"
  "ev_calls (as @ bs) = ev_calls as @ ev_calls bs"
  subgoal by (induction as rule: ev_posts.induct) auto
  subgoal by (induction as rule: ev_frees.induct) auto
  subgoal by (induction as rule: ev_calls.induct) auto
  done

section \<open>The functions are sequences of steps\<close>

text \<open>An undisturbed call of each function of \<open>transaction.c\<close> is a run of the system.\<close>

lemma async_steps:
  assumes "a \<notin> set (ts_made s)" "bh_wait_response_async now a i cb d timeout w (ts_ctx s) = (i', ctx')"
  shows "trans_step\<^sup>*\<^sup>* s (s\<lparr>ts_ctx := ctx', ts_made := a # ts_made s\<rparr>)"
proof -
  let ?t = "s\<lparr>ts_ctx := snd (bh_update_trans_timer now (ts_ctx s))\<rparr>"
  let ?g = "?t\<lparr>ts_ctx := snd (bh_gen_id (ts_ctx ?t))\<rparr>"
  have 1: "trans_step s ?t" by (rule Timer)
  have 2: "trans_step ?t ?g" by (rule Gen_Id)
  show ?thesis
  proof (cases "i = -1")
    case True
    have "trans_step ?g (?g\<lparr>ts_ctx := add_sync_node (async_node a (fst (bh_gen_id (ts_ctx ?t))) cb d timeout w) (ts_ctx ?g), ts_made := a # ts_made ?g\<rparr>)"
      by (rule Add_Async) (use assms(1) in simp)
    with 1 2 show ?thesis using True assms(2)
      by (auto simp: bh_wait_response_async_def async_node_def Let_def split: prod.splits intro: converse_rtranclp_into_rtranclp)
  next
    case False
    have "trans_step ?t (?t\<lparr>ts_ctx := add_sync_node (async_node a i cb d timeout w) (ts_ctx ?t), ts_made := a # ts_made ?t\<rparr>)"
      by (rule Add_Async) (use assms(1) in simp)
    with 1 show ?thesis using False assms(2)
      by (auto simp: bh_wait_response_async_def async_node_def Let_def split: prod.splits intro: converse_rtranclp_into_rtranclp)
  qed
qed

lemma wait_begin_steps:
  assumes "a \<notin> set (ts_made s)" "bh_wait_response_begin a i (ts_ctx s) = (node, ctx')"
  shows "trans_step\<^sup>*\<^sup>* s (s\<lparr>ts_ctx := ctx', ts_made := a # ts_made s, ts_waiting := node # ts_waiting s\<rparr>)"
proof -
  let ?g = "s\<lparr>ts_ctx := snd (bh_gen_id (ts_ctx s))\<rparr>"
  have g: "trans_step s ?g" by (rule Gen_Id)
  have w: "trans_step t (t\<lparr>ts_ctx := add_sync_node (wait_node a j) (ts_ctx t), ts_made := a # ts_made t,
      ts_waiting := wait_node a j # ts_waiting t\<rparr>)" if "ts_made t = ts_made s" for t j
    by (rule Add_Wait) (use assms(1) that in simp)
  show ?thesis
  proof (cases "i = -1")
    case True
    then show ?thesis using g w [of ?g "fst (bh_gen_id (ts_ctx s))"] assms(2)
      by (auto simp: bh_wait_response_begin_def wait_node_def Let_def split: prod.splits intro: converse_rtranclp_into_rtranclp)
  next
    case False
    then show ?thesis using w [of s i] assms(2) by (auto simp: bh_wait_response_begin_def wait_node_def Let_def)
  qed
qed

lemma feed_steps:
  assumes "bh_feed_response mem i r l f (ts_ctx s) = Inr (ctx', evs)"
  shows "trans_step\<^sup>*\<^sup>* s (s\<lparr>ts_ctx := ctx', ts_posted := ts_posted s @ ev_posts evs, ts_log := ts_log s @ evs\<rparr>)"
proof (cases "remove_sync_node i (ts_ctx s)")
  case (Pair n ctx1)
  show ?thesis
  proof (cases n)
    case None
    then have "ctx1 = ts_ctx s" using Pair by (auto simp: remove_sync_node_def split: prod.splits option.splits)
    then show ?thesis using assms Pair None by (auto simp: bh_feed_response_def)
  next
    case (Some m)
    let ?t = "s\<lparr>ts_ctx := ctx1, ts_held := m # ts_held s\<rparr>"
    have t: "trans_step s ?t" by (rule Take) (use Pair Some in simp)
    have "trans_step ?t (?t\<lparr>ts_ctx := ctx', ts_held := [] @ ts_held s, ts_posted := ts_posted ?t @ ev_posts evs, ts_log := ts_log ?t @ evs\<rparr>)"
      by (rule Feed) (use assms Pair Some in \<open>auto simp: bh_feed_response_def\<close>)
    with t show ?thesis by (auto intro: converse_rtranclp_into_rtranclp)
  qed
qed

lemma expire_one_steps:
  "ts_expired s = es @ ns \<Longrightarrow>
   trans_step\<^sup>*\<^sup>* s (s\<lparr>ts_expired := es, ts_posted := ts_posted s @ ev_posts (concat (map expire_node ns)),
     ts_log := ts_log s @ concat (map expire_node ns)\<rparr>)"
proof (induction ns arbitrary: s)
  case (Cons n ns)
  let ?t = "s\<lparr>ts_expired := es @ ns, ts_posted := ts_posted s @ ev_posts (expire_node n), ts_log := ts_log s @ expire_node n\<rparr>"
  have "trans_step s ?t" by (rule Expire_One) (use Cons.prems in simp_all)
  with Cons.IH [of ?t] show ?case by (auto intro: converse_rtranclp_into_rtranclp)
qed auto

lemma expire_steps:
  assumes "bh_handle_expired_trans now (ts_ctx s) = (nearest, ctx', evs)"
  shows "trans_step\<^sup>*\<^sup>* s (s\<lparr>ts_ctx := ctx', ts_posted := ts_posted s @ ev_posts evs, ts_log := ts_log s @ evs\<rparr>)"
proof -
  obtain ex where r: "bh_remove_expired_trans now (ts_ctx s) = (nearest, ex, ctx')" "evs = concat (map expire_node ex)"
    using assms by (auto simp: bh_handle_expired_trans_def split: prod.splits)
  let ?t = "s\<lparr>ts_ctx := ctx', ts_expired := ts_expired s @ ex\<rparr>"
  have "trans_step s ?t" by (rule Expire) (rule r(1))
  with expire_one_steps [of ?t "ts_expired s" ex] show ?thesis
    using r(2) by (auto intro: converse_rtranclp_into_rtranclp)
qed

section \<open>Where the nodes are\<close>

text \<open>On the list, held by a feeder, expired, in a worker's queue, or freed.\<close>

definition ts_nodes :: "trans_sys \<Rightarrow> nat multiset" where
  "ts_nodes s = image_mset sn_addr (mset (sc_list (ts_ctx s)) + mset (ts_held s) + mset (ts_expired s)) +
     image_mset (\<lambda>c. sn_addr (ck_transaction c)) (mset (ts_posted s)) + mset (ev_frees (ts_log s))"

text \<open>The nodes a thread is still blocked on, by address and identifier.\<close>

definition waited :: "sync_node \<Rightarrow> bool" where
  "waited n \<longleftrightarrow> sn_sync_type n = 1 \<and> \<not> sn_pending_delete n"

abbreviation node_key :: "sync_node \<Rightarrow> nat \<times> u32" where
  "node_key n \<equiv> (sn_addr n, sn_id n)"

definition ts_waited :: "trans_sys \<Rightarrow> (nat \<times> u32) multiset" where
  "ts_waited s = image_mset node_key (filter_mset waited (mset (sc_list (ts_ctx s)) + mset (ts_held s)))"

definition trans_inv :: "trans_sys \<Rightarrow> bool" where
  "trans_inv s \<longleftrightarrow> ts_nodes s = mset (ts_made s) \<and> distinct (ts_made s) \<and>
     mset (ev_calls (ts_log s)) \<subseteq># mset (ev_frees (ts_log s)) \<and>
     sc_cnt (ts_ctx s) = of_nat (length (sc_list (ts_ctx s))) \<and>
     (\<forall>c \<in> set (ts_posted s). sn_work_thread (ck_transaction c) = None) \<and>
     ts_waited s = image_mset node_key (mset (ts_waiting s)) \<and>
     (\<forall>n \<in> set (sc_list (ts_ctx s)). \<not> sn_pending_delete n) \<and>
     (\<forall>n \<in> set (ts_expired s). sn_sync_type n \<noteq> 1)"

text \<open>What the events of an operation account for.\<close>

definition ev_nodes :: "trans_event list \<Rightarrow> nat multiset" where
  "ev_nodes evs = image_mset (\<lambda>c. sn_addr (ck_transaction c)) (mset (ev_posts evs)) + mset (ev_frees evs)"

definition ev_ok :: "trans_event list \<Rightarrow> bool" where
  "ev_ok evs \<longleftrightarrow> mset (ev_calls evs) \<subseteq># mset (ev_frees evs) \<and>
     (\<forall>c \<in> set (ev_posts evs). sn_work_thread (ck_transaction c) = None)"

lemma ev_nodes_append: "ev_nodes (as @ bs) = ev_nodes as + ev_nodes bs"
  by (simp add: ev_nodes_def)

lemma ev_ok_append: "ev_ok as \<Longrightarrow> ev_ok bs \<Longrightarrow> ev_ok (as @ bs)"
  by (auto simp: ev_ok_def subset_mset.add_mono)

lemma bh_feed_transaction_ev:
  "bh_feed_transaction n r l f = Inr evs \<Longrightarrow> ev_nodes evs = {#sn_addr n#} \<and> ev_ok evs \<and> ev_posts evs = []"
  by (auto simp: bh_feed_transaction_def ev_nodes_def ev_ok_def split: if_splits option.splits)

lemma expire_node_ev: "ev_nodes (expire_node n) = {#sn_addr n#} \<and> ev_ok (expire_node n)"
  by (auto simp: expire_node_def ev_nodes_def ev_ok_def split: option.splits)

lemma expire_loop_nodes:
  "image_mset sn_addr (mset (sc_list ctx)) =
     image_mset sn_addr (mset (sc_list (snd (snd (bh_remove_expired_trans now ctx))))) +
     image_mset sn_addr (mset (fst (snd (bh_remove_expired_trans now ctx))))"
proof -
  have "image_mset sn_addr (mset ns) = image_mset sn_addr (mset (map (trans_tick el) (filter (\<lambda>n. \<not> trans_expired el n) ns))) +
      image_mset sn_addr (mset (map (\<lambda>n. n\<lparr>sn_timeout := 0\<rparr>) (filter (trans_expired el) ns)))" for el ns
    by (induction ns) (auto simp: trans_tick_def)
  then show ?thesis
    by (simp add: bh_remove_expired_trans_def elapsed_eq expire_loop_eq)
qed

lemma expire_loop_cnt:
  assumes "sc_cnt ctx = of_nat (length (sc_list ctx))" "bh_remove_expired_trans now ctx = (r, ex, ctx')"
  shows "sc_cnt ctx' = of_nat (length (sc_list ctx'))"
proof -
  have "length (sc_list ctx) = length (sc_list ctx') + length ex"
    using arg_cong [OF expire_loop_nodes [of ctx now], of size] assms(2) by simp
  moreover have "sc_cnt ctx' = sc_cnt ctx - of_nat (length ex)"
    using assms(2) by (auto simp: bh_remove_expired_trans_def elapsed_eq split: prod.splits)
  ultimately show ?thesis using assms(1) by simp
qed

lemma timer_loop_addr: "map sn_addr (snd (timer_loop el ns)) = map sn_addr ns"
  by (induction ns) (auto split: prod.splits)

lemma update_timer_inv:
  "map sn_addr (sc_list (snd (bh_update_trans_timer now ctx))) = map sn_addr (sc_list ctx)"
  "sc_cnt (snd (bh_update_trans_timer now ctx)) = sc_cnt ctx"
  using timer_loop_addr [of "ucast now - sc_last_check ctx" "sc_list ctx"]
  by (auto simp: bh_update_trans_timer_def elapsed_eq split: prod.splits)

lemma remove_sync_node_inv:
  assumes "remove_sync_node i ctx = (Some n, ctx')"
  shows "image_mset sn_addr (mset (sc_list ctx)) = add_mset (sn_addr n) (image_mset sn_addr (mset (sc_list ctx')))"
    "sc_cnt ctx = of_nat (length (sc_list ctx)) \<Longrightarrow> sc_cnt ctx' = of_nat (length (sc_list ctx'))"
  using assms by (auto simp: remove_sync_node_def split: prod.splits option.splits dest!: remove_loop_Some)

lemma bh_feed_node_ev:
  assumes "bh_feed_node mem n r l f ctx = Inr (ctx', evs)"
  shows "image_mset sn_addr (mset (sc_list ctx')) + ev_nodes evs = add_mset (sn_addr n) (image_mset sn_addr (mset (sc_list ctx)))"
    "ev_ok evs" "sc_cnt ctx = of_nat (length (sc_list ctx)) \<Longrightarrow> sc_cnt ctx' = of_nat (length (sc_list ctx'))"
  using assms bh_feed_transaction_ev [of n r l f]
  by (auto simp: bh_feed_node_def add_sync_node_def ev_nodes_def ev_ok_def map_sum_def
      split: if_splits sum.splits)


text \<open>What the operations do to the nodes somebody waits for.\<close>

abbreviation waited_keys :: "sync_node list \<Rightarrow> (nat \<times> u32) multiset" where
  "waited_keys ns \<equiv> image_mset node_key (filter_mset waited (mset ns))"

lemma ts_waited_alt: "ts_waited s = waited_keys (sc_list (ts_ctx s)) + waited_keys (ts_held s)"
  by (simp add: ts_waited_def)

lemma timer_loop_waited:
  "waited_keys (snd (timer_loop el ns)) = waited_keys ns \<and>
   ((\<forall>n \<in> set (snd (timer_loop el ns)). \<not> sn_pending_delete n) \<longleftrightarrow> (\<forall>n \<in> set ns. \<not> sn_pending_delete n))"
  by (induction ns) (auto simp: waited_def split: prod.splits)

lemma expire_waited:
  assumes "bh_remove_expired_trans now ctx = (r, ex, ctx')"
  shows "waited_keys (sc_list ctx') = waited_keys (sc_list ctx)"
    "\<forall>n \<in> set (sc_list ctx). \<not> sn_pending_delete n \<Longrightarrow> \<forall>n \<in> set (sc_list ctx'). \<not> sn_pending_delete n"
    "\<forall>n \<in> set ex. sn_sync_type n \<noteq> 1"
proof -
  have "waited_keys (map (trans_tick el) (filter (\<lambda>n. \<not> trans_expired el n) ns)) = waited_keys ns" for el ns
    by (induction ns) (auto simp: trans_tick_def trans_expired_def waited_def)
  then show "waited_keys (sc_list ctx') = waited_keys (sc_list ctx)"
    using assms by (auto simp: bh_remove_expired_trans_def elapsed_eq expire_loop_eq)
  show "\<forall>n \<in> set (sc_list ctx). \<not> sn_pending_delete n \<Longrightarrow> \<forall>n \<in> set (sc_list ctx'). \<not> sn_pending_delete n"
    "\<forall>n \<in> set ex. sn_sync_type n \<noteq> 1"
    using assms by (auto simp: bh_remove_expired_trans_def elapsed_eq expire_loop_eq trans_expired_def trans_tick_def)
qed

lemma remove_sync_node_waited:
  assumes "remove_sync_node i ctx = (Some n, ctx')"
  shows "mset (sc_list ctx) = add_mset n (mset (sc_list ctx'))" "sn_id n = i"
  using assms by (auto simp: remove_sync_node_def split: prod.splits option.splits dest!: remove_loop_Some)

lemma bh_feed_node_waited:
  assumes "bh_feed_node mem n r l f ctx = Inr (ctx', evs)"
  shows "waited_keys (sc_list ctx') = waited_keys (n # sc_list ctx)"
    "\<forall>m \<in> set (sc_list ctx). \<not> sn_pending_delete m \<Longrightarrow> \<forall>m \<in> set (sc_list ctx'). \<not> sn_pending_delete m"
  using assms by (auto simp: bh_feed_node_def add_sync_node_def waited_def map_sum_def split: if_splits sum.splits)

lemma mark_pending_waited:
  assumes "distinct (map sn_addr ns)" "n \<in> set ns" "waited n"
  shows "waited_keys ns = add_mset (node_key n) (waited_keys (map (mark_pending (sn_addr n)) ns))"
  using assms(1,2)
proof (induction ns)
  case (Cons m ns)
  show ?case
  proof (cases "m = n")
    case True
    then have "\<forall>k \<in> set ns. sn_addr k \<noteq> sn_addr n" using Cons.prems(1) by (simp add: image_iff) metis
    then have "map (mark_pending (sn_addr n)) ns = ns" by (intro map_idI) (auto simp: mark_pending_def)
    moreover have "\<not> waited (mark_pending (sn_addr n) n)" by (simp add: mark_pending_def waited_def)
    ultimately show ?thesis using True assms(3) by (simp del: mset_map)
  next
    case False
    then have "n \<in> set ns" "sn_addr m \<noteq> sn_addr n" using Cons.prems by auto
    moreover from this have "mark_pending (sn_addr n) m = m" by (simp add: mark_pending_def)
    ultimately show ?thesis using Cons by (simp del: mset_map)
  qed
qed simp

lemma mark_pending_addr [simp]: "sn_addr (mark_pending a n) = sn_addr n"
  by (simp add: mark_pending_def)

section \<open>The invariant\<close>

lemma trans_inv_places:
  assumes "trans_inv s"
  shows "mset (map sn_addr (sc_list (ts_ctx s) @ ts_held s @ ts_expired s) @ map (\<lambda>c. sn_addr (ck_transaction c)) (ts_posted s) @
     ev_frees (ts_log s)) = mset (ts_made s)"
    "distinct (map sn_addr (sc_list (ts_ctx s) @ ts_held s @ ts_expired s) @ map (\<lambda>c. sn_addr (ck_transaction c)) (ts_posted s) @
     ev_frees (ts_log s))"
proof -
  show m: "mset (map sn_addr (sc_list (ts_ctx s) @ ts_held s @ ts_expired s) @ map (\<lambda>c. sn_addr (ck_transaction c)) (ts_posted s) @
     ev_frees (ts_log s)) = mset (ts_made s)"
    using assms by (simp add: trans_inv_def ts_nodes_def add.assoc)
  show "distinct (map sn_addr (sc_list (ts_ctx s) @ ts_held s @ ts_expired s) @ map (\<lambda>c. sn_addr (ck_transaction c)) (ts_posted s) @
     ev_frees (ts_log s))"
    using assms mset_eq_imp_distinct_iff [OF m] by (simp add: trans_inv_def)
qed

text \<open>The node of a waiter is on the list or held, and nobody has given it up.\<close>

lemma trans_inv_waiter:
  assumes "trans_inv s" "w \<in> set (ts_waiting s)"
  obtains n where "n \<in> set (sc_list (ts_ctx s)) \<union> set (ts_held s)" "node_key n = node_key w" "waited n"
proof -
  have "node_key w \<in># ts_waited s" using assms by (auto simp: trans_inv_def)
  then obtain n where "n \<in># mset (sc_list (ts_ctx s)) + mset (ts_held s)" "waited n" "node_key n = node_key w"
    unfolding ts_waited_def by force
  then show ?thesis using that [of n] by auto
qed

lemma trans_inv_events:
  assumes "trans_inv s" "ev_ok evs"
    "mset (map sn_addr (sc_list ctx' @ hs @ es)) + ev_nodes evs = mset (map sn_addr (sc_list (ts_ctx s) @ ts_held s @ ts_expired s))"
    "sc_cnt ctx' = of_nat (length (sc_list ctx'))"
    "waited_keys (sc_list ctx') + waited_keys hs = image_mset node_key (mset (ts_waiting s))"
    "\<forall>n \<in> set (sc_list ctx'). \<not> sn_pending_delete n" "\<forall>n \<in> set es. sn_sync_type n \<noteq> 1"
  shows "trans_inv (s\<lparr>ts_ctx := ctx', ts_held := hs, ts_expired := es, ts_posted := ts_posted s @ ev_posts evs, ts_log := ts_log s @ evs\<rparr>)"
proof -
  have "ts_nodes (s\<lparr>ts_ctx := ctx', ts_held := hs, ts_expired := es, ts_posted := ts_posted s @ ev_posts evs, ts_log := ts_log s @ evs\<rparr>)
      = (mset (map sn_addr (sc_list ctx' @ hs @ es)) + ev_nodes evs) +
        (image_mset (\<lambda>c. sn_addr (ck_transaction c)) (mset (ts_posted s)) + mset (ev_frees (ts_log s)))"
    by (simp add: ts_nodes_def ev_nodes_def)
  then have "ts_nodes (s\<lparr>ts_ctx := ctx', ts_held := hs, ts_expired := es, ts_posted := ts_posted s @ ev_posts evs, ts_log := ts_log s @ evs\<rparr>)
      = ts_nodes s"
    unfolding assms(3) by (simp add: ts_nodes_def)
  then show ?thesis
    using assms by (auto simp: trans_inv_def ev_ok_def ts_waited_alt subset_mset.add_mono)
qed

lemma trans_inv_remove:
  assumes "trans_inv s" "remove_sync_node i (ts_ctx s) = (Some n, ctx')"
  shows "sc_cnt ctx' = of_nat (length (sc_list ctx'))" "n \<in> set (sc_list (ts_ctx s))" "\<not> sn_pending_delete n"
    "\<forall>m \<in> set (sc_list ctx'). \<not> sn_pending_delete m"
proof -
  note m = remove_sync_node_waited(1) [OF assms(2)]
  show "sc_cnt ctx' = of_nat (length (sc_list ctx'))"
    using remove_sync_node_inv(2) [OF assms(2)] assms(1) by (simp add: trans_inv_def)
  show n: "n \<in> set (sc_list (ts_ctx s))" using m by (metis set_mset_mset union_single_eq_member)
  then show "\<not> sn_pending_delete n" using assms(1) by (simp add: trans_inv_def)
  have "set (sc_list ctx') \<subseteq> set (sc_list (ts_ctx s))" using m by (metis set_mset_mset set_mset_mono mset_subset_eq_add_right add_mset_add_single subset_mset.eq_refl union_commute mset_subset_eq_add_left)
  then show "\<forall>m \<in> set (sc_list ctx'). \<not> sn_pending_delete m" using assms(1) by (auto simp: trans_inv_def)
qed

lemma distinct_key_eq:
  assumes "distinct (map f (xs @ ys @ zs) @ ws)" "x \<in> set xs \<union> set ys" "y \<in> set xs" "f x = f y"
  shows "x = y"
proof -
  have "inj_on f (set (xs @ ys))" using assms(1) by (auto simp: distinct_map inj_on_Un)
  then show ?thesis using assms(2-) by (auto simp: inj_on_def)
qed

lemma finish_inv:
  assumes "trans_inv s" "ts_waiting s = ws @ node # ws'" "bh_wait_response_end node (ts_ctx s) = Inr (res, resp, ctx', False)"
  shows "trans_inv (s\<lparr>ts_ctx := ctx', ts_waiting := ws @ ws', ts_log := ts_log s @ [Ev_Free (sn_addr node)]\<rparr>)"
proof -
  obtain n where r: "remove_sync_node (sn_id node) (ts_ctx s) = (Some n, ctx')" and a: "sn_addr n = sn_addr node"
    using assms(3) by (auto simp: bh_wait_response_end_def split: prod.splits option.splits if_splits)
  note m = remove_sync_node_waited [OF r] and k = trans_inv_remove [OF assms(1) r]
  obtain w where w: "w \<in> set (sc_list (ts_ctx s)) \<union> set (ts_held s)" "node_key w = node_key node" "waited w"
    using trans_inv_waiter [OF assms(1), of node] assms(2) by auto
  have "w = n"
    using w(1,2) k(2) a by (intro distinct_key_eq [where f = sn_addr, OF trans_inv_places(2) [OF assms(1)]]) auto
  then have wk: "waited_keys (sc_list (ts_ctx s)) = add_mset (node_key node) (waited_keys (sc_list ctx'))"
    using m(1) w by simp
  have "ts_nodes (s\<lparr>ts_ctx := ctx', ts_waiting := ws @ ws', ts_log := ts_log s @ [Ev_Free (sn_addr node)]\<rparr>) = ts_nodes s"
    by (simp add: ts_nodes_def m(1) a)
  moreover have "mset (ev_calls (ts_log s)) \<subseteq># add_mset (sn_addr node) (mset (ev_frees (ts_log s)))"
    using assms(1) by (auto simp: trans_inv_def intro: subset_mset.order_trans)
  ultimately show ?thesis
    using assms(1,2) wk k by (simp add: trans_inv_def ts_waited_alt)
qed

lemma give_up_inv:
  assumes "trans_inv s" "ts_waiting s = ws @ node # ws'" "bh_wait_response_end node (ts_ctx s) = Inr (res, resp, ctx', True)"
  shows "trans_inv (s\<lparr>ts_ctx := ctx', ts_waiting := ws @ ws', ts_held := map (mark_pending (sn_addr node)) (ts_held s)\<rparr>)"
proof -
  have c: "ctx' = ts_ctx s" and i: "sn_id node \<notin> sn_id ` set (sc_list (ts_ctx s))"
    using assms(3) remove_loop_None [of "sn_id node" "sc_list (ts_ctx s)"]
    by (auto simp: bh_wait_response_end_def remove_sync_node_def split: prod.splits option.splits if_splits)
  obtain w where "w \<in> set (sc_list (ts_ctx s)) \<union> set (ts_held s)" and w: "node_key w = node_key node" "waited w"
    using trans_inv_waiter [OF assms(1), of node] assms(2) by auto
  then have h: "w \<in> set (ts_held s)" using i by (metis Un_iff image_eqI snd_conv)
  have "waited_keys (ts_held s) = add_mset (node_key w) (waited_keys (map (mark_pending (sn_addr w)) (ts_held s)))"
    using trans_inv_places(2) [OF assms(1)] h w(2) by (intro mark_pending_waited) (simp_all add: distinct_map)
  moreover have "ts_nodes (s\<lparr>ts_ctx := ctx', ts_waiting := ws @ ws', ts_held := map (mark_pending (sn_addr node)) (ts_held s)\<rparr>) = ts_nodes s"
    by (simp add: ts_nodes_def c multiset.map_comp comp_def)
  ultimately show ?thesis
    using assms(1,2) w(1) c by (simp add: trans_inv_def ts_waited_alt)
qed

lemma trans_step_inv:
  assumes "trans_step s s'" "trans_inv s"
  shows "trans_inv s'"
  using assms(1)
proof (cases rule: trans_step.cases)
  case Gen_Id
  then show ?thesis using assms(2) by (simp add: trans_inv_def ts_nodes_def ts_waited_alt bh_gen_id_def Let_def)
next
  case (Timer now)
  have "mset (map sn_addr (sc_list (snd (bh_update_trans_timer now (ts_ctx s))))) = mset (map sn_addr (sc_list (ts_ctx s)))"
    "length (sc_list (snd (bh_update_trans_timer now (ts_ctx s)))) = length (sc_list (ts_ctx s))"
    using update_timer_inv(1) [of now "ts_ctx s"] by (simp, metis length_map)
  moreover have "waited_keys (sc_list (snd (bh_update_trans_timer now (ts_ctx s)))) = waited_keys (sc_list (ts_ctx s))"
    "\<forall>n \<in> set (sc_list (snd (bh_update_trans_timer now (ts_ctx s)))). \<not> sn_pending_delete n"
    using timer_loop_waited [of "ucast now - sc_last_check (ts_ctx s)" "sc_list (ts_ctx s)"] assms(2)
    by (auto simp: bh_update_trans_timer_def elapsed_eq trans_inv_def split: prod.splits)
  ultimately show ?thesis using Timer assms(2) by (simp add: trans_inv_def ts_nodes_def ts_waited_alt update_timer_inv(2))
next
  case (Add_Async a i cb d timeout w)
  then show ?thesis using assms(2)
    by (simp add: trans_inv_def ts_nodes_def ts_waited_alt add_sync_node_def async_node_def sync_node0_def waited_def)
next
  case (Add_Wait a i)
  then show ?thesis using assms(2)
    by (simp add: trans_inv_def ts_nodes_def ts_waited_alt add_sync_node_def wait_node_def sync_node0_def waited_def)
next
  case (Take i n ctx')
  then show ?thesis
    using trans_inv_events [OF assms(2), of "[]" ctx' "n # ts_held s" "ts_expired s"] trans_inv_remove [OF assms(2) Take(2)]
      remove_sync_node_waited(1) [OF Take(2)] assms(2)
    by (cases "waited n") (simp_all add: ev_ok_def ev_nodes_def trans_inv_def ts_waited_alt)
next
  case (Feed hs n hs' mem r l f ctx' evs)
  show ?thesis unfolding Feed(1)
    using trans_inv_events [OF assms(2), of evs ctx' "hs @ hs'" "ts_expired s"] bh_feed_node_ev [OF Feed(3)]
      bh_feed_node_waited [OF Feed(3)] assms(2) Feed(2)
    by (cases "waited n") (simp_all add: trans_inv_def ts_waited_alt)
next
  case (Finish ws node ws' res resp ctx')
  show ?thesis unfolding Finish(1) by (rule finish_inv [OF assms(2) Finish(2,3)])
next
  case (Give_Up ws node ws' res resp ctx')
  show ?thesis unfolding Give_Up(1) by (rule give_up_inv [OF assms(2) Give_Up(2,3)])
next
  case (Expire now nearest ex ctx')
  show ?thesis unfolding Expire(1)
    using trans_inv_events [OF assms(2), of "[]" ctx' "ts_held s" "ts_expired s @ ex"] expire_loop_nodes [of "ts_ctx s" now]
      expire_loop_cnt [OF _ Expire(2)] expire_waited [OF Expire(2)] assms(2) Expire(2)
    by (simp add: ev_ok_def ev_nodes_def trans_inv_def ts_waited_alt ball_Un)
next
  case (Expire_One es n es' evs)
  show ?thesis unfolding Expire_One(1)
    using trans_inv_events [OF assms(2), of evs "ts_ctx s" "ts_held s" "es @ es'"] expire_node_ev [of n] assms(2) Expire_One(2,3)
    by (simp add: trans_inv_def ts_waited_alt)
next
  case (Run cs c cs' evs)
  then have "ev_nodes evs = {#sn_addr (ck_transaction c)#}" "ev_ok evs" "ev_posts evs = []"
    using bh_feed_transaction_ev unfolding execute_callback_node_def by blast+
  moreover from this(2) have "mset (ev_calls (ts_log s)) + mset (ev_calls evs) \<subseteq># mset (ev_frees (ts_log s)) + mset (ev_frees evs)"
    using assms(2) by (intro subset_mset.add_mono) (simp_all add: trans_inv_def ev_ok_def)
  ultimately show ?thesis using Run assms(2)
    by (auto simp: trans_inv_def ts_nodes_def ev_nodes_def ts_waited_alt)
qed

lemma trans_reach_inv: "trans_reach s \<Longrightarrow> trans_inv s"
proof (induction rule: trans_reach.induct)
  case (Init now)
  then show ?case by (simp add: trans_inv_def ts_nodes_def ts_waited_alt create_sync_ctx_def)
next
  case (Step s s')
  then show ?case using trans_step_inv by blast
qed

lemma distinct_submset:
  assumes "mset xs \<subseteq># mset ys" "distinct ys"
  shows "distinct xs" "set xs \<subseteq> set ys"
proof -
  have "count (mset xs) a \<le> 1" for a
    using mset_subset_eq_count [OF assms(1), of a] assms(2) distinct_count_atmost_1 [of ys]
    by (metis le_trans le_refl zero_le_one)
  then show "distinct xs" unfolding distinct_count_atmost_1 by (auto simp: le_Suc_eq count_mset_0_iff)
  show "set xs \<subseteq> set ys" using set_mset_mono [OF assms(1)] by simp
qed

text \<open>C4.  Every transaction ends exactly once, whatever the threads do: in every state reachable by
  interleaving the locked regions of any number of threads that register requests, block on them,
  feed responses, run the expiry and execute callbacks, each node ever allocated is in exactly one
  place - on the list, held by a feeder, expired, in a worker's queue, or freed - so it is never freed
  twice and never lost; a callback is called at most once per transaction and only for one that ends;
  the counter is the length of the list; the node of every thread still blocked is on the list or held
  and not marked, so a waiter never touches freed memory; and a blocking node on the list always has its
  waiter: one whose waiter gave up is not put back.\<close>

theorem trans_ends_once:
  assumes "trans_reach s"
  shows "distinct (map sn_addr (sc_list (ts_ctx s) @ ts_held s @ ts_expired s) @
      map (\<lambda>c. sn_addr (ck_transaction c)) (ts_posted s) @ ev_frees (ts_log s)) \<and>
    set (map sn_addr (sc_list (ts_ctx s) @ ts_held s @ ts_expired s) @
      map (\<lambda>c. sn_addr (ck_transaction c)) (ts_posted s) @ ev_frees (ts_log s)) = set (ts_made s) \<and>
    distinct (ev_calls (ts_log s)) \<and> set (ev_calls (ts_log s)) \<subseteq> set (ev_frees (ts_log s)) \<and>
    sc_cnt (ts_ctx s) = of_nat (length (sc_list (ts_ctx s))) \<and>
    (\<forall>w \<in> set (ts_waiting s). \<exists>n \<in> set (sc_list (ts_ctx s)) \<union> set (ts_held s).
       sn_addr n = sn_addr w \<and> sn_id n = sn_id w \<and> sn_sync_type n = 1 \<and> \<not> sn_pending_delete n) \<and>
    (\<forall>n \<in> set (sc_list (ts_ctx s)). sn_sync_type n = 1 \<longrightarrow> sn_addr n \<in> sn_addr ` set (ts_waiting s))"
proof (intro conjI ballI impI)
  have inv: "trans_inv s" using assms by (rule trans_reach_inv)
  let ?xs = "map sn_addr (sc_list (ts_ctx s) @ ts_held s @ ts_expired s) @
      map (\<lambda>c. sn_addr (ck_transaction c)) (ts_posted s) @ ev_frees (ts_log s)"
  show d: "distinct ?xs" by (rule trans_inv_places(2) [OF inv])
  show "set ?xs = set (ts_made s)" by (rule mset_eq_setD [OF trans_inv_places(1) [OF inv]])
  have sub: "mset (ev_calls (ts_log s)) \<subseteq># mset (ev_frees (ts_log s))" using inv by (simp add: trans_inv_def)
  have "distinct (ev_frees (ts_log s))" using d by simp
  from distinct_submset [OF sub this] show "distinct (ev_calls (ts_log s))" "set (ev_calls (ts_log s)) \<subseteq> set (ev_frees (ts_log s))" .
  show "sc_cnt (ts_ctx s) = of_nat (length (sc_list (ts_ctx s)))" using inv by (simp add: trans_inv_def)
  show "\<exists>n \<in> set (sc_list (ts_ctx s)) \<union> set (ts_held s). sn_addr n = sn_addr w \<and> sn_id n = sn_id w \<and> sn_sync_type n = 1 \<and> \<not> sn_pending_delete n"
    if "w \<in> set (ts_waiting s)" for w
    using trans_inv_waiter [OF inv that] unfolding waited_def by (metis Pair_inject)
  show "sn_addr n \<in> sn_addr ` set (ts_waiting s)" if "n \<in> set (sc_list (ts_ctx s))" "sn_sync_type n = 1" for n
  proof -
    have "waited n" using that inv by (simp add: waited_def trans_inv_def)
    then have "node_key n \<in># ts_waited s" using that by (auto simp: ts_waited_def)
    then have "node_key n \<in># image_mset node_key (mset (ts_waiting s))" using inv by (simp add: trans_inv_def)
    then show ?thesis by auto
  qed
qed

text \<open>A run through the race: a thread blocks on identifier 0, a feeder takes the node, the waiter times
  out, and the feeder frees the node.\<close>

definition ts_race :: trans_sys where
  "ts_race = \<lparr>ts_ctx = create_sync_ctx 0, ts_held = [(wait_node 9 0)\<lparr>sn_pending_delete := True\<rparr>], ts_expired = [],
     ts_posted = [], ts_waiting = [], ts_made = [9], ts_log = []\<rparr>"

definition ts_raced :: trans_sys where
  "ts_raced = ts_race\<lparr>ts_held := [], ts_log := [Ev_Free 9]\<rparr>"

lemma ts_raced_reach: "trans_reach ts_raced"
proof -
  let ?c = "create_sync_ctx 0"
  let ?s0 = "\<lparr>ts_ctx = ?c, ts_held = [], ts_expired = [], ts_posted = [], ts_waiting = [], ts_made = [], ts_log = []\<rparr>"
  let ?s1 = "?s0\<lparr>ts_ctx := add_sync_node (wait_node 9 0) ?c, ts_made := [9], ts_waiting := [wait_node 9 0]\<rparr>"
  let ?s2 = "?s1\<lparr>ts_ctx := ?c, ts_held := [wait_node 9 0]\<rparr>"
  have "trans_step ?s0 ?s1" using Add_Wait [of 9 ?s0 0] by simp
  moreover have "trans_step ?s1 ?s2"
    using Take [of 0 ?s1 "wait_node 9 0" ?c] by (simp add: remove_sync_node_def add_sync_node_def wait_node_def create_sync_ctx_def)
  moreover have "trans_step ?s2 ts_race"
    using Give_Up [of ?s2 "[]" "wait_node 9 0" "[]" "-1" None ?c]
    by (simp add: bh_wait_response_end_def remove_sync_node_def create_sync_ctx_def mark_pending_def ts_race_def)
  moreover have "trans_step ts_race ts_raced"
    using Feed [of ts_race "[]" "(wait_node 9 0)\<lparr>sn_pending_delete := True\<rparr>" "[]" "\<lambda>_. True" None 0 0 "create_sync_ctx 0" "[Ev_Free 9]"]
    by (simp add: ts_race_def ts_raced_def bh_feed_node_def wait_node_def sync_node0_def)
  ultimately show ?thesis by (meson trans_reach.intros)
qed

theorem trans_ends_once_witness:
  "ev_frees (ts_log ts_raced) = [9] \<and>
   set (map sn_addr (sc_list (ts_ctx ts_raced) @ ts_held ts_raced @ ts_expired ts_raced) @
      map (\<lambda>c. sn_addr (ck_transaction c)) (ts_posted ts_raced) @ ev_frees (ts_log ts_raced)) = {9}"
  using trans_ends_once [OF ts_raced_reach] by (simp add: ts_raced_def ts_race_def)

text \<open>No assertion of the feeder fails and nothing is read out of bounds: in a reachable state a feeder
  that holds a node completes when the response buffer holds the announced length, and so does the
  execution of any posted callback.\<close>

theorem trans_no_fault:
  assumes "trans_reach s" "len = 0 \<or> (\<exists>bs. response = Some bs \<and> unat len \<le> length bs)"
  shows "(\<forall>n \<in> set (ts_held s). \<exists>r. bh_feed_node mem n response len fmt (ts_ctx s) = Inr r) \<and>
    (\<forall>c \<in> set (ts_posted s). \<exists>evs. execute_callback_node c = Inr evs)"
proof
  have inv: "trans_inv s" using assms(1) by (rule trans_reach_inv)
  have cp: "len \<noteq> 0 \<Longrightarrow> \<exists>bs. copy_response response len = Inr bs" using assms(2) by (auto simp: copy_response_def)
  show "\<forall>n \<in> set (ts_held s). \<exists>r. bh_feed_node mem n response len fmt (ts_ctx s) = Inr r"
    using cp by (cases "len = 0") (auto simp: bh_feed_node_def bh_feed_transaction_def split: option.splits)
  show "\<forall>c \<in> set (ts_posted s). \<exists>evs. execute_callback_node c = Inr evs"
    using inv by (auto simp: trans_inv_def execute_callback_node_def bh_feed_transaction_def split: option.splits)
qed

end
