(* ===== verification/Fifo_Queue.thy ===== *)
theory Fifo_Queue
  imports Prelude
begin

text \<open>
  The contract of a bounded first-in first-out queue: what an enqueue and a dequeue do to the abstract
  content, with enqueues into a full queue dropped.  The locale proves once that any interleaving of
  enqueues and dequeues hands out the accepted elements in order.
\<close>

datatype 'm qop = Q_Put 'm | Q_Get

locale fifo_queue =
  fixes enq :: "'m \<Rightarrow> 's \<Rightarrow> 's"
    and deq :: "'s \<Rightarrow> 'm option \<times> 's"
    and content :: "'s \<Rightarrow> 'm list"
    and invar :: "'s \<Rightarrow> bool"
    and cap :: nat
  assumes enq_content: "invar s \<Longrightarrow> content (enq x s) = (if length (content s) < cap then content s @ [x] else content s)"
    and enq_invar: "invar s \<Longrightarrow> invar (enq x s)"
    and deq_Nil: "invar s \<Longrightarrow> content s = [] \<Longrightarrow> fst (deq s) = None \<and> content (snd (deq s)) = []"
    and deq_Cons: "invar s \<Longrightarrow> content s = x # xs \<Longrightarrow> fst (deq s) = Some x \<and> content (snd (deq s)) = xs"
    and deq_invar: "invar s \<Longrightarrow> invar (snd (deq s))"
begin

fun run :: "'m qop list \<Rightarrow> 's \<Rightarrow> 'm list \<times> 'm list \<times> 's" where
  "run [] s = ([], [], s)"
| "run (Q_Put x # ops) s =
     (case run ops (enq x s) of
        (acc, outs, s') \<Rightarrow> ((if length (content s) < cap then [x] else []) @ acc, outs, s'))"
| "run (Q_Get # ops) s =
     (case run ops (snd (deq s)) of
        (acc, outs, s') \<Rightarrow> (acc, (case fst (deq s) of None \<Rightarrow> [] | Some x \<Rightarrow> [x]) @ outs, s'))"

lemma run_fifo:
  "invar s \<Longrightarrow> run ops s = (acc, outs, s') \<Longrightarrow> invar s' \<and> content s @ acc = outs @ content s'"
proof (induction ops s arbitrary: acc outs rule: run.induct)
  case (1 s)
  then show ?case by simp
next
  case (2 x ops s)
  obtain acc1 where r: "run ops (enq x s) = (acc1, outs, s')"
    "acc = (if length (content s) < cap then [x] else []) @ acc1"
    using "2.prems"(2) by (auto split: prod.splits)
  from "2.IH" [OF enq_invar [OF "2.prems"(1)] r(1)] show ?case
    by (auto simp: r(2) enq_content [OF "2.prems"(1)] split: if_splits)
next
  case (3 ops s)
  obtain outs1 where r: "run ops (snd (deq s)) = (acc, outs1, s')"
    "outs = (case fst (deq s) of None \<Rightarrow> [] | Some x \<Rightarrow> [x]) @ outs1"
    using "3.prems"(2) by (auto split: prod.splits)
  from "3.IH" [OF deq_invar [OF "3.prems"(1)] r(1)] show ?case
    using deq_Nil [OF "3.prems"(1)] deq_Cons [OF "3.prems"(1)]
    by (cases "content s") (auto simp: r(2))
qed

lemma content_bounded:
  "invar s \<Longrightarrow> length (content s) \<le> cap \<Longrightarrow> run ops s = (acc, outs, s') \<Longrightarrow> length (content s') \<le> cap"
proof (induction ops s arbitrary: acc outs rule: run.induct)
  case (3 ops s)
  have "length (content (snd (deq s))) \<le> cap"
    using deq_Nil [OF "3.prems"(1)] deq_Cons [OF "3.prems"(1)] "3.prems"(2) by (cases "content s") auto
  with 3 show ?case by (auto simp: deq_invar split: prod.splits)
qed (auto simp: enq_content enq_invar split: prod.splits)

end

end
