(* ===== verification/Message_Queue.thy ===== *)
theory Message_Queue
  imports Fifo_Queue
begin

text \<open>
  The message queue of \<open>src/idr-mgt-shared-libs/lib/message_queue.c\<close> at pointer level: a heap of messages
  linked by \<open>next\<close> and \<open>prev\<close>, the queue's head, tail and counters.

  \<open>malloc\<close> succeeds and hands out addresses not in use, counted by \<open>mq_fresh\<close>; a dereference of an address that is not
  allocated is \<open>Null_Deref\<close>.  The functions here are the sequential behaviour of one thread.  While
  \<open>get_msg\<close> waits for the condition the mutex is released, and what other threads do to the queue in that
  time is its parameter \<open>wait\<close>; what they do while a handler runs is the parameter \<open>busy\<close> of
  \<open>get_msg_call_handler\<close>.  \<open>post_msg2\<close> reads the count before it takes the mutex; the locked part is
  \<open>post_insert\<close>, and \<open>Queue_Threads\<close> interleaves the two with other threads.
\<close>

section \<open>Heap, messages, queue\<close>

record msg =
  m_next :: "nat option"
  m_prev :: "nat option"
  m_tag :: u16
  m_len :: u64
  m_body :: nat
  m_time :: int
  m_handler :: "nat option"

record msg_queue =
  mq_cnt :: u32
  mq_max :: u32
  mq_drops :: u32
  mq_head :: "nat option"
  mq_tail :: "nat option"
  mq_mem :: "nat \<Rightarrow> msg option"
  mq_fresh :: nat

definition create_queue :: msg_queue where
  "create_queue = \<lparr>mq_cnt = 0, mq_max = 100, mq_drops = 0, mq_head = None, mq_tail = None,
     mq_mem = (\<lambda>_. None), mq_fresh = 0\<rparr>"

definition new_msg :: "nat \<Rightarrow> u64 \<Rightarrow> int \<Rightarrow> u16 \<Rightarrow> nat option \<Rightarrow> msg_queue \<Rightarrow> nat \<times> msg_queue" where
  "new_msg body len t tag handler q =
     (mq_fresh q, q\<lparr>mq_fresh := Suc (mq_fresh q),
        mq_mem := (mq_mem q)(mq_fresh q \<mapsto> \<lparr>m_next = None, m_prev = None, m_tag = tag, m_len = len, m_body = body,
          m_time = t, m_handler = handler\<rparr>)\<rparr>)"

definition free_msg :: "nat \<Rightarrow> msg_queue \<Rightarrow> msg_queue cres" where
  "free_msg a q = (if mq_mem q a = None then Inl Null_Deref else Inr (q\<lparr>mq_mem := (mq_mem q)(a := None)\<rparr>))"

text \<open>A write through a message pointer.\<close>

definition msg_upd :: "nat \<Rightarrow> (msg \<Rightarrow> msg) \<Rightarrow> msg_queue \<Rightarrow> msg_queue cres" where
  "msg_upd a f q =
     (case mq_mem q a of None \<Rightarrow> Inl Null_Deref | Some m \<Rightarrow> Inr (q\<lparr>mq_mem := (mq_mem q)(a \<mapsto> f m)\<rparr>))"

text \<open>\<open>post_msg2\<close> under the mutex.\<close>

definition post_insert :: "nat \<Rightarrow> msg_queue \<Rightarrow> msg_queue cres" where
  "post_insert a q =
     (if mq_cnt q = 0 then
        if mq_head q \<noteq> None \<or> mq_tail q \<noteq> None then Inl Assert_Failed
        else map_sum id (\<lambda>q. q\<lparr>mq_cnt := 1\<rparr>)
               (msg_upd a (\<lambda>m. m\<lparr>m_next := None, m_prev := None\<rparr>) (q\<lparr>mq_head := Some a, mq_tail := Some a\<rparr>))
      else
        (case msg_upd a (\<lambda>m. m\<lparr>m_next := None, m_prev := mq_tail q\<rparr>) q of
           Inl e \<Rightarrow> Inl e
         | Inr q1 \<Rightarrow>
             (case mq_tail q1 of
                None \<Rightarrow> Inl Null_Deref
              | Some t \<Rightarrow>
                  map_sum id (\<lambda>q. q\<lparr>mq_tail := Some a, mq_cnt := mq_cnt q + 1\<rparr>)
                    (msg_upd t (\<lambda>m. m\<lparr>m_next := Some a\<rparr>) q1))))"

text \<open>\<open>post_msg2\<close> when it finds the queue full.\<close>

definition post_refuse :: "nat \<Rightarrow> msg_queue \<Rightarrow> msg_queue cres" where
  "post_refuse a q = map_sum id (\<lambda>q. q\<lparr>mq_drops := mq_drops q + 1\<rparr>) (free_msg a q)"

definition post_msg2 :: "nat \<Rightarrow> msg_queue \<Rightarrow> (bool \<times> msg_queue) cres" where
  "post_msg2 a q =
     (if mq_cnt q \<ge> mq_max q then map_sum id (Pair False) (post_refuse a q)
      else map_sum id (Pair True) (post_insert a q))"

definition post_msg :: "nat \<Rightarrow> u64 \<Rightarrow> int \<Rightarrow> msg_queue \<Rightarrow> (bool \<times> msg_queue) cres" where
  "post_msg body len now q = (case new_msg body len now 0 None q of (a, q) \<Rightarrow> post_msg2 a q)"

text \<open>\<open>get_msg\<close> after the wait.\<close>

definition get_msg_take :: "msg_queue \<Rightarrow> (nat option \<times> msg_queue) cres" where
  "get_msg_take q =
     (if mq_cnt q = 0 then
        if mq_head q \<noteq> None \<or> mq_tail q \<noteq> None then Inl Assert_Failed else Inr (None, q)
      else if mq_cnt q = 1 then
        if mq_head q \<noteq> mq_tail q then Inl Assert_Failed
        else Inr (mq_head q, q\<lparr>mq_head := None, mq_tail := None, mq_cnt := 0\<rparr>)
      else
        (case mq_head q of
           None \<Rightarrow> Inl Null_Deref
         | Some h \<Rightarrow>
             (case mq_mem q h of
                None \<Rightarrow> Inl Null_Deref
              | Some m \<Rightarrow>
                  (case m_next m of
                     None \<Rightarrow> Inl Null_Deref
                   | Some n \<Rightarrow>
                       map_sum id (\<lambda>q. (Some h, q\<lparr>mq_cnt := mq_cnt q - 1\<rparr>))
                         (msg_upd n (\<lambda>m. m\<lparr>m_prev := None\<rparr>) (q\<lparr>mq_head := Some n\<rparr>))))))"

definition get_msg :: "(msg_queue \<Rightarrow> msg_queue) \<Rightarrow> msg_queue \<Rightarrow> (nat option \<times> msg_queue) cres" where
  "get_msg wait q =
     (if mq_cnt q = 0 then
        if mq_head q \<noteq> None \<or> mq_tail q \<noteq> None then Inl Assert_Failed else get_msg_take (wait q)
      else get_msg_take q)"

text \<open>The handler loop.  For its k-th iteration \<open>wait k\<close> is what other threads do to the queue while
  \<open>get_msg\<close> waits, \<open>busy k\<close> what they and the handler do while the handler runs, and \<open>ticks k\<close> the clock
  value read after the handler.  The list is the messages whose handler ran.  The fuel bounds the
  iterations; running out of it is \<open>None\<close>.  At loop exit by timeout the result is the message handled
  last, already freed; \<open>last_msg\<close> holds it.\<close>

fun get_msg_call_handler ::
  "nat \<Rightarrow> (nat \<Rightarrow> msg_queue \<Rightarrow> msg_queue) \<Rightarrow> (nat \<Rightarrow> msg_queue \<Rightarrow> msg_queue) \<Rightarrow> (nat \<Rightarrow> int) \<Rightarrow>
   nat \<Rightarrow> nat option \<Rightarrow> int \<Rightarrow> int \<Rightarrow> msg_queue \<Rightarrow> (nat option \<times> msg list \<times> msg_queue) cres option" where
  "get_msg_call_handler 0 wait busy ticks k last_msg timeout clk q = None"
| "get_msg_call_handler (Suc fuel) wait busy ticks k last_msg timeout clk q =
     (if timeout < 0 then Some (Inr (last_msg, [], q))
      else
        (case get_msg (wait k) q of
           Inl e \<Rightarrow> Some (Inl e)
         | Inr (None, q) \<Rightarrow> Some (Inr (None, [], q))
         | Inr (Some a, q) \<Rightarrow>
             (case mq_mem q a of
                None \<Rightarrow> Some (Inl Null_Deref)
              | Some m \<Rightarrow>
                  if m_handler m = None then Some (Inr (Some a, [], q))
                  else
                    (case free_msg a (busy k q) of
                       Inl e \<Rightarrow> Some (Inl e)
                     | Inr q \<Rightarrow>
                         let now = ticks k in
                         (case get_msg_call_handler fuel wait busy ticks (Suc k) (Some a) (timeout - (now - clk)) now q of
                            Some (Inr (r, ms, q')) \<Rightarrow> Some (Inr (r, m # ms, q'))
                          | other \<Rightarrow> other)))))"

section \<open>The linked list behind a queue\<close>

fun dll :: "(nat \<Rightarrow> msg option) \<Rightarrow> nat option \<Rightarrow> nat option \<Rightarrow> nat list \<Rightarrow> bool" where
  "dll mem prv p [] \<longleftrightarrow> p = None"
| "dll mem prv p (a # as) \<longleftrightarrow> p = Some a \<and>
     (case mem a of None \<Rightarrow> False | Some m \<Rightarrow> m_prev m = prv \<and> dll mem (Some a) (m_next m) as)"

definition mq_rep :: "msg_queue \<Rightarrow> nat list \<Rightarrow> bool" where
  "mq_rep q as \<longleftrightarrow> dll (mq_mem q) None (mq_head q) as \<and> mq_tail q = (if as = [] then None else Some (last as)) \<and>
     mq_cnt q = of_nat (length as) \<and> length as < 2 ^ 32 \<and> distinct as \<and>
     (\<forall>a. mq_mem q a \<noteq> None \<longrightarrow> a < mq_fresh q)"

lemma dll_mem: "dll mem prv p as \<Longrightarrow> a \<in> set as \<Longrightarrow> mem a \<noteq> None"
  by (induction as arbitrary: prv p) (auto split: option.splits)

lemma dll_cong: "(\<And>a. a \<in> set as \<Longrightarrow> mem a = mem' a) \<Longrightarrow> dll mem prv p as = dll mem' prv p as"
  by (induction as arbitrary: prv p) (auto split: option.splits)

lemma dll_unique: "dll mem prv p as \<Longrightarrow> dll mem prv p bs \<Longrightarrow> as = bs"
proof (induction as arbitrary: prv p bs)
  case Nil
  then show ?case by (cases bs) auto
next
  case (Cons a as)
  then show ?case by (cases bs) (auto split: option.splits)
qed

lemma dll_snoc:
  assumes "dll mem prv p (as @ [t])" "distinct (as @ [t])" "b \<notin> set (as @ [t])"
  shows "dll (mem(b \<mapsto> m\<lparr>m_next := None, m_prev := Some t\<rparr>, t \<mapsto> (the (mem t))\<lparr>m_next := Some b\<rparr>)) prv p (as @ [t, b])"
  using assms
proof (induction as arbitrary: prv p)
  case Nil
  then show ?case by (auto split: option.splits)
next
  case (Cons a as)
  then show ?case by (auto split: option.splits)
qed

lemma dll_prev_None:
  assumes "dll mem prv (Some n) as" "distinct as"
  shows "dll (mem(n \<mapsto> (the (mem n))\<lparr>m_prev := None\<rparr>)) None (Some n) as"
proof (cases as)
  case (Cons a bs)
  with assms have "a = n" "n \<notin> set bs" by auto
  then have "dll (mem(n \<mapsto> (the (mem n))\<lparr>m_prev := None\<rparr>)) (Some n) r bs = dll mem (Some n) r bs" for r
    by (intro dll_cong) auto
  then show ?thesis using assms Cons by (auto split: option.splits)
qed (use assms in simp)

lemma mq_rep_cnt:
  assumes "mq_rep q as"
  shows "mq_cnt q = 0 \<longleftrightarrow> as = []" "mq_cnt q = 1 \<longleftrightarrow> length as = 1" "mq_cnt q \<ge> mq_max q \<longleftrightarrow> unat (mq_max q) \<le> length as"
    "unat (mq_cnt q) = length as"
proof -
  have c: "mq_cnt q = of_nat (length as)" and l: "length as < 2 ^ LENGTH(32)" using assms by (simp_all add: mq_rep_def)
  show u: "unat (mq_cnt q) = length as" using c l by (simp only: unat_of_nat_small)
  show "mq_cnt q = 0 \<longleftrightarrow> as = []" using c l by (simp add: word_of_nat_eq_0_iff)
  show "mq_cnt q = 1 \<longleftrightarrow> length as = 1" using c l word_of_nat_eq_iff [of "length as" 1, where 'a = 32] by simp
  show "mq_cnt q \<ge> mq_max q \<longleftrightarrow> unat (mq_max q) \<le> length as" using u by (auto simp: word_le_nat_alt)
qed

text \<open>What a change of the links leaves of the messages.\<close>

definition relinked :: "msg_queue \<Rightarrow> msg_queue \<Rightarrow> bool" where
  "relinked q q' \<longleftrightarrow> mq_max q' = mq_max q \<and> mq_fresh q' = mq_fresh q \<and> mq_drops q' = mq_drops q \<and>
     dom (mq_mem q') = dom (mq_mem q) \<and>
     (\<forall>b x. mq_mem q b = Some x \<longrightarrow> (\<exists>n p. mq_mem q' b = Some (x\<lparr>m_next := n, m_prev := p\<rparr>)))"

lemma relinkedD: "relinked q q' \<Longrightarrow> mq_mem q b = Some x \<Longrightarrow> \<exists>n p. mq_mem q' b = Some (x\<lparr>m_next := n, m_prev := p\<rparr>)"
  by (simp add: relinked_def)

lemma msg_refl: "\<exists>n p. x = x\<lparr>m_next := n, m_prev := p\<rparr>" for x :: msg
  by (cases x) auto

text \<open>The locked part of a post appends the message.\<close>

lemma post_insert_rep:
  assumes rep: "mq_rep q as" and a: "mq_mem q a = Some m" "a \<notin> set as" and len: "Suc (length as) < 2 ^ 32"
  shows "\<exists>q'. post_insert a q = Inr q' \<and> mq_rep q' (as @ [a]) \<and> relinked q q'"
proof (cases "as = []")
  case True
  then have "mq_cnt q = 0" "mq_head q = None" "mq_tail q = None" using mq_rep_cnt(1) [OF rep] rep by (auto simp: mq_rep_def)
  with True a rep msg_refl show ?thesis by (auto simp: post_insert_def msg_upd_def mq_rep_def relinked_def)
next
  case False
  then obtain bs t where as: "as = bs @ [t]" by (meson rev_exhaust)
  have tail: "mq_tail q = Some t" "mq_cnt q \<noteq> 0" using rep False mq_rep_cnt(1) [OF rep] by (simp_all add: mq_rep_def as)
  have d: "dll (mq_mem q) None (mq_head q) (bs @ [t])" "distinct (bs @ [t])" using rep by (simp_all add: mq_rep_def as)
  obtain mt where mt: "mq_mem q t = Some mt" using dll_mem [OF d(1), of t] by auto
  have ne: "a \<noteq> t" using a(2) as by auto
  let ?q = "q\<lparr>mq_mem := (mq_mem q)(a \<mapsto> m\<lparr>m_next := None, m_prev := Some t\<rparr>, t \<mapsto> mt\<lparr>m_next := Some a\<rparr>),
    mq_tail := Some a, mq_cnt := mq_cnt q + 1\<rparr>"
  have "post_insert a q = Inr ?q" using tail a mt ne by (simp add: post_insert_def msg_upd_def)
  moreover have "mq_rep ?q (as @ [a])" using rep dll_snoc [OF d, of a m] mt a len by (auto simp: mq_rep_def as)
  moreover have "\<exists>n p. mq_mem ?q b = Some (x\<lparr>m_next := n, m_prev := p\<rparr>)" if "mq_mem q b = Some x" for b x
    using that a(1) mt ne msg_refl by (cases "b = a"; cases "b = t") (auto, (cases mt; auto)?)
  ultimately show ?thesis using a(1) mt by (auto simp: relinked_def)
qed

text \<open>Taking a message removes the head.\<close>

lemma get_msg_take_rep:
  assumes rep: "mq_rep q as"
  shows "\<exists>q'. get_msg_take q = Inr ((case as of [] \<Rightarrow> None | a # _ \<Rightarrow> Some a), q') \<and> mq_rep q' (tl as) \<and> relinked q q'"
proof -
  note cnt = mq_rep_cnt [OF rep]
  consider "as = []" | a where "as = [a]" | a b bs where "as = a # b # bs" by (metis list.exhaust)
  then show ?thesis
  proof cases
    case 1
    then show ?thesis using rep cnt msg_refl by (auto simp: get_msg_take_def mq_rep_def relinked_def)
  next
    case 2
    then have "mq_cnt q = 1" "mq_cnt q \<noteq> 0" using cnt by simp_all
    then show ?thesis using 2 rep msg_refl by (auto simp: get_msg_take_def mq_rep_def relinked_def split: option.splits)
  next
    case 3
    then have c: "mq_cnt q \<noteq> 1" "mq_cnt q \<noteq> 0" using cnt by simp_all
    obtain ma where ma: "mq_head q = Some a" "mq_mem q a = Some ma" "dll (mq_mem q) (Some a) (m_next ma) (b # bs)"
      using rep 3 by (auto simp: mq_rep_def split: option.splits)
    then have nx: "m_next ma = Some b" by simp
    obtain mb where mb: "mq_mem q b = Some mb" using dll_mem [OF ma(3), of b] by auto
    let ?q = "q\<lparr>mq_head := Some b, mq_mem := (mq_mem q)(b \<mapsto> mb\<lparr>m_prev := None\<rparr>), mq_cnt := mq_cnt q - 1\<rparr>"
    have "get_msg_take q = Inr (Some a, ?q)"
      using c ma nx mb by (simp add: get_msg_take_def msg_upd_def)
    moreover have "mq_rep ?q (b # bs)"
      using rep 3 dll_prev_None [OF ma(3) [unfolded nx]] mb by (auto simp: mq_rep_def split: if_splits)
    moreover have "\<exists>n p. mq_mem ?q c = Some (x\<lparr>m_next := n, m_prev := p\<rparr>)" if "mq_mem q c = Some x" for c x
      using that mb msg_refl by (cases "c = b") (auto, (cases mb; auto)?)
    ultimately show ?thesis using 3 mb by (auto simp: relinked_def)
  qed
qed

text \<open>Allocating a message and freeing one that is not queued leave the list alone.\<close>

lemma new_msg_rep:
  assumes "mq_rep q as" "new_msg body len t tag h q = (a, q1)"
  shows "mq_rep q1 as" "a = mq_fresh q" "mq_mem q a = None" "a \<notin> set as"
    "mq_mem q1 = (mq_mem q)(a \<mapsto> \<lparr>m_next = None, m_prev = None, m_tag = tag, m_len = len, m_body = body, m_time = t, m_handler = h\<rparr>)"
    "mq_max q1 = mq_max q" "mq_drops q1 = mq_drops q"
proof -
  show a: "a = mq_fresh q" and m: "mq_mem q1 = (mq_mem q)(a \<mapsto> \<lparr>m_next = None, m_prev = None, m_tag = tag, m_len = len,
      m_body = body, m_time = t, m_handler = h\<rparr>)"
    and "mq_max q1 = mq_max q" "mq_drops q1 = mq_drops q" using assms(2) by (auto simp: new_msg_def)
  show n: "mq_mem q a = None" using assms(1) a by (auto simp: mq_rep_def)
  show f: "a \<notin> set as" using assms(1) n dll_mem [of "mq_mem q" None "mq_head q" as a] by (auto simp: mq_rep_def)
  then have "dll (mq_mem q1) None (mq_head q) as = dll (mq_mem q) None (mq_head q) as"
    unfolding m by (intro dll_cong) auto
  then show "mq_rep q1 as" using assms by (auto simp: new_msg_def mq_rep_def less_Suc_eq)
qed

lemma free_msg_rep:
  assumes "mq_rep q as" "mq_mem q a \<noteq> None" "a \<notin> set as"
  shows "free_msg a q = Inr (q\<lparr>mq_mem := (mq_mem q)(a := None)\<rparr>)" "mq_rep (q\<lparr>mq_mem := (mq_mem q)(a := None)\<rparr>) as"
proof -
  have "dll ((mq_mem q)(a := None)) None (mq_head q) as = dll (mq_mem q) None (mq_head q) as"
    using assms(3) by (intro dll_cong) auto
  then show "mq_rep (q\<lparr>mq_mem := (mq_mem q)(a := None)\<rparr>) as" using assms(1) by (auto simp: mq_rep_def)
  show "free_msg a q = Inr (q\<lparr>mq_mem := (mq_mem q)(a := None)\<rparr>)" using assms(2) by (simp add: free_msg_def)
qed

section \<open>The queue refines a bounded first-in first-out queue\<close>

type_synonym msg_view = "u16 \<times> u64 \<times> nat \<times> int \<times> nat option"

definition msg_content :: "msg \<Rightarrow> msg_view" where
  "msg_content m = (m_tag m, m_len m, m_body m, m_time m, m_handler m)"

text \<open>The addresses in the queue, found by following \<open>next\<close> from the head.\<close>

fun mq_walk :: "nat \<Rightarrow> (nat \<Rightarrow> msg option) \<Rightarrow> nat option \<Rightarrow> nat list" where
  "mq_walk 0 mem p = []"
| "mq_walk (Suc k) mem p =
     (case p of None \<Rightarrow> [] | Some a \<Rightarrow> a # (case mem a of None \<Rightarrow> [] | Some m \<Rightarrow> mq_walk k mem (m_next m)))"

definition mq_addrs :: "msg_queue \<Rightarrow> nat list" where
  "mq_addrs q = mq_walk (unat (mq_cnt q)) (mq_mem q) (mq_head q)"

definition mq_content :: "msg_queue \<Rightarrow> msg_view list" where
  "mq_content q = map (\<lambda>a. msg_content (the (mq_mem q a))) (mq_addrs q)"

definition mq_inv :: "msg_queue \<Rightarrow> bool" where
  "mq_inv q \<longleftrightarrow> mq_rep q (mq_addrs q) \<and> mq_max q = 100"

text \<open>What clients do: allocate a message and post it; take a message and read it.\<close>

definition mq_post :: "msg_view \<Rightarrow> msg_queue \<Rightarrow> msg_queue" where
  "mq_post x q =
     (case x of (tag, len, body, t, h) \<Rightarrow>
        (case new_msg body len t tag h q of
           (a, q1) \<Rightarrow> (case post_msg2 a q1 of Inl e \<Rightarrow> q | Inr (r, q2) \<Rightarrow> q2)))"

definition mq_get :: "msg_queue \<Rightarrow> msg_view option \<times> msg_queue" where
  "mq_get q =
     (case get_msg (\<lambda>q. q) q of
        Inl e \<Rightarrow> (None, q)
      | Inr (None, q') \<Rightarrow> (None, q')
      | Inr (Some a, q') \<Rightarrow> (map_option msg_content (mq_mem q' a), q'))"

lemma mq_walk_dll: "dll mem prv p as \<Longrightarrow> mq_walk (length as) mem p = as"
  by (induction as arbitrary: prv p) (auto split: option.splits)

lemma mq_rep_addrs: "mq_rep q as \<Longrightarrow> mq_addrs q = as"
  using mq_rep_cnt(4) [of q as] mq_walk_dll [of "mq_mem q" None "mq_head q" as] by (simp add: mq_addrs_def mq_rep_def)

lemma mq_invI: "mq_rep q as \<Longrightarrow> mq_max q = 100 \<Longrightarrow> mq_inv q"
  using mq_rep_addrs [of q as] by (simp add: mq_inv_def)

lemma set_tl_subset: "set (tl xs) \<subseteq> set xs"
  by (cases xs) auto

text \<open>The content of a queue by its list of addresses.\<close>

definition msgs_at :: "msg_queue \<Rightarrow> nat list \<Rightarrow> msg_view list" where
  "msgs_at q as = map (\<lambda>a. msg_content (the (mq_mem q a))) as"

lemma mq_rep_content: "mq_rep q as \<Longrightarrow> mq_content q = msgs_at q as"
  by (simp add: mq_content_def msgs_at_def mq_rep_addrs)

lemma mq_rep_mem: "mq_rep q as \<Longrightarrow> set as \<subseteq> dom (mq_mem q)"
  using dll_mem by (fastforce simp: mq_rep_def)

lemma relinked_at:
  assumes "relinked q q'" "set as \<subseteq> dom (mq_mem q)"
  shows "msgs_at q' as = msgs_at q as"
  unfolding msgs_at_def
proof (rule map_cong [OF refl])
  fix a assume "a \<in> set as"
  then obtain x where x: "mq_mem q a = Some x" using assms(2) by blast
  with relinkedD [OF assms(1)] obtain n p where "mq_mem q' a = Some (x\<lparr>m_next := n, m_prev := p\<rparr>)" by blast
  with x show "msg_content (the (mq_mem q' a)) = msg_content (the (mq_mem q a))" by (simp add: msg_content_def)
qed

text \<open>Allocating and inserting, as a poster that found room does.\<close>

definition mq_insert :: "msg_view \<Rightarrow> msg_queue \<Rightarrow> msg_queue cres" where
  "mq_insert x q = (case x of (tag, len, body, t, h) \<Rightarrow> (case new_msg body len t tag h q of (a, q) \<Rightarrow> post_insert a q))"

lemma mq_insert_rep:
  assumes "mq_rep q as" "Suc (length as) < 2 ^ 32"
  shows "\<exists>q'. mq_insert x q = Inr q' \<and> mq_rep q' (as @ [mq_fresh q]) \<and> mq_content q' = mq_content q @ [x] \<and>
    mq_max q' = mq_max q \<and> (\<forall>b m. mq_mem q b = Some m \<longrightarrow> (\<exists>n p. mq_mem q' b = Some (m\<lparr>m_next := n, m_prev := p\<rparr>)))"
proof -
  obtain tag len body t h where x: "x = (tag, len, body, t, h)" by (metis prod_cases5)
  obtain a q1 where q1: "new_msg body len t tag h q = (a, q1)" by force
  note n = new_msg_rep [OF assms(1) q1]
  obtain q2 where q2: "post_insert a q1 = Inr q2" "mq_rep q2 (as @ [a])" "relinked q1 q2"
    using post_insert_rep [OF n(1) _ n(4) assms(2)] n(5) by auto
  have "set (as @ [a]) \<subseteq> dom (mq_mem q1)" using mq_rep_mem [OF n(1)] n(5) by auto
  from relinked_at [OF q2(3) this] have "mq_content q2 = msgs_at q1 (as @ [a])" using mq_rep_content [OF q2(2)] by simp
  moreover have "msgs_at q1 (as @ [a]) = msgs_at q as @ [x]"
    using n(4,5) by (auto simp: msgs_at_def x msg_content_def)
  ultimately have "mq_content q2 = mq_content q @ [x]" using mq_rep_content [OF assms(1)] by simp
  moreover have "\<exists>k p. mq_mem q2 b = Some (m\<lparr>m_next := k, m_prev := p\<rparr>)" if "mq_mem q b = Some m" for b m
    using relinkedD [OF q2(3), of b m] that n(3,5) by (cases "b = a") simp_all
  ultimately show ?thesis using q2 n(2,6) by (auto simp: mq_insert_def x q1 relinked_def)
qed

lemma mq_post_spec:
  assumes "mq_inv q"
  shows "mq_inv (mq_post x q) \<and>
    mq_content (mq_post x q) = (if length (mq_content q) < 100 then mq_content q @ [x] else mq_content q)"
proof -
  obtain tag len body t h where x: "x = (tag, len, body, t, h)" by (metis prod_cases5)
  obtain a q1 where q1: "new_msg body len t tag h q = (a, q1)" by force
  have rep: "mq_rep q (mq_addrs q)" "mq_max q = 100" using assms by (simp_all add: mq_inv_def)
  note n = new_msg_rep [OF rep(1) q1]
  have l: "length (mq_content q) = length (mq_addrs q)" by (simp add: mq_content_def)
  have full: "mq_cnt q1 \<ge> mq_max q1 \<longleftrightarrow> \<not> length (mq_content q) < 100"
    using mq_rep_cnt(3) [OF n(1)] n(6) rep(2) l by auto
  show ?thesis
  proof (cases "length (mq_content q) < 100")
    case True
    with mq_insert_rep [OF rep(1), of x] l obtain q' where
      q': "mq_insert x q = Inr q'" "mq_rep q' (mq_addrs q @ [mq_fresh q])" "mq_content q' = mq_content q @ [x]" "mq_max q' = mq_max q"
      by auto
    have "mq_post x q = q'" using q'(1) True full by (simp add: mq_post_def mq_insert_def x q1 post_msg2_def)
    then show ?thesis using True q' mq_invI [OF q'(2)] rep(2) by simp
  next
    case False
    note f = free_msg_rep [OF n(1) _ n(4)]
    let ?q = "q1\<lparr>mq_mem := (mq_mem q1)(a := None), mq_drops := mq_drops q1 + 1\<rparr>"
    have "mq_post x q = ?q" using False full f(1) n(5) by (simp add: mq_post_def x q1 post_msg2_def post_refuse_def)
    moreover have r: "mq_rep ?q (mq_addrs q)" using f(2) n(5) by (simp add: mq_rep_def)
    moreover have "mq_content ?q = mq_content q"
      unfolding mq_rep_content [OF r] mq_rep_content [OF rep(1)] msgs_at_def using n(4,5) by auto
    ultimately show ?thesis using False mq_invI [OF r] n(6) rep(2) by simp
  qed
qed

text \<open>\<open>get_msg\<close> hands out the first message.  The message stays allocated and is no longer queued.\<close>

lemma get_msg_take_inv:
  assumes "mq_inv q"
  shows "\<exists>q'. get_msg_take q = Inr ((case mq_addrs q of [] \<Rightarrow> None | a # _ \<Rightarrow> Some a), q') \<and> mq_inv q' \<and>
    mq_addrs q' = tl (mq_addrs q) \<and> mq_content q' = tl (mq_content q) \<and> relinked q q'"
proof -
  have rep: "mq_rep q (mq_addrs q)" "mq_max q = 100" using assms by (simp_all add: mq_inv_def)
  obtain q' where q': "get_msg_take q = Inr ((case mq_addrs q of [] \<Rightarrow> None | a # _ \<Rightarrow> Some a), q')"
    "mq_rep q' (tl (mq_addrs q))" "relinked q q'"
    using get_msg_take_rep [OF rep(1)] by blast
  have "set (tl (mq_addrs q)) \<subseteq> dom (mq_mem q)" using mq_rep_mem [OF rep(1)] set_tl_subset [of "mq_addrs q"] by blast
  from relinked_at [OF q'(3) this] have "mq_content q' = tl (mq_content q)"
    using mq_rep_content [OF q'(2)] mq_rep_content [OF rep(1)] by (simp add: msgs_at_def map_tl)
  then show ?thesis using q' mq_rep_addrs [OF q'(2)] mq_invI [OF q'(2)] rep(2) by (auto simp: relinked_def)
qed

lemma mq_inv_empty:
  assumes "mq_inv q"
  shows "mq_cnt q = 0 \<longleftrightarrow> mq_content q = []" "mq_content q = [] \<Longrightarrow> mq_head q = None \<and> mq_tail q = None"
  using assms mq_rep_cnt(1) [of q "mq_addrs q"] by (auto simp: mq_inv_def mq_rep_def mq_content_def)

lemma get_msg_inv:
  assumes "mq_inv q" "mq_inv (wait q)"
  defines "p \<equiv> if mq_content q = [] then wait q else q"
  shows "get_msg wait q = get_msg_take p" "mq_inv p"
  using assms mq_inv_empty [OF assms(1)] by (auto simp: get_msg_def)

lemma mq_inv_head:
  assumes "mq_inv q" "mq_addrs q = a # as"
  obtains m where "mq_mem q a = Some m" "mq_content q = msg_content m # tl (mq_content q)" "a \<notin> set as"
proof -
  have "mq_rep q (a # as)" using assms by (simp add: mq_inv_def)
  then show ?thesis using that assms(2) by (auto simp: mq_rep_def mq_content_def split: option.splits)
qed

lemma mq_get_spec:
  assumes "mq_inv q"
  shows "mq_inv (snd (mq_get q)) \<and> fst (mq_get q) = (case mq_content q of [] \<Rightarrow> None | x # _ \<Rightarrow> Some x) \<and>
    mq_content (snd (mq_get q)) = tl (mq_content q)"
proof -
  have g: "get_msg (\<lambda>q. q) q = get_msg_take q" using get_msg_inv(1) [OF assms, of "\<lambda>q. q"] assms by simp
  obtain q' where q': "get_msg_take q = Inr ((case mq_addrs q of [] \<Rightarrow> None | a # _ \<Rightarrow> Some a), q')" "mq_inv q'"
    "mq_content q' = tl (mq_content q)" "relinked q q'"
    using get_msg_take_inv [OF assms] by blast
  show ?thesis
  proof (cases "mq_addrs q")
    case Nil
    then show ?thesis using q' by (simp add: mq_get_def g mq_content_def)
  next
    case (Cons a as)
    from mq_inv_head [OF assms Cons] obtain m where m: "mq_mem q a = Some m" "mq_content q = msg_content m # tl (mq_content q)" .
    then obtain n p where "mq_mem q' a = Some (m\<lparr>m_next := n, m_prev := p\<rparr>)" using relinkedD [OF q'(4)] by blast
    then show ?thesis using Cons q' m(2) by (cases "mq_content q") (simp_all add: mq_get_def g msg_content_def)
  qed
qed

interpretation mq: fifo_queue mq_post mq_get mq_content mq_inv 100
  by unfold_locales (use mq_post_spec mq_get_spec in auto)

lemma create_queue_inv: "mq_inv create_queue" "mq_content create_queue = []"
  by (simp_all add: mq_inv_def mq_rep_def create_queue_def mq_addrs_def mq_content_def)

text \<open>One thread alone that posts and gets: the messages accepted are those handed out followed by
  those queued, and at most 100 are queued.\<close>

lemma single_thread_fifo:
  assumes "mq.run ops create_queue = (accepted, outs, q)"
  shows "accepted = outs @ mq_content q \<and> length (mq_content q) \<le> 100"
  using mq.run_fifo [OF create_queue_inv(1) assms] mq.content_bounded [OF create_queue_inv(1) _ assms]
  by (simp add: create_queue_inv(2))

section \<open>The handler loop\<close>

text \<open>Other threads inserting messages.\<close>

definition mq_arrive :: "msg_view list \<Rightarrow> msg_queue \<Rightarrow> msg_queue" where
  "mq_arrive xs q = fold (\<lambda>x q. case mq_insert x q of Inl e \<Rightarrow> q | Inr q' \<Rightarrow> q') xs q"

lemma mq_arrive_inv:
  assumes "mq_inv q" "length (mq_content q) + length xs < 2 ^ 32"
  shows "mq_inv (mq_arrive xs q) \<and> mq_content (mq_arrive xs q) = mq_content q @ xs \<and>
    (\<forall>b. mq_mem q b \<noteq> None \<and> b \<notin> set (mq_addrs q) \<longrightarrow> mq_mem (mq_arrive xs q) b \<noteq> None \<and> b \<notin> set (mq_addrs (mq_arrive xs q)))"
  using assms
proof (induction xs arbitrary: q)
  case Nil
  then show ?case by (simp add: mq_arrive_def)
next
  case (Cons x xs)
  have rep: "mq_rep q (mq_addrs q)" "mq_max q = 100" using Cons.prems(1) by (simp_all add: mq_inv_def)
  have "Suc (length (mq_addrs q)) < 2 ^ 32" using Cons.prems(2) by (simp add: mq_content_def)
  from mq_insert_rep [OF rep(1) this, of x] obtain q1 where
    q1: "mq_insert x q = Inr q1" "mq_rep q1 (mq_addrs q @ [mq_fresh q])" "mq_content q1 = mq_content q @ [x]" "mq_max q1 = mq_max q"
    and mem: "\<And>b m. mq_mem q b = Some m \<Longrightarrow> \<exists>n p. mq_mem q1 b = Some (m\<lparr>m_next := n, m_prev := p\<rparr>)" by blast
  have i: "mq_inv q1" using mq_invI [OF q1(2)] q1(4) rep(2) by simp
  have "mq_mem q1 b \<noteq> None \<and> b \<notin> set (mq_addrs q1)" if "mq_mem q b \<noteq> None" "b \<notin> set (mq_addrs q)" for b
  proof -
    have "b < mq_fresh q" using that(1) rep(1) by (auto simp: mq_rep_def)
    then show ?thesis using that mem mq_rep_addrs [OF q1(2)] by fastforce
  qed
  moreover have "mq_arrive (x # xs) q = mq_arrive xs q1" using q1(1) by (simp add: mq_arrive_def)
  ultimately show ?case using Cons.IH [OF i] Cons.prems(2) q1(3) by simp
qed

text \<open>The messages that have arrived when the k-th iteration after \<open>n\<close> handled messages takes the mutex:
  those queued at the start, those that came while earlier handlers ran and those that came while an
  earlier iteration waited, which happens when every message that had arrived was handled.\<close>

fun arrived :: "(nat \<Rightarrow> 'm list) \<Rightarrow> (nat \<Rightarrow> 'm list) \<Rightarrow> nat \<Rightarrow> 'm list \<Rightarrow> nat \<Rightarrow> 'm list" where
  "arrived late posts k xs 0 = xs"
| "arrived late posts k xs (Suc n) =
     (let as = arrived late posts k xs n in (if length as = n then as @ late (k + n) else as) @ posts (k + n))"

lemma arrived_shift:
  assumes "(if xs = [] then late k else xs) = y # ys"
  shows "arrived late posts k xs (Suc n) = y # arrived late posts (Suc k) (ys @ posts k) n"
proof (induction n)
  case 0
  then show ?case using assms by (auto split: if_splits)
next
  case (Suc n)
  show ?case unfolding arrived.simps(2) [of late posts k xs "Suc n"] Suc by (simp add: Let_def)
qed

text \<open>What a return of the loop means, from the state before its iteration \<open>k\<close>.  With \<open>n\<close> messages handled
  and the deadline at \<open>clk + timeout\<close>: the handled messages are the first \<open>n\<close> that arrived, in order; when
  the deadline has passed after the last of them, the loop returns that message, already freed, and the
  queue holds the rest; otherwise it waits if nothing is left and returns NULL when nothing comes, or
  hands out the next message, which has no handler.\<close>

definition loop_result ::
  "(nat \<Rightarrow> msg_view list) \<Rightarrow> (nat \<Rightarrow> msg_view list) \<Rightarrow> (nat \<Rightarrow> int) \<Rightarrow> nat \<Rightarrow> nat option \<Rightarrow> int \<Rightarrow> int \<Rightarrow> msg_queue \<Rightarrow>
   nat option \<Rightarrow> msg list \<Rightarrow> msg_queue \<Rightarrow> bool" where
  "loop_result late posts ticks k prv timeout clk q r ms q' \<longleftrightarrow>
     (let n = length ms;
          A = arrived late posts k (mq_content q) n;
          B = (if length A = n then A @ late (k + n) else A)
      in n \<le> length A \<and> map msg_content ms = take n A \<and> (\<forall>m \<in> set ms. m_handler m \<noteq> None) \<and>
         (0 < n \<longrightarrow> 0 \<le> timeout) \<and> (\<forall>j. Suc j < n \<longrightarrow> ticks (k + j) \<le> clk + timeout) \<and>
         (if n = 0 \<and> timeout < 0 then r = prv \<and> q' = q
          else if 0 < n \<and> clk + timeout < ticks (k + (n - 1)) then
            (\<exists>a. r = Some a \<and> mq_mem q' a = None) \<and> mq_content q' = drop n A
          else if length B = n then r = None \<and> mq_content q' = []
          else (\<exists>a m. r = Some a \<and> mq_mem q' a = Some m \<and> m_handler m = None \<and> msg_content m = B ! n) \<and>
            mq_content q' = drop (Suc n) B))"

lemma loop_result_Cons:
  assumes r: "loop_result late posts ticks (Suc k) (Some a) (timeout - (ticks k - clk)) (ticks k) q2 r ms q'"
    and q2: "mq_content q2 = ys @ posts k" "mq_mem q2 a = None"
    and x: "(if mq_content q = [] then late k else mq_content q) = msg_content m # ys" "m_handler m \<noteq> None" "\<not> timeout < 0"
  shows "loop_result late posts ticks k prv timeout clk q r (m # ms) q'"
proof -
  let ?n = "length ms"
  let ?A = "arrived late posts (Suc k) (ys @ posts k) ?n"
  have A: "arrived late posts k (mq_content q) (length (m # ms)) = msg_content m # ?A"
    using arrived_shift [where late = late and k = k and xs = "mq_content q" and posts = posts and n = ?n] x(1) by simp
  have early: "ticks (k + j) \<le> clk + timeout" if "Suc j < Suc ?n" for j
    using r that by (cases j) (auto simp: loop_result_def Let_def)
  show ?thesis
  proof (cases "?n = 0")
    case True
    then show ?thesis using r q2 x early unfolding loop_result_def Let_def A by (auto split: if_splits)
  next
    case False
    then have i: "Suc (k + (?n - Suc 0)) = k + ?n" "ms \<noteq> []" by auto
    show ?thesis
      using i(2) r q2(1) x early unfolding loop_result_def Let_def A by (auto simp: i(1) split: if_splits)
  qed
qed

text \<open>One iteration that hands out a message.\<close>

lemma get_msg_arrive:
  assumes "mq_inv q" "length (mq_content q) + length late < 2 ^ 32"
  defines "xs \<equiv> if mq_content q = [] then late else mq_content q"
  shows "\<exists>r q1. get_msg (mq_arrive late) q = Inr (r, q1) \<and> mq_inv q1 \<and> mq_content q1 = tl xs \<and>
    (case xs of [] \<Rightarrow> r = None
     | x # _ \<Rightarrow> \<exists>a m. r = Some a \<and> mq_mem q1 a = Some m \<and> msg_content m = x \<and> a \<notin> set (mq_addrs q1))"
proof -
  note ar = mq_arrive_inv [OF assms(1,2)]
  let ?p = "if mq_content q = [] then mq_arrive late q else q"
  have g: "get_msg (mq_arrive late) q = get_msg_take ?p" "mq_inv ?p"
    using get_msg_inv [OF assms(1), of "mq_arrive late"] ar by auto
  have c: "mq_content ?p = xs" using ar by (auto simp: xs_def)
  obtain q1 where q1: "get_msg_take ?p = Inr ((case mq_addrs ?p of [] \<Rightarrow> None | a # _ \<Rightarrow> Some a), q1)" "mq_inv q1"
    "mq_addrs q1 = tl (mq_addrs ?p)" "mq_content q1 = tl xs" "relinked ?p q1"
    using get_msg_take_inv [OF g(2)] unfolding c by blast
  show ?thesis
  proof (cases "mq_addrs ?p")
    case Nil
    then have "xs = []" using c unfolding mq_content_def by simp
    then show ?thesis using q1 g(1) Nil by simp
  next
    case (Cons a as)
    from mq_inv_head [OF g(2) Cons] obtain m where m: "mq_mem ?p a = Some m" "xs = msg_content m # tl xs" "a \<notin> set as"
      unfolding c .
    then obtain n p where "mq_mem q1 a = Some (m\<lparr>m_next := n, m_prev := p\<rparr>)" using relinkedD [OF q1(5)] by blast
    then have "get_msg (mq_arrive late) q = Inr (Some a, q1)" "a \<notin> set (mq_addrs q1)"
      "mq_mem q1 a = Some (m\<lparr>m_next := n, m_prev := p\<rparr>)" "msg_content (m\<lparr>m_next := n, m_prev := p\<rparr>) = msg_content m"
      using q1(1,3) g(1) Cons m(3) by (simp_all add: msg_content_def)
    then show ?thesis using q1(2,4) m(2) by (cases xs) auto
  qed
qed

lemma free_msg_inv:
  assumes "mq_inv q" "mq_mem q a \<noteq> None" "a \<notin> set (mq_addrs q)"
  shows "\<exists>q'. free_msg a q = Inr q' \<and> mq_inv q' \<and> mq_content q' = mq_content q \<and> mq_mem q' a = None"
proof -
  have rep: "mq_rep q (mq_addrs q)" "mq_max q = 100" using assms(1) by (simp_all add: mq_inv_def)
  note f = free_msg_rep [OF rep(1) assms(2,3)]
  have "mq_content (q\<lparr>mq_mem := (mq_mem q)(a := None)\<rparr>) = mq_content q"
    unfolding mq_rep_content [OF f(2)] mq_rep_content [OF rep(1)] msgs_at_def using assms(3) by auto
  then show ?thesis using f(1) mq_invI [OF f(2)] rep(2) by simp
qed

lemma loop_returns:
  assumes "mq_inv q" "timeout < 0 \<and> 0 < fuel \<or> (clk + timeout < ticks (k + N) \<and> Suc N < fuel \<and>
      length (mq_content q) + (\<Sum>j\<le>N. length (late (k + j)) + length (posts (k + j))) < 2 ^ 32)"
  shows "\<exists>r ms q'. get_msg_call_handler fuel (\<lambda>k. mq_arrive (late k)) (\<lambda>k. mq_arrive (posts k)) ticks k prv timeout clk q =
      Some (Inr (r, ms, q')) \<and> mq_inv q' \<and> loop_result late posts ticks k prv timeout clk q r ms q'"
  using assms
proof (induction fuel arbitrary: k N prv timeout clk q)
  case (Suc fuel)
  show ?case
  proof (cases "timeout < 0")
    case True
    then show ?thesis using Suc.prems(1) by (simp add: loop_result_def)
  next
    case False
    let ?S = "\<lambda>k N. \<Sum>j\<le>N. length (late (k + j)) + length (posts (k + j))"
    have N: "clk + timeout < ticks (k + N)" "N < fuel" "length (mq_content q) + ?S k N < 2 ^ 32"
      using Suc.prems(2) False by auto
    have S0: "length (late k) + length (posts k) \<le> ?S k N"
      using member_le_sum [of 0 "{..N}" "\<lambda>j. length (late (k + j)) + length (posts (k + j))"] by simp
    let ?xs = "if mq_content q = [] then late k else mq_content q"
    have lx: "length ?xs \<le> length (mq_content q) + length (late k)" by simp
    obtain r q1 where g: "get_msg (mq_arrive (late k)) q = Inr (r, q1)" "mq_inv q1" "mq_content q1 = tl ?xs"
      and r: "case ?xs of [] \<Rightarrow> r = None
        | x # _ \<Rightarrow> \<exists>a m. r = Some a \<and> mq_mem q1 a = Some m \<and> msg_content m = x \<and> a \<notin> set (mq_addrs q1)"
      using get_msg_arrive [OF Suc.prems(1), of "late k"] N(3) S0 by auto
    show ?thesis
    proof (cases ?xs)
      case Nil
      then have "mq_content q = []" "late k = []" by (auto split: if_splits)
      then show ?thesis using False g r Nil by (simp add: loop_result_def)
    next
      case (Cons x ys)
      then obtain a m where a: "r = Some a" "mq_mem q1 a = Some m" "msg_content m = x" "a \<notin> set (mq_addrs q1)" using r by auto
      have c1: "mq_content q1 = ys" using g(3) Cons by simp
      show ?thesis
      proof (cases "m_handler m")
        case None
        have "loop_result late posts ticks k prv timeout clk q (Some a) [] q1"
          using False a None Cons c1 by (auto simp: loop_result_def split: if_splits)
        then show ?thesis using False g a None by (intro exI [of _ "Some a"] exI [of _ "[]"] exI [of _ q1]) simp
      next
        case (Some h)
        have b: "length (mq_content q1) + length (posts k) < 2 ^ 32" using c1 Cons lx N(3) S0 by auto
        note ar = mq_arrive_inv [OF g(2) b]
        obtain q2 where q2: "free_msg a (mq_arrive (posts k) q1) = Inr q2" "mq_inv q2" "mq_content q2 = ys @ posts k" "mq_mem q2 a = None"
          using free_msg_inv [of "mq_arrive (posts k) q1" a] ar a(2,4) c1 by auto
        have deadline: "timeout - (ticks k - clk) < 0 \<and> 0 < fuel \<or> (ticks k + (timeout - (ticks k - clk)) < ticks (Suc k + (N - 1)) \<and>
            Suc (N - 1) < fuel \<and> length (mq_content q2) + ?S (Suc k) (N - 1) < 2 ^ 32)"
        proof (cases N)
          case 0
          then show ?thesis using N(1,2) by simp
        next
          case (Suc M)
          have "?S k N = length (late k) + length (posts k) + ?S (Suc k) M"
            unfolding Suc sum.atMost_Suc_shift by simp
          then have "length (mq_content q2) + ?S (Suc k) M < 2 ^ 32" using N(3) q2(3) Cons lx by auto
          then show ?thesis using N(1,2) Suc by simp
        qed
        obtain r' ms q3 where
          l: "get_msg_call_handler fuel (\<lambda>k. mq_arrive (late k)) (\<lambda>k. mq_arrive (posts k)) ticks (Suc k) (Some a)
            (timeout - (ticks k - clk)) (ticks k) q2 = Some (Inr (r', ms, q3))" "mq_inv q3"
          "loop_result late posts ticks (Suc k) (Some a) (timeout - (ticks k - clk)) (ticks k) q2 r' ms q3"
          using Suc.IH [OF q2(2) deadline, of "Some a"] by blast
        have "loop_result late posts ticks k prv timeout clk q r' (m # ms) q3"
          by (rule loop_result_Cons [OF l(3) q2(3,4)]) (use Cons a(3) Some False in auto)
        moreover have "get_msg_call_handler (Suc fuel) (\<lambda>k. mq_arrive (late k)) (\<lambda>k. mq_arrive (posts k)) ticks k prv timeout clk q =
            Some (Inr (r', m # ms, q3))"
          using False g(1) a(1,2) Some q2(1) l(1) by (simp add: Let_def)
        ultimately show ?thesis using l(2) by blast
      qed
    qed
  qed
qed auto

text \<open>C33.  The handler loop returns by its deadline and loses nothing, while other threads keep posting:
  if the clock passes the deadline after the handler of some iteration \<open>N\<close>, whatever number of messages
  arrive while handlers run and while the loop waits, the loop returns without a fault; the messages
  whose handler ran are the first that arrived, in order and each with a handler; it stops handling only
  when the deadline has passed (it then returns the last message, already freed), when nothing is queued
  and nothing comes while it waits (it returns NULL), or at the first message without a handler, which it
  returns allocated; and the messages not handed out stay queued in order.\<close>

theorem handler_loop_returns:
  assumes "mq_inv q" "clk + timeout < ticks N" "Suc N < fuel"
    "length (mq_content q) + (\<Sum>j\<le>N. length (late j) + length (posts j)) < 2 ^ 32"
  shows "\<exists>r ms q'. get_msg_call_handler fuel (\<lambda>k. mq_arrive (late k)) (\<lambda>k. mq_arrive (posts k)) ticks 0 prv timeout clk q =
      Some (Inr (r, ms, q')) \<and> mq_inv q' \<and>
     (let n = length ms;
          A = arrived late posts 0 (mq_content q) n;
          B = (if length A = n then A @ late n else A)
      in n \<le> length A \<and> map msg_content ms = take n A \<and> (\<forall>m \<in> set ms. m_handler m \<noteq> None) \<and>
         (0 < n \<longrightarrow> 0 \<le> timeout) \<and> (\<forall>j. Suc j < n \<longrightarrow> ticks j \<le> clk + timeout) \<and>
         (if n = 0 \<and> timeout < 0 then r = prv \<and> q' = q
          else if 0 < n \<and> clk + timeout < ticks (n - 1) then
            (\<exists>a. r = Some a \<and> mq_mem q' a = None) \<and> mq_content q' = drop n A
          else if length B = n then r = None \<and> mq_content q' = []
          else (\<exists>a m. r = Some a \<and> mq_mem q' a = Some m \<and> m_handler m = None \<and> msg_content m = B ! n) \<and>
            mq_content q' = drop (Suc n) B))"
proof -
  have d: "timeout < 0 \<and> 0 < fuel \<or> (clk + timeout < ticks (0 + N) \<and> Suc N < fuel \<and>
      length (mq_content q) + (\<Sum>j\<le>N. length (late (0 + j)) + length (posts (0 + j))) < 2 ^ 32)"
    using assms(2-) by simp
  from loop_returns [where k = 0 and late = late and posts = posts and ticks = ticks and prv = prv, OF assms(1) d]
  show ?thesis unfolding loop_result_def add_0 .
qed

text \<open>A run: one message queued, one more posted while its handler runs, and one without a handler that
  comes while the third iteration waits.\<close>

definition loop_late :: "nat \<Rightarrow> msg_view list" where
  "loop_late k = (if k = 2 then [(0, 0, 9, 0, None)] else [])"

definition loop_posts :: "nat \<Rightarrow> msg_view list" where
  "loop_posts k = (if k = 0 then [(0, 0, 6, 0, Some 8)] else [])"

definition loop_ticks :: "nat \<Rightarrow> int" where
  "loop_ticks k = (if k < 2 then int k else 20)"

definition loop_run :: "(nat option \<times> msg list \<times> msg_queue) cres option" where
  "loop_run = get_msg_call_handler 4 (\<lambda>k. mq_arrive (loop_late k)) (\<lambda>k. mq_arrive (loop_posts k)) loop_ticks 0 None 10 0
     (mq_post (0, 0, 5, 0, Some 7) create_queue)"

lemma loop_run_value:
  "(case loop_run of Some (Inr (r, ms, q)) \<Rightarrow> (r, map m_body ms, mq_cnt q) | _ \<Rightarrow> (None, [], 1)) = (Some 2, [5, 6], 0)"
  by code_simp

theorem handler_loop_returns_witness:
  "\<exists>r ms q'. loop_run = Some (Inr (r, ms, q')) \<and> mq_inv q' \<and> map m_body ms = [5, 6] \<and>
     (\<forall>m \<in> set ms. m_handler m \<noteq> None)"
proof -
  let ?q = "mq_post (0, 0, 5, 0, Some 7) create_queue"
  have i: "mq_inv ?q" "length (mq_content ?q) = 1"
    using mq_post_spec [OF create_queue_inv(1)] create_queue_inv(2) by simp_all
  have l: "length (mq_content ?q) + (\<Sum>j\<le>2. length (loop_late j) + length (loop_posts j)) < 2 ^ 32"
  proof -
    have "(\<Sum>j\<le>Suc (Suc 0). length (loop_late j) + length (loop_posts j)) = 2" by (simp add: loop_late_def loop_posts_def)
    then show ?thesis unfolding i(2) by (simp add: numeral_2_eq_2 [symmetric])
  qed
  from handler_loop_returns [where late = loop_late and posts = loop_posts and ticks = loop_ticks and N = 2 and fuel = 4
      and timeout = 10 and clk = 0 and prv = None, OF i(1) _ _ l]
  show ?thesis using loop_run_value unfolding loop_run_def by (auto simp: loop_ticks_def Let_def)
qed

text \<open>When the time runs out while handlers run, the loop returns the message it handled last, which
  it has already freed: one message with a handler, a timeout of 0 seconds and a handler that takes a
  second.\<close>

theorem handler_loop_returns_freed:
  "case get_msg_call_handler 2 (\<lambda>_. id) (\<lambda>_. id) (\<lambda>_. 1) 0 None 0 0 (mq_post (0, 0, 5, 0, Some 7) create_queue) of
     Some (Inr (Some a, [m], q)) \<Rightarrow> m_handler m = Some 7 \<and> mq_mem q a = None
   | _ \<Rightarrow> False"
  by code_simp

end
