(* ===== verification/Queue_Threads.thy ===== *)
theory Queue_Threads
  imports Message_Queue
begin

text \<open>
  The threads that share a message queue (\<open>src/idr-mgt-shared-libs/lib/message_queue.c\<close>).

  A step is one access a thread makes without giving another thread a chance: the unlocked test of
  \<open>queue->cnt\<close> at line 73, the locked insert (lines 80-101), the locked removal of \<open>get_msg\<close> after its
  wait, the free of a message taken.  Between its test and its insert a poster holds its message and no
  lock, so others may insert or remove.  The counter of dropped messages is incremented without the
  lock; it is one step here.
\<close>

section \<open>The system\<close>

text \<open>The queue, the messages of the posters between the test and the insert, the messages taken and
  not yet freed, the messages inserted so far and those handed out so far.\<close>

record mq_sys =
  qs_queue :: msg_queue
  qs_posting :: "nat list"
  qs_taken :: "nat list"
  qs_in :: "msg_view list"
  qs_out :: "msg_view list"

text \<open>\<open>T\<close> bounds the number of threads inside \<open>post_msg2\<close> at the same time.\<close>

inductive mq_step :: "nat \<Rightarrow> mq_sys \<Rightarrow> mq_sys \<Rightarrow> bool" for T where
  Admit: "length (qs_posting s) < T \<Longrightarrow> new_msg body len t tag h (qs_queue s) = (a, q) \<Longrightarrow> \<not> mq_cnt q \<ge> mq_max q \<Longrightarrow>
    mq_step T s (s\<lparr>qs_queue := q, qs_posting := a # qs_posting s\<rparr>)"
| Refuse: "length (qs_posting s) < T \<Longrightarrow> new_msg body len t tag h (qs_queue s) = (a, q) \<Longrightarrow> mq_cnt q \<ge> mq_max q \<Longrightarrow>
    post_refuse a q = Inr q' \<Longrightarrow> mq_step T s (s\<lparr>qs_queue := q'\<rparr>)"
| Insert: "qs_posting s = ps @ a # ps' \<Longrightarrow> post_insert a (qs_queue s) = Inr q \<Longrightarrow>
    mq_step T s (s\<lparr>qs_queue := q, qs_posting := ps @ ps', qs_in := qs_in s @ [msg_content (the (mq_mem (qs_queue s) a))]\<rparr>)"
| Take: "get_msg_take (qs_queue s) = Inr (Some a, q) \<Longrightarrow>
    mq_step T s (s\<lparr>qs_queue := q, qs_taken := a # qs_taken s, qs_out := qs_out s @ [msg_content (the (mq_mem q a))]\<rparr>)"
| Free: "qs_taken s = ts @ a # ts' \<Longrightarrow> free_msg a (qs_queue s) = Inr q \<Longrightarrow>
    mq_step T s (s\<lparr>qs_queue := q, qs_taken := ts @ ts'\<rparr>)"

definition mq_start :: mq_sys where
  "mq_start = \<lparr>qs_queue = create_queue, qs_posting = [], qs_taken = [], qs_in = [], qs_out = []\<rparr>"

inductive mq_reach :: "nat \<Rightarrow> mq_sys \<Rightarrow> bool" for T where
  Init: "mq_reach T mq_start"
| Step: "mq_reach T s \<Longrightarrow> mq_step T s s' \<Longrightarrow> mq_reach T s'"

section \<open>The invariant\<close>

text \<open>The messages allocated are those queued, those being posted and those taken, each once.\<close>

definition mq_owned :: "msg_queue \<Rightarrow> nat list \<Rightarrow> nat list \<Rightarrow> nat list \<Rightarrow> bool" where
  "mq_owned q as ps ts \<longleftrightarrow> mq_rep q as \<and> mq_max q = 100 \<and> distinct (as @ ps @ ts) \<and> dom (mq_mem q) = set (as @ ps @ ts)"

definition mq_sys_inv :: "nat \<Rightarrow> mq_sys \<Rightarrow> bool" where
  "mq_sys_inv T s \<longleftrightarrow> (\<exists>as. mq_owned (qs_queue s) as (qs_posting s) (qs_taken s) \<and>
     qs_in s = qs_out s @ msgs_at (qs_queue s) as \<and> length as + length (qs_posting s) \<le> 99 + T)"

lemma mq_owned_new:
  assumes "mq_owned q as ps ts" "new_msg body len t tag h q = (a, q1)"
  shows "mq_owned q1 as (a # ps) ts" "msgs_at q1 as = msgs_at q as" "mq_cnt q1 \<ge> mq_max q1 \<longleftrightarrow> 100 \<le> length as"
proof -
  have rep: "mq_rep q as" "mq_max q = 100" using assms(1) by (simp_all add: mq_owned_def)
  note n = new_msg_rep [OF rep(1) assms(2)]
  have "a \<notin> dom (mq_mem q)" using n(3) by blast
  then show "mq_owned q1 as (a # ps) ts" using assms(1) n by (auto simp: mq_owned_def)
  show "msgs_at q1 as = msgs_at q as" using n(4,5) by (auto simp: msgs_at_def)
  show "mq_cnt q1 \<ge> mq_max q1 \<longleftrightarrow> 100 \<le> length as" using mq_rep_cnt(3) [OF n(1)] n(6) rep(2) by simp
qed

lemma mq_owned_free:
  assumes "mq_owned q as ps (ts @ a # ts')"
  shows "free_msg a q = Inr (q\<lparr>mq_mem := (mq_mem q)(a := None)\<rparr>)"
    "mq_owned (q\<lparr>mq_mem := (mq_mem q)(a := None)\<rparr>) as ps (ts @ ts')"
    "msgs_at (q\<lparr>mq_mem := (mq_mem q)(a := None)\<rparr>) as = msgs_at q as"
proof -
  have a: "mq_mem q a \<noteq> None" "a \<notin> set as" using assms by (auto simp: mq_owned_def)
  note f = free_msg_rep [OF _ a]
  show "free_msg a q = Inr (q\<lparr>mq_mem := (mq_mem q)(a := None)\<rparr>)" using f assms by (simp add: mq_owned_def)
  show "mq_owned (q\<lparr>mq_mem := (mq_mem q)(a := None)\<rparr>) as ps (ts @ ts')" using f(2) assms by (auto simp: mq_owned_def)
  show "msgs_at (q\<lparr>mq_mem := (mq_mem q)(a := None)\<rparr>) as = msgs_at q as" using a(2) by (auto simp: msgs_at_def)
qed

lemma mq_owned_insert:
  assumes "mq_owned q as (ps @ a # ps') ts" "Suc (length as) < 2 ^ 32"
  shows "\<exists>q'. post_insert a q = Inr q' \<and> mq_owned q' (as @ [a]) (ps @ ps') ts \<and>
    msgs_at q' (as @ [a]) = msgs_at q as @ [msg_content (the (mq_mem q a))]"
proof -
  obtain m where a: "mq_mem q a = Some m" "a \<notin> set as" using assms(1) by (fastforce simp: mq_owned_def)
  have rep: "mq_rep q as" using assms(1) by (simp add: mq_owned_def)
  obtain q' where q': "post_insert a q = Inr q'" "mq_rep q' (as @ [a])" "relinked q q'"
    using post_insert_rep [OF rep a assms(2)] by blast
  have "msgs_at q' (as @ [a]) = msgs_at q (as @ [a])"
    by (rule relinked_at [OF q'(3)]) (use assms(1) in \<open>auto simp: mq_owned_def\<close>)
  moreover have "mq_owned q' (as @ [a]) (ps @ ps') ts"
    using assms(1) q' by (auto simp: mq_owned_def relinked_def)
  ultimately show ?thesis using q'(1) by (simp add: msgs_at_def)
qed

lemma mq_owned_take:
  assumes "mq_owned q as ps ts"
  shows "\<exists>q'. get_msg_take q = Inr ((case as of [] \<Rightarrow> None | a # _ \<Rightarrow> Some a), q') \<and>
    mq_owned q' (tl as) ps (take 1 as @ ts) \<and> msgs_at q' as = msgs_at q as"
proof -
  obtain q' where q': "get_msg_take q = Inr ((case as of [] \<Rightarrow> None | a # _ \<Rightarrow> Some a), q')" "mq_rep q' (tl as)" "relinked q q'"
    using get_msg_take_rep [of q as] assms by (auto simp: mq_owned_def)
  have "msgs_at q' as = msgs_at q as"
    by (rule relinked_at [OF q'(3)]) (use assms in \<open>auto simp: mq_owned_def\<close>)
  moreover have "mq_owned q' (tl as) ps (take 1 as @ ts)"
    using assms q'(2,3) by (cases as) (auto simp: mq_owned_def relinked_def)
  ultimately show ?thesis using q'(1) by blast
qed

lemma mq_step_inv:
  assumes "mq_step T s s'" "mq_sys_inv T s" "T < 2 ^ 31"
  shows "mq_sys_inv T s'"
proof -
  obtain as where o: "mq_owned (qs_queue s) as (qs_posting s) (qs_taken s)" and h: "qs_in s = qs_out s @ msgs_at (qs_queue s) as"
    and l: "length as + length (qs_posting s) \<le> 99 + T"
    using assms(2) by (auto simp: mq_sys_inv_def)
  show ?thesis
    using assms(1)
  proof (cases rule: mq_step.cases)
    case (Admit body len t tag h a q)
    note n = mq_owned_new [OF o Admit(3)]
    show ?thesis unfolding mq_sys_inv_def
      by (rule exI [of _ as]) (use Admit n h l in auto)
  next
    case (Refuse body len t tag h a q q')
    note n = mq_owned_new [OF o Refuse(3)]
    have "mq_owned q as (qs_posting s) ([] @ a # qs_taken s)" using n(1) by (auto simp: mq_owned_def)
    note f = mq_owned_free [OF this]
    have "q' = q\<lparr>mq_mem := (mq_mem q)(a := None), mq_drops := mq_drops q + 1\<rparr>"
      using Refuse(5) f(1) by (simp add: post_refuse_def)
    then have "mq_owned q' as (qs_posting s) (qs_taken s)" "msgs_at q' as = msgs_at (qs_queue s) as"
      using f(2,3) n(2) by (simp_all add: mq_owned_def mq_rep_def msgs_at_def)
    then show ?thesis unfolding mq_sys_inv_def Refuse(1) using h l by (intro exI [of _ as]) simp
  next
    case (Insert ps a ps' q)
    have "Suc (length as) < 2 ^ 32" using l assms(3) Insert(2) by simp
    from mq_owned_insert [OF o [unfolded Insert(2)] this] show ?thesis
      unfolding mq_sys_inv_def Insert(1) using h l Insert(2,3) by (intro exI [of _ "as @ [a]"]) auto
  next
    case (Take a q)
    from mq_owned_take [OF o] Take(2) obtain bs where as: "as = a # bs" and t: "mq_owned q bs (qs_posting s) (a # qs_taken s)"
      "msgs_at q as = msgs_at (qs_queue s) as"
      by (cases as) auto
    then show ?thesis unfolding mq_sys_inv_def Take(1) using h l by (intro exI [of _ bs]) (auto simp: msgs_at_def)
  next
    case (Free ts a ts' q)
    note f = mq_owned_free [OF o [unfolded Free(2)]]
    show ?thesis unfolding mq_sys_inv_def Free(1)
      by (rule exI [of _ as]) (use f Free(3) h l in simp)
  qed
qed

lemma mq_reach_inv: "mq_reach T s \<Longrightarrow> T < 2 ^ 31 \<Longrightarrow> mq_sys_inv T s"
proof (induction rule: mq_reach.induct)
  case Init
  have "mq_owned create_queue [] [] []" by (simp add: mq_owned_def mq_rep_def create_queue_def)
  then show ?case by (auto simp: mq_sys_inv_def mq_start_def msgs_at_def)
next
  case (Step s s')
  then show ?case using mq_step_inv by blast
qed

text \<open>C9.  Message queue under concurrency: whatever any number of readers and at most \<open>T\<close> posting
  threads do, in any interleaving of the unlocked count test, the locked insert, the locked removal and
  the frees, the messages inserted are exactly those handed out followed by those still queued, in
  order; no assertion fails and no pointer dangles in the next insert, removal or free of any thread;
  the allocated messages are exactly those queued, being posted or taken, each in one place; and at
  most 99 + T messages are queued - 100, the configured maximum, only for a single poster, because the
  count is tested before the lock is taken.\<close>

theorem message_queue_threads:
  assumes "mq_reach T s" "T < 2 ^ 31"
  shows "qs_in s = qs_out s @ mq_content (qs_queue s) \<and>
    length (mq_content (qs_queue s)) \<le> 99 + T \<and>
    unat (mq_cnt (qs_queue s)) = length (mq_content (qs_queue s)) \<and>
    distinct (mq_addrs (qs_queue s) @ qs_posting s @ qs_taken s) \<and>
    dom (mq_mem (qs_queue s)) = set (mq_addrs (qs_queue s) @ qs_posting s @ qs_taken s) \<and>
    (\<forall>a \<in> set (qs_posting s). \<exists>q. post_insert a (qs_queue s) = Inr q) \<and>
    (\<exists>r q. get_msg_take (qs_queue s) = Inr (r, q) \<and> (r = None \<longleftrightarrow> mq_content (qs_queue s) = [])) \<and>
    (\<forall>a \<in> set (qs_taken s). \<exists>q. free_msg a (qs_queue s) = Inr q)"
proof -
  obtain as where o: "mq_owned (qs_queue s) as (qs_posting s) (qs_taken s)" and h: "qs_in s = qs_out s @ msgs_at (qs_queue s) as"
    and l: "length as + length (qs_posting s) \<le> 99 + T"
    using mq_reach_inv [OF assms] by (auto simp: mq_sys_inv_def)
  have rep: "mq_rep (qs_queue s) as" using o by (simp add: mq_owned_def)
  note c = mq_rep_content [OF rep] mq_rep_addrs [OF rep]
  have "\<exists>q. post_insert a (qs_queue s) = Inr q" if e: "a \<in> set (qs_posting s)" for a
  proof -
    obtain ps ps' where p: "qs_posting s = ps @ a # ps'" using split_list [OF e] by blast
    have "Suc (length as) < 2 ^ 32" using l assms(2) p by simp
    from mq_owned_insert [OF o [unfolded p] this] show ?thesis by blast
  qed
  moreover have "\<exists>q. free_msg a (qs_queue s) = Inr q" if "a \<in> set (qs_taken s)" for a
    using that mq_owned_free(1) [of "qs_queue s" as "qs_posting s"] o by (metis split_list)
  moreover have "\<exists>r q. get_msg_take (qs_queue s) = Inr (r, q) \<and> (r = None \<longleftrightarrow> msgs_at (qs_queue s) as = [])"
    using mq_owned_take [OF o] by (cases as) (auto simp: msgs_at_def)
  ultimately show ?thesis
    using o h l mq_rep_cnt(4) [OF rep] unfolding c by (auto simp: mq_owned_def msgs_at_def)
qed

section \<open>The bound is not kept\<close>

lemma admit_step:
  assumes "mq_reach T s" "T < 2 ^ 31" "length (qs_posting s) < T" "length (mq_content (qs_queue s)) < 100"
  shows "\<exists>s' a. mq_reach T s' \<and> qs_posting s' = a # qs_posting s \<and> mq_content (qs_queue s') = mq_content (qs_queue s)"
proof -
  obtain as where o: "mq_owned (qs_queue s) as (qs_posting s) (qs_taken s)"
    using mq_reach_inv [OF assms(1,2)] by (auto simp: mq_sys_inv_def)
  obtain a q where q: "new_msg 0 0 0 0 None (qs_queue s) = (a, q)" by force
  note n = mq_owned_new [OF o q]
  have c: "mq_content (qs_queue s) = msgs_at (qs_queue s) as" "mq_content q = msgs_at q as"
    using o n(1) by (auto simp: mq_owned_def intro: mq_rep_content)
  then have "\<not> mq_cnt q \<ge> mq_max q" using n(3) assms(4) by (simp add: msgs_at_def)
  from mq_reach.Step [OF assms(1) Admit [OF assms(3) q this]] show ?thesis using n(2) c by fastforce
qed

lemma insert_step:
  assumes "mq_reach T s" "T < 2 ^ 31" "qs_posting s = a # ps"
  shows "\<exists>s'. mq_reach T s' \<and> qs_posting s' = ps \<and> length (mq_content (qs_queue s')) = Suc (length (mq_content (qs_queue s)))"
proof -
  obtain as where o: "mq_owned (qs_queue s) as (qs_posting s) (qs_taken s)" and l: "length as + length (qs_posting s) \<le> 99 + T"
    using mq_reach_inv [OF assms(1,2)] by (auto simp: mq_sys_inv_def)
  have p: "qs_posting s = [] @ a # ps" using assms(3) by simp
  have "Suc (length as) < 2 ^ 32" using l assms(2,3) by simp
  from mq_owned_insert [OF o [unfolded p] this] obtain q where q: "post_insert a (qs_queue s) = Inr q" "mq_rep q (as @ [a])"
    by (auto simp: mq_owned_def)
  have "mq_rep (qs_queue s) as" using o by (simp add: mq_owned_def)
  with q(2) have "length (mq_content q) = Suc (length (mq_content (qs_queue s)))" by (simp add: mq_rep_content msgs_at_def)
  with mq_reach.Step [OF assms(1) Insert [OF p q(1)]] show ?thesis by fastforce
qed

lemma queue_fills:
  assumes "0 < T" "T < 2 ^ 31"
  shows "n \<le> 100 \<Longrightarrow> \<exists>s. mq_reach T s \<and> qs_posting s = [] \<and> length (mq_content (qs_queue s)) = n"
proof (induction n)
  case 0
  show ?case by (rule exI [of _ mq_start]) (use mq_reach.Init [of T] in \<open>simp add: mq_start_def create_queue_inv(2)\<close>)
next
  case (Suc n)
  then obtain s where s: "mq_reach T s" "qs_posting s = []" "length (mq_content (qs_queue s)) = n" by auto
  with admit_step [OF s(1) assms(2)] assms(1) Suc.prems obtain s1 a where
    "mq_reach T s1" "qs_posting s1 = [a]" "length (mq_content (qs_queue s1)) = n" by fastforce
  with insert_step [of T s1 a "[]"] assms(2) show ?case by auto
qed

text \<open>Two posters exceed the maximum of the queue: with two threads inside \<open>post_msg2\<close> a queue of
  maximum 100 holds 101 messages, because both test the count (line 73) before either takes the lock.\<close>

theorem queue_bound_exceeded:
  "\<exists>s. mq_reach 2 s \<and> mq_max (qs_queue s) = 100 \<and> length (mq_content (qs_queue s)) = 101"
proof -
  have T: "(2 :: nat) < 2 ^ 31" by simp
  obtain s where s: "mq_reach 2 s" "qs_posting s = []" "length (mq_content (qs_queue s)) = 99"
    using queue_fills [of 2 99] by auto
  obtain s1 a where s1: "mq_reach 2 s1" "qs_posting s1 = [a]" "length (mq_content (qs_queue s1)) = 99"
    using admit_step [OF s(1) T] s by fastforce
  obtain s2 b where s2: "mq_reach 2 s2" "qs_posting s2 = [b, a]" "length (mq_content (qs_queue s2)) = 99"
    using admit_step [OF s1(1) T] s1 by fastforce
  obtain s3 where s3: "mq_reach 2 s3" "qs_posting s3 = [a]" "length (mq_content (qs_queue s3)) = 100"
    using insert_step [OF s2(1) T s2(2)] s2(3) by fastforce
  obtain s4 where s4: "mq_reach 2 s4" "length (mq_content (qs_queue s4)) = 101"
    using insert_step [OF s3(1) T s3(2)] s3(3) by fastforce
  have "mq_max (qs_queue s4) = 100" using mq_reach_inv [OF s4(1) T] by (auto simp: mq_sys_inv_def mq_owned_def)
  with s4 show ?thesis by blast
qed

theorem message_queue_threads_witness:
  "\<exists>s. mq_reach 1 s \<and> length (mq_content (qs_queue s)) = 100 \<and> qs_in s = qs_out s @ mq_content (qs_queue s) \<and>
     (\<exists>r q. get_msg_take (qs_queue s) = Inr (Some r, q))"
proof -
  obtain s where s: "mq_reach 1 s" "length (mq_content (qs_queue s)) = 100" using queue_fills [of 1 100] by auto
  from message_queue_threads [OF s(1)] s(2) have "qs_in s = qs_out s @ mq_content (qs_queue s)"
    "\<exists>r q. get_msg_take (qs_queue s) = Inr (Some r, q)"
    by fastforce+
  with s show ?thesis by blast
qed

end
