(* ===== verification/Task_Scheduler.thy ===== *)
theory Task_Scheduler
  imports Prelude
begin

text \<open>
  The task scheduler of \<open>src/idr-mgt-shared-libs/lib/task.c\<close>: a list of tasks ordered by execution
  time, insertion, removal by data or name, the check for a due task and the polling thread's loop body.

  The linked list is a list of tasks; a task carries its address.  The tick read from the clock is an
  argument.  A task handler gets a pointer to its task, so running one is a parameter that maps the task
  to the task it leaves behind and its result; handlers that schedule other tasks are separate steps.
\<close>

record bh_task =
  tk_addr :: nat
  tk_task_type :: bytes
  tk_task_data :: nat
  tk_handler :: nat
  tk_close_handler :: "nat option"
  tk_repeat_interval_secs :: int
  tk_next_execution :: int
  tk_exec_count :: u32
  tk_task_data_is_allocated :: bool

record task_ctx =
  tc_task_list :: "bh_task list"
  tc_current_task :: "nat option"

definition bh_init_task_scheduler :: task_ctx where
  "bh_init_task_scheduler = \<lparr>tc_task_list = [], tc_current_task = None\<rparr>"

definition bh_new_task :: "nat \<Rightarrow> bytes option \<Rightarrow> nat \<Rightarrow> bool \<Rightarrow> int \<Rightarrow> nat \<Rightarrow> bh_task cres" where
  "bh_new_task a task_name data auto_free_data repeat_duration task_handler =
     (case task_name of
        None \<Rightarrow> Inl Assert_Failed
      | Some nm \<Rightarrow> Inr \<lparr>tk_addr = a, tk_task_type = nm, tk_task_data = data, tk_handler = task_handler,
          tk_close_handler = None, tk_repeat_interval_secs = repeat_duration, tk_next_execution = 0,
          tk_exec_count = 0, tk_task_data_is_allocated = auto_free_data\<rparr>)"

text \<open>The insertion loop behind the head: \<open>t\<close> is the head of the list given.\<close>

fun insert_after :: "bh_task \<Rightarrow> bh_task \<Rightarrow> bh_task list \<Rightarrow> bh_task list" where
  "insert_after task t [] = [t, task]"
| "insert_after task t (n # ns) =
     (if tk_next_execution task < tk_next_execution n then t # task # n # ns
      else t # insert_after task n ns)"

definition bh_schedule_task :: "int \<Rightarrow> bh_task \<Rightarrow> int \<Rightarrow> task_ctx \<Rightarrow> task_ctx cres" where
  "bh_schedule_task now task secs_from_now ctx =
     (let task = task\<lparr>tk_next_execution := now + secs_from_now\<rparr> in
      case tc_task_list ctx of
        [] \<Rightarrow> Inr (ctx\<lparr>tc_task_list := [task]\<rparr>)
      | h # ts \<Rightarrow>
          if tk_next_execution task \<le> tk_next_execution h then Inr (ctx\<lparr>tc_task_list := task # h # ts\<rparr>)
          else if \<not> tk_next_execution h < tk_next_execution task then Inl Assert_Failed
          else Inr (ctx\<lparr>tc_task_list := insert_after task h ts\<rparr>))"

text \<open>Running a task: the handler's result, the task with its counter increased, and the context during
  and after the call.\<close>

definition bh_execute_task ::
  "(bh_task \<Rightarrow> int \<times> bh_task) \<Rightarrow> bh_task \<Rightarrow> task_ctx \<Rightarrow> int \<times> bh_task \<times> task_ctx" where
  "bh_execute_task handler task ctx =
     (case handler task of
        (ret, task) \<Rightarrow> (ret, task\<lparr>tk_exec_count := tk_exec_count task + 1\<rparr>, ctx\<lparr>tc_current_task := None\<rparr>))"

text \<open>The due task or the seconds to wait (\<open>*secs_to_first_task\<close>, untouched when a task is returned).\<close>

definition bh_check_task :: "int \<Rightarrow> int \<Rightarrow> task_ctx \<Rightarrow> bh_task option \<times> int \<times> task_ctx" where
  "bh_check_task now secs ctx =
     (case tc_task_list ctx of
        [] \<Rightarrow> (None, 120, ctx)
      | t # ts \<Rightarrow>
          if tk_next_execution t \<le> now then (Some t, secs, ctx\<lparr>tc_task_list := ts\<rparr>)
          else (None, tk_next_execution t - now, ctx))"

fun remove_data_loop :: "nat \<Rightarrow> bh_task list \<Rightarrow> bh_task option \<times> bh_task list" where
  "remove_data_loop d [] = (None, [])"
| "remove_data_loop d (t # ts) =
     (if tk_task_data t = d then (Some t, ts)
      else (case remove_data_loop d ts of (r, ts') \<Rightarrow> (r, t # ts')))"

definition bh_remove_task_by_data :: "nat \<Rightarrow> task_ctx \<Rightarrow> bh_task option \<times> task_ctx" where
  "bh_remove_task_by_data d ctx =
     (case remove_data_loop d (tc_task_list ctx) of (r, ts) \<Rightarrow> (r, ctx\<lparr>tc_task_list := ts\<rparr>))"

fun remove_name_loop :: "bytes \<Rightarrow> bh_task list \<Rightarrow> bh_task option \<times> bh_task list" where
  "remove_name_loop nm [] = (None, [])"
| "remove_name_loop nm (t # ts) =
     (if tk_task_type t = nm then (Some t, ts)
      else (case remove_name_loop nm ts of (r, ts') \<Rightarrow> (r, t # ts')))"

definition bh_remove_task_by_name :: "bytes \<Rightarrow> task_ctx \<Rightarrow> bh_task option \<times> task_ctx" where
  "bh_remove_task_by_name nm ctx =
     (case remove_name_loop nm (tc_task_list ctx) of (r, ts) \<Rightarrow> (r, ctx\<lparr>tc_task_list := ts\<rparr>))"

text \<open>One round of the polling thread: the task executed, or the seconds it waits.  A task that does not
  repeat is deleted after it ran, and rescheduling reads the clock again (\<open>now2\<close>).\<close>

definition poll_round ::
  "(bh_task \<Rightarrow> int \<times> bh_task) \<Rightarrow> int \<Rightarrow> int \<Rightarrow> int \<Rightarrow> task_ctx \<Rightarrow> (bh_task option \<times> int \<times> task_ctx) cres" where
  "poll_round handler now now2 secs ctx =
     (case bh_check_task now secs ctx of
        (None, secs, ctx) \<Rightarrow> Inr (None, secs, ctx)
      | (Some t, secs, ctx) \<Rightarrow>
          (case bh_execute_task handler t ctx of
             (ret, t', ctx) \<Rightarrow>
               if tk_repeat_interval_secs t' = 0 then Inr (Some t, secs, ctx)
               else map_sum id (\<lambda>ctx. (Some t, secs, ctx)) (bh_schedule_task now2 t' (tk_repeat_interval_secs t') ctx)))"

section \<open>The list stays ordered\<close>

abbreviation task_sorted :: "bh_task list \<Rightarrow> bool" where
  "task_sorted ts \<equiv> sorted (map tk_next_execution ts)"

lemma insert_after_mset: "mset (insert_after x t ts) = add_mset x (add_mset t (mset ts))"
  by (induction x t ts rule: insert_after.induct) auto

lemma insert_after_sorted:
  "task_sorted (t # ts) \<Longrightarrow> tk_next_execution t \<le> tk_next_execution x \<Longrightarrow> task_sorted (insert_after x t ts)"
proof (induction x t ts rule: insert_after.induct)
  case (2 x t n ns)
  show ?case
  proof (cases "tk_next_execution x < tk_next_execution n")
    case True
    then show ?thesis using "2.prems" by auto
  next
    case False
    then have "task_sorted (insert_after x n ns)" using 2 by simp
    moreover have "set (insert_after x n ns) = insert x (insert n (set ns))"
      using insert_after_mset [of x n ns] by (metis set_mset_mset set_mset_add_mset_insert)
    ultimately show ?thesis using False "2.prems" by auto
  qed
qed auto

lemma schedule_spec:
  assumes "task_sorted (tc_task_list ctx)"
  shows "\<exists>ctx'. bh_schedule_task now t secs ctx = Inr ctx' \<and> task_sorted (tc_task_list ctx') \<and>
    mset (tc_task_list ctx') = add_mset (t\<lparr>tk_next_execution := now + secs\<rparr>) (mset (tc_task_list ctx)) \<and>
    tc_current_task ctx' = tc_current_task ctx"
proof (cases "tc_task_list ctx")
  case (Cons h ts)
  then show ?thesis
    using assms insert_after_sorted [of h ts "t\<lparr>tk_next_execution := now + secs\<rparr>"]
    by (auto simp: bh_schedule_task_def Let_def insert_after_mset)
qed (simp add: bh_schedule_task_def Let_def)

lemma remove_loops:
  "remove_data_loop d ts = remove_first (\<lambda>t. tk_task_data t = d) ts"
  "remove_name_loop nm ts = remove_first (\<lambda>t. tk_task_type t = nm) ts"
  by (induction ts) auto

text \<open>Scheduling keeps the list ordered and loses nothing: on an ordered list \<open>bh_schedule_task\<close> does not
  fail its assertion, adds exactly the given task with its execution time set, and the list is again
  ordered by execution time.\<close>

theorem schedule_task_sorted:
  assumes "sorted (map tk_next_execution (tc_task_list ctx))"
  shows "\<exists>ctx'. bh_schedule_task now t secs ctx = Inr ctx' \<and> sorted (map tk_next_execution (tc_task_list ctx')) \<and>
    mset (tc_task_list ctx') = add_mset (t\<lparr>tk_next_execution := now + secs\<rparr>) (mset (tc_task_list ctx))"
  using schedule_spec [OF assms] by blast

definition task_sample :: "nat \<Rightarrow> int \<Rightarrow> int \<Rightarrow> bh_task" where
  "task_sample a interval time = \<lparr>tk_addr = a, tk_task_type = [116], tk_task_data = a, tk_handler = 1, tk_close_handler = None,
     tk_repeat_interval_secs = interval, tk_next_execution = time, tk_exec_count = 0, tk_task_data_is_allocated = False\<rparr>"

definition tc_sample :: task_ctx where
  "tc_sample = \<lparr>tc_task_list = [task_sample 1 0 3, task_sample 2 5 8], tc_current_task = None\<rparr>"

theorem schedule_task_sorted_witness:
  "\<exists>ctx'. bh_schedule_task 4 (task_sample 3 0 0) 1 tc_sample = Inr ctx' \<and> sorted (map tk_next_execution (tc_task_list ctx')) \<and>
    mset (tc_task_list ctx') = add_mset ((task_sample 3 0 0)\<lparr>tk_next_execution := 4 + 1\<rparr>) (mset (tc_task_list tc_sample))"
  by (rule schedule_task_sorted) (simp add: tc_sample_def task_sample_def)

text \<open>The check is right: on an ordered list \<open>bh_check_task\<close> returns a task exactly when one is due, then
  one with the smallest execution time; otherwise it gives the time to the next one, which is positive,
  or 120 seconds for an empty list.\<close>

theorem check_task_earliest:
  assumes "sorted (map tk_next_execution (tc_task_list ctx))" "bh_check_task now secs ctx = (r, secs', ctx')"
  shows "(r \<noteq> None \<longleftrightarrow> (\<exists>t \<in> set (tc_task_list ctx). tk_next_execution t \<le> now)) \<and>
    (\<forall>t. r = Some t \<longrightarrow> tk_next_execution t \<le> now \<and> tc_task_list ctx = t # tc_task_list ctx' \<and>
      (\<forall>u \<in> set (tc_task_list ctx). tk_next_execution t \<le> tk_next_execution u)) \<and>
    (r = None \<longrightarrow> ctx' = ctx \<and> 0 < secs' \<and> (\<forall>u \<in> set (tc_task_list ctx). now + secs' \<le> tk_next_execution u) \<and>
      (tc_task_list ctx = [] \<longrightarrow> secs' = 120))"
  using assms by (cases "tc_task_list ctx") (auto simp: bh_check_task_def split: if_splits)

theorem check_task_earliest_witness:
  "tk_next_execution (task_sample 1 0 3) \<le> 4 \<and>
    tk_next_execution (task_sample 1 0 3) \<le> tk_next_execution (task_sample 2 5 8)"
proof -
  have "sorted (map tk_next_execution (tc_task_list tc_sample))" by (simp add: tc_sample_def task_sample_def)
  moreover have "bh_check_task 4 0 tc_sample = (Some (task_sample 1 0 3), 0, tc_sample\<lparr>tc_task_list := [task_sample 2 5 8]\<rparr>)"
    by (simp add: bh_check_task_def tc_sample_def task_sample_def)
  moreover have "task_sample 2 5 8 \<in> set (tc_task_list tc_sample)" by (simp add: tc_sample_def)
  ultimately show ?thesis using check_task_earliest [of tc_sample 4 0] by blast
qed

text \<open>Removal takes the first match and nothing else: by data and by name, the result is the first
  task that matches, the others keep their order, and nothing changes when none matches.\<close>

theorem remove_task_first_match:
  "(case bh_remove_task_by_data d ctx of
      (None, ctx') \<Rightarrow> ctx' = ctx \<and> (\<forall>t \<in> set (tc_task_list ctx). tk_task_data t \<noteq> d)
    | (Some t, ctx') \<Rightarrow> \<exists>as bs. tc_task_list ctx = as @ t # bs \<and> tc_task_list ctx' = as @ bs \<and> tk_task_data t = d \<and>
        (\<forall>a \<in> set as. tk_task_data a \<noteq> d)) \<and>
   (case bh_remove_task_by_name nm ctx of
      (None, ctx') \<Rightarrow> ctx' = ctx \<and> (\<forall>t \<in> set (tc_task_list ctx). tk_task_type t \<noteq> nm)
    | (Some t, ctx') \<Rightarrow> \<exists>as bs. tc_task_list ctx = as @ t # bs \<and> tc_task_list ctx' = as @ bs \<and> tk_task_type t = nm \<and>
        (\<forall>a \<in> set as. tk_task_type a \<noteq> nm))"
  by (auto simp: bh_remove_task_by_data_def bh_remove_task_by_name_def remove_loops remove_first_None
      dest: remove_first_Some split: prod.splits option.splits)

theorem remove_task_first_match_witness:
  "\<exists>as bs. tc_task_list tc_sample = as @ task_sample 2 5 8 # bs \<and>
     tc_task_list (snd (bh_remove_task_by_data 2 tc_sample)) = as @ bs"
proof -
  have "bh_remove_task_by_data 2 tc_sample = (Some (task_sample 2 5 8), tc_sample\<lparr>tc_task_list := [task_sample 1 0 3]\<rparr>)"
    by (simp add: bh_remove_task_by_data_def tc_sample_def task_sample_def)
  then show ?thesis using remove_task_first_match [where d = 2 and ctx = tc_sample and nm = "[]"] by auto
qed

section \<open>The polling thread catches up\<close>

fun poll_rounds ::
  "nat \<Rightarrow> (bh_task \<Rightarrow> int \<times> bh_task) \<Rightarrow> int \<Rightarrow> task_ctx \<Rightarrow> (bh_task list \<times> task_ctx) cres" where
  "poll_rounds 0 handler now ctx = Inr ([], ctx)"
| "poll_rounds (Suc k) handler now ctx =
     (case poll_round handler now now 0 ctx of
        Inl e \<Rightarrow> Inl e
      | Inr (None, secs, ctx) \<Rightarrow> Inr ([], ctx)
      | Inr (Some t, secs, ctx) \<Rightarrow>
          (case poll_rounds k handler now ctx of Inl e \<Rightarrow> Inl e | Inr (ts, ctx) \<Rightarrow> Inr (t # ts, ctx)))"

definition due :: "int \<Rightarrow> bh_task list \<Rightarrow> bh_task list" where
  "due now ts = filter (\<lambda>t. tk_next_execution t \<le> now) ts"

lemma due_Cons_sorted: "task_sorted ts \<Longrightarrow> due now ts = t # us \<Longrightarrow> \<exists>vs. ts = t # vs \<and> tk_next_execution t \<le> now \<and> us = due now vs"
  by (cases ts) (auto simp: due_def filter_eq_Cons_iff split: if_splits)

lemma due_insert_after:
  "now < tk_next_execution x \<Longrightarrow> due now (insert_after x t ts) = due now (t # ts)"
  by (induction x t ts rule: insert_after.induct) (auto simp: due_def)

lemma due_schedule:
  assumes "bh_schedule_task now t secs ctx = Inr ctx'" "0 < secs"
  shows "due now (tc_task_list ctx') = due now (tc_task_list ctx)"
  using assms by (auto simp: bh_schedule_task_def Let_def due_def [of _ "_ # _"] due_insert_after
      split: list.splits if_splits) (auto simp: due_def)

lemma poll_rounds_due:
  assumes "task_sorted (tc_task_list ctx)" "length (due now (tc_task_list ctx)) \<le> k"
    and "\<forall>t \<in> set (due now (tc_task_list ctx)). 0 \<le> tk_repeat_interval_secs (snd (handler t))"
  shows "\<exists>ctx'. poll_rounds k handler now ctx = Inr (due now (tc_task_list ctx), ctx') \<and>
    task_sorted (tc_task_list ctx') \<and> (\<forall>t \<in> set (tc_task_list ctx'). now < tk_next_execution t)"
  using assms
proof (induction k arbitrary: ctx)
  case 0
  then show ?case by (auto simp: due_def filter_empty_conv)
next
  case (Suc k)
  show ?case
  proof (cases "due now (tc_task_list ctx)")
    case Nil
    then have "poll_round handler now now 0 ctx = Inr (None, fst (snd (bh_check_task now 0 ctx)), ctx)"
      by (cases "tc_task_list ctx") (auto simp: due_def poll_round_def bh_check_task_def split: if_splits)
    then show ?thesis using Nil Suc.prems(1) by (auto simp: due_def filter_empty_conv)
  next
    case (Cons t us)
    then obtain vs where vs: "tc_task_list ctx = t # vs" "tk_next_execution t \<le> now" "us = due now vs"
      using due_Cons_sorted [OF Suc.prems(1)] by blast
    let ?c = "ctx\<lparr>tc_task_list := vs, tc_current_task := None\<rparr>"
    let ?t = "(snd (handler t))\<lparr>tk_exec_count := tk_exec_count (snd (handler t)) + 1\<rparr>"
    have srt: "task_sorted (tc_task_list ?c)" using Suc.prems(1) vs(1) by simp
    obtain ctx1 where r: "poll_round handler now now 0 ctx = Inr (Some t, 0, ctx1)" "task_sorted (tc_task_list ctx1)"
      "due now (tc_task_list ctx1) = us"
    proof (cases "tk_repeat_interval_secs ?t = 0")
      case True
      then have "poll_round handler now now 0 ctx = Inr (Some t, 0, ?c)"
        using vs by (simp add: poll_round_def bh_check_task_def bh_execute_task_def case_prod_unfold)
      with that srt vs(3) show ?thesis by simp
    next
      case False
      then have pos: "0 < tk_repeat_interval_secs ?t" using Suc.prems(3) Cons by (simp add: order_less_le)
      obtain ctx1 where s: "bh_schedule_task now ?t (tk_repeat_interval_secs ?t) ?c = Inr ctx1" "task_sorted (tc_task_list ctx1)"
        using schedule_spec [OF srt] by blast
      then have "poll_round handler now now 0 ctx = Inr (Some t, 0, ctx1)"
        using False vs by (simp add: poll_round_def bh_check_task_def bh_execute_task_def case_prod_unfold)
      with that s(2) due_schedule [OF s(1) pos] vs(3) show ?thesis by simp
    qed
    have "length (due now (tc_task_list ctx1)) \<le> k" using Suc.prems(2) r(3) Cons by simp
    from Suc.IH [OF r(2) this] Suc.prems(3) show ?thesis using r(1,3) Cons by auto
  qed
qed

text \<open>C32.  The polling thread catches up: when every handler leaves a non-negative repeat interval, as many
  rounds as there are tasks due execute exactly those tasks, in order of execution time, and leave an
  ordered list in which none is due.\<close>

theorem poll_rounds_drain:
  assumes "sorted (map tk_next_execution (tc_task_list ctx))"
    and "\<forall>t \<in> set (tc_task_list ctx). tk_next_execution t \<le> now \<longrightarrow> 0 \<le> tk_repeat_interval_secs (snd (handler t))"
    and "length (filter (\<lambda>t. tk_next_execution t \<le> now) (tc_task_list ctx)) \<le> k"
  shows "\<exists>ctx'. poll_rounds k handler now ctx = Inr (filter (\<lambda>t. tk_next_execution t \<le> now) (tc_task_list ctx), ctx') \<and>
    sorted (map tk_next_execution (tc_task_list ctx')) \<and> (\<forall>t \<in> set (tc_task_list ctx'). now < tk_next_execution t)"
proof -
  have "\<exists>ctx'. poll_rounds k handler now ctx = Inr (due now (tc_task_list ctx), ctx') \<and>
    task_sorted (tc_task_list ctx') \<and> (\<forall>t \<in> set (tc_task_list ctx'). now < tk_next_execution t)"
    using assms by (intro poll_rounds_due) (auto simp: due_def)
  then show ?thesis by (simp add: due_def)
qed
theorem poll_rounds_drain_witness:
  "\<exists>ctx'. poll_rounds 2 (\<lambda>t. (0, t)) 9 tc_sample = Inr (filter (\<lambda>t. tk_next_execution t \<le> 9) (tc_task_list tc_sample), ctx') \<and>
    sorted (map tk_next_execution (tc_task_list ctx')) \<and> (\<forall>t \<in> set (tc_task_list ctx'). 9 < tk_next_execution t)"
  by (rule poll_rounds_drain) (simp_all add: tc_sample_def task_sample_def)

end
