(* ===== verification/Url.thy ===== *)
theory Url
  imports Prelude
begin

text \<open>
  URL matching and splitting: \<open>src/idr-mgt-shared-libs/lib/url_match.c\<close> and the parsers of
  \<open>src/idr-mgt-shared-libs/utils/url_util.c\<close>.

  A C string argument is the bytes before its terminator; reading index \<open>length s\<close> gives the
  terminator, a larger or negative index is \<open>Out_Of_Bounds\<close>.  An argument with an explicit length is the
  bytes it denotes.
\<close>

definition slash :: u8 where "slash = 47"

definition star :: u8 where "star = 42"

text \<open>Reading a character of a C string by index.\<close>

definition cs_at :: "bytes \<Rightarrow> int \<Rightarrow> u8 cres" where
  "cs_at s i =
     (if i < 0 \<or> int (length s) < i then Inl Out_Of_Bounds
      else if i = int (length s) then Inr 0 else Inr (s ! nat i))"

text \<open>\<open>strncmp(a, b, n) == 0\<close>.\<close>

definition c_strncmp_eq :: "bytes \<Rightarrow> bytes \<Rightarrow> nat \<Rightarrow> bool" where
  "c_strncmp_eq a b n \<longleftrightarrow> take n (a @ [0]) = take n (b @ [0])"

section \<open>Prefix check of a URL\<close>

definition check_url_start :: "bytes \<Rightarrow> bytes \<Rightarrow> nat" where
  "check_url_start url leading_str =
     (let leading_str = (if leading_str \<noteq> [] \<and> hd leading_str = slash then tl leading_str else leading_str);
          (url, offset) = (if url \<noteq> [] \<and> hd url = slash then (tl url, 1) else (url, 0));
          url_len = length url;
          len = length leading_str in
      if len = 0 then 0
      else
        let len = (if leading_str ! (len - 1) = slash then len - 1 else len) in
        if len = 0 then 0
        else if url_len = len then (if take len url = take len leading_str then offset + len else 0)
        else if url_len < len then 0
        else if take len url \<noteq> take len leading_str then 0
        else if url ! len \<noteq> slash then 0
        else offset + len + 1)"

section \<open>Pattern match of a URL\<close>

text \<open>The pattern pointer is the pattern string with an index, so that \<open>pattern[len-2]\<close> can read the
  slash that was skipped.\<close>

definition match_url :: "bytes \<Rightarrow> bytes \<Rightarrow> bool cres" where
  "match_url pattern matched =
     (let b = (if pattern \<noteq> [] \<and> hd pattern = slash then 1 else 0 :: nat);
          pat = drop b pattern;
          matched = (if matched \<noteq> [] \<and> hd matched = slash then tl matched else matched);
          matched_len = length matched in
      if matched_len = 0 then Inr False
      else
        let matched_len = (if matched ! (matched_len - 1) = slash then matched_len - 1 else matched_len) in
        if matched_len = 0 then Inr False
        else
          let len = length pat in
          if len = 0 then Inr False
          else if pat ! (len - 1) = slash then
            let len = len - 1 in
            if \<not> c_strncmp_eq pat matched len then Inr False
            else if len = matched_len then Inr True
            else if matched_len > len \<and> matched ! len = slash then Inr True
            else Inr False
          else if pat ! (len - 1) = star then
            (case cs_at pattern (int b + int len - 2) of
               Inl e \<Rightarrow> Inl e
             | Inr c \<Rightarrow> Inr (c_strncmp_eq pat matched (len - 1)))
          else Inr (pat = matched))"

section \<open>Device URLs\<close>

definition g_device_category :: "bytes list" where
  "g_device_category = map str [''lwm2m'', ''ep'', ''ocf'', ''modbus'', ''iagent'', ''ilink'', ''self'']"

fun uri_standard_loop :: "bytes \<Rightarrow> int \<Rightarrow> bytes list \<Rightarrow> int cres" where
  "uri_standard_loop uri i [] = Inr (-1)"
| "uri_standard_loop uri i (c # cs) =
     (if c_strncmp_eq uri c (length c) then
        (case cs_at uri (int (length c)) of
           Inl e \<Rightarrow> Inl e
         | Inr x \<Rightarrow> if x = slash \<or> x = 0 then Inr i else uri_standard_loop uri (i + 1) cs)
      else uri_standard_loop uri (i + 1) cs)"

definition check_uri_standard :: "bytes \<Rightarrow> int cres" where
  "check_uri_standard uri =
     uri_standard_loop (if uri \<noteq> [] \<and> hd uri = slash then tl uri else uri) 0 g_device_category"

text \<open>The scan \<open>while(*uri != 0 && *uri != '/') uri++\<close>: the part passed over and the rest, on the
  terminated copy.\<close>

fun seg_scan :: "bytes \<Rightarrow> bytes \<times> bytes" where
  "seg_scan [] = ([], [])"
| "seg_scan (c # cs) = (if c = 0 \<or> c = slash then ([], c # cs) else (case seg_scan cs of (s, r) \<Rightarrow> (c # s, r)))"

record iUrl =
  iu_standard :: bytes
  iu_device :: bytes
  iu_res_uri :: bytes

definition parse_iUrl_body2 :: "bytes option \<Rightarrow> iUrl option" where
  "parse_iUrl_body2 raw_uri =
     (case raw_uri of
        None \<Rightarrow> None
      | Some raw \<Rightarrow>
          let uri = raw @ [0];
              uri = (if hd uri = slash then tl uri else uri) in
          (case seg_scan uri of
             (standard, c # uri) \<Rightarrow>
               if c \<noteq> slash then None
               else
                 (case seg_scan uri of
                    (device, d # uri) \<Rightarrow>
                      if d \<noteq> slash then None
                      else Some \<lparr>iu_standard = standard, iu_device = device,
                                 iu_res_uri = slash # takeWhile (\<lambda>x. x \<noteq> 0) uri\<rparr>
                  | (device, []) \<Rightarrow> None)
           | (standard, []) \<Rightarrow> None))"

section \<open>Payload tests\<close>

text \<open>The scans of \<open>is_json_format\<close> over the first \<open>len\<close> bytes: leading blanks, then trailing blanks and
  terminators down to index 0.\<close>

fun skip_back :: "bytes \<Rightarrow> nat \<Rightarrow> nat" where
  "skip_back buf 0 = 0"
| "skip_back buf (Suc n) = (if buf ! Suc n = 32 \<or> buf ! Suc n = 0 then skip_back buf n else Suc n)"

definition is_json_format :: "bytes option \<Rightarrow> bool" where
  "is_json_format buffer =
     (case buffer of
        None \<Rightarrow> False
      | Some buf \<Rightarrow>
          if buf = [] then False
          else
            (case dropWhile (\<lambda>c. c = 32) buf of
               [] \<Rightarrow> False
             | c # _ \<Rightarrow>
                 if c \<noteq> 123 then False
                 else let offset = skip_back buf (length buf - 1) in
                   if offset = 0 then False else buf ! offset = 125))"

definition has_string_end :: "bytes \<Rightarrow> bool" where
  "has_string_end buffer \<longleftrightarrow> dropWhile (\<lambda>c. c \<noteq> 0) (rev buffer) \<noteq> []"

definition is_number :: "bytes \<Rightarrow> bool" where
  "is_number s \<longleftrightarrow> s \<noteq> [] \<and> (\<forall>c \<in> set s. 48 \<le> c \<and> c \<le> 57)"

section \<open>Lemmas\<close>

lemma strncmp_take: "n \<le> length a \<Longrightarrow> 0 \<notin> set a \<Longrightarrow> 0 \<notin> set b \<Longrightarrow> c_strncmp_eq a b n \<longleftrightarrow> prefix (take n a) b"
proof -
  assume n: "n \<le> length a" and z: "0 \<notin> set a" "0 \<notin> set b"
  have a: "take n (a @ [0]) = take n a" using n by simp
  show ?thesis
  proof (cases "n \<le> length b")
    case True
    then have "c_strncmp_eq a b n \<longleftrightarrow> take n a = take n b" using a by (simp add: c_strncmp_eq_def)
    also have "\<dots> \<longleftrightarrow> prefix (take n a) b" using n True by (metis length_take min.absorb2 take_is_prefix prefix_def append_eq_conv_conj)
    finally show ?thesis .
  next
    case False
    then have "take n (b @ [0]) = b @ [0]" by (cases "n - length b") simp_all
    moreover have "0 \<notin> set (take n a)" using z(1) in_set_takeD by fast
    ultimately have "\<not> c_strncmp_eq a b n" unfolding c_strncmp_eq_def a by auto
    moreover have "\<not> prefix (take n a) b" using False n prefix_length_le [of "take n a" b] by auto
    ultimately show ?thesis by simp
  qed
qed

text \<open>A string without one leading, without one trailing slash.\<close>

definition strip_lead :: "bytes \<Rightarrow> bytes" where
  "strip_lead s = (if s \<noteq> [] \<and> hd s = slash then tl s else s)"

definition strip_trail :: "bytes \<Rightarrow> bytes" where
  "strip_trail s = (if s \<noteq> [] \<and> last s = slash then butlast s else s)"

lemma strip_trail_take:
  "s \<noteq> [] \<Longrightarrow> take (if s ! (length s - 1) = slash then length s - 1 else length s) s = strip_trail s"
  "s \<noteq> [] \<Longrightarrow> length (strip_trail s) = (if s ! (length s - 1) = slash then length s - 1 else length s)"
  by (auto simp: strip_trail_def last_conv_nth butlast_conv_take)

lemma prefix_snoc_iff: "prefix (l @ [c]) u \<longleftrightarrow> length l < length u \<and> take (length l) u = l \<and> u ! length l = c"
proof
  assume "prefix (l @ [c]) u"
  then show "length l < length u \<and> take (length l) u = l \<and> u ! length l = c" by (auto simp: prefix_def)
next
  assume u: "length l < length u \<and> take (length l) u = l \<and> u ! length l = c"
  then have "u = l @ [c] @ drop (Suc (length l)) u" using id_take_nth_drop [of "length l" u] by simp
  then show "prefix (l @ [c]) u" by (metis append_assoc prefixI)
qed

text \<open>Prefix check: with one leading slash of both and one trailing slash of the prefix left out,
  \<open>check_url_start\<close> returns the number of URL bytes covered when the URL is the prefix or continues it after
  a slash, the slash included, and 0 otherwise, in particular for an empty prefix.\<close>

theorem check_url_start_spec:
  "check_url_start url leading =
     (let l = strip_trail (strip_lead leading); u = strip_lead url; off = length url - length u in
      if l = [] then 0
      else if u = l then off + length l
      else if prefix (l @ [slash]) u then off + length l + 1
      else 0)"
proof -
  let ?s = "strip_lead leading" and ?u = "strip_lead url"
  have u: "(if url \<noteq> [] \<and> hd url = slash then (tl url, 1) else (url, 0)) = (?u, length url - length ?u)"
    by (cases url) (auto simp: strip_lead_def)
  have s: "(if leading \<noteq> [] \<and> hd leading = slash then tl leading else leading) = ?s" by (simp add: strip_lead_def)
  show ?thesis
  proof (cases "?s = []")
    case True
    then show ?thesis
      unfolding check_url_start_def u s Let_def by (simp add: strip_trail_def)
  next
    case False
    let ?l = "strip_trail ?s"
    have t: "(if ?s ! (length ?s - 1) = slash then length ?s - 1 else length ?s) = length ?l"
      using strip_trail_take(2) [OF False] by simp
    have tk: "take (length ?l) ?s = ?l" using strip_trail_take(1) [OF False] unfolding t .
    have "check_url_start url leading =
      (if length ?l = 0 then 0
       else if length ?u = length ?l then (if take (length ?l) ?u = ?l then length url - length ?u + length ?l else 0)
       else if length ?u < length ?l then 0
       else if take (length ?l) ?u \<noteq> ?l then 0
       else if ?u ! length ?l \<noteq> slash then 0
       else length url - length ?u + length ?l + 1)"
      unfolding check_url_start_def u s Let_def prod.case t tk using False by simp
    then show ?thesis by (auto simp: Let_def prefix_snoc_iff)
  qed
qed

lemma stem_prefix:
  "prefix p m \<and> (length p = length (strip_trail m) \<or> length p < length (strip_trail m) \<and> m ! length p = slash) \<longleftrightarrow>
     strip_trail m = p \<or> prefix (p @ [slash]) (strip_trail m)"
proof -
  obtain r where m: "m = strip_trail m @ r"
    by (metis append_butlast_last_id append_Nil2 strip_trail_def)
  let ?t = "strip_trail m"
  have "prefix p m \<and> length p = length ?t \<longleftrightarrow> ?t = p"
    by (subst (1) m) (auto simp: prefix_def append_eq_append_conv)
  moreover have "prefix p m \<and> length p < length ?t \<and> m ! length p = slash \<longleftrightarrow> prefix (p @ [slash]) ?t"
  proof -
    have "prefix p m \<longleftrightarrow> take (length p) ?t = p" if "length p < length ?t"
    proof -
      have "take (length p) m = take (length p) ?t" using that by (subst m) simp
      then show ?thesis by (metis append_eq_conv_conj prefix_def take_is_prefix)
    qed
    moreover have "m ! length p = ?t ! length p" if "length p < length ?t"
      using that by (subst m) (simp add: nth_append)
    ultimately show ?thesis by (auto simp: prefix_snoc_iff)
  qed
  ultimately show ?thesis by blast
qed

text \<open>C35.  Pattern match, as documented: a plain pattern matches itself only; a pattern with a trailing slash
  matches its stem, with or without a trailing slash, and everything below it; a pattern with a
  trailing star matches every URL that starts with its stem.  Both sides are taken without their
  leading slash, and an empty URL matches nothing.\<close>

theorem match_url_forms:
  assumes "0 \<notin> set pat" "0 \<notin> set m" "strip_trail m \<noteq> []" "pat \<noteq> []" "hd pat \<noteq> slash"
  shows "(last pat \<noteq> slash \<and> last pat \<noteq> star \<longrightarrow> match_url (slash # pat) (slash # m) = Inr (m = pat)) \<and>
    match_url (slash # pat @ [slash]) (slash # m) = Inr (strip_trail m = pat \<or> prefix (pat @ [slash]) (strip_trail m)) \<and>
    match_url (slash # pat @ [star]) (slash # m) = Inr (prefix pat m)"
proof -
  have mne: "m \<noteq> []" using assms(3) by (auto simp: strip_trail_def)
  have t: "(if m ! (length m - 1) = slash then length m - 1 else length m) = length (strip_trail m)"
    using strip_trail_take(2) [OF mne] by simp
  have ld: "(if slash # m \<noteq> [] \<and> hd (slash # m) = slash then tl (slash # m) else slash # m) = m" by simp
  have pd: "drop (if slash # p \<noteq> [] \<and> hd (slash # p) = slash then 1 else 0) (slash # p) = p" for p by simp
  note open_match = match_url_def Let_def ld pd t
  have tl0: "length (strip_trail m) \<noteq> 0" using assms(3) by simp
  have pl: "pat ! (length pat - 1) = last pat" using assms(4) by (simp add: last_conv_nth)
  have ss: "slash \<noteq> star" "star \<noteq> slash" "slash \<noteq> 0" "star \<noteq> 0" by (simp_all add: slash_def star_def)
  have 1: "last pat \<noteq> slash \<and> last pat \<noteq> star \<longrightarrow> match_url (slash # pat) (slash # m) = Inr (m = pat)"
    unfolding open_match using mne tl0 assms(4) pl by auto
  have 2: "match_url (slash # pat @ [slash]) (slash # m) = Inr (strip_trail m = pat \<or> prefix (pat @ [slash]) (strip_trail m))"
  proof -
    have "c_strncmp_eq (pat @ [slash]) m (length pat) \<longleftrightarrow> prefix pat m"
      using strncmp_take [of "length pat" "pat @ [slash]" m] assms(1,2) ss by simp
    moreover have "match_url (slash # pat @ [slash]) (slash # m) =
      (if \<not> c_strncmp_eq (pat @ [slash]) m (length pat) then Inr False
       else if length pat = length (strip_trail m) then Inr True
       else if length (strip_trail m) > length pat \<and> m ! length pat = slash then Inr True
       else Inr False)"
      unfolding open_match using mne tl0 by simp
    ultimately show ?thesis unfolding stem_prefix [symmetric] by simp
  qed
  have 3: "match_url (slash # pat @ [star]) (slash # m) = Inr (prefix pat m)"
  proof -
    have "c_strncmp_eq (pat @ [star]) m (length pat) \<longleftrightarrow> prefix pat m"
      using strncmp_take [of "length pat" "pat @ [star]" m] assms(1,2) ss by simp
    moreover have "\<exists>c. cs_at (slash # pat @ [star]) (int 1 + int (length (pat @ [star])) - 2) = Inr c" by (simp add: cs_at_def)
    ultimately show ?thesis unfolding open_match using mne tl0 ss by auto
  qed
  from 1 2 3 show ?thesis by blast
qed

theorem match_url_forms_witness:
  "match_url (slash # str ''abc'' @ [star]) (slash # str ''abcd/e'') = Inr (prefix (str ''abc'') (str ''abcd/e''))"
proof -
  have "0 \<notin> set (str ''abc'')" "0 \<notin> set (str ''abcd/e'')" "strip_trail (str ''abcd/e'') \<noteq> []" "str ''abc'' \<noteq> []"
    "hd (str ''abc'') \<noteq> slash"
    by (simp_all add: str_def strip_trail_def slash_def)
  from match_url_forms [OF this] show ?thesis by blast
qed

text \<open>The pattern consisting of a star alone, without a leading slash, makes \<open>match_url\<close> read the byte before
  the pattern.\<close>

theorem match_url_star_underread: "match_url [star] (str ''/a'') = Inl Out_Of_Bounds"
  by (simp add: match_url_def Let_def cs_at_def str_def star_def slash_def)

section \<open>Splitting device URLs\<close>

lemma seg_scan_append:
  "0 \<notin> set s \<Longrightarrow> slash \<notin> set s \<Longrightarrow> c = 0 \<or> c = slash \<Longrightarrow> seg_scan (s @ c # r) = (s, c # r)"
  by (induction s) auto

text \<open>Splitting and joining: for a standard, a device and a resource path without terminators, the first
  two without slashes and the standard not empty, the URL joined from them by slashes, with or without a
  leading slash, splits into them with the slash of the resource path kept; a URL with fewer than two
  such slashes is rejected.\<close>

theorem parse_iUrl_roundtrip:
  assumes "0 \<notin> set std" "slash \<notin> set std" "std \<noteq> []" "0 \<notin> set dev" "slash \<notin> set dev" "0 \<notin> set res"
  shows "parse_iUrl_body2 (Some (slash # std @ slash # dev @ slash # res)) =
      Some \<lparr>iu_standard = std, iu_device = dev, iu_res_uri = slash # res\<rparr> \<and>
    parse_iUrl_body2 (Some (std @ slash # dev @ slash # res)) =
      Some \<lparr>iu_standard = std, iu_device = dev, iu_res_uri = slash # res\<rparr> \<and>
    parse_iUrl_body2 (Some (slash # std @ slash # dev)) = None \<and> parse_iUrl_body2 (Some (slash # std)) = None"
proof -
  have h: "hd (std @ x) \<noteq> slash" for x using assms(2,3) by (cases std) auto
  have s1: "seg_scan (std @ slash # dev @ slash # res @ [0]) = (std, slash # dev @ slash # res @ [0])"
    "seg_scan (dev @ slash # res @ [0]) = (dev, slash # res @ [0])"
    "seg_scan (std @ slash # dev @ [0]) = (std, slash # dev @ [0])" "seg_scan (dev @ [0]) = (dev, [0])"
    "seg_scan (std @ [0]) = (std, [0])"
    using assms by (simp_all add: seg_scan_append)
  have tw: "takeWhile (\<lambda>x. x \<noteq> 0) (res @ [0]) = res" using assms(6) by (subst takeWhile_append2) auto
  have z: "(0 :: u8) \<noteq> slash" by (simp add: slash_def)
  show ?thesis using h z by (simp add: parse_iUrl_body2_def Let_def s1 tw)
qed

theorem parse_iUrl_roundtrip_witness:
  "parse_iUrl_body2 (Some (slash # str ''ocf'' @ slash # str ''d1'' @ slash # str ''a/b'')) =
     Some \<lparr>iu_standard = str ''ocf'', iu_device = str ''d1'', iu_res_uri = slash # str ''a/b''\<rparr>"
proof -
  have "0 \<notin> set (str ''ocf'')" "slash \<notin> set (str ''ocf'')" "str ''ocf'' \<noteq> []" "0 \<notin> set (str ''d1'')"
    "slash \<notin> set (str ''d1'')" "0 \<notin> set (str ''a/b'')"
    by (simp_all add: str_def slash_def)
  from parse_iUrl_roundtrip [OF this] show ?thesis by blast
qed

definition uri_under :: "bytes \<Rightarrow> bytes \<Rightarrow> bool" where
  "uri_under c u \<longleftrightarrow> u = c \<or> prefix (c @ [slash]) u"

lemma uri_standard_loop_spec:
  assumes "0 \<notin> set u" "\<And>c. c \<in> set cs \<Longrightarrow> 0 \<notin> set c"
  shows "uri_standard_loop u i cs =
    Inr (case List.find (\<lambda>j. uri_under (cs ! j) u) [0..<length cs] of None \<Rightarrow> -1 | Some j \<Rightarrow> i + int j)"
  using assms(2)
proof (induction cs arbitrary: i)
  case (Cons c cs)
  have up: "[0..<length (c # cs)] = 0 # map Suc [0..<length cs]" by (simp add: map_Suc_upt upt_conv_Cons del: upt_Suc)
  have find: "List.find (\<lambda>j. uri_under ((c # cs) ! j) u) (map Suc js) =
      map_option Suc (List.find (\<lambda>j. uri_under (cs ! j) u) js)" for js by (induction js) auto
  have "c_strncmp_eq u c (length c) \<longleftrightarrow> prefix c u"
    unfolding c_strncmp_eq_def using assms(1) Cons.prems [of c] strncmp_take [of "length c" c u]
    by (auto simp: c_strncmp_eq_def)
  moreover have "prefix c u \<Longrightarrow> cs_at u (int (length c)) = Inr (if u = c then 0 else u ! length c)"
    by (auto simp: cs_at_def prefix_def)
  moreover have "prefix c u \<and> (u = c \<or> u ! length c = slash) \<longleftrightarrow> uri_under c u"
    by (auto simp: uri_under_def prefix_def) (metis append_Nil2 list.exhaust nth_append_length)
  moreover have "prefix c u \<Longrightarrow> u \<noteq> c \<Longrightarrow> u ! length c \<noteq> 0"
    using assms(1) by (auto simp: prefix_def) (metis Un_iff append_Nil2 list.exhaust list.set_intros(1) nth_append_length)
  ultimately show ?case
    using Cons.IH [of "i + 1"] Cons.prems unfolding up
    by (auto simp: find slash_def split: option.splits)
qed simp

text \<open>The standard of a URI: \<open>check_uri_standard\<close> never reads past the string and returns the index of the
  first device category that is the whole URI or its first segment, and -1 when there is none.\<close>

theorem check_uri_standard_spec:
  assumes "0 \<notin> set uri"
  shows "check_uri_standard uri =
    Inr (case List.find (\<lambda>j. uri_under (g_device_category ! j) (strip_lead uri)) [0..<7] of None \<Rightarrow> -1 | Some j \<Rightarrow> int j)"
proof -
  have "0 \<notin> set (strip_lead uri)" using assms by (cases uri) (auto simp: strip_lead_def)
  moreover have "\<And>c. c \<in> set g_device_category \<Longrightarrow> 0 \<notin> set c" by (auto simp: g_device_category_def str_def)
  moreover have "length g_device_category = 7" by (simp add: g_device_category_def)
  ultimately show ?thesis
    using uri_standard_loop_spec [of "strip_lead uri" g_device_category 0]
    by (simp add: check_uri_standard_def strip_lead_def split: option.splits)
qed

theorem check_uri_standard_spec_witness:
  "check_uri_standard (str ''/ocf/x'') =
    Inr (case List.find (\<lambda>j. uri_under (g_device_category ! j) (strip_lead (str ''/ocf/x''))) [0..<7] of None \<Rightarrow> -1 | Some j \<Rightarrow> int j)"
  by (rule check_uri_standard_spec) (simp add: str_def)

end
