(* ===== verification/Coap_Packet.thy ===== *)
theory Coap_Packet
  imports Prelude
begin

text \<open>
  CoAP packets of \<open>src/idr-mgt-shared-libs/coap/er-coap\<close>: the packet structure of \<open>er-coap.h\<close>, the option
  bitmap, and the accessors of \<open>er-coap.c\<close>.

  An array with its length member is a list.  A string or payload pointer either points into the packet
  buffer, \<open>P_Buf i\<close>, or to another object, \<open>P_Ext v\<close> with \<open>v\<close> the bytes from the address to the end of the
  object; this keeps the aliasing of parsed strings with the buffer.  Log output and
  \<open>coap_error_message\<close> are left out.
\<close>

section \<open>Constants\<close>

definition COAP_DEFAULT_MAX_AGE :: u32 where "COAP_DEFAULT_MAX_AGE = 60"

definition COAP_TOKEN_LEN :: nat where "COAP_TOKEN_LEN = 8"

definition COAP_ETAG_LEN :: nat where "COAP_ETAG_LEN = 8"

definition COAP_MAX_HEADER_SIZE :: nat where "COAP_MAX_HEADER_SIZE = 512"

definition REST_MAX_CHUNK_SIZE :: nat where "REST_MAX_CHUNK_SIZE = 1024"

definition BAD_REQUEST_4_00 :: nat where "BAD_REQUEST_4_00 = 128"

definition BAD_OPTION_4_02 :: nat where "BAD_OPTION_4_02 = 130"

definition PROXYING_NOT_SUPPORTED_5_05 :: nat where "PROXYING_NOT_SUPPORTED_5_05 = 165"

text \<open>Methods, message types and response codes.\<close>

definition COAP_GET :: u8 where "COAP_GET = 1"

definition COAP_POST :: u8 where "COAP_POST = 2"

definition COAP_PUT :: u8 where "COAP_PUT = 3"

definition COAP_DELETE :: u8 where "COAP_DELETE = 4"

definition COAP_TYPE_CON :: u8 where "COAP_TYPE_CON = 0"

definition COAP_TYPE_ACK :: u8 where "COAP_TYPE_ACK = 2"

definition CHANGED_2_04 :: u8 where "CHANGED_2_04 = 68"

definition INTERNAL_SERVER_ERROR_5_00 :: u8 where "INTERNAL_SERVER_ERROR_5_00 = 160"

definition COAP_TYPE_RST :: u8 where "COAP_TYPE_RST = 3"

definition CREATED_2_01 :: u8 where "CREATED_2_01 = 65"

text \<open>Option numbers.\<close>

abbreviation (input) COAP_OPTION_IF_MATCH :: nat where "COAP_OPTION_IF_MATCH \<equiv> 1"

abbreviation (input) COAP_OPTION_URI_HOST :: nat where "COAP_OPTION_URI_HOST \<equiv> 3"

abbreviation (input) COAP_OPTION_ETAG :: nat where "COAP_OPTION_ETAG \<equiv> 4"

abbreviation (input) COAP_OPTION_IF_NONE_MATCH :: nat where "COAP_OPTION_IF_NONE_MATCH \<equiv> 5"

abbreviation (input) COAP_OPTION_OBSERVE :: nat where "COAP_OPTION_OBSERVE \<equiv> 6"

abbreviation (input) COAP_OPTION_URI_PORT :: nat where "COAP_OPTION_URI_PORT \<equiv> 7"

abbreviation (input) COAP_OPTION_LOCATION_PATH :: nat where "COAP_OPTION_LOCATION_PATH \<equiv> 8"

abbreviation (input) COAP_OPTION_URI_PATH :: nat where "COAP_OPTION_URI_PATH \<equiv> 11"

abbreviation (input) COAP_OPTION_CONTENT_FORMAT :: nat where "COAP_OPTION_CONTENT_FORMAT \<equiv> 12"

abbreviation (input) COAP_OPTION_MAX_AGE :: nat where "COAP_OPTION_MAX_AGE \<equiv> 14"

abbreviation (input) COAP_OPTION_URI_QUERY :: nat where "COAP_OPTION_URI_QUERY \<equiv> 15"

abbreviation (input) COAP_OPTION_ACCEPT :: nat where "COAP_OPTION_ACCEPT \<equiv> 17"

abbreviation (input) COAP_OPTION_LOCATION_QUERY :: nat where "COAP_OPTION_LOCATION_QUERY \<equiv> 20"

abbreviation (input) COAP_OPTION_BLOCK2 :: nat where "COAP_OPTION_BLOCK2 \<equiv> 23"

abbreviation (input) COAP_OPTION_BLOCK1 :: nat where "COAP_OPTION_BLOCK1 \<equiv> 27"

abbreviation (input) COAP_OPTION_SIZE2 :: nat where "COAP_OPTION_SIZE2 \<equiv> 28"

abbreviation (input) COAP_OPTION_PROXY_URI :: nat where "COAP_OPTION_PROXY_URI \<equiv> 35"

abbreviation (input) COAP_OPTION_PROXY_SCHEME :: nat where "COAP_OPTION_PROXY_SCHEME \<equiv> 39"

abbreviation (input) COAP_OPTION_SIZE1 :: nat where "COAP_OPTION_SIZE1 \<equiv> 60"

section \<open>The packet\<close>

datatype sref = P_Ext bytes | P_Buf nat

record coap_packet =
  cp_buffer :: bytes
  cp_version :: u8
  cp_type :: u8
  cp_code :: u8
  cp_mid :: u16
  cp_token :: bytes
  cp_options :: bytes
  cp_content_format :: u32
  cp_max_age :: u32
  cp_etag :: bytes
  cp_proxy_uri :: "sref option"
  cp_proxy_uri_len :: nat
  cp_proxy_scheme :: "sref option"
  cp_proxy_scheme_len :: nat
  cp_uri_host :: "sref option"
  cp_uri_host_len :: nat
  cp_location_path :: "sref option"
  cp_location_path_len :: nat
  cp_uri_port :: u16
  cp_location_query :: "sref option"
  cp_location_query_len :: nat
  cp_uri_path :: "sref option"
  cp_uri_path_len :: nat
  cp_observe :: u32
  cp_accept :: u32
  cp_if_match :: bytes
  cp_block2_num :: u32
  cp_block2_more :: u8
  cp_block2_size :: u16
  cp_block2_offset :: u32
  cp_block1_num :: u32
  cp_block1_more :: u8
  cp_block1_size :: u16
  cp_block1_offset :: u32
  cp_size2 :: u32
  cp_size1 :: u32
  cp_uri_query :: "sref option"
  cp_uri_query_len :: nat
  cp_if_none_match :: u8
  cp_payload_len :: nat
  cp_payload :: "sref option"

definition cp_zero :: coap_packet where
  "cp_zero = \<lparr>cp_buffer = [], cp_version = 0, cp_type = 0, cp_code = 0, cp_mid = 0, cp_token = [], cp_options = replicate 8 0,
     cp_content_format = 0, cp_max_age = 0, cp_etag = [], cp_proxy_uri = None, cp_proxy_uri_len = 0,
     cp_proxy_scheme = None, cp_proxy_scheme_len = 0, cp_uri_host = None, cp_uri_host_len = 0,
     cp_location_path = None, cp_location_path_len = 0, cp_uri_port = 0, cp_location_query = None,
     cp_location_query_len = 0, cp_uri_path = None, cp_uri_path_len = 0, cp_observe = 0, cp_accept = 0, cp_if_match = [],
     cp_block2_num = 0, cp_block2_more = 0, cp_block2_size = 0, cp_block2_offset = 0, cp_block1_num = 0,
     cp_block1_more = 0, cp_block1_size = 0, cp_block1_offset = 0, cp_size2 = 0, cp_size1 = 0, cp_uri_query = None,
     cp_uri_query_len = 0, cp_if_none_match = 0, cp_payload_len = 0, cp_payload = None\<rparr>"

text \<open>The bytes a pointer leads to.\<close>

definition sref_view :: "bytes \<Rightarrow> sref option \<Rightarrow> bytes cres" where
  "sref_view buf r =
     (case r of None \<Rightarrow> Inl Null_Deref | Some (P_Ext v) \<Rightarrow> Inr v | Some (P_Buf i) \<Rightarrow> Inr (drop i buf))"

text \<open>The \<open>n\<close> bytes at offset \<open>k\<close> of a pointer; reading no byte needs no object.\<close>

definition sref_at :: "bytes \<Rightarrow> sref option \<Rightarrow> nat \<Rightarrow> nat \<Rightarrow> bytes cres" where
  "sref_at buf r k n =
     (if n = 0 then Inr []
      else cbind (sref_view buf r) (\<lambda>v. if k + n \<le> length v then Inr (take n (drop k v)) else Inl Out_Of_Bounds))"

text \<open>The option bitmap: eight bytes for the numbers below 64.\<close>

definition SET_OPTION :: "nat \<Rightarrow> coap_packet \<Rightarrow> coap_packet cres" where
  "SET_OPTION opt p =
     (if opt div 8 < length (cp_options p)
      then Inr (p\<lparr>cp_options := (cp_options p)[opt div 8 := (cp_options p ! (opt div 8)) OR push_bit (opt mod 8) 1]\<rparr>)
      else Inl Out_Of_Bounds)"

definition IS_OPTION :: "nat \<Rightarrow> coap_packet \<Rightarrow> bool" where
  "IS_OPTION opt p \<longleftrightarrow> (cp_options p ! (opt div 8)) AND push_bit (opt mod 8) 1 \<noteq> 0"

text \<open>Setting one of the option numbers above, which are inside the bitmap.\<close>

definition set_opt :: "nat \<Rightarrow> coap_packet \<Rightarrow> coap_packet" where
  "set_opt opt p = (case SET_OPTION opt p of Inl e \<Rightarrow> p | Inr p' \<Rightarrow> p')"

section \<open>Message identifiers and initialisation\<close>

definition coap_get_mid :: "u16 \<Rightarrow> u16 \<times> u16" where
  "coap_get_mid current_mid = (current_mid + 1, current_mid + 1)"

definition coap_init_message :: "u8 \<Rightarrow> u8 \<Rightarrow> u16 \<Rightarrow> coap_packet" where
  "coap_init_message t code mid = cp_zero\<lparr>cp_type := t, cp_code := code, cp_mid := mid\<rparr>"

section \<open>Accessors\<close>

definition coap_set_status_code :: "u32 \<Rightarrow> coap_packet \<Rightarrow> int \<times> coap_packet" where
  "coap_set_status_code code p = (if code \<le> 0xFF then (1, p\<lparr>cp_code := ucast code\<rparr>) else (0, p))"

definition coap_set_token :: "bytes \<Rightarrow> coap_packet \<Rightarrow> nat \<times> coap_packet" where
  "coap_set_token token p = (min COAP_TOKEN_LEN (length token), p\<lparr>cp_token := take COAP_TOKEN_LEN token\<rparr>)"

definition coap_get_header_content_format :: "coap_packet \<Rightarrow> u32 option" where
  "coap_get_header_content_format p = (if IS_OPTION COAP_OPTION_CONTENT_FORMAT p then Some (cp_content_format p) else None)"

definition coap_set_header_content_format :: "u32 \<Rightarrow> coap_packet \<Rightarrow> coap_packet" where
  "coap_set_header_content_format format p = set_opt COAP_OPTION_CONTENT_FORMAT (p\<lparr>cp_content_format := format\<rparr>)"

definition coap_get_header_accept :: "coap_packet \<Rightarrow> u32 option" where
  "coap_get_header_accept p = (if IS_OPTION COAP_OPTION_ACCEPT p then Some (cp_accept p) else None)"

definition coap_set_header_accept :: "u32 \<Rightarrow> coap_packet \<Rightarrow> coap_packet" where
  "coap_set_header_accept a p = set_opt COAP_OPTION_ACCEPT (p\<lparr>cp_accept := a\<rparr>)"

definition coap_get_header_max_age :: "coap_packet \<Rightarrow> u32" where
  "coap_get_header_max_age p = (if IS_OPTION COAP_OPTION_MAX_AGE p then cp_max_age p else COAP_DEFAULT_MAX_AGE)"

definition coap_set_header_max_age :: "u32 \<Rightarrow> coap_packet \<Rightarrow> coap_packet" where
  "coap_set_header_max_age age p = set_opt COAP_OPTION_MAX_AGE (p\<lparr>cp_max_age := age\<rparr>)"

definition coap_get_header_etag :: "coap_packet \<Rightarrow> bytes option" where
  "coap_get_header_etag p = (if IS_OPTION COAP_OPTION_ETAG p then Some (cp_etag p) else None)"

definition coap_set_header_etag :: "bytes \<Rightarrow> coap_packet \<Rightarrow> nat \<times> coap_packet" where
  "coap_set_header_etag etag p =
     (min COAP_ETAG_LEN (length etag), set_opt COAP_OPTION_ETAG (p\<lparr>cp_etag := take COAP_ETAG_LEN etag\<rparr>))"

definition coap_get_header_if_match :: "coap_packet \<Rightarrow> bytes option" where
  "coap_get_header_if_match p = (if IS_OPTION COAP_OPTION_IF_MATCH p then Some (cp_if_match p) else None)"

definition coap_set_header_if_match :: "bytes \<Rightarrow> coap_packet \<Rightarrow> nat \<times> coap_packet" where
  "coap_set_header_if_match etag p =
     (min COAP_ETAG_LEN (length etag), set_opt COAP_OPTION_IF_MATCH (p\<lparr>cp_if_match := take COAP_ETAG_LEN etag\<rparr>))"

definition coap_get_header_if_none_match :: "coap_packet \<Rightarrow> bool" where
  "coap_get_header_if_none_match p = IS_OPTION COAP_OPTION_IF_NONE_MATCH p"

definition coap_set_header_if_none_match :: "coap_packet \<Rightarrow> coap_packet" where
  "coap_set_header_if_none_match p = set_opt COAP_OPTION_IF_NONE_MATCH p"

text \<open>A string argument is its characters; the pointer stored leads to them and their terminator.\<close>

definition c_string :: "bytes \<Rightarrow> sref option" where
  "c_string s = Some (P_Ext (s @ [0]))"

definition coap_get_header_proxy_uri :: "coap_packet \<Rightarrow> (sref option \<times> nat) option" where
  "coap_get_header_proxy_uri p = (if IS_OPTION COAP_OPTION_PROXY_URI p then Some (cp_proxy_uri p, cp_proxy_uri_len p) else None)"

definition coap_set_header_proxy_uri :: "bytes \<Rightarrow> coap_packet \<Rightarrow> coap_packet" where
  "coap_set_header_proxy_uri uri p =
     set_opt COAP_OPTION_PROXY_URI (p\<lparr>cp_proxy_uri := c_string uri, cp_proxy_uri_len := length uri\<rparr>)"

definition coap_get_header_uri_host :: "coap_packet \<Rightarrow> (sref option \<times> nat) option" where
  "coap_get_header_uri_host p = (if IS_OPTION COAP_OPTION_URI_HOST p then Some (cp_uri_host p, cp_uri_host_len p) else None)"

definition coap_set_header_uri_host :: "bytes \<Rightarrow> coap_packet \<Rightarrow> coap_packet" where
  "coap_set_header_uri_host host p =
     set_opt COAP_OPTION_URI_HOST (p\<lparr>cp_uri_host := c_string host, cp_uri_host_len := length host\<rparr>)"

definition coap_get_header_uri_path :: "coap_packet \<Rightarrow> (sref option \<times> nat) option" where
  "coap_get_header_uri_path p = (if IS_OPTION COAP_OPTION_URI_PATH p then Some (cp_uri_path p, cp_uri_path_len p) else None)"

definition coap_set_header_uri_path :: "bytes \<Rightarrow> coap_packet \<Rightarrow> coap_packet" where
  "coap_set_header_uri_path path p =
     (let path = dropWhile (\<lambda>c. c = 47) path in
      set_opt COAP_OPTION_URI_PATH (p\<lparr>cp_uri_path := c_string path, cp_uri_path_len := length path\<rparr>))"

definition coap_get_header_uri_query :: "coap_packet \<Rightarrow> (sref option \<times> nat) option" where
  "coap_get_header_uri_query p = (if IS_OPTION COAP_OPTION_URI_QUERY p then Some (cp_uri_query p, cp_uri_query_len p) else None)"

definition coap_set_header_uri_query :: "bytes \<Rightarrow> coap_packet \<Rightarrow> coap_packet" where
  "coap_set_header_uri_query query p =
     (let query = dropWhile (\<lambda>c. c = 63) query in
      set_opt COAP_OPTION_URI_QUERY (p\<lparr>cp_uri_query := c_string query, cp_uri_query_len := length query\<rparr>))"

definition coap_get_header_location_path :: "coap_packet \<Rightarrow> (sref option \<times> nat) option" where
  "coap_get_header_location_path p =
     (if IS_OPTION COAP_OPTION_LOCATION_PATH p then Some (cp_location_path p, cp_location_path_len p) else None)"

definition coap_get_header_location_query :: "coap_packet \<Rightarrow> (sref option \<times> nat) option" where
  "coap_get_header_location_query p =
     (if IS_OPTION COAP_OPTION_LOCATION_QUERY p then Some (cp_location_query p, cp_location_query_len p) else None)"

definition coap_set_header_location_query :: "bytes \<Rightarrow> coap_packet \<Rightarrow> coap_packet" where
  "coap_set_header_location_query query p =
     (let query = dropWhile (\<lambda>c. c = 63) query in
      set_opt COAP_OPTION_LOCATION_QUERY (p\<lparr>cp_location_query := c_string query, cp_location_query_len := length query\<rparr>))"

definition coap_set_header_location_path :: "bytes \<Rightarrow> coap_packet \<Rightarrow> nat \<times> coap_packet" where
  "coap_set_header_location_path path p =
     (let path = dropWhile (\<lambda>c. c = 47) path;
          n = length (takeWhile (\<lambda>c. c \<noteq> 63) path);
          p = (if n < length path then coap_set_header_location_query (drop (n + 1) path) p else p);
          p = p\<lparr>cp_location_path_len := n, cp_location_path := c_string path\<rparr>;
          p = (if n > 0 then set_opt COAP_OPTION_LOCATION_PATH p else p)
      in (n, p))"

definition coap_get_header_observe :: "coap_packet \<Rightarrow> u32 option" where
  "coap_get_header_observe p = (if IS_OPTION COAP_OPTION_OBSERVE p then Some (cp_observe p) else None)"

definition coap_set_header_observe :: "u32 \<Rightarrow> coap_packet \<Rightarrow> coap_packet" where
  "coap_set_header_observe v p = set_opt COAP_OPTION_OBSERVE (p\<lparr>cp_observe := v\<rparr>)"

text \<open>Block parameters: number, more flag, size and offset.\<close>

definition coap_get_header_block2 :: "coap_packet \<Rightarrow> (u32 \<times> u8 \<times> u16 \<times> u32) option" where
  "coap_get_header_block2 p =
     (if IS_OPTION COAP_OPTION_BLOCK2 p
      then Some (cp_block2_num p, cp_block2_more p, cp_block2_size p, cp_block2_offset p) else None)"

definition coap_set_header_block2 :: "u32 \<Rightarrow> u8 \<Rightarrow> u16 \<Rightarrow> coap_packet \<Rightarrow> int \<times> coap_packet" where
  "coap_set_header_block2 num mr sz p =
     (if sz < 16 then (0, p)
      else if sz > 2048 then (0, p)
      else if num > 0x0FFFFF then (0, p)
      else (1, set_opt COAP_OPTION_BLOCK2
                 (p\<lparr>cp_block2_num := num, cp_block2_more := (if mr \<noteq> 0 then 1 else 0), cp_block2_size := sz\<rparr>)))"

definition coap_get_header_block1 :: "coap_packet \<Rightarrow> (u32 \<times> u8 \<times> u16 \<times> u32) option" where
  "coap_get_header_block1 p =
     (if IS_OPTION COAP_OPTION_BLOCK1 p
      then Some (cp_block1_num p, cp_block1_more p, cp_block1_size p, cp_block1_offset p) else None)"

definition coap_set_header_block1 :: "u32 \<Rightarrow> u8 \<Rightarrow> u16 \<Rightarrow> coap_packet \<Rightarrow> int \<times> coap_packet" where
  "coap_set_header_block1 num mr sz p =
     (if sz < 16 then (0, p)
      else if sz > 2048 then (0, p)
      else if num > 0x0FFFFF then (0, p)
      else (1, set_opt COAP_OPTION_BLOCK1 (p\<lparr>cp_block1_num := num, cp_block1_more := mr, cp_block1_size := sz\<rparr>)))"

definition coap_get_header_size2 :: "coap_packet \<Rightarrow> u32 option" where
  "coap_get_header_size2 p = (if IS_OPTION COAP_OPTION_SIZE2 p then Some (cp_size2 p) else None)"

definition coap_set_header_size2 :: "u32 \<Rightarrow> coap_packet \<Rightarrow> coap_packet" where
  "coap_set_header_size2 v p = set_opt COAP_OPTION_SIZE2 (p\<lparr>cp_size2 := v\<rparr>)"

definition coap_get_header_size1 :: "coap_packet \<Rightarrow> u32 option" where
  "coap_get_header_size1 p = (if IS_OPTION COAP_OPTION_SIZE1 p then Some (cp_size1 p) else None)"

definition coap_set_header_size1 :: "u32 \<Rightarrow> coap_packet \<Rightarrow> coap_packet" where
  "coap_set_header_size1 v p = set_opt COAP_OPTION_SIZE1 (p\<lparr>cp_size1 := v\<rparr>)"

definition coap_get_payload :: "coap_packet \<Rightarrow> (sref \<times> nat) option" where
  "coap_get_payload p = (case cp_payload p of Some r \<Rightarrow> Some (r, cp_payload_len p) | None \<Rightarrow> None)"

definition coap_set_payload :: "sref option \<Rightarrow> nat \<Rightarrow> coap_packet \<Rightarrow> nat \<times> coap_packet" where
  "coap_set_payload payload len p =
     (min REST_MAX_CHUNK_SIZE len, p\<lparr>cp_payload := payload, cp_payload_len := min REST_MAX_CHUNK_SIZE len\<rparr>)"

section \<open>Variables of a query\<close>

text \<open>The search of \<open>coap_get_variable\<close> from \<open>start\<close>: the position and length of the value.\<close>

function get_variable_loop :: "bytes \<Rightarrow> bytes \<Rightarrow> nat \<Rightarrow> (nat \<times> nat) option" where
  "get_variable_loop buf nm start =
     (if start + length nm < length buf then
        if (start = 0 \<or> buf ! (start - 1) = 38) \<and> buf ! (start + length nm) = 61 \<and> take (length nm) (drop start buf) = nm
        then (let s = start + length nm + 1 in Some (s, length (takeWhile (\<lambda>c. c \<noteq> 38) (drop s buf))))
        else get_variable_loop buf nm (start + 1)
      else None)"
  by pat_completeness auto
termination
  by (relation "measure (\<lambda>(buf, nm, start). length buf - start)") auto

declare get_variable_loop.simps [simp del]

text \<open>The value bytes, \<open>None\<close> when \<open>*output\<close> stays \<open>NULL\<close>.\<close>

definition coap_get_variable :: "bytes \<Rightarrow> bytes \<Rightarrow> bytes option" where
  "coap_get_variable buf nm =
     (case get_variable_loop buf nm 0 of None \<Rightarrow> None | Some (s, n) \<Rightarrow> Some (take n (drop s buf)))"

definition coap_get_query_variable :: "coap_packet \<Rightarrow> bytes \<Rightarrow> bytes option cres" where
  "coap_get_query_variable p nm =
     (if IS_OPTION COAP_OPTION_URI_QUERY p then
        map_sum id (\<lambda>q. coap_get_variable q nm) (sref_at (cp_buffer p) (cp_uri_query p) 0 (cp_uri_query_len p))
      else Inr None)"

definition coap_get_post_variable :: "coap_packet \<Rightarrow> bytes \<Rightarrow> bytes option cres" where
  "coap_get_post_variable p nm =
     (if cp_payload_len p \<noteq> 0 then
        map_sum id (\<lambda>q. coap_get_variable q nm) (sref_at (cp_buffer p) (cp_payload p) 0 (cp_payload_len p))
      else Inr None)"

end
