(* ===== verification/Coap_Codec.thy ===== *)
theory Coap_Codec
  imports Coap_Packet
begin

text \<open>
  The CoAP wire format of \<open>src/idr-mgt-shared-libs/coap/er-coap/er-coap.c\<close>: \<open>coap_serialize_message\<close> and
  \<open>coap_parse_message\<close> with their helpers and the \<open>COAP_SERIALIZE_*\<close> macros of \<open>er-coap.h\<close>.

  A position in the packet buffer is its index.  Every access of the buffer and of the strings is
  bounds checked by the model and ends in \<open>Out_Of_Bounds\<close> when the code would leave the object.
  While a message is serialised, \<open>P_Buf\<close> pointers of the packet lead into the buffer that is written, and
  all other pointers are \<open>P_Ext\<close>.  Option deltas and lengths go through \<open>unsigned int\<close> as in the
  code (the length through the low word of its \<open>size_t\<close>).
\<close>

section \<open>Access to the buffer\<close>

definition buf_rd :: "bytes \<Rightarrow> nat \<Rightarrow> u8 cres" where
  "buf_rd buf i = (if i < length buf then Inr (buf ! i) else Inl Out_Of_Bounds)"

definition buf_slice :: "bytes \<Rightarrow> nat \<Rightarrow> nat \<Rightarrow> bytes cres" where
  "buf_slice buf i n = (if n = 0 \<or> i + n \<le> length buf then Inr (take n (drop i buf)) else Inl Out_Of_Bounds)"

definition buf_write :: "nat \<Rightarrow> bytes \<Rightarrow> bytes \<Rightarrow> bytes cres" where
  "buf_write i bs buf =
     (if bs = [] then Inr buf
      else if i + length bs \<le> length buf then Inr (take i buf @ bs @ drop (i + length bs) buf)
      else Inl Out_Of_Bounds)"

section \<open>Helpers\<close>

function log_2_loop :: "u16 \<Rightarrow> u16 \<Rightarrow> u16" where
  "log_2_loop v res =
     (let v = drop_bit 1 v; res = res + 1
      in if v \<noteq> 0 then log_2_loop v res else res)"
  by pat_completeness auto
termination
proof (relation "measure (\<lambda>(v, res). unat v)")
  fix v res x xa :: u16
  assume "x = drop_bit 1 v" "x \<noteq> 0"
  then have "unat x = unat v div 2" by (simp add: unat_div drop_bit_Suc)
  moreover have "unat x \<noteq> 0" using \<open>x \<noteq> 0\<close> by (simp add: unat_eq_0)
  ultimately show "((x, xa), v, res) \<in> measure (\<lambda>(v, res). unat v)" by simp
qed simp

declare log_2_loop.simps [simp del]

definition coap_log_2 :: "u16 \<Rightarrow> u16" where
  "coap_log_2 v = (let res = log_2_loop v 0 in if res \<noteq> 0 then res - 1 else res)"

definition coap_parse_int_option :: "bytes \<Rightarrow> u32" where
  "coap_parse_int_option bs = foldl (\<lambda>var b. push_bit 8 var OR ucast b) 0 bs"

definition coap_option_nibble :: "u32 \<Rightarrow> u8" where
  "coap_option_nibble v = (if v < 13 then ucast v else if v \<le> 0xFF + 13 then 13 else 14)"

text \<open>One turn of the \<open>do\<close> loop of \<open>coap_set_option_header\<close>, which runs for the delta and for the length.\<close>

definition option_ext :: "u32 \<Rightarrow> bytes" where
  "option_ext x =
     (if x > 268 then [ucast (drop_bit 8 (x - 269)), ucast (x - 269)]
      else if x > 12 then [ucast (x - 13)] else [])"

text \<open>The bytes \<open>coap_set_option_header\<close> writes; the number of them is its result.\<close>

definition coap_set_option_header :: "u32 \<Rightarrow> nat \<Rightarrow> bytes" where
  "coap_set_option_header delta len =
     (push_bit 4 (coap_option_nibble delta) OR coap_option_nibble (of_nat len)) # option_ext delta @ option_ext (of_nat len)"

section \<open>Serialising options\<close>

definition int_option_bytes :: "u32 \<Rightarrow> bytes" where
  "int_option_bytes v =
     (if 0xFF000000 AND v \<noteq> 0 then [ucast (drop_bit 24 v)] else []) @
     (if 0xFFFF0000 AND v \<noteq> 0 then [ucast (drop_bit 16 v)] else []) @
     (if 0xFFFFFF00 AND v \<noteq> 0 then [ucast (drop_bit 8 v)] else []) @ [ucast v]"

text \<open>The serialisers take the position to write at and return the position after what they wrote.\<close>

definition coap_serialize_int_option :: "nat \<Rightarrow> nat \<Rightarrow> nat \<Rightarrow> bytes \<Rightarrow> u32 \<Rightarrow> (nat \<times> bytes) cres" where
  "coap_serialize_int_option number current_number i buf v =
     (let vs = int_option_bytes v;
          bs = coap_set_option_header (of_nat number - of_nat current_number) (length vs) @ vs
      in cbind (buf_write i bs buf) (\<lambda>buf. Inr (i + length bs, buf)))"

text \<open>Header and value of one option, the value the \<open>n\<close> bytes at offset \<open>k\<close> of the array.\<close>

definition serialize_part :: "nat \<Rightarrow> nat \<Rightarrow> nat \<Rightarrow> bytes \<Rightarrow> sref option \<Rightarrow> nat \<Rightarrow> nat \<Rightarrow> (nat \<times> bytes) cres" where
  "serialize_part number current_number i buf array k n =
     (let hd = coap_set_option_header (of_nat number - of_nat current_number) n
      in cbind (buf_write i hd buf) (\<lambda>buf.
         cbind (sref_at buf array k n) (\<lambda>v.
         cbind (buf_write (i + length hd) v buf) (\<lambda>buf.
         Inr (i + length hd + n, buf)))))"

text \<open>The splitting loop.  The body increments the loop variable once more after a part, so the character
  that follows a separator is not compared, and the last turn may read one past the terminator.\<close>

function serialize_split ::
    "nat \<Rightarrow> sref option \<Rightarrow> nat \<Rightarrow> u8 \<Rightarrow> nat \<Rightarrow> nat \<Rightarrow> nat \<Rightarrow> nat \<Rightarrow> bytes \<Rightarrow> (nat \<times> bytes) cres" where
  "serialize_split number array len split_char j part_start i current_number buf =
     (if j \<le> len + 1 then
        cbind (sref_at buf array j 1) (\<lambda>c.
          if c = [split_char] \<or> j = len then
            cbind (serialize_part number current_number i buf array part_start (j - part_start)) (\<lambda>(i, buf).
              serialize_split number array len split_char (j + 2) (j + 1) i number buf)
          else serialize_split number array len split_char (j + 1) part_start i current_number buf)
      else Inr (i, buf))"
  by pat_completeness auto
termination
  by (relation "measure (\<lambda>(number, array, len, c, j, ps, i, cn, buf). len + 2 - j)") auto

declare serialize_split.simps [simp del]

definition coap_serialize_array_option ::
    "nat \<Rightarrow> nat \<Rightarrow> nat \<Rightarrow> bytes \<Rightarrow> sref option \<Rightarrow> nat \<Rightarrow> u8 \<Rightarrow> (nat \<times> bytes) cres" where
  "coap_serialize_array_option number current_number i buf array len split_char =
     (if split_char \<noteq> 0 then serialize_split number array len split_char 0 0 i current_number buf
      else serialize_part number current_number i buf array 0 len)"

text \<open>The four \<open>COAP_SERIALIZE\<close> macros: which field of the packet an option is serialised from.\<close>

datatype opt_field = F_Int u32 | F_Byte bytes | F_String "sref option" nat u8 | F_Block u32 u8 u16

definition block_value :: "u32 \<Rightarrow> u8 \<Rightarrow> u16 \<Rightarrow> u32" where
  "block_value num mr sz =
     (let block = push_bit 4 num;
          block = (if mr \<noteq> 0 then block OR 0x8 else block)
      in block OR (0xF AND ucast (coap_log_2 (sz div 16))))"

definition COAP_SERIALIZE_OPTION ::
    "coap_packet \<Rightarrow> nat \<times> opt_field \<Rightarrow> nat \<times> nat \<times> bytes \<Rightarrow> (nat \<times> nat \<times> bytes) cres" where
  "COAP_SERIALIZE_OPTION p e st =
     (case (e, st) of ((number, f), (i, current_number, buf)) \<Rightarrow>
      if IS_OPTION number p then
        cbind (case f of
                 F_Int v \<Rightarrow> coap_serialize_int_option number current_number i buf v
               | F_Byte bs \<Rightarrow> coap_serialize_array_option number current_number i buf (Some (P_Ext bs)) (length bs) 0
               | F_String r n c \<Rightarrow> coap_serialize_array_option number current_number i buf r n c
               | F_Block num mr sz \<Rightarrow> coap_serialize_int_option number current_number i buf (block_value num mr sz))
          (\<lambda>(i, buf). Inr (i, number, buf))
      else Inr (i, current_number, buf))"

text \<open>The macro calls of \<open>coap_serialize_message\<close> in their order.\<close>

definition option_fields :: "coap_packet \<Rightarrow> (nat \<times> opt_field) list" where
  "option_fields p =
    [(COAP_OPTION_IF_MATCH, F_Byte (cp_if_match p)),
     (COAP_OPTION_URI_HOST, F_String (cp_uri_host p) (cp_uri_host_len p) 0),
     (COAP_OPTION_ETAG, F_Byte (cp_etag p)),
     (COAP_OPTION_IF_NONE_MATCH, F_Int (cp_content_format p - cp_content_format p)),
     (COAP_OPTION_OBSERVE, F_Int (cp_observe p)),
     (COAP_OPTION_URI_PORT, F_Int (ucast (cp_uri_port p))),
     (COAP_OPTION_LOCATION_PATH, F_String (cp_location_path p) (cp_location_path_len p) 47),
     (COAP_OPTION_URI_PATH, F_String (cp_uri_path p) (cp_uri_path_len p) 47),
     (COAP_OPTION_CONTENT_FORMAT, F_Int (cp_content_format p)),
     (COAP_OPTION_MAX_AGE, F_Int (cp_max_age p)),
     (COAP_OPTION_URI_QUERY, F_String (cp_uri_query p) (cp_uri_query_len p) 38),
     (COAP_OPTION_ACCEPT, F_Int (cp_accept p)),
     (COAP_OPTION_LOCATION_QUERY, F_String (cp_location_query p) (cp_location_query_len p) 38),
     (COAP_OPTION_BLOCK2, F_Block (cp_block2_num p) (cp_block2_more p) (cp_block2_size p)),
     (COAP_OPTION_BLOCK1, F_Block (cp_block1_num p) (cp_block1_more p) (cp_block1_size p)),
     (COAP_OPTION_SIZE2, F_Int (cp_size2 p)),
     (COAP_OPTION_PROXY_URI, F_String (cp_proxy_uri p) (cp_proxy_uri_len p) 0),
     (COAP_OPTION_PROXY_SCHEME, F_String (cp_proxy_scheme p) (cp_proxy_scheme_len p) 0),
     (COAP_OPTION_SIZE1, F_Int (cp_size1 p))]"

fun serialize_options ::
    "coap_packet \<Rightarrow> (nat \<times> opt_field) list \<Rightarrow> nat \<times> nat \<times> bytes \<Rightarrow> (nat \<times> nat \<times> bytes) cres" where
  "serialize_options p [] st = Inr st"
| "serialize_options p (e # es) st = cbind (COAP_SERIALIZE_OPTION p e st) (serialize_options p es)"

section \<open>Serialising a message\<close>

definition header_bytes :: "coap_packet \<Rightarrow> bytes" where
  "header_bytes p =
     [(0xC0 AND push_bit 6 (cp_version p)) OR (0x30 AND push_bit 4 (cp_type p)) OR (0x0F AND of_nat (length (cp_token p))),
      cp_code p, ucast (drop_bit 8 (cp_mid p)), ucast (cp_mid p)]"

definition pack_payload :: "coap_packet \<Rightarrow> nat \<Rightarrow> bytes \<Rightarrow> (nat \<times> bytes) cres" where
  "pack_payload p i buf =
     cbind (if cp_payload_len p \<noteq> 0 then cbind (buf_write i [0xFF] buf) (\<lambda>buf. Inr (i + 1, buf)) else Inr (i, buf)) (\<lambda>(i, buf).
     cbind (sref_at buf (cp_payload p) 0 (cp_payload_len p)) (\<lambda>v.
     cbind (buf_write i v buf) (\<lambda>buf.
     Inr (i + cp_payload_len p, buf))))"

text \<open>The packet length, the buffer and the packet after the call; the buffer pointer of the packet is \<open>NULL\<close>,
  modelled by no bytes, when the header is too long.\<close>

definition coap_serialize_message :: "coap_packet \<Rightarrow> bytes \<Rightarrow> (nat \<times> bytes \<times> coap_packet) cres" where
  "coap_serialize_message p buf =
     (let p = p\<lparr>cp_version := 1\<rparr> in
      cbind (buf_write 0 (header_bytes p) buf) (\<lambda>buf.
      if cp_code p = 0 then Inr (4, buf, p\<lparr>cp_buffer := buf\<rparr>)
      else
        cbind (buf_write 4 (cp_token p) buf) (\<lambda>buf.
        cbind (serialize_options p (option_fields p) (4 + length (cp_token p), 0, buf)) (\<lambda>(i, _, buf).
        if i \<le> COAP_MAX_HEADER_SIZE then
          cbind (pack_payload p i buf) (\<lambda>(n, buf). Inr (n, buf, p\<lparr>cp_buffer := buf\<rparr>))
        else Inr (0, buf, p\<lparr>cp_buffer := []\<rparr>)))))"

section \<open>Parsing options\<close>

text \<open>One turn of the extension loop, which runs for the delta and for the length.\<close>

definition parse_ext :: "bytes \<Rightarrow> nat \<Rightarrow> nat \<Rightarrow> (nat \<times> nat) cres" where
  "parse_ext buf x i =
     (if x = 13 then cbind (buf_rd buf i) (\<lambda>b. Inr (x + unat b, i + 1))
      else if x = 14 then
        cbind (buf_rd buf i) (\<lambda>b. cbind (buf_rd buf (i + 1)) (\<lambda>c. Inr (x + 255 + unat b * 256 + unat c, i + 2)))
      else Inr (x, i))"

text \<open>Merging in place: pointers are positions in the buffer.\<close>

definition coap_merge_multi_option ::
    "bytes \<Rightarrow> sref option \<Rightarrow> nat \<Rightarrow> nat \<Rightarrow> nat \<Rightarrow> u8 \<Rightarrow> (bytes \<times> sref option \<times> nat) cres" where
  "coap_merge_multi_option buf dst dst_len opt option_len separator =
     (if dst_len > 0 then
        (case dst of
           Some (P_Buf d) \<Rightarrow>
             cbind (buf_write (d + dst_len) [separator] buf) (\<lambda>buf.
             cbind (buf_slice buf opt option_len) (\<lambda>v.
             cbind (buf_write (d + (dst_len + 1)) v buf) (\<lambda>buf.
             Inr (buf, dst, dst_len + 1 + option_len))))
         | _ \<Rightarrow> Inl Null_Deref)
      else Inr (buf, Some (P_Buf opt), option_len))"

text \<open>The \<open>switch\<close> over the option number: the status of an early return, and the packet.\<close>

definition parse_switch :: "nat \<Rightarrow> nat \<Rightarrow> nat \<Rightarrow> coap_packet \<Rightarrow> (nat option \<times> coap_packet) cres" where
  "parse_switch number i n p =
    (let buf = cp_buffer p;
         int_option = (\<lambda>upd. cbind (buf_slice buf i n) (\<lambda>v. Inr (None, upd (coap_parse_int_option v))));
         bytes_option = (\<lambda>upd. cbind (buf_slice buf i (min COAP_ETAG_LEN n)) (\<lambda>v. Inr (None, upd v)))
     in
     if number = COAP_OPTION_CONTENT_FORMAT then int_option (\<lambda>v. p\<lparr>cp_content_format := v\<rparr>)
     else if number = COAP_OPTION_MAX_AGE then int_option (\<lambda>v. p\<lparr>cp_max_age := v\<rparr>)
     else if number = COAP_OPTION_ETAG then bytes_option (\<lambda>v. p\<lparr>cp_etag := v\<rparr>)
     else if number = COAP_OPTION_ACCEPT then int_option (\<lambda>v. p\<lparr>cp_accept := v\<rparr>)
     else if number = COAP_OPTION_IF_MATCH then bytes_option (\<lambda>v. p\<lparr>cp_if_match := v\<rparr>)
     else if number = COAP_OPTION_IF_NONE_MATCH then Inr (None, p\<lparr>cp_if_none_match := 1\<rparr>)
     else if number = COAP_OPTION_PROXY_URI then Inr (Some PROXYING_NOT_SUPPORTED_5_05, p)
     else if number = COAP_OPTION_PROXY_SCHEME then Inr (Some PROXYING_NOT_SUPPORTED_5_05, p)
     else if number = COAP_OPTION_URI_HOST then Inr (None, p\<lparr>cp_uri_host := Some (P_Buf i), cp_uri_host_len := n\<rparr>)
     else if number = COAP_OPTION_URI_PORT then int_option (\<lambda>v. p\<lparr>cp_uri_port := ucast v\<rparr>)
     else if number = COAP_OPTION_URI_PATH then
       cbind (coap_merge_multi_option buf (cp_uri_path p) (cp_uri_path_len p) i n 47) (\<lambda>(b, r, m).
         Inr (None, p\<lparr>cp_buffer := b, cp_uri_path := r, cp_uri_path_len := m\<rparr>))
     else if number = COAP_OPTION_URI_QUERY then
       cbind (coap_merge_multi_option buf (cp_uri_query p) (cp_uri_query_len p) i n 38) (\<lambda>(b, r, m).
         Inr (None, p\<lparr>cp_buffer := b, cp_uri_query := r, cp_uri_query_len := m\<rparr>))
     else if number = COAP_OPTION_LOCATION_PATH then
       cbind (coap_merge_multi_option buf (cp_location_path p) (cp_location_path_len p) i n 47) (\<lambda>(b, r, m).
         Inr (None, p\<lparr>cp_buffer := b, cp_location_path := r, cp_location_path_len := m\<rparr>))
     else if number = COAP_OPTION_LOCATION_QUERY then
       cbind (coap_merge_multi_option buf (cp_location_query p) (cp_location_query_len p) i n 38) (\<lambda>(b, r, m).
         Inr (None, p\<lparr>cp_buffer := b, cp_location_query := r, cp_location_query_len := m\<rparr>))
     else if number = COAP_OPTION_OBSERVE then int_option (\<lambda>v. p\<lparr>cp_observe := v\<rparr>)
     else if number = COAP_OPTION_BLOCK2 then
       int_option (\<lambda>v. p\<lparr>cp_block2_more := ucast (drop_bit 3 (v AND 0x08)), cp_block2_size := push_bit (unat (v AND 0x07)) 16,
         cp_block2_offset := push_bit (unat (v AND 0x07)) (v AND NOT 0x0000000F), cp_block2_num := drop_bit 4 v\<rparr>)
     else if number = COAP_OPTION_BLOCK1 then
       int_option (\<lambda>v. p\<lparr>cp_block1_more := ucast (drop_bit 3 (v AND 0x08)), cp_block1_size := push_bit (unat (v AND 0x07)) 16,
         cp_block1_offset := push_bit (unat (v AND 0x07)) (v AND NOT 0x0000000F), cp_block1_num := drop_bit 4 v\<rparr>)
     else if number = COAP_OPTION_SIZE2 then int_option (\<lambda>v. p\<lparr>cp_size2 := v\<rparr>)
     else if number = COAP_OPTION_SIZE1 then int_option (\<lambda>v. p\<lparr>cp_size1 := v\<rparr>)
     else if odd number then Inr (Some BAD_OPTION_4_02, p)
     else Inr (None, p))"

text \<open>One option: its first byte \<open>b\<close> is at position \<open>i\<close>.  The position after it, its number and the packet.\<close>

definition parse_option :: "u8 \<Rightarrow> nat \<Rightarrow> nat \<Rightarrow> coap_packet \<Rightarrow> (nat option \<times> nat \<times> nat \<times> coap_packet) cres" where
  "parse_option b i number p =
     cbind (parse_ext (cp_buffer p) (unat (drop_bit 4 b)) (i + 1)) (\<lambda>(option_delta, i).
     cbind (parse_ext (cp_buffer p) (unat (b AND 0x0F)) i) (\<lambda>(option_length, i).
     cbind (SET_OPTION (number + option_delta) p) (\<lambda>p.
     cbind (parse_switch (number + option_delta) i option_length p) (\<lambda>(st, p).
     Inr (st, i + option_length, number + option_delta, p)))))"

lemma parse_ext_mono: "parse_ext buf x i = Inr (y, i') \<Longrightarrow> i \<le> i'"
  by (auto simp: parse_ext_def cbind_eq_Inr split: if_splits)

lemma parse_option_mono: "parse_option b i number p = Inr (st, i', number', p') \<Longrightarrow> i < i'"
  by (fastforce simp: parse_option_def cbind_eq_Inr dest: parse_ext_mono)

text \<open>The option loop up to \<open>data_len\<close>; \<open>pay\<close> is what the branch of the payload marker does with the position
  after the marker.\<close>

function parse_options ::
    "(nat \<Rightarrow> coap_packet \<Rightarrow> coap_packet cres) \<Rightarrow> nat \<Rightarrow> nat \<Rightarrow> nat \<Rightarrow> coap_packet \<Rightarrow> (nat \<times> coap_packet) cres" where
  "parse_options pay data_len i number p =
     (if i < data_len then
        cbind (buf_rd (cp_buffer p) i) (\<lambda>b.
          if b AND 0xF0 = 0xF0 then cbind (pay (i + 1) p) (\<lambda>p. Inr (0, p))
          else cbind (parse_option b i number p) (\<lambda>(st, i, number, p).
            case st of Some s \<Rightarrow> Inr (s, p) | None \<Rightarrow> parse_options pay data_len i number p))
      else Inr (0, p))"
  by pat_completeness auto
termination
  by (relation "measure (\<lambda>(pay, data_len, i, number, p). data_len - i)") (auto dest: parse_option_mono)

declare parse_options.simps [simp del]

section \<open>Parsing a message\<close>

definition parse_payload :: "nat \<Rightarrow> nat \<Rightarrow> coap_packet \<Rightarrow> coap_packet cres" where
  "parse_payload data_len i p =
     (let n = min REST_MAX_CHUNK_SIZE (data_len - i)
      in cbind (buf_write (i + n) [0] (cp_buffer p)) (\<lambda>buf.
         Inr (p\<lparr>cp_buffer := buf, cp_payload := Some (P_Buf i), cp_payload_len := n\<rparr>)))"

definition coap_parse_message :: "bytes \<Rightarrow> u16 \<Rightarrow> (nat \<times> coap_packet) cres" where
  "coap_parse_message data data_len =
     cbind (buf_slice data 0 4) (\<lambda>h.
     let p = cp_zero\<lparr>cp_buffer := data, cp_version := drop_bit 6 (0xC0 AND h ! 0), cp_type := drop_bit 4 (0x30 AND h ! 0),
               cp_code := h ! 1, cp_mid := rd16 (h ! 2) (h ! 3)\<rparr>;
         token_len = min COAP_TOKEN_LEN (unat (0x0F AND h ! 0))
     in if cp_version p \<noteq> 1 then Inr (BAD_REQUEST_4_00, p\<lparr>cp_token := replicate token_len 0\<rparr>)
        else cbind (buf_slice data 4 token_len) (\<lambda>token.
          parse_options (parse_payload (unat data_len)) (unat data_len) (4 + token_len) 0 (p\<lparr>cp_token := token\<rparr>)))"

end
