(* ===== verification/Coap_Parse.thy ===== *)
theory Coap_Parse
  imports Coap_Codec
begin

text \<open>
  What the option loop of the CoAP parser computes.  The reference is a list of options, pairs of a number and
  the value bytes: \<open>enc_opts\<close> encodes it, and \<open>opt_add\<close> says what an option contributes to the abstract
  message \<open>cp_opt\<close>, a map from option numbers to values.  \<open>parse_options_encoded\<close> shows that the loop, which
  merges strings in place in the buffer it reads, adds the options one by one.
\<close>

section \<open>The option bitmap\<close>

lemma byte_and_exp: "(b :: u8) AND push_bit k 1 \<noteq> 0 \<longleftrightarrow> bit b k"
proof
  assume "b AND push_bit k 1 \<noteq> 0"
  then obtain n where "bit (b AND push_bit k 1) n" by (metis bit_eq_iff bit_0_eq bot_apply bot_bool_def)
  then show "bit b k" by (auto simp: bit_simps)
next
  assume "bit b k"
  then have "bit (b AND push_bit k 1) k" using bit_imp_le_length [of b k] by (auto simp: bit_simps)
  then show "b AND push_bit k 1 \<noteq> 0" by auto
qed

lemma IS_OPTION_bit: "IS_OPTION n p \<longleftrightarrow> bit (cp_options p ! (n div 8)) (n mod 8)"
  unfolding IS_OPTION_def by (rule byte_and_exp)

lemma div_mod_8_eq: "m div 8 = n div 8 \<Longrightarrow> m mod 8 = n mod 8 \<Longrightarrow> m = (n :: nat)"
  by (metis div_mult_mod_eq)

lemma SET_OPTION_Inr: "length (cp_options p) = 8 \<Longrightarrow> n < 64 \<Longrightarrow> SET_OPTION n p = Inr (set_opt n p)"
  by (simp add: SET_OPTION_def set_opt_def)

lemma set_opt_options:
  "length (cp_options p) = 8 \<Longrightarrow> n < 64 \<Longrightarrow>
     set_opt n p = p\<lparr>cp_options := (cp_options p)[n div 8 := (cp_options p ! (n div 8)) OR push_bit (n mod 8) 1]\<rparr>"
  by (simp add: SET_OPTION_def set_opt_def)

lemma IS_OPTION_set_opt:
  assumes "length (cp_options p) = 8" "n < 64" "m < 64"
  shows "IS_OPTION m (set_opt n p) \<longleftrightarrow> m = n \<or> IS_OPTION m p"
proof (cases "m div 8 = n div 8")
  case True
  then have "m mod 8 = n mod 8 \<longleftrightarrow> m = n" using div_mod_8_eq by blast
  with True assms show ?thesis by (auto simp: IS_OPTION_bit set_opt_options bit_simps)
next
  case False
  with assms show ?thesis by (auto simp: IS_OPTION_bit set_opt_options)
qed

section \<open>Encoding options\<close>

definition opt_bytes :: "nat \<Rightarrow> nat \<times> bytes \<Rightarrow> bytes" where
  "opt_bytes cur nv = coap_set_option_header (of_nat (fst nv) - of_nat cur) (length (snd nv)) @ snd nv"

fun enc_opts :: "nat \<Rightarrow> (nat \<times> bytes) list \<Rightarrow> bytes" where
  "enc_opts cur [] = []"
| "enc_opts cur (nv # os) = opt_bytes cur nv @ enc_opts (fst nv) os"

section \<open>Option headers\<close>

lemma nibble_pair:
  assumes "take_bit 4 a = a" "take_bit 4 c = (c :: u8)"
  shows "drop_bit 4 (push_bit 4 a OR c) = a" "(push_bit 4 a OR c) AND 0x0F = c"
proof -
  have hi: "bit a n \<Longrightarrow> n < 4" "bit c n \<Longrightarrow> n < 4" for n
    using assms by (metis bit_take_bit_iff)+
  have 15: "(0x0F :: u8) = mask 4" by (simp add: mask_eq_exp_minus_1)
  show "drop_bit 4 (push_bit 4 a OR c) = a"
    by (rule bit_word_eqI) (auto simp: bit_simps dest: hi)
  show "(push_bit 4 a OR c) AND 0x0F = c"
    unfolding 15 by (rule bit_word_eqI) (auto simp: bit_simps dest: hi)
qed

lemma nibble_cases: 
  "coap_option_nibble v = (if unat v < 13 then of_nat (unat v) else if unat v \<le> 268 then 13 else 14)"
  by (simp add: coap_option_nibble_def word_less_nat_alt word_le_nat_alt)

lemma take_bit_4_u8: "take_bit 4 b = (b :: u8) \<longleftrightarrow> unat b < 16"
proof -
  have "take_bit 4 b = b \<longleftrightarrow> take_bit 4 (unat b) = unat b" by (metis unsigned_take_bit_eq unsigned_word_eqI)
  then show ?thesis by (simp add: take_bit_nat_eq_self_iff)
qed

lemma unat_nibble:
  "unat (coap_option_nibble v) = (if unat v < 13 then unat v else if unat v \<le> 268 then 13 else 14)"
proof -
  have "unat (of_nat (unat v) :: u8) = unat v" if "unat v < 13" using that by (intro unat_of_nat_small) simp
  then show ?thesis by (simp add: nibble_cases del: of_nat_unat)
qed

lemma take_bit_nibble: "take_bit 4 (coap_option_nibble v) = coap_option_nibble v"
  by (simp add: take_bit_4_u8 unat_nibble)

lemma buf_rd_drop: "drop i buf = b # r \<Longrightarrow> buf_rd buf i = Inr b \<and> drop (Suc i) buf = r"
  by (metis buf_rd_def drop_Suc drop_eq_Nil2 leI list.distinct(1) list.sel(3) nth_via_drop tl_drop)

lemma unat_ucast_byte: "unat (ucast (of_nat y :: u32) :: u8) = y mod 256"
  by (simp add: unsigned_ucast_eq unsigned_of_nat take_bit_eq_mod mod_mod_cancel)

lemma unat_ucast_drop8: "y < 65536 \<Longrightarrow> unat (ucast (drop_bit 8 (of_nat y :: u32)) :: u8) = y div 256"
  by (simp add: unsigned_ucast_eq unat_div unsigned_of_nat take_bit_eq_mod drop_bit_eq_div)

lemma parse_ext_encoded:
  assumes "x < 65805" "drop i buf = option_ext (of_nat x) @ rs"
  shows "parse_ext buf (unat (coap_option_nibble (of_nat x))) i = Inr (x, i + length (option_ext (of_nat x)))"
proof -
  have u: "unat (of_nat x :: u32) = x" using assms(1) by (simp add: unat_of_nat take_bit_nat_eq_self)
  consider "x < 13" | "13 \<le> x \<and> x \<le> 268" | "269 \<le> x" by linarith
  then show ?thesis
  proof cases
    case 1
    then show ?thesis by (simp add: parse_ext_def unat_nibble u option_ext_def word_less_nat_alt)
  next
    case 2
    obtain y where y: "x = y + 13" using 2 le_Suc_ex [of 13 x] by (metis add.commute)
    with 2 have e: "option_ext (of_nat x) = [ucast (of_nat y :: u32)]"
      using u by (simp add: option_ext_def word_less_nat_alt)
    with buf_rd_drop [of i buf] assms(2) have "buf_rd buf i = Inr (ucast (of_nat y :: u32))" by simp
    with 2 y u show ?thesis unfolding e by (simp add: parse_ext_def unat_nibble unat_ucast_byte)
  next
    case 3
    obtain y where y: "x = y + 269" using 3 le_Suc_ex [of 269 x] by (metis add.commute)
    with 3 have e: "option_ext (of_nat x) = [ucast (drop_bit 8 (of_nat y :: u32)), ucast (of_nat y :: u32)]"
      using u by (simp add: option_ext_def word_less_nat_alt)
    with buf_rd_drop [of i buf] buf_rd_drop [of "Suc i" buf] assms(2)
    have "buf_rd buf i = Inr (ucast (drop_bit 8 (of_nat y :: u32)))" "buf_rd buf (Suc i) = Inr (ucast (of_nat y :: u32))"
      by simp_all
    moreover have "y div 256 * 256 + y mod 256 = y" "y < 65536" using assms(1) y by simp_all
    ultimately show ?thesis using y u unfolding e
      by (simp add: parse_ext_def unat_nibble unat_ucast_byte unat_ucast_drop8)
  qed
qed

lemma and_F0: "(b :: u8) AND 0xF0 = 0xF0 \<Longrightarrow> drop_bit 4 b = 15"
proof -
  assume "b AND 0xF0 = 0xF0"
  then have "drop_bit 4 b AND drop_bit 4 (0xF0 :: u8) = drop_bit 4 0xF0" by (metis drop_bit_and)
  moreover have "drop_bit 4 (0xF0 :: u8) = mask 4" by (simp add: mask_eq_exp_minus_1 drop_bit_Suc)
  moreover have "drop_bit 4 b AND mask 4 = drop_bit 4 b"
    by (rule bit_word_eqI) (auto simp: bit_simps dest: bit_imp_le_length)
  ultimately show ?thesis by (simp add: mask_eq_exp_minus_1)
qed

lemma parse_option_encoded:
  assumes "drop i (cp_buffer p) = opt_bytes cur (n, v) @ rs" "cur \<le> n" "n < 64" "length v < 65805" "length (cp_options p) = 8"
  defines "h \<equiv> length (coap_set_option_header (of_nat n - of_nat cur) (length v))"
  obtains b where "buf_rd (cp_buffer p) i = Inr b" "b AND 0xF0 \<noteq> 0xF0"
    "parse_option b i cur p =
       cbind (parse_switch n (i + h) (length v) (set_opt n p)) (\<lambda>(st, p). Inr (st, i + h + length v, n, p))"
    "0 < h" "drop (i + h) (cp_buffer p) = v @ rs"
proof -
  let ?d = "of_nat n - of_nat cur :: u32"
  have d: "?d = of_nat (n - cur)" using assms(2) by simp
  define b where "b = push_bit 4 (coap_option_nibble ?d) OR coap_option_nibble (of_nat (length v))"
  have dr: "drop i (cp_buffer p) = b # option_ext ?d @ option_ext (of_nat (length v)) @ v @ rs"
    using assms(1) by (simp add: opt_bytes_def coap_set_option_header_def b_def)
  have nib: "drop_bit 4 b = coap_option_nibble ?d" "b AND 0x0F = coap_option_nibble (of_nat (length v))"
    unfolding b_def by (rule nibble_pair; rule take_bit_nibble)+
  have rd: "buf_rd (cp_buffer p) i = Inr b" "drop (Suc i) (cp_buffer p) = option_ext ?d @ option_ext (of_nat (length v)) @ v @ rs"
    using buf_rd_drop [OF dr] by auto
  have x1: "parse_ext (cp_buffer p) (unat (drop_bit 4 b)) (i + 1) = Inr (n - cur, Suc i + length (option_ext ?d))"
    using parse_ext_encoded [of "n - cur" "Suc i" "cp_buffer p"] rd(2) assms(2,3) unfolding nib d by simp
  have dr2: "drop (Suc i + length (option_ext ?d)) (cp_buffer p) = option_ext (of_nat (length v)) @ v @ rs"
    using rd(2) by (metis append_eq_conv_conj drop_drop add.commute)
  have x2: "parse_ext (cp_buffer p) (unat (b AND 0x0F)) (Suc i + length (option_ext ?d)) = Inr (length v, i + h)"
    using parse_ext_encoded [OF assms(4) dr2] unfolding nib h_def by (simp add: coap_set_option_header_def)
  have "cur + (n - cur) = n" using assms(2) by simp
  then have "parse_option b i cur p =
       cbind (parse_switch n (i + h) (length v) (set_opt n p)) (\<lambda>(st, p). Inr (st, i + h + length v, n, p))"
    unfolding parse_option_def x1 cbind_simps prod.case x2 by (simp add: SET_OPTION_Inr assms)
  moreover have "b AND 0xF0 \<noteq> 0xF0"
  proof
    assume "b AND 0xF0 = 0xF0"
    then have "unat (drop_bit 4 b) = 15" using and_F0 by simp
    then show False unfolding nib by (simp add: unat_nibble split: if_splits)
  qed
  moreover have "drop (i + h) (cp_buffer p) = v @ rs"
  proof -
    have "drop h (drop i (cp_buffer p)) = v @ rs" unfolding assms(1) h_def opt_bytes_def by simp
    then show ?thesis by (simp add: add.commute)
  qed
  ultimately show ?thesis using rd(1) that by (simp add: h_def coap_set_option_header_def)
qed

section \<open>The abstract message\<close>

datatype oval = O_Int u32 | O_Bytes bytes | O_Str "bytes cres" | O_Block u32 bool u16 | O_Flag

text \<open>The strings that are read in place, with the separator of the merged ones.\<close>

definition str_opts :: "nat list" where "str_opts = [3, 8, 11, 15, 20]"

definition merge_sep :: "nat \<Rightarrow> u8" where "merge_sep n = (if n = 8 \<or> n = 11 then 47 else 38)"

definition str_field :: "nat \<Rightarrow> coap_packet \<Rightarrow> sref option \<times> nat" where
  "str_field n p =
     (if n = 3 then (cp_uri_host p, cp_uri_host_len p)
      else if n = 8 then (cp_location_path p, cp_location_path_len p)
      else if n = 11 then (cp_uri_path p, cp_uri_path_len p)
      else if n = 15 then (cp_uri_query p, cp_uri_query_len p)
      else (cp_location_query p, cp_location_query_len p))"

definition str_upd :: "nat \<Rightarrow> sref option \<Rightarrow> nat \<Rightarrow> coap_packet \<Rightarrow> coap_packet" where
  "str_upd n r l p =
     (if n = 3 then p\<lparr>cp_uri_host := r, cp_uri_host_len := l\<rparr>
      else if n = 8 then p\<lparr>cp_location_path := r, cp_location_path_len := l\<rparr>
      else if n = 11 then p\<lparr>cp_uri_path := r, cp_uri_path_len := l\<rparr>
      else if n = 15 then p\<lparr>cp_uri_query := r, cp_uri_query_len := l\<rparr>
      else p\<lparr>cp_location_query := r, cp_location_query_len := l\<rparr>)"

definition cp_val :: "nat \<Rightarrow> coap_packet \<Rightarrow> oval" where
  "cp_val n p =
     (if n \<in> set str_opts then O_Str (sref_at (cp_buffer p) (fst (str_field n p)) 0 (snd (str_field n p)))
      else if n = 1 then O_Bytes (cp_if_match p)
      else if n = 4 then O_Bytes (cp_etag p)
      else if n = 6 then O_Int (cp_observe p)
      else if n = 7 then O_Int (ucast (cp_uri_port p))
      else if n = 12 then O_Int (cp_content_format p)
      else if n = 14 then O_Int (cp_max_age p)
      else if n = 17 then O_Int (cp_accept p)
      else if n = 23 then O_Block (cp_block2_num p) (cp_block2_more p \<noteq> 0) (cp_block2_size p)
      else if n = 27 then O_Block (cp_block1_num p) (cp_block1_more p \<noteq> 0) (cp_block1_size p)
      else if n = 28 then O_Int (cp_size2 p)
      else if n = 60 then O_Int (cp_size1 p)
      else O_Flag)"

definition cp_opt :: "coap_packet \<Rightarrow> nat \<Rightarrow> oval option" where
  "cp_opt p n = (if n < 64 \<and> IS_OPTION n p then Some (cp_val n p) else None)"

text \<open>What one more option with value \<open>v\<close> makes of the value of its number.\<close>

definition opt_val :: "oval option \<Rightarrow> nat \<Rightarrow> bytes \<Rightarrow> oval" where
  "opt_val old n v =
     (let x = coap_parse_int_option v in
      if n = 3 then O_Str (Inr v)
      else if n \<in> set str_opts then
        (case old of Some (O_Str (Inr s)) \<Rightarrow> O_Str (Inr (if s = [] then v else s @ merge_sep n # v)) | _ \<Rightarrow> O_Str (Inr v))
      else if n = 1 \<or> n = 4 then O_Bytes (take COAP_ETAG_LEN v)
      else if n = 7 then O_Int (ucast (ucast x :: u16))
      else if n \<in> {6, 12, 14, 17, 28, 60} then O_Int x
      else if n = 23 \<or> n = 27 then O_Block (drop_bit 4 x) (bit x 3) (push_bit (unat (x AND 0x07)) 16)
      else O_Flag)"

definition opt_add :: "(nat \<Rightarrow> oval option) \<Rightarrow> nat \<times> bytes \<Rightarrow> nat \<Rightarrow> oval option" where
  "opt_add m nv = m(fst nv := Some (opt_val (m (fst nv)) (fst nv) (snd nv)))"

text \<open>The status a number leads to: proxy options and unknown odd numbers are refused.\<close>

definition opt_status :: "nat \<Rightarrow> nat option" where
  "opt_status n =
     (if n = 35 \<or> n = 39 then Some PROXYING_NOT_SUPPORTED_5_05
      else if odd n \<and> n \<notin> {1, 3, 5, 7, 11, 15, 17, 23, 27} then Some BAD_OPTION_4_02 else None)"

section \<open>The switch over the option number\<close>

definition cp_head :: "coap_packet \<Rightarrow> u8 \<times> u8 \<times> u8 \<times> u16 \<times> bytes \<times> sref option \<times> nat" where
  "cp_head p = (cp_version p, cp_type p, cp_code p, cp_mid p, cp_token p, cp_payload p, cp_payload_len p)"

lemma str_field_str_upd [simp]:
  "m \<in> set str_opts \<Longrightarrow> n \<in> set str_opts \<Longrightarrow> str_field m (str_upd n r l p) = (if m = n then (r, l) else str_field m p)"
  by (auto simp: str_field_def str_upd_def str_opts_def)

lemma str_upd_frame [simp]:
  "cp_buffer (str_upd n r l p) = cp_buffer p" "cp_options (str_upd n r l p) = cp_options p" "cp_head (str_upd n r l p) = cp_head p"
  "m \<notin> set str_opts \<Longrightarrow> cp_val m (str_upd n r l p) = cp_val m p"
  by (auto simp: str_upd_def cp_head_def cp_val_def)

lemma parse_switch_merge:
  "n \<in> set str_opts \<Longrightarrow> n \<noteq> 3 \<Longrightarrow>
   parse_switch n i l p =
     cbind (coap_merge_multi_option (cp_buffer p) (fst (str_field n p)) (snd (str_field n p)) i l (merge_sep n)) (\<lambda>(b, r, m).
       Inr (None, str_upd n r m (p\<lparr>cp_buffer := b\<rparr>)))"
  by (auto simp: str_opts_def parse_switch_def Let_def str_field_def str_upd_def merge_sep_def)

lemma parse_switch_host: "parse_switch 3 i l p = Inr (None, str_upd 3 (Some (P_Buf i)) l p)"
  by (simp add: parse_switch_def Let_def str_upd_def)

lemma parse_switch_status:
  assumes "opt_status n = Some st"
  shows "parse_switch n i l p = Inr (Some st, p)"
proof -
  consider "n = 35" | "n = 39" | "odd n" "n \<notin> {1, 3, 5, 7, 11, 15, 17, 23, 27, 35, 39}" "st = BAD_OPTION_4_02"
    using assms by (auto simp: opt_status_def split: if_splits)
  then show ?thesis
  proof cases
    case 3
    then have "n \<noteq> 4" "n \<noteq> 6" "n \<noteq> 8" "n \<noteq> 12" "n \<noteq> 14" "n \<noteq> 20" "n \<noteq> 28" "n \<noteq> 60" by auto
    with 3 show ?thesis by (simp add: parse_switch_def Let_def)
  qed (use assms in \<open>auto simp: parse_switch_def Let_def opt_status_def\<close>)
qed

lemma buf_slice_take:
  assumes "length v = l" "take l (drop i buf) = v" "k \<le> l"
  shows "buf_slice buf i k = Inr (take k v)"
proof -
  have "take k v = take k (drop i buf)" using assms by (metis min_absorb1 take_take)
  moreover have "k = 0 \<or> i + k \<le> length buf"
  proof -
    have "length v \<le> length buf - i" using assms by (metis length_drop length_take min.cobounded1)
    then show ?thesis using assms by auto
  qed
  ultimately show ?thesis by (simp add: buf_slice_def)
qed

lemma block_more_bit: "ucast (drop_bit 3 ((x :: u32) AND 0x08)) \<noteq> (0 :: u8) \<longleftrightarrow> bit x 3"
proof -
  have b8: "bit (8 :: u32) n \<longleftrightarrow> n = 3" for n using bit_exp_iff [where 'a = u32, of 3 n] by auto
  have "drop_bit 3 (x AND 0x08) = of_bool (bit x 3)"
  proof (rule bit_word_eqI)
    fix n assume "n < LENGTH(32)"
    show "bit (drop_bit 3 (x AND 0x08)) n \<longleftrightarrow> bit (of_bool (bit x 3) :: u32) n"
      unfolding bit_drop_bit_eq bit_and_iff o_def b8 by (cases n) (auto simp: bit_1_iff)
  qed
  then show ?thesis by simp
qed

lemma parse_switch_plain:
  assumes "n \<notin> set str_opts" "opt_status n = None" "take (length v) (drop i (cp_buffer p)) = v"
  obtains p' where "parse_switch n i (length v) p = Inr (None, p')" "cp_val n p' = opt_val old n v"
    "\<And>m. m \<noteq> n \<Longrightarrow> cp_val m p' = cp_val m p" "\<And>m. str_field m p' = str_field m p"
    "cp_buffer p' = cp_buffer p" "cp_options p' = cp_options p" "cp_head p' = cp_head p"
proof -
  have sl: "buf_slice (cp_buffer p) i (length v) = Inr v" using buf_slice_take [OF refl assms(3)] by simp
  have sm: "buf_slice (cp_buffer p) i (min COAP_ETAG_LEN (length v)) = Inr (take COAP_ETAG_LEN v)"
    using buf_slice_take [OF refl assms(3), of "min COAP_ETAG_LEN (length v)"] by (simp add: min_def)
  have np: "n \<noteq> 35" "n \<noteq> 39" using assms(2) by (auto simp: opt_status_def)
  let ?x = "coap_parse_int_option v"
  note defs = parse_switch_def Let_def cp_val_def str_opts_def opt_val_def str_field_def cp_head_def
  consider "n = 1" | "n = 4" | "n = 5" | "n = 6" | "n = 7" | "n = 12" | "n = 14" | "n = 17" | "n = 23" | "n = 27" | "n = 28" | "n = 60" |
    "n \<notin> {1, 4, 5, 6, 7, 12, 14, 17, 23, 27, 28, 60}" by auto
  then show ?thesis
  proof cases
    case 1
    then show ?thesis by (intro that [of "p\<lparr>cp_if_match := take COAP_ETAG_LEN v\<rparr>"]) (simp_all add: defs sm)
  next
    case 2
    then show ?thesis by (intro that [of "p\<lparr>cp_etag := take COAP_ETAG_LEN v\<rparr>"]) (simp_all add: defs sm)
  next
    case 3
    then show ?thesis by (intro that [of "p\<lparr>cp_if_none_match := 1\<rparr>"]) (simp_all add: defs sl)
  next
    case 4
    then show ?thesis by (intro that [of "p\<lparr>cp_observe := ?x\<rparr>"]) (simp_all add: defs sl)
  next
    case 5
    then show ?thesis by (intro that [of "p\<lparr>cp_uri_port := ucast ?x\<rparr>"]) (simp_all add: defs sl)
  next
    case 6
    then show ?thesis by (intro that [of "p\<lparr>cp_content_format := ?x\<rparr>"]) (simp_all add: defs sl)
  next
    case 7
    then show ?thesis by (intro that [of "p\<lparr>cp_max_age := ?x\<rparr>"]) (simp_all add: defs sl)
  next
    case 8
    then show ?thesis by (intro that [of "p\<lparr>cp_accept := ?x\<rparr>"]) (simp_all add: defs sl)
  next
    case 9
    then show ?thesis by (intro that [of "p\<lparr>cp_block2_more := ucast (drop_bit 3 (?x AND 0x08)), cp_block2_size := push_bit (unat (?x AND 0x07)) 16,
        cp_block2_offset := push_bit (unat (?x AND 0x07)) (?x AND NOT 0x0000000F), cp_block2_num := drop_bit 4 ?x\<rparr>"]) (simp_all add: defs sl block_more_bit [simplified])
  next
    case 10
    then show ?thesis by (intro that [of "p\<lparr>cp_block1_more := ucast (drop_bit 3 (?x AND 0x08)), cp_block1_size := push_bit (unat (?x AND 0x07)) 16,
        cp_block1_offset := push_bit (unat (?x AND 0x07)) (?x AND NOT 0x0000000F), cp_block1_num := drop_bit 4 ?x\<rparr>"]) (simp_all add: defs sl block_more_bit [simplified])
  next
    case 11
    then show ?thesis by (intro that [of "p\<lparr>cp_size2 := ?x\<rparr>"]) (simp_all add: defs sl)
  next
    case 12
    then show ?thesis by (intro that [of "p\<lparr>cp_size1 := ?x\<rparr>"]) (simp_all add: defs sl)
  next
    case 13
    moreover from this have "even n" using assms(1,2) by (auto simp: opt_status_def str_opts_def split: if_splits)
    ultimately show ?thesis using np assms(1) by (intro that [of p]) (simp_all add: defs)
  qed
qed

section \<open>One option\<close>

definition str_pos :: "nat \<Rightarrow> coap_packet \<Rightarrow> nat" where
  "str_pos m p = (case fst (str_field m p) of Some (P_Buf k) \<Rightarrow> k | _ \<Rightarrow> 0)"

text \<open>Before the option at position \<open>i\<close>, after an option with number \<open>n\<close>: the strings seen so far lie before
  \<open>i\<close>, and those of other numbers before the one that can still grow.\<close>

definition opt_inv :: "nat \<Rightarrow> nat \<Rightarrow> coap_packet \<Rightarrow> bool" where
  "opt_inv i n p \<longleftrightarrow> length (cp_options p) = 8 \<and> i \<le> length (cp_buffer p) \<and> (\<forall>m < 64. IS_OPTION m p \<longrightarrow> m \<le> n) \<and>
     (\<forall>m \<in> set str_opts.
        if IS_OPTION m p
        then fst (str_field m p) = Some (P_Buf (str_pos m p)) \<and> str_pos m p + snd (str_field m p) \<le> i \<and>
          (m \<noteq> n \<and> n \<in> set str_opts \<and> IS_OPTION n p \<longrightarrow> str_pos m p + snd (str_field m p) \<le> str_pos n p)
        else snd (str_field m p) = 0)"

lemma str_opts_less: "m \<in> set str_opts \<Longrightarrow> m < 64"
  by (auto simp: str_opts_def)

lemma set_opt_frame [simp]:
  "cp_buffer (set_opt n p) = cp_buffer p" "cp_head (set_opt n p) = cp_head p" "str_field m (set_opt n p) = str_field m p"
  "cp_val m (set_opt n p) = cp_val m p"
  by (auto simp: set_opt_def SET_OPTION_def cp_head_def str_field_def cp_val_def)

lemma buffer_frame [simp]:
  "str_field m (p\<lparr>cp_buffer := b\<rparr>) = str_field m p" "cp_head (p\<lparr>cp_buffer := b\<rparr>) = cp_head p"
  "m \<notin> set str_opts \<Longrightarrow> cp_val m (p\<lparr>cp_buffer := b\<rparr>) = cp_val m p"
  by (auto simp: cp_head_def str_field_def cp_val_def)

lemma IS_OPTION_cong: "cp_options p = cp_options q \<Longrightarrow> IS_OPTION m p = IS_OPTION m q"
  by (simp add: IS_OPTION_def)

lemma length_set_opt: "length (cp_options (set_opt n p)) = length (cp_options p)"
  by (simp add: set_opt_def SET_OPTION_def)

lemma sref_at_buf: "k + l \<le> length buf \<Longrightarrow> sref_at buf (Some (P_Buf k)) 0 l = Inr (take l (drop k buf))"
  by (auto simp: sref_at_def sref_view_def)

lemma cp_val_str: "n \<in> set str_opts \<Longrightarrow> cp_val n p = O_Str (sref_at (cp_buffer p) (fst (str_field n p)) 0 (snd (str_field n p)))"
  by (simp add: cp_val_def)

lemma take_drop_below: "take k b = take k a \<Longrightarrow> j + l \<le> k \<Longrightarrow> take l (drop j b) = take l (drop j (a :: 'a list))"
proof -
  assume t: "take k b = take k a" and "j + l \<le> k"
  then have "take l (drop j x) = take l (drop j (take k x))" for x :: "'a list" by (simp add: drop_take min_def)
  then show ?thesis using t by metis
qed

lemma str_step:
  assumes inv: "opt_inv i n0 p" and n: "n0 \<le> n" "n \<in> set str_opts"
    and b: "take k b = take k (cp_buffer p)" "length b = length (cp_buffer p)"
    and k: "k + l \<le> i'" "i \<le> i'" "i' \<le> length b"
    and below: "\<And>m. m \<in> set str_opts \<Longrightarrow> m \<noteq> n \<Longrightarrow> IS_OPTION m p \<Longrightarrow> str_pos m p + snd (str_field m p) \<le> k"
  defines "p' \<equiv> str_upd n (Some (P_Buf k)) l ((set_opt n p)\<lparr>cp_buffer := b\<rparr>)"
  shows "opt_inv i' n p'" "cp_opt p' = (cp_opt p)(n := Some (O_Str (Inr (take l (drop k b)))))" "cp_head p' = cp_head p"
proof -
  have o8: "length (cp_options p) = 8" and n64: "n < 64" using inv n str_opts_less by (auto simp: opt_inv_def)
  have is': "IS_OPTION m p' \<longleftrightarrow> m = n \<or> IS_OPTION m p" if "m < 64" for m
    using IS_OPTION_set_opt [OF o8 n64 that] IS_OPTION_cong [of p' "set_opt n p" m] by (simp add: p'_def)
  have sf: "str_field m p' = (if m = n then (Some (P_Buf k), l) else str_field m p)" if "m \<in> set str_opts" for m
    using that n by (simp add: p'_def)
  then have sp: "str_pos m p' = (if m = n then k else str_pos m p)" if "m \<in> set str_opts" for m
    using that by (simp add: str_pos_def)
  show "opt_inv i' n p'"
    unfolding opt_inv_def
  proof (intro conjI ballI allI impI)
    show "length (cp_options p') = 8" using o8 by (simp add: p'_def length_set_opt)
    show "i' \<le> length (cp_buffer p')" using k by (simp add: p'_def)
    show "m \<le> n" if "m < 64" "IS_OPTION m p'" for m using that is' inv n(1) by (auto simp: opt_inv_def)
  next
    fix m assume m: "m \<in> set str_opts"
    show "if IS_OPTION m p' then fst (str_field m p') = Some (P_Buf (str_pos m p')) \<and> str_pos m p' + snd (str_field m p') \<le> i' \<and>
          (m \<noteq> n \<and> n \<in> set str_opts \<and> IS_OPTION n p' \<longrightarrow> str_pos m p' + snd (str_field m p') \<le> str_pos n p')
        else snd (str_field m p') = 0"
      using inv m n k below [OF m] is' [OF str_opts_less [OF m]] by (auto simp: opt_inv_def sf sp split: if_splits)
  qed
  show "cp_head p' = cp_head p" by (simp add: p'_def)
  show "cp_opt p' = (cp_opt p)(n := Some (O_Str (Inr (take l (drop k b)))))"
  proof
    fix m
    consider "m = n" | "m \<noteq> n" "m \<in> set str_opts" "IS_OPTION m p" | "m \<noteq> n" "m \<notin> set str_opts" | "m \<noteq> n" "\<not> IS_OPTION m p" by blast
    then show "cp_opt p' m = ((cp_opt p)(n := Some (O_Str (Inr (take l (drop k b)))))) m"
    proof cases
      case 1
      then have "cp_val m p' = O_Str (sref_at b (Some (P_Buf k)) 0 l)" using n cp_val_str [of n p'] sf by (simp add: p'_def)
      also have "sref_at b (Some (P_Buf k)) 0 l = Inr (take l (drop k b))" using k by (intro sref_at_buf) simp
      finally show ?thesis using 1 is' n64 by (simp add: cp_opt_def)
    next
      case 2
      let ?k = "str_pos m p" and ?l = "snd (str_field m p)"
      have f: "fst (str_field m p) = Some (P_Buf ?k)" "?k + ?l \<le> k" "?k + ?l \<le> i" "i \<le> length b"
        using inv 2 below k by (auto simp: opt_inv_def)
      then have "sref_at b (Some (P_Buf ?k)) 0 ?l = sref_at (cp_buffer p) (Some (P_Buf ?k)) 0 ?l"
        using take_drop_below [OF b(1) f(2)] b(2) by (simp add: sref_at_buf)
      then have "cp_val m p' = cp_val m p" using 2 f by (simp add: cp_val_str sf) (simp add: p'_def)
      then show ?thesis using 2 is' str_opts_less by (simp add: cp_opt_def)
    next
      case 3
      then have "cp_val m p' = cp_val m p" by (simp add: p'_def)
      then show ?thesis using 3 is' [of m] by (auto simp: cp_opt_def)
    next
      case 4
      then show ?thesis using is' [of m] by (simp add: cp_opt_def)
    qed
  qed
qed

text \<open>Merging in place: the separator and the value are moved behind the string.\<close>

lemma merge_in_place:
  assumes "0 < l" "k + l < i" "i + length v \<le> length buf" "take (length v) (drop i buf) = v"
  shows "coap_merge_multi_option buf (Some (P_Buf k)) l i (length v) c =
    Inr (take (k + l) buf @ c # v @ drop (k + l + 1 + length v) buf, Some (P_Buf k), l + 1 + length v)"
proof -
  let ?b = "take (k + l) buf @ [c] @ drop (k + l + 1) buf"
  have w1: "buf_write (k + l) [c] buf = Inr ?b" using assms by (simp add: buf_write_def)
  have "drop i ?b = drop i buf" using assms(2,3) by (simp add: drop_Cons')
  then have sl: "buf_slice ?b i (length v) = Inr v" using buf_slice_take [of v "length v" i ?b] assms(4) by simp
  have "buf_write (k + (l + 1)) v ?b = Inr (take (k + l) buf @ c # v @ drop (k + l + 1 + length v) buf)"
    using assms(2,3) by (cases v) (auto simp: buf_write_def ac_simps)
  then show ?thesis using assms(1) w1 sl by (simp add: coap_merge_multi_option_def)
qed

lemma option_step:
  assumes inv: "opt_inv i n0 p" and n: "n0 \<le> n" "n < 64" "opt_status n = None"
    and v: "i < j" "j + length v \<le> length (cp_buffer p)" "take (length v) (drop j (cp_buffer p)) = v"
  obtains p' where "parse_switch n j (length v) (set_opt n p) = Inr (None, p')" "opt_inv (j + length v) n p'"
    "cp_opt p' = opt_add (cp_opt p) (n, v)" "cp_head p' = cp_head p"
    "length (cp_buffer p') = length (cp_buffer p)" "drop (j + length v) (cp_buffer p') = drop (j + length v) (cp_buffer p)"
proof (cases "n \<in> set str_opts")
  case False
  obtain p' where p': "parse_switch n j (length v) (set_opt n p) = Inr (None, p')" "cp_val n p' = opt_val (cp_opt p n) n v"
    "\<And>m. m \<noteq> n \<Longrightarrow> cp_val m p' = cp_val m p" "\<And>m. str_field m p' = str_field m p" "cp_buffer p' = cp_buffer p"
    "cp_options p' = cp_options (set_opt n p)" "cp_head p' = cp_head p"
    using parse_switch_plain [OF False n(3), of v j "set_opt n p" "cp_opt p n"] v(3) by auto
  have o8: "length (cp_options p) = 8" using inv by (simp add: opt_inv_def)
  have is': "IS_OPTION m p' \<longleftrightarrow> m = n \<or> IS_OPTION m p" if "m < 64" for m
    using IS_OPTION_set_opt [OF o8 n(2) that] IS_OPTION_cong [OF p'(6)] by simp
  have sp: "str_pos m p' = str_pos m p" for m by (simp add: str_pos_def p')
  have io: "IS_OPTION m p' \<longleftrightarrow> IS_OPTION m p" if "m \<in> set str_opts" for m
    using that False is' str_opts_less by metis
  have "opt_inv (j + length v) n p'"
    using inv n(1) v(1,2) False is' by (auto simp: opt_inv_def p' sp io length_set_opt)
  moreover have "cp_opt p' = opt_add (cp_opt p) (n, v)"
    using is' n(2) p'(2,3) by (auto simp: fun_eq_iff cp_opt_def opt_add_def)
  ultimately show ?thesis using that p'(1,5,7) by simp
next
  case True
  note goal = that
  have ends: "str_pos m p + snd (str_field m p) \<le> j" if "m \<in> set str_opts" "IS_OPTION m p" for m
    using inv that v(1) by (fastforce simp: opt_inv_def)
  have fresh: ?thesis if ps: "parse_switch n j (length v) (set_opt n p) = Inr (None, str_upd n (Some (P_Buf j)) (length v) (set_opt n p))"
      and old: "opt_val (cp_opt p n) n v = O_Str (Inr v)"
  proof -
    let ?p = "str_upd n (Some (P_Buf j)) (length v) ((set_opt n p)\<lparr>cp_buffer := cp_buffer p\<rparr>)"
    have eq: "(set_opt n p)\<lparr>cp_buffer := cp_buffer p\<rparr> = set_opt n p" by (metis coap_packet.surjective coap_packet.update_convs(1) set_opt_frame(1))
    have "opt_inv (j + length v) n ?p" "cp_opt ?p = (cp_opt p)(n := Some (O_Str (Inr v)))" "cp_head ?p = cp_head p"
      using str_step [OF inv n(1) True, of j "cp_buffer p" "length v" "j + length v"] v ends by auto
    then show ?thesis using goal [of ?p] ps old unfolding eq by (simp add: opt_add_def)
  qed
  let ?k = "str_pos n p" and ?l = "snd (str_field n p)"
  consider "n = 3" | "n \<noteq> 3" "?l = 0" | "n \<noteq> 3" "0 < ?l" by blast
  then show ?thesis
  proof cases
    case 1
    then show ?thesis by (intro fresh) (simp_all add: parse_switch_host opt_val_def)
  next
    case 2
    then have "parse_switch n j (length v) (set_opt n p) = Inr (None, str_upd n (Some (P_Buf j)) (length v) ((set_opt n p)\<lparr>cp_buffer := cp_buffer p\<rparr>))"
      using True by (simp add: parse_switch_merge coap_merge_multi_option_def)
    moreover have "(set_opt n p)\<lparr>cp_buffer := cp_buffer p\<rparr> = set_opt n p" by (metis coap_packet.surjective coap_packet.update_convs(1) set_opt_frame(1))
    moreover have "opt_val (cp_opt p n) n v = O_Str (Inr v)"
      using 2 True by (simp add: opt_val_def cp_opt_def cp_val_str sref_at_def)
    ultimately show ?thesis by (intro fresh) simp_all
  next
    case 3
    have io: "IS_OPTION n p" "fst (str_field n p) = Some (P_Buf ?k)" "?k + ?l \<le> i"
      using inv True 3 by (auto simp: opt_inv_def split: if_splits)
    then have "n0 = n" using inv n by (auto simp: opt_inv_def intro: antisym)
    then have below: "\<And>m. m \<in> set str_opts \<Longrightarrow> m \<noteq> n \<Longrightarrow> IS_OPTION m p \<Longrightarrow> str_pos m p + snd (str_field m p) \<le> ?k"
      using inv True io(1) by (fastforce simp: opt_inv_def)
    let ?b = "take (?k + ?l) (cp_buffer p) @ merge_sep n # v @ drop (?k + ?l + 1 + length v) (cp_buffer p)"
    let ?p = "str_upd n (Some (P_Buf ?k)) (?l + 1 + length v) ((set_opt n p)\<lparr>cp_buffer := ?b\<rparr>)"
    have ps: "parse_switch n j (length v) (set_opt n p) = Inr (None, ?p)"
      using merge_in_place [of ?l ?k j v "cp_buffer p" "merge_sep n"] 3 v io True by (simp add: parse_switch_merge)
    have len: "length ?b = length (cp_buffer p)" using v io by simp
    have tk: "take ?k ?b = take ?k (cp_buffer p)" using v io by simp
    have new: "take (?l + 1 + length v) (drop ?k ?b) = take ?l (drop ?k (cp_buffer p)) @ merge_sep n # v"
      using v io by (simp add: drop_take)
    have "opt_inv (j + length v) n ?p" "cp_opt ?p = (cp_opt p)(n := Some (O_Str (Inr (take (?l + 1 + length v) (drop ?k ?b)))))"
      "cp_head ?p = cp_head p"
      by (rule str_step [OF inv n(1) True tk len _ _ _ below]; use v io len in simp)+
    moreover have "opt_val (cp_opt p n) n v = O_Str (Inr (take ?l (drop ?k (cp_buffer p)) @ merge_sep n # v))"
      using 3 True io v n(2) by (simp add: opt_val_def cp_opt_def cp_val_str sref_at_buf)
    moreover have "drop (j + length v) ?b = drop (j + length v) (cp_buffer p)" using v io by (simp add: drop_Cons' ac_simps)
    ultimately show ?thesis using goal [of ?p] ps new len by (simp add: opt_add_def)
  qed
qed

section \<open>A list of options\<close>

fun opts_ok :: "nat \<Rightarrow> (nat \<times> bytes) list \<Rightarrow> bool" where
  "opts_ok cur [] \<longleftrightarrow> True"
| "opts_ok cur (nv # os) \<longleftrightarrow> cur \<le> fst nv \<and> fst nv < 64 \<and> length (snd nv) < 65805 \<and> opts_ok (fst nv) os"

fun opts_status :: "(nat \<times> bytes) list \<Rightarrow> nat option" where
  "opts_status [] = None"
| "opts_status (nv # os) = (case opt_status (fst nv) of None \<Rightarrow> opts_status os | Some st \<Rightarrow> Some st)"

lemma opt_bytes_length: "length (opt_bytes cur (n, v)) = length (coap_set_option_header (of_nat n - of_nat cur) (length v)) + length v"
  by (simp add: opt_bytes_def)

lemma parse_options_step:
  assumes inv: "opt_inv i cur p" and ok: "cur \<le> n" "n < 64" "length v < 65805"
    and buf: "drop i (cp_buffer p) = opt_bytes cur (n, v) @ rs" and dl: "i + length (opt_bytes cur (n, v)) \<le> dl"
  shows "opt_status n = Some st \<Longrightarrow> \<exists>p'. parse_options pay dl i cur p = Inr (st, p')"
    and "opt_status n = None \<Longrightarrow> \<exists>p'. parse_options pay dl i cur p = parse_options pay dl (i + length (opt_bytes cur (n, v))) n p' \<and>
      opt_inv (i + length (opt_bytes cur (n, v))) n p' \<and> cp_opt p' = opt_add (cp_opt p) (n, v) \<and> cp_head p' = cp_head p \<and>
      length (cp_buffer p') = length (cp_buffer p) \<and> drop (i + length (opt_bytes cur (n, v))) (cp_buffer p') = rs"
proof -
  let ?h = "length (coap_set_option_header (of_nat n - of_nat cur) (length v))"
  have o8: "length (cp_options p) = 8" using inv by (simp add: opt_inv_def)
  obtain b where b: "buf_rd (cp_buffer p) i = Inr b" "b AND 0xF0 \<noteq> 0xF0"
    "parse_option b i cur p =
       cbind (parse_switch n (i + ?h) (length v) (set_opt n p)) (\<lambda>(st, p). Inr (st, i + ?h + length v, n, p))"
    "0 < ?h" "drop (i + ?h) (cp_buffer p) = v @ rs"
    using parse_option_encoded [OF buf ok o8] by blast
  have le: "length (opt_bytes cur (n, v)) = ?h + length v" by (rule opt_bytes_length)
  with b(4) dl have i: "i < dl" by linarith
  note step = parse_options.simps [of pay dl i cur p] i b(1,2,3)
  { assume "opt_status n = Some st"
    then have "parse_switch n (i + ?h) (length v) (set_opt n p) = Inr (Some st, set_opt n p)" by (rule parse_switch_status)
    then show "\<exists>p'. parse_options pay dl i cur p = Inr (st, p')" using step by simp }
  { assume st: "opt_status n = None"
    have "length (cp_buffer p) - i = ?h + length v + length rs" using buf le by (metis length_append length_drop)
    with b(4) have "i + ?h + length v \<le> length (cp_buffer p)" by linarith
    moreover have "take (length v) (drop (i + ?h) (cp_buffer p)) = v" using b(5) by simp
    ultimately obtain p' where p': "parse_switch n (i + ?h) (length v) (set_opt n p) = Inr (None, p')" "opt_inv (i + ?h + length v) n p'"
      "cp_opt p' = opt_add (cp_opt p) (n, v)" "cp_head p' = cp_head p" "length (cp_buffer p') = length (cp_buffer p)"
      "drop (i + ?h + length v) (cp_buffer p') = drop (i + ?h + length v) (cp_buffer p)"
      using option_step [OF inv ok(1,2) st, of "i + ?h" v] b(4) by auto
    moreover have "drop (length v) (drop (i + ?h) (cp_buffer p)) = rs" unfolding b(5) by simp
    moreover have "parse_options pay dl i cur p = parse_options pay dl (i + ?h + length v) n p'" using step p'(1) by simp
    ultimately show "\<exists>p'. parse_options pay dl i cur p = parse_options pay dl (i + length (opt_bytes cur (n, v))) n p' \<and>
      opt_inv (i + length (opt_bytes cur (n, v))) n p' \<and> cp_opt p' = opt_add (cp_opt p) (n, v) \<and> cp_head p' = cp_head p \<and>
      length (cp_buffer p') = length (cp_buffer p) \<and> drop (i + length (opt_bytes cur (n, v))) (cp_buffer p') = rs"
      unfolding le by (intro exI [of _ p']) (simp add: ac_simps) }
qed

lemma parse_options_encoded:
  assumes "opt_inv i cur p" "opts_ok cur os" "drop i (cp_buffer p) = enc_opts cur os @ rs" "i + length (enc_opts cur os) \<le> dl"
  shows "case opts_status os of
      Some st \<Rightarrow> \<exists>p'. parse_options pay dl i cur p = Inr (st, p')
    | None \<Rightarrow> \<exists>n p'. parse_options pay dl i cur p = parse_options pay dl (i + length (enc_opts cur os)) n p' \<and>
        cp_opt p' = foldl opt_add (cp_opt p) os \<and> cp_head p' = cp_head p \<and> opt_inv (i + length (enc_opts cur os)) n p' \<and>
        length (cp_buffer p') = length (cp_buffer p) \<and> drop (i + length (enc_opts cur os)) (cp_buffer p') = rs"
  using assms
proof (induction os arbitrary: i cur p)
  case Nil
  then show ?case by auto
next
  case (Cons nv os)
  obtain n v where nv: "nv = (n, v)" by force
  let ?l = "length (opt_bytes cur (n, v))"
  have ok: "cur \<le> n" "n < 64" "length v < 65805" "opts_ok n os" using Cons.prems(2) by (simp_all add: nv)
  have buf: "drop i (cp_buffer p) = opt_bytes cur (n, v) @ (enc_opts n os @ rs)" using Cons.prems(3) by (simp add: nv)
  have dl: "i + ?l + length (enc_opts n os) \<le> dl" using Cons.prems(4) by (simp add: nv)
  note step = parse_options_step [OF Cons.prems(1) ok(1-3) buf, of dl]
  show ?case
  proof (cases "opt_status n")
    case (Some st)
    then show ?thesis using step(1) [of st pay] dl by (simp add: nv)
  next
    case None
    then obtain p' where p': "parse_options pay dl i cur p = parse_options pay dl (i + ?l) n p'"
      "opt_inv (i + ?l) n p'" "cp_opt p' = opt_add (cp_opt p) (n, v)" "cp_head p' = cp_head p"
      "length (cp_buffer p') = length (cp_buffer p)" "drop (i + ?l) (cp_buffer p') = enc_opts n os @ rs"
      using step(2) [where pay = pay] dl by auto
    show ?thesis using Cons.IH [OF p'(2) ok(4) p'(6) dl] p'(1,3,4,5) None
      by (auto simp: nv add.assoc split: option.splits)
  qed
qed

end
