(* ===== verification/Coap_Serialize.thy ===== *)
theory Coap_Serialize
  imports Coap_Parse
begin

text \<open>
  What the CoAP serialiser writes: the wire image \<open>coap_wire\<close> of a packet, a function of its fields, and the
  lemmas that each serialiser appends the encoding of its options.
\<close>

section \<open>Splitting at separators\<close>

fun split_sep :: "u8 \<Rightarrow> bytes \<Rightarrow> bytes list" where
  "split_sep c [] = [[]]"
| "split_sep c (x # xs) = (if x = c then [] # split_sep c xs else (x # hd (split_sep c xs)) # tl (split_sep c xs))"

lemma split_sep_not_Nil [simp]: "split_sep c s \<noteq> []"
  by (induction s) auto

lemma split_sep_none: "c \<notin> set x \<Longrightarrow> split_sep c x = [x]"
  by (induction x) auto

lemma split_sep_first: "c \<notin> set x \<Longrightarrow> split_sep c (x @ c # y) = x # split_sep c y"
  by (induction x) auto

lemma split_sep_join: "hd (split_sep c s) @ concat (map ((#) c) (tl (split_sep c s))) = s"
proof (induction s)
  case (Cons x xs)
  have "concat (map ((#) c) (split_sep c xs)) = c # hd (split_sep c xs) @ concat (map ((#) c) (tl (split_sep c xs)))"
    by (cases "split_sep c xs") auto
  with Cons show ?case by simp
qed simp

lemma split_sep_hd: "split_sep c s \<noteq> [[]] \<Longrightarrow> hd (split_sep c s) \<noteq> [] \<Longrightarrow> s \<noteq> [] \<and> hd s \<noteq> c"
  by (cases s) (auto split: if_splits)

section \<open>Writing at a position\<close>

lemma buf_write_append:
  "length pre = i \<Longrightarrow> length bs \<le> length rs \<Longrightarrow> buf_write i bs (pre @ rs) = Inr (pre @ bs @ drop (length bs) rs)"
  by (auto simp: buf_write_def)

text \<open>The result of a serialiser that appends \<open>out\<close> to what is before position \<open>length pre\<close>.\<close>

definition appended :: "bytes \<Rightarrow> bytes \<Rightarrow> bytes \<Rightarrow> (nat \<times> bytes) cres" where
  "appended pre out rs = Inr (length pre + length out, pre @ out @ drop (length out) rs)"

lemma serialize_int_appends:
  "length (opt_bytes cur (n, int_option_bytes v)) \<le> length rs \<Longrightarrow>
   coap_serialize_int_option n cur (length pre) (pre @ rs) v = appended pre (opt_bytes cur (n, int_option_bytes v)) rs"
  by (simp add: coap_serialize_int_option_def Let_def opt_bytes_def buf_write_append appended_def)

lemma sref_at_ext: "k + m \<le> length a \<Longrightarrow> sref_at buf (Some (P_Ext a)) k m = Inr (take m (drop k a))"
  by (simp add: sref_at_def sref_view_def)

lemma serialize_part_appends:
  assumes "k + m \<le> length a" "length (opt_bytes cur (n, take m (drop k a))) \<le> length rs"
  shows "serialize_part n cur (length pre) (pre @ rs) (Some (P_Ext a)) k m = appended pre (opt_bytes cur (n, take m (drop k a))) rs"
proof -
  let ?v = "take m (drop k a)" and ?h = "coap_set_option_header (of_nat n - of_nat cur) m"
  have m: "length ?v = m" using assms(1) by simp
  have o: "opt_bytes cur (n, ?v) = ?h @ ?v" unfolding opt_bytes_def prod.sel m ..
  have w1: "buf_write (length pre) ?h (pre @ rs) = Inr (pre @ ?h @ drop (length ?h) rs)"
    using assms(2) o by (intro buf_write_append) auto
  have "buf_write (length (pre @ ?h)) ?v ((pre @ ?h) @ drop (length ?h) rs) = Inr ((pre @ ?h) @ ?v @ drop (length ?v) (drop (length ?h) rs))"
    using assms(2) o by (intro buf_write_append) auto
  then have w2: "buf_write (length pre + length ?h) ?v (pre @ ?h @ drop (length ?h) rs) = Inr (pre @ ?h @ ?v @ drop (m + length ?h) rs)"
    using m by simp
  have "min (length a - k) m = m" using assms(1) by simp
  then show ?thesis unfolding o
    by (simp add: serialize_part_def Let_def w1 sref_at_ext [OF assms(1)] w2 appended_def add.commute add.left_commute)
qed

lemma appended_append: "appended (pre @ o1) o2 (drop (length o1) rs) = appended pre (o1 @ o2) rs"
  by (simp add: appended_def add.commute)

section \<open>The splitting loop\<close>

lemma serialize_split_appends:
  assumes "ps \<le> j" "j \<le> len" "len < length a" "c \<notin> set (take (j - ps) (drop ps a))"
    and "split_sep c (take (len - ps) (drop ps a)) = s # ss" "[] \<notin> set ss"
    and "length (enc_opts cur (map (Pair n) (s # ss))) \<le> length rs"
  shows "serialize_split n (Some (P_Ext a)) len c j ps (length pre) cur (pre @ rs) = appended pre (enc_opts cur (map (Pair n) (s # ss))) rs"
  using assms
proof (induction "len - j" arbitrary: j ps cur s ss pre rs rule: less_induct)
  case less
  let ?r = "take (len - ps) (drop ps a)" and ?x = "take (j - ps) (drop ps a)"
  have c: "sref_at (pre @ rs) (Some (P_Ext a)) j 1 = Inr [a ! j]" using less.prems by (simp add: sref_at_ext take_Suc_conv_app_nth take_drop hd_drop_conv_nth take_Suc)
  note step = serialize_split.simps [of n "Some (P_Ext a)" len c j ps "length pre" cur "pre @ rs"] c
  show ?case
  proof (cases "j = len")
    case True
    then have s: "s = ?x" "ss = []" using less.prems by (simp_all add: split_sep_none)
    then have part: "serialize_part n cur (length pre) (pre @ rs) (Some (P_Ext a)) ps (j - ps) = appended pre (opt_bytes cur (n, ?x)) rs"
      using less.prems by (intro serialize_part_appends) simp_all
    have "serialize_split n (Some (P_Ext a)) len c (len + 2) ps' i' cur' buf' = Inr (i', buf')" for ps' i' cur' buf'
      by (subst serialize_split.simps) simp
    then show ?thesis using step part True s by (simp add: appended_def)
  next
    case False
    then have jl: "j < len" using less.prems by simp
    have rj: "?r = ?x @ a ! j # take (len - Suc j) (drop (Suc j) a)"
    proof -
      have "take (len - ps) (drop ps a) = take (j - ps) (drop ps a) @ take (len - j) (drop j a)"
        using take_add [of "j - ps" "len - j" "drop ps a"] less.prems(1) jl by simp
      moreover have "take (len - j) (drop j a) = a ! j # take (len - Suc j) (drop (Suc j) a)"
        using jl less.prems by (metis Cons_nth_drop_Suc Suc_diff_Suc less_trans take_Suc_Cons)
      ultimately show ?thesis by simp
    qed
    show ?thesis
    proof (cases "a ! j = c")
      case True
      let ?r' = "take (len - Suc j) (drop (Suc j) a)" and ?o = "opt_bytes cur (n, ?x)"
      have "s = ?x" "ss = split_sep c ?r'" using less.prems(4,5) unfolding rj True by (simp_all add: split_sep_first)
      then obtain s' ss' where s': "split_sep c ?r' = s' # ss'" "s = ?x" "ss = s' # ss'" by (metis neq_Nil_conv split_sep_not_Nil)
      then have "hd (split_sep c ?r') \<noteq> []" using less.prems(6) by auto
      then have r': "?r' \<noteq> []" "hd ?r' \<noteq> c" using split_sep_hd [of c ?r'] by force+
      then have lt: "Suc j < len" by auto
      with r' less.prems(3) have aj: "a ! Suc j \<noteq> c" by (simp add: hd_drop_conv_nth)
      have part: "serialize_part n cur (length pre) (pre @ rs) (Some (P_Ext a)) ps (j - ps) = appended pre ?o rs"
        using less.prems s' by (intro serialize_part_appends) simp_all
      have "serialize_split n (Some (P_Ext a)) len c (j + 2) (j + 1) (length (pre @ ?o)) n ((pre @ ?o) @ drop (length ?o) rs)
          = appended (pre @ ?o) (enc_opts n (map (Pair n) (s' # ss'))) (drop (length ?o) rs)"
        using less.prems lt aj s'
        by (intro less.hyps) (auto simp: take_Suc_conv_app_nth hd_drop_conv_nth take_Suc)
      then show ?thesis using step part True lt s' by (simp add: appended_def add.assoc add.commute)
    next
      case False
      have "take (Suc j - ps) (drop ps a) = ?x @ [a ! j]"
        using jl less.prems(1,3) by (simp add: Suc_diff_le take_Suc_conv_app_nth)
      then have "serialize_split n (Some (P_Ext a)) len c (j + 1) ps (length pre) cur (pre @ rs)
          = appended pre (enc_opts cur (map (Pair n) (s # ss))) rs"
        using less.prems jl False by (intro less.hyps) auto
      then show ?thesis using step False jl by simp
    qed
  qed
qed

section \<open>The options of a packet\<close>

text \<open>The option values a field is serialised to, for strings outside of the buffer.\<close>

fun field_vals :: "opt_field \<Rightarrow> bytes list" where
  "field_vals (F_Int v) = [int_option_bytes v]"
| "field_vals (F_Byte bs) = [bs]"
| "field_vals (F_String (Some (P_Ext a)) l c) = (if c = 0 then [take l a] else split_sep c (take l a))"
| "field_vals (F_String _ l c) = [[]]"
| "field_vals (F_Block num mr sz) = [int_option_bytes (block_value num mr sz)]"

text \<open>A string is readable with its terminator, and no separator is followed by another or by the end.\<close>

fun field_ok :: "opt_field \<Rightarrow> bool" where
  "field_ok (F_String (Some (P_Ext a)) l c) \<longleftrightarrow> l < length a \<and> (c \<noteq> 0 \<longrightarrow> [] \<notin> set (tl (split_sep c (take l a))))"
| "field_ok (F_String _ l c) \<longleftrightarrow> False"
| "field_ok _ \<longleftrightarrow> True"

definition field_opts :: "nat \<times> opt_field \<Rightarrow> (nat \<times> bytes) list" where
  "field_opts e = map (Pair (fst e)) (field_vals (snd e))"

lemma field_vals_not_Nil [simp]: "field_vals f \<noteq> []"
  by (induction f rule: field_vals.induct) auto

lemma enc_opts_append: "os \<noteq> [] \<Longrightarrow> enc_opts cur (os @ os') = enc_opts cur os @ enc_opts (fst (last os)) os'"
  by (induction os arbitrary: cur) auto

lemma serialize_option_appends:
  assumes "IS_OPTION n p" "field_ok f" "length (enc_opts cur (field_opts (n, f))) \<le> length rs"
  shows "COAP_SERIALIZE_OPTION p (n, f) (length pre, cur, pre @ rs) =
    cbind (appended pre (enc_opts cur (field_opts (n, f))) rs) (\<lambda>(i, buf). Inr (i, n, buf))"
proof (cases f)
  case (F_String r l c)
  then obtain a where a: "r = Some (P_Ext a)" "l < length a" "c \<noteq> 0 \<longrightarrow> [] \<notin> set (tl (split_sep c (take l a)))"
    using assms(2) by (cases "(r, l, c)" rule: prod_cases3) (auto elim!: field_ok.elims)
  show ?thesis
  proof (cases "c = 0")
    case True
    then show ?thesis using serialize_part_appends [of 0 l a cur n rs pre] assms F_String a
      by (simp add: COAP_SERIALIZE_OPTION_def field_opts_def coap_serialize_array_option_def)
  next
    case False
    obtain s ss where s: "split_sep c (take l a) = s # ss" by (meson neq_Nil_conv split_sep_not_Nil)
    then show ?thesis using serialize_split_appends [of 0 0 l a c s ss cur n rs pre] assms F_String a False
      by (simp add: COAP_SERIALIZE_OPTION_def field_opts_def coap_serialize_array_option_def)
  qed
next
  case (F_Byte bs)
  then show ?thesis using serialize_part_appends [of 0 "length bs" bs cur n rs pre] assms
    by (simp add: COAP_SERIALIZE_OPTION_def field_opts_def coap_serialize_array_option_def)
qed (use assms in \<open>simp_all add: COAP_SERIALIZE_OPTION_def field_opts_def serialize_int_appends\<close>)

definition opts_of :: "coap_packet \<Rightarrow> (nat \<times> opt_field) list \<Rightarrow> (nat \<times> bytes) list" where
  "opts_of p es = concat (map field_opts (filter (\<lambda>e. IS_OPTION (fst e) p) es))"

lemma opts_of_simps:
  "opts_of p [] = []"
  "opts_of p ((n, f) # es) = (if IS_OPTION n p then field_opts (n, f) else []) @ opts_of p es"
  by (simp_all add: opts_of_def)

lemma enc_opts_field: "enc_opts cur (field_opts (n, f) @ os) = enc_opts cur (field_opts (n, f)) @ enc_opts n os"
proof -
  have "field_opts (n, f) \<noteq> []" "fst (last (field_opts (n, f))) = n" by (simp_all add: field_opts_def last_map)
  then show ?thesis by (simp add: enc_opts_append)
qed

lemma serialize_options_appends:
  assumes "\<forall>e \<in> set es. IS_OPTION (fst e) p \<longrightarrow> field_ok (snd e)" "length (enc_opts cur (opts_of p es)) \<le> length rs"
  shows "\<exists>cur'. serialize_options p es (length pre, cur, pre @ rs) =
    cbind (appended pre (enc_opts cur (opts_of p es)) rs) (\<lambda>(i, buf). Inr (i, cur', buf))"
  using assms
proof (induction es arbitrary: cur pre rs)
  case Nil
  then show ?case by (simp add: opts_of_simps appended_def)
next
  case (Cons e es)
  obtain n f where e: "e = (n, f)" by force
  show ?case
  proof (cases "IS_OPTION n p")
    case False
    then have "COAP_SERIALIZE_OPTION p e (length pre, cur, pre @ rs) = Inr (length pre, cur, pre @ rs)"
      by (simp add: COAP_SERIALIZE_OPTION_def e)
    then show ?thesis using Cons.IH [of cur rs pre] Cons.prems False by (simp add: e opts_of_simps)
  next
    case True
    let ?o = "enc_opts cur (field_opts (n, f))"
    have len: "length ?o + length (enc_opts n (opts_of p es)) \<le> length rs"
      using Cons.prems(2) True by (simp add: e opts_of_simps enc_opts_field)
    have ok: "field_ok f" using Cons.prems(1) True by (simp add: e)
    have s: "COAP_SERIALIZE_OPTION p e (length pre, cur, pre @ rs) = Inr (length (pre @ ?o), n, (pre @ ?o) @ drop (length ?o) rs)"
      using serialize_option_appends [OF True ok, of cur rs pre] len by (simp add: e appended_def)
    have "\<exists>cur'. serialize_options p es (length (pre @ ?o), n, (pre @ ?o) @ drop (length ?o) rs) =
        cbind (appended (pre @ ?o) (enc_opts n (opts_of p es)) (drop (length ?o) rs)) (\<lambda>(i, buf). Inr (i, cur', buf))"
      using Cons.prems(1) len by (intro Cons.IH) auto
    then show ?thesis using s True by (simp add: e opts_of_simps enc_opts_field appended_append)
  qed
qed

section \<open>The wire image\<close>

definition payload_bytes :: "coap_packet \<Rightarrow> bytes" where
  "payload_bytes p = (case cp_payload p of Some (P_Ext b) \<Rightarrow> take (cp_payload_len p) b | _ \<Rightarrow> [])"

definition wire_head :: "coap_packet \<Rightarrow> bytes" where
  "wire_head p = header_bytes (p\<lparr>cp_version := 1\<rparr>) @ cp_token p @ enc_opts 0 (opts_of p (option_fields p))"

definition wire_body :: "coap_packet \<Rightarrow> bytes" where
  "wire_body p = (if cp_payload_len p = 0 then [] else 0xFF # payload_bytes p)"

text \<open>The packets the serialiser is specified for: a non-empty code, set options and a payload that can be
  read, all outside of the buffer.\<close>

definition payload_ok :: "coap_packet \<Rightarrow> bool" where
  "payload_ok p \<longleftrightarrow> cp_payload_len p = 0 \<or> (case cp_payload p of Some (P_Ext b) \<Rightarrow> cp_payload_len p \<le> length b | _ \<Rightarrow> False)"

definition packet_ok :: "coap_packet \<Rightarrow> bool" where
  "packet_ok p \<longleftrightarrow> cp_code p \<noteq> 0 \<and> payload_ok p \<and> (\<forall>e \<in> set (option_fields p). IS_OPTION (fst e) p \<longrightarrow> field_ok (snd e))"

lemma pack_payload_appends:
  assumes "payload_ok p" "length (wire_body p) \<le> length rs"
  shows "pack_payload p (length pre) (pre @ rs) = appended pre (wire_body p) rs"
proof (cases "cp_payload_len p = 0")
  case True
  then show ?thesis by (simp add: pack_payload_def sref_at_def buf_write_def wire_body_def appended_def)
next
  case False
  then obtain b where b: "cp_payload p = Some (P_Ext b)" "cp_payload_len p \<le> length b" using assms(1)
    by (auto simp: payload_ok_def split: option.splits sref.splits)
  let ?v = "take (cp_payload_len p) b"
  have w: "wire_body p = 0xFF # ?v" using False b by (simp add: wire_body_def payload_bytes_def)
  have w1: "buf_write (length pre) [0xFF] (pre @ rs) = Inr (pre @ 0xFF # drop 1 rs)"
    using assms(2) w buf_write_append [of pre "length pre" "[0xFF]" rs] by simp
  have "buf_write (length (pre @ [0xFF])) ?v ((pre @ [0xFF]) @ drop 1 rs) = Inr ((pre @ [0xFF]) @ ?v @ drop (length ?v) (drop 1 rs))"
    using assms(2) w by (intro buf_write_append) auto
  then show ?thesis using False w1 b
    by (simp add: pack_payload_def sref_at_ext appended_def w min_absorb2)
qed

lemma option_fields_version [simp]: "option_fields (p\<lparr>cp_version := v\<rparr>) = option_fields p"
  by (simp add: option_fields_def)

lemma opts_of_version [simp]: "opts_of (p\<lparr>cp_version := v\<rparr>) es = opts_of p es" "IS_OPTION n (p\<lparr>cp_version := v\<rparr>) = IS_OPTION n p"
  by (simp_all add: opts_of_def IS_OPTION_def)

lemma payload_ok_version [simp]: "payload_ok (p\<lparr>cp_version := v\<rparr>) = payload_ok p"
  by (auto simp: payload_ok_def split: option.splits sref.splits)

lemma wire_body_version [simp]: "wire_body (p\<lparr>cp_version := v\<rparr>) = wire_body p"
  by (auto simp: wire_body_def payload_bytes_def split: option.splits sref.splits)

lemma length_header_bytes [simp]: "length (header_bytes p) = 4"
  by (simp add: header_bytes_def)

definition head_ok :: "coap_packet \<Rightarrow> bool" where
  "head_ok p \<longleftrightarrow> cp_code p \<noteq> 0 \<and> (\<forall>e \<in> set (option_fields p). IS_OPTION (fst e) p \<longrightarrow> field_ok (snd e))"

lemma packet_ok_head: "packet_ok p \<longleftrightarrow> head_ok p \<and> payload_ok p"
  by (auto simp: packet_ok_def head_ok_def)

text \<open>Up to the payload: the head has been written, or is too long.\<close>

lemma serialize_message_head:
  assumes "head_ok p" "length (wire_head p) \<le> length buf"
  shows "coap_serialize_message p buf =
    (if length (wire_head p) \<le> COAP_MAX_HEADER_SIZE
     then cbind (pack_payload (p\<lparr>cp_version := 1\<rparr>) (length (wire_head p)) (wire_head p @ drop (length (wire_head p)) buf))
            (\<lambda>(n, buf). Inr (n, buf, p\<lparr>cp_version := 1, cp_buffer := buf\<rparr>))
     else Inr (0, wire_head p @ drop (length (wire_head p)) buf, p\<lparr>cp_version := 1, cp_buffer := []\<rparr>))"
proof -
  let ?p = "p\<lparr>cp_version := 1\<rparr>"
  let ?h = "header_bytes ?p" and ?os = "enc_opts 0 (opts_of p (option_fields p))"
  have len: "4 + length (cp_token p) + length ?os \<le> length buf" using assms(2) by (simp add: wire_head_def)
  have w1: "buf_write 0 ?h buf = Inr (?h @ drop 4 buf)"
    using buf_write_append [of "[]" 0 ?h buf] len by simp
  have w2: "buf_write 4 (cp_token p) (?h @ drop 4 buf) = Inr (?h @ cp_token p @ drop (4 + length (cp_token p)) buf)"
    using buf_write_append [of ?h 4 "cp_token p" "drop 4 buf"] len by (simp add: add.commute)
  have "\<exists>cur'. serialize_options ?p (option_fields p) (length (?h @ cp_token p), 0, (?h @ cp_token p) @ drop (4 + length (cp_token p)) buf) =
      cbind (appended (?h @ cp_token p) (enc_opts 0 (opts_of ?p (option_fields p))) (drop (4 + length (cp_token p)) buf)) (\<lambda>(i, buf). Inr (i, cur', buf))"
    using assms(1) len by (intro serialize_options_appends) (auto simp: head_ok_def)
  then obtain cur' where so: "serialize_options ?p (option_fields p) (4 + length (cp_token p), 0, ?h @ cp_token p @ drop (4 + length (cp_token p)) buf) =
      Inr (length (wire_head p), cur', wire_head p @ drop (length (wire_head p)) buf)"
    by (auto simp: appended_def wire_head_def add.commute add.left_commute)
  show ?thesis using assms(1) w1 w2 so by (simp add: coap_serialize_message_def head_ok_def Let_def)
qed

lemma serialize_message_wire:
  assumes "packet_ok p" "length (wire_head p) \<le> length buf"
  shows "length (wire_head p) \<le> COAP_MAX_HEADER_SIZE \<Longrightarrow> length (wire_head p @ wire_body p) \<le> length buf \<Longrightarrow>
      \<exists>p'. coap_serialize_message p buf =
        Inr (length (wire_head p @ wire_body p), wire_head p @ wire_body p @ drop (length (wire_head p @ wire_body p)) buf, p')"
    and "COAP_MAX_HEADER_SIZE < length (wire_head p) \<Longrightarrow> \<exists>buf' p'. coap_serialize_message p buf = Inr (0, buf', p')"
proof -
  have "head_ok p" "payload_ok p" using assms(1) by (simp_all add: packet_ok_head)
  note run = serialize_message_head [OF this(1) assms(2)]
  { assume a: "length (wire_head p) \<le> COAP_MAX_HEADER_SIZE" "length (wire_head p @ wire_body p) \<le> length buf"
    have "pack_payload (p\<lparr>cp_version := 1\<rparr>) (length (wire_head p)) (wire_head p @ drop (length (wire_head p)) buf)
        = appended (wire_head p) (wire_body (p\<lparr>cp_version := 1\<rparr>)) (drop (length (wire_head p)) buf)"
      using \<open>payload_ok p\<close> a by (intro pack_payload_appends) auto
    then show "\<exists>p'. coap_serialize_message p buf =
        Inr (length (wire_head p @ wire_body p), wire_head p @ wire_body p @ drop (length (wire_head p @ wire_body p)) buf, p')"
      using run a by (simp add: appended_def add.commute) }
  { assume "COAP_MAX_HEADER_SIZE < length (wire_head p)"
    then show "\<exists>buf' p'. coap_serialize_message p buf = Inr (0, buf', p')" using run by simp }
qed

end
