(* ===== verification/Coap_Accessors.thy ===== *)
theory Coap_Accessors
  imports Coap_Serialize
begin

text \<open>
  The accessors of CoAP packets refine the abstract message \<open>cp_opt\<close>.  A setter with its getter meets the
  contract \<open>option_slot\<close>; what any sequence of setters does to a packet is a sequence of map updates.  The
  search for a variable of a query is specified by splitting the query.
\<close>

section \<open>Setting an option\<close>

lemma cp_opt_set:
  assumes "length (cp_options p) = 8" "n < 64" "cp_options p' = cp_options p" "\<And>m. m \<noteq> n \<Longrightarrow> cp_val m p' = cp_val m p"
  shows "cp_opt (set_opt n p') = (cp_opt p)(n := Some (cp_val n p'))"
proof
  fix m
  have "length (cp_options p') = 8" using assms by simp
  then have "IS_OPTION m (set_opt n p') \<longleftrightarrow> m = n \<or> IS_OPTION m p" if "m < 64"
    using IS_OPTION_set_opt [OF _ assms(2) that] IS_OPTION_cong [OF assms(3)] by simp
  then show "cp_opt (set_opt n p') m = ((cp_opt p)(n := Some (cp_val n p'))) m"
    using assms(2,4) by (auto simp: cp_opt_def)
qed

lemma c_string_read [simp]: "sref_at buf (c_string s) 0 (length s) = Inr s"
  by (cases s) (simp_all add: c_string_def sref_at_def sref_view_def)

section \<open>The contract of a setter and its getter\<close>

locale option_slot =
  fixes num :: nat and mk :: "'v \<Rightarrow> oval" and unmk :: "oval \<Rightarrow> 'v"
    and get :: "coap_packet \<Rightarrow> 'v option" and put :: "'v \<Rightarrow> coap_packet \<Rightarrow> coap_packet"
  assumes unmk_mk: "unmk (mk v) = v"
    and put_opt: "length (cp_options p) = 8 \<Longrightarrow> cp_opt (put v p) = (cp_opt p)(num := Some (mk v))"
    and put_ok: "length (cp_options (put v p)) = length (cp_options p)"
    and get_opt: "get p = map_option unmk (cp_opt p num)"
begin

lemma get_put: "length (cp_options p) = 8 \<Longrightarrow> get (put v p) = Some v"
  by (simp add: get_opt put_opt unmk_mk)

lemma get_other: "cp_opt q num = cp_opt p num \<Longrightarrow> get q = get p"
  by (simp add: get_opt)

lemma put_put: "length (cp_options p) = 8 \<Longrightarrow> cp_opt (put v (put w p)) = cp_opt (put v p)"
  by (simp add: put_opt put_ok)

end

fun o_int :: "oval \<Rightarrow> u32" where "o_int (O_Int v) = v" | "o_int _ = 0"

lemmas slot_simps = cp_val_def str_opts_def str_field_def cp_opt_def length_set_opt

interpretation content_format: option_slot 12 O_Int o_int coap_get_header_content_format coap_set_header_content_format
  by unfold_locales (auto simp: coap_set_header_content_format_def coap_get_header_content_format_def slot_simps intro!: trans [OF cp_opt_set])

interpretation accept: option_slot 17 O_Int o_int coap_get_header_accept coap_set_header_accept
  by unfold_locales (auto simp: coap_set_header_accept_def coap_get_header_accept_def slot_simps intro!: trans [OF cp_opt_set])

interpretation observe: option_slot 6 O_Int o_int coap_get_header_observe coap_set_header_observe
  by unfold_locales (auto simp: coap_set_header_observe_def coap_get_header_observe_def slot_simps intro!: trans [OF cp_opt_set])

interpretation size2: option_slot 28 O_Int o_int coap_get_header_size2 coap_set_header_size2
  by unfold_locales (auto simp: coap_set_header_size2_def coap_get_header_size2_def slot_simps intro!: trans [OF cp_opt_set])

interpretation size1: option_slot 60 O_Int o_int coap_get_header_size1 coap_set_header_size1
  by unfold_locales (auto simp: coap_set_header_size1_def coap_get_header_size1_def slot_simps intro!: trans [OF cp_opt_set])

section \<open>Sequences of setters\<close>

datatype header_op =
  H_content_format u32 | H_accept u32 | H_max_age u32 | H_observe u32 | H_size2 u32 | H_size1 u32
| H_etag bytes | H_if_match bytes | H_if_none_match
| H_uri_host bytes | H_uri_path bytes | H_uri_query bytes | H_location_query bytes | H_location_path bytes
| H_block2 u32 u8 u16 | H_block1 u32 u8 u16

fun header_set :: "header_op \<Rightarrow> coap_packet \<Rightarrow> coap_packet" where
  "header_set (H_content_format v) p = coap_set_header_content_format v p"
| "header_set (H_accept v) p = coap_set_header_accept v p"
| "header_set (H_max_age v) p = coap_set_header_max_age v p"
| "header_set (H_observe v) p = coap_set_header_observe v p"
| "header_set (H_size2 v) p = coap_set_header_size2 v p"
| "header_set (H_size1 v) p = coap_set_header_size1 v p"
| "header_set (H_etag e) p = snd (coap_set_header_etag e p)"
| "header_set (H_if_match e) p = snd (coap_set_header_if_match e p)"
| "header_set H_if_none_match p = coap_set_header_if_none_match p"
| "header_set (H_uri_host s) p = coap_set_header_uri_host s p"
| "header_set (H_uri_path s) p = coap_set_header_uri_path s p"
| "header_set (H_uri_query s) p = coap_set_header_uri_query s p"
| "header_set (H_location_query s) p = coap_set_header_location_query s p"
| "header_set (H_location_path s) p = snd (coap_set_header_location_path s p)"
| "header_set (H_block2 num mr sz) p = snd (coap_set_header_block2 num mr sz p)"
| "header_set (H_block1 num mr sz) p = snd (coap_set_header_block1 num mr sz p)"

definition block_in_range :: "u32 \<Rightarrow> u16 \<Rightarrow> bool" where
  "block_in_range num sz \<longleftrightarrow> 16 \<le> sz \<and> sz \<le> 2048 \<and> num \<le> 0x0FFFFF"

text \<open>The effect on the abstract message.  Leading separators are dropped; a location is cut at its first
  question mark; block values out of range are refused.\<close>

fun header_eff :: "header_op \<Rightarrow> (nat \<Rightarrow> oval option) \<Rightarrow> nat \<Rightarrow> oval option" where
  "header_eff (H_content_format v) m = m(12 := Some (O_Int v))"
| "header_eff (H_accept v) m = m(17 := Some (O_Int v))"
| "header_eff (H_max_age v) m = m(14 := Some (O_Int v))"
| "header_eff (H_observe v) m = m(6 := Some (O_Int v))"
| "header_eff (H_size2 v) m = m(28 := Some (O_Int v))"
| "header_eff (H_size1 v) m = m(60 := Some (O_Int v))"
| "header_eff (H_etag e) m = m(4 := Some (O_Bytes (take 8 e)))"
| "header_eff (H_if_match e) m = m(1 := Some (O_Bytes (take 8 e)))"
| "header_eff H_if_none_match m = m(5 := Some O_Flag)"
| "header_eff (H_uri_host s) m = m(3 := Some (O_Str (Inr s)))"
| "header_eff (H_uri_path s) m = m(11 := Some (O_Str (Inr (dropWhile (\<lambda>c. c = 47) s))))"
| "header_eff (H_uri_query s) m = m(15 := Some (O_Str (Inr (dropWhile (\<lambda>c. c = 63) s))))"
| "header_eff (H_location_query s) m = m(20 := Some (O_Str (Inr (dropWhile (\<lambda>c. c = 63) s))))"
| "header_eff (H_location_path s) m =
     (let s = dropWhile (\<lambda>c. c = 47) s; a = takeWhile (\<lambda>c. c \<noteq> 63) s; q = dropWhile (\<lambda>c. c \<noteq> 63) s;
          m = (if q = [] then m else m(20 := Some (O_Str (Inr (dropWhile (\<lambda>c. c = 63) q)))))
      in if a = [] \<and> m 8 = None then m else m(8 := Some (O_Str (Inr a))))"
| "header_eff (H_block2 num mr sz) m = (if block_in_range num sz then m(23 := Some (O_Block num (mr \<noteq> 0) sz)) else m)"
| "header_eff (H_block1 num mr sz) m = (if block_in_range num sz then m(27 := Some (O_Block num (mr \<noteq> 0) sz)) else m)"

lemma location_query_set:
  "length (cp_options p) = 8 \<Longrightarrow>
     cp_opt (coap_set_header_location_query s p) = (cp_opt p)(20 := Some (O_Str (Inr (dropWhile (\<lambda>c. c = 63) s)))) \<and>
     length (cp_options (coap_set_header_location_query s p)) = 8"
  by (auto simp: coap_set_header_location_query_def Let_def slot_simps intro!: trans [OF cp_opt_set])

lemma location_path_set:
  assumes "length (cp_options p) = 8"
  shows "cp_opt (snd (coap_set_header_location_path s p)) = header_eff (H_location_path s) (cp_opt p) \<and>
    length (cp_options (snd (coap_set_header_location_path s p))) = 8"
proof -
  let ?s = "dropWhile (\<lambda>c. c = 47) s"
  let ?a = "takeWhile (\<lambda>c. c \<noteq> 63) ?s" and ?q = "dropWhile (\<lambda>c. c \<noteq> 63) ?s" and ?n = "length (takeWhile (\<lambda>c. c \<noteq> 63) ?s)"
  define p1 where "p1 = (if ?n < length ?s then coap_set_header_location_query (drop (?n + 1) ?s) p else p)"
  define m1 where "m1 = (if ?q = [] then cp_opt p else (cp_opt p)(20 := Some (O_Str (Inr (dropWhile (\<lambda>c. c = 63) ?q)))))"
  have q: "?n < length ?s \<longleftrightarrow> ?q \<noteq> []" by (metis dropWhile_eq_drop drop_eq_Nil not_less)
  have "dropWhile (\<lambda>c. c = 63) (drop (?n + 1) ?s) = dropWhile (\<lambda>c. c = 63) ?q" if "?q \<noteq> []"
  proof -
    have "hd ?q = 63" using that hd_dropWhile [of "\<lambda>c. c \<noteq> 63" ?s] by simp
    moreover have "drop (?n + 1) ?s = tl ?q" by (simp add: dropWhile_eq_drop drop_Suc tl_drop)
    ultimately show ?thesis using that by (cases ?q) auto
  qed
  then have p1: "cp_opt p1 = m1" "length (cp_options p1) = 8"
    using location_query_set [OF assms] assms q by (auto simp: p1_def m1_def)
  define p2 where "p2 = p1\<lparr>cp_location_path_len := ?n, cp_location_path := c_string ?s\<rparr>"
  have v8: "cp_val 8 p2 = O_Str (Inr ?a)"
  proof -
    have "take ?n ?s = ?a" by (metis takeWhile_eq_take)
    moreover have "?n \<le> length ?s" by (rule length_takeWhile_le)
    ultimately show ?thesis by (simp add: p2_def cp_val_def str_opts_def str_field_def c_string_def sref_at_ext)
  qed
  have other: "cp_val m p2 = cp_val m p1" if "m \<noteq> 8" for m using that by (simp add: p2_def cp_val_def str_opts_def str_field_def)
  have o2: "cp_options p2 = cp_options p1" by (simp add: p2_def)
  have "snd (coap_set_header_location_path s p) = (if ?n > 0 then set_opt 8 p2 else p2)"
    by (simp add: coap_set_header_location_path_def Let_def p1_def p2_def)
  moreover have "cp_opt (set_opt 8 p2) = m1(8 := Some (O_Str (Inr ?a)))"
    using cp_opt_set [OF p1(2), of 8 p2] o2 other v8 p1(1) by simp
  moreover have "cp_opt p2 = (if m1 8 = None then m1 else m1(8 := Some (O_Str (Inr ?a))))"
  proof
    fix m
    show "cp_opt p2 m = (if m1 8 = None then m1 else m1(8 := Some (O_Str (Inr ?a)))) m"
      unfolding p1(1) [symmetric] using other [of m] v8 IS_OPTION_cong [OF o2] by (cases "m = 8") (auto simp: cp_opt_def)
  qed
  moreover have "header_eff (H_location_path s) (cp_opt p) = (if ?a = [] \<and> m1 8 = None then m1 else m1(8 := Some (O_Str (Inr ?a))))"
    by (simp only: header_eff.simps Let_def m1_def)
  ultimately show ?thesis using p1(2) o2 by (auto simp: length_set_opt)
qed

lemma header_set_eff:
  assumes "length (cp_options p) = 8"
  shows "cp_opt (header_set op p) = header_eff op (cp_opt p) \<and> length (cp_options (header_set op p)) = 8"
proof (cases op)
  case (H_location_path s)
  then show ?thesis using location_path_set [OF assms] by simp
next
  case (H_block2 num mr sz)
  then show ?thesis using assms
    by (auto simp: coap_set_header_block2_def block_in_range_def not_less slot_simps intro!: trans [OF cp_opt_set])
next
  case (H_block1 num mr sz)
  then show ?thesis using assms
    by (auto simp: coap_set_header_block1_def block_in_range_def not_less slot_simps intro!: trans [OF cp_opt_set])
qed (use assms in \<open>auto simp: content_format.put_opt content_format.put_ok accept.put_opt accept.put_ok observe.put_opt observe.put_ok
      size2.put_opt size2.put_ok size1.put_opt size1.put_ok coap_set_header_max_age_def coap_set_header_etag_def COAP_ETAG_LEN_def
      coap_set_header_if_match_def coap_set_header_if_none_match_def coap_set_header_uri_host_def coap_set_header_uri_path_def
      coap_set_header_uri_query_def coap_set_header_location_query_def Let_def slot_simps intro!: trans [OF cp_opt_set]\<close>)

fun header_sets :: "header_op list \<Rightarrow> coap_packet \<Rightarrow> coap_packet" where
  "header_sets [] p = p"
| "header_sets (op # ops) p = header_sets ops (header_set op p)"

lemma header_sets_eff: "length (cp_options p) = 8 \<Longrightarrow> cp_opt (header_sets ops p) = fold header_eff ops (cp_opt p)"
  by (induction ops arbitrary: p) (use header_set_eff in auto)

lemma init_message_opt: "cp_opt (coap_init_message t code mid) = Map.empty" "length (cp_options (coap_init_message t code mid)) = 8"
proof -
  have "replicate 8 (0 :: u8) ! (n div 8) = 0" if "n < 64" for n :: nat using that by (intro nth_replicate) simp
  then show "cp_opt (coap_init_message t code mid) = Map.empty" "length (cp_options (coap_init_message t code mid)) = 8"
    by (auto simp: coap_init_message_def cp_zero_def cp_opt_def IS_OPTION_def fun_eq_iff)
qed

text \<open>C24.  The accessors implement a map from options to values: after any sequence of setter calls on an
  initialised packet the abstract message is the fold of their effects, and the getters read it: the integer
  getters return the last value set, the Max-Age getter its default of 60 when none was set, the Block
  getters the number, flag and size of the last call in range.\<close>

theorem coap_accessors_refine:
  fixes ops t code mid
  defines "p \<equiv> header_sets ops (coap_init_message t code mid)" and "m \<equiv> fold header_eff ops Map.empty"
  shows "cp_opt p = m \<and>
    coap_get_header_content_format p = map_option o_int (m 12) \<and> coap_get_header_accept p = map_option o_int (m 17) \<and>
    coap_get_header_observe p = map_option o_int (m 6) \<and> coap_get_header_size2 p = map_option o_int (m 28) \<and>
    coap_get_header_size1 p = map_option o_int (m 60) \<and>
    coap_get_header_max_age p = (case m 14 of Some v \<Rightarrow> o_int v | None \<Rightarrow> 60) \<and>
    map_option O_Bytes (coap_get_header_etag p) = m 4 \<and> map_option O_Bytes (coap_get_header_if_match p) = m 1 \<and>
    coap_get_header_if_none_match p = (m 5 \<noteq> None) \<and>
    map_option (\<lambda>(num, mr, sz, off). O_Block num (mr \<noteq> 0) sz) (coap_get_header_block2 p) = m 23 \<and>
    map_option (\<lambda>(num, mr, sz, off). O_Block num (mr \<noteq> 0) sz) (coap_get_header_block1 p) = m 27 \<and>
    map_option (\<lambda>(r, n). O_Str (sref_at (cp_buffer p) r 0 n)) (coap_get_header_uri_path p) = m 11 \<and>
    map_option (\<lambda>(r, n). O_Str (sref_at (cp_buffer p) r 0 n)) (coap_get_header_uri_query p) = m 15 \<and>
    map_option (\<lambda>(r, n). O_Str (sref_at (cp_buffer p) r 0 n)) (coap_get_header_uri_host p) = m 3 \<and>
    map_option (\<lambda>(r, n). O_Str (sref_at (cp_buffer p) r 0 n)) (coap_get_header_location_path p) = m 8 \<and>
    map_option (\<lambda>(r, n). O_Str (sref_at (cp_buffer p) r 0 n)) (coap_get_header_location_query p) = m 20"
proof -
  have m: "cp_opt p = m" using header_sets_eff [OF init_message_opt(2)] init_message_opt(1) by (simp add: p_def m_def)
  show ?thesis unfolding m [symmetric]
    by (simp add: content_format.get_opt accept.get_opt observe.get_opt size2.get_opt size1.get_opt)
      (simp add: slot_simps coap_get_header_max_age_def coap_get_header_etag_def coap_get_header_if_match_def COAP_DEFAULT_MAX_AGE_def
        coap_get_header_if_none_match_def coap_get_header_block2_def coap_get_header_block1_def coap_get_header_uri_path_def
        coap_get_header_uri_query_def coap_get_header_uri_host_def coap_get_header_location_path_def coap_get_header_location_query_def)
qed

section \<open>Variables of a query\<close>

lemma split_sep_hd_takeWhile: "hd (split_sep c s) = takeWhile (\<lambda>x. x \<noteq> c) s"
  by (induction s) auto

lemma split_sep_length: "x \<in> set (split_sep c s) \<Longrightarrow> length x \<le> length s"
proof (induction s arbitrary: x)
  case (Cons a s)
  have "hd (split_sep c s) \<in> set (split_sep c s)" by simp
  moreover have "x \<in> set (tl (split_sep c s)) \<Longrightarrow> x \<in> set (split_sep c s)" by (simp add: list.set_sel(2))
  ultimately show ?case using Cons by (auto split: if_splits intro: le_SucI)
qed simp

lemma prefix_takeWhile: "c \<notin> set xs \<Longrightarrow> prefix xs (takeWhile (\<lambda>x. x \<noteq> c) s) \<longleftrightarrow> prefix xs s"
proof (induction xs arbitrary: s)
  case (Cons x xs)
  then show ?case by (cases s) auto
qed simp

lemma tl_subset: "x \<in> set (tl xs) \<Longrightarrow> x \<in> set xs"
  by (cases xs) auto

lemma prefix_take: "prefix k s \<longleftrightarrow> take (length k) s = k"
  by (metis append_eq_conv_conj prefix_def take_is_prefix)

lemma find_hd: "xs \<noteq> [] \<Longrightarrow> List.find P xs = (if P (hd xs) then Some (hd xs) else List.find P (tl xs))"
  by (cases xs) auto

lemma find_too_long: "(\<And>x. x \<in> set xs \<Longrightarrow> length x < length k) \<Longrightarrow> List.find (prefix k) xs = None"
  by (fastforce simp: find_None_iff dest: prefix_length_le)

text \<open>The loop from a position that is or is not the start of a part.\<close>

lemma get_variable_loop_split:
  assumes "38 \<notin> set nm"
  shows "map_option (\<lambda>(k, n). take n (drop k (pre @ s))) (get_variable_loop (pre @ s) nm (length pre)) =
    map_option (drop (length nm + 1))
      (List.find (prefix (nm @ [61])) (if pre = [] \<or> last pre = 38 then split_sep 38 s else tl (split_sep 38 s)))"
proof (induction s arbitrary: pre)
  case Nil
  show ?case by (subst get_variable_loop.simps) simp
next
  case (Cons x xs)
  let ?s = "x # xs" and ?k = "nm @ [61]" and ?b = "pre = [] \<or> last pre = 38"
  let ?buf = "pre @ ?s"
  have k: "38 \<notin> set ?k" using assms by simp
  have bnd: "(length pre = 0 \<or> ?buf ! (length pre - 1) = 38) = ?b" by (cases pre rule: rev_cases) (auto simp: nth_append)
  show ?case
  proof (cases "length nm < length ?s")
    case False
    then have "get_variable_loop ?buf nm (length pre) = None" by (subst get_variable_loop.simps) simp
    moreover have "List.find (prefix ?k) (if ?b then split_sep 38 ?s else tl (split_sep 38 ?s)) = None"
    proof (rule find_too_long)
      fix y assume "y \<in> set (if ?b then split_sep 38 ?s else tl (split_sep 38 ?s))"
      then have "y \<in> set (split_sep 38 ?s)" using tl_subset by (cases ?b) (simp_all only: if_True if_False)
      then show "length y < length ?k" using split_sep_length [of y 38 ?s] False by simp
    qed
    ultimately show ?thesis by simp
  next
    case True
    have match: "?buf ! (length pre + length nm) = 61 \<and> take (length nm) (drop (length pre) ?buf) = nm \<longleftrightarrow> prefix ?k ?s"
    proof -
      have "?buf ! (length pre + length nm) = ?s ! length nm" by (simp add: nth_append)
      moreover have "prefix ?k ?s \<longleftrightarrow> take (length nm + 1) ?s = ?k" unfolding prefix_take by simp
      moreover have "take (length nm + 1) ?s = take (length nm) ?s @ [?s ! length nm]" using True by (simp only: Suc_eq_plus1 [symmetric] take_Suc_conv_app_nth)
      ultimately show ?thesis by auto
    qed
    show ?thesis
    proof (cases "?b \<and> prefix ?k ?s")
      case hit: True
      then have hd: "prefix ?k (hd (split_sep 38 ?s))" unfolding split_sep_hd_takeWhile prefix_takeWhile [OF k] by blast
      then have find: "List.find (prefix ?k) (split_sep 38 ?s) = Some (takeWhile (\<lambda>x. x \<noteq> 38) ?s)"
        unfolding find_hd [OF split_sep_not_Nil] split_sep_hd_takeWhile by (simp only: if_True)
      obtain r where r: "?s = ?k @ r" using hit by (auto elim: prefixE)
      have "get_variable_loop ?buf nm (length pre) = Some (length pre + length nm + 1, length (takeWhile (\<lambda>x. x \<noteq> 38) (drop (length nm + 1) ?s)))"
        using True hit match bnd by (subst get_variable_loop.simps) (simp add: Let_def)
      moreover have "take (length (takeWhile (\<lambda>x. x \<noteq> 38) r)) r = takeWhile (\<lambda>x. x \<noteq> 38) r" by (metis takeWhile_eq_take)
      moreover have "takeWhile (\<lambda>x. x \<noteq> 38) ?s = ?k @ takeWhile (\<lambda>x. x \<noteq> 38) r" unfolding r using assms by (auto simp: takeWhile_append)
      ultimately show ?thesis using hit find unfolding r by simp
    next
      case miss: False
      have "get_variable_loop ?buf nm (length pre) = get_variable_loop ((pre @ [x]) @ xs) nm (length (pre @ [x]))"
        using True miss match bnd by (subst get_variable_loop.simps) auto
      moreover have "List.find (prefix ?k) (if ?b then split_sep 38 ?s else tl (split_sep 38 ?s)) =
          List.find (prefix ?k) (if x = 38 then split_sep 38 xs else tl (split_sep 38 xs))"
      proof -
        have "\<not> prefix ?k (hd (split_sep 38 ?s))" if ?b
          using that miss unfolding split_sep_hd_takeWhile prefix_takeWhile [OF k] by blast
        then have "List.find (prefix ?k) (if ?b then split_sep 38 ?s else tl (split_sep 38 ?s)) = List.find (prefix ?k) (tl (split_sep 38 ?s))"
          using find_hd [OF split_sep_not_Nil, of "prefix ?k" 38 ?s] by (cases ?b) (simp_all only: if_True if_False)
        then show ?thesis by simp
      qed
      ultimately show ?thesis using Cons.IH [of "pre @ [x]"] by simp
    qed
  qed
qed

text \<open>Looking up a variable: for a name without \<open>&\<close>, \<open>coap_get_variable\<close> returns what follows the
  equals sign in the first part of the query, cut at \<open>&\<close>, that starts with the name and an equals sign, and
  nothing when there is no such part.\<close>

theorem coap_get_variable_spec:
  assumes "38 \<notin> set nm"
  shows "coap_get_variable q nm = map_option (drop (length nm + 1)) (List.find (prefix (nm @ [61])) (split_sep 38 q))"
  using get_variable_loop_split [OF assms, of "[]" q] by (auto simp: coap_get_variable_def split: option.splits)

text \<open>Looking up \<open>b\<close> in \<open>ab=1&b=23&c\<close>.\<close>

theorem coap_get_variable_spec_witness: "coap_get_variable [97, 98, 61, 49, 38, 98, 61, 50, 51, 38, 99] [98] = Some [50, 51]"
  using coap_get_variable_spec [of "[98]" "[97, 98, 61, 49, 38, 98, 61, 50, 51, 38, 99]"] by simp

end
