(* ===== verification/Coap_Roundtrip.thy ===== *)
theory Coap_Roundtrip
  imports Coap_Serialize
begin

text \<open>
  Parsing what was serialised.  The options a packet is serialised to add up to its abstract message, the
  parser reads the wire image back, and both together give the round trip of CoAP messages.
\<close>

section \<open>Integer values\<close>

lemma parse_int_Cons0: "coap_parse_int_option (0 # bs) = coap_parse_int_option bs"
  by (simp add: coap_parse_int_option_def)

lemma parse_int_4: "coap_parse_int_option [a, b, c, d] = rd32 a b c d"
proof (rule bit_word_eqI)
  fix n assume "n < LENGTH(32)"
  then show "bit (coap_parse_int_option [a, b, c, d]) n \<longleftrightarrow> bit (rd32 a b c d) n"
    by (auto simp: coap_parse_int_option_def rd32_def bit_simps)
qed

lemma high_mask_zero: "k \<le> 32 \<Longrightarrow> NOT (mask k) AND (v :: u32) = 0 \<Longrightarrow> ucast (drop_bit k v) = (0 :: u8)"
proof (rule bit_word_eqI)
  fix n assume "NOT (mask k) AND v = 0"
  then have "\<not> bit (NOT (mask k) AND v) (k + n)" by simp
  then have "\<not> bit v (k + n)" by (auto simp: bit_simps dest: bit_imp_le_length)
  then show "bit (ucast (drop_bit k v) :: u8) n \<longleftrightarrow> bit (0 :: u8) n" by (simp add: bit_simps)
qed

lemma high_mask_mono: "j \<le> k \<Longrightarrow> NOT (mask k) AND (v :: u32) \<noteq> 0 \<Longrightarrow> NOT (mask j) AND v \<noteq> 0"
proof
  assume "j \<le> k" "NOT (mask k) AND v \<noteq> 0" and z: "NOT (mask j) AND v = 0"
  then obtain n where "bit (NOT (mask k) AND v) n" by (metis bit_eq_iff bit_0_eq bot_apply bot_bool_def)
  then have "bit (NOT (mask j) AND v) n" using \<open>j \<le> k\<close> by (auto simp: bit_simps)
  with z show False by simp
qed

lemma int_option_roundtrip: "coap_parse_int_option (int_option_bytes v) = v"
proof -
  have m: "(0xFF000000 :: u32) = NOT (mask 24)" "(0xFFFF0000 :: u32) = NOT (mask 16)" "(0xFFFFFF00 :: u32) = NOT (mask 8)"
    by (simp_all add: mask_eq_exp_minus_1 not_eq_complement)
  let ?a = "ucast (drop_bit 24 v) :: u8" and ?b = "ucast (drop_bit 16 v) :: u8" and ?c = "ucast (drop_bit 8 v) :: u8"
  have "coap_parse_int_option (int_option_bytes v) = coap_parse_int_option [?a, ?b, ?c, ucast v]"
    using high_mask_zero [of 24 v] high_mask_zero [of 16 v] high_mask_zero [of 8 v] high_mask_mono [of 16 24 v] high_mask_mono [of 8 16 v]
    unfolding int_option_bytes_def m by (auto simp: parse_int_Cons0)
  then show ?thesis by (simp add: parse_int_4 rd32_be32)
qed

section \<open>Block values\<close>

definition block_sizes :: "u16 list" where "block_sizes = [16, 32, 64, 128, 256, 512, 1024, 2048]"

lemma log_2_values:
  "coap_log_2 1 = 0" "coap_log_2 2 = 1" "coap_log_2 4 = 2" "coap_log_2 8 = 3"
  "coap_log_2 16 = 4" "coap_log_2 32 = 5" "coap_log_2 64 = 6" "coap_log_2 128 = 7"
  by (simp_all add: coap_log_2_def log_2_loop.simps)

lemma block_fields:
  fixes num k :: u32 and mr :: bool
  assumes "num \<le> 0x0FFFFF" "take_bit 3 k = k"
  defines "x \<equiv> (if mr then push_bit 4 num OR 8 else push_bit 4 num) OR (k :: u32)"
  shows "drop_bit 4 x = num" "bit x 3 \<longleftrightarrow> mr" "x AND 7 = k"
proof -
  have k: "bit k n \<Longrightarrow> n < 3" for n using assms(2) by (metis bit_take_bit_iff)
  have "unat num < 2 ^ 20" using assms(1) by (simp add: word_le_nat_alt)
  then have "take_bit 20 (unat num) = unat num" by (rule take_bit_nat_eq_self)
  then have "take_bit 20 num = num" by (metis unsigned_take_bit_eq unsigned_word_eqI)
  then have num: "bit num n \<Longrightarrow> n < 20" for n by (metis bit_take_bit_iff)
  have b8: "bit (8 :: u32) n \<longleftrightarrow> n = 3" for n using bit_exp_iff [where 'a = u32, of 3 n] by auto
  have m7: "(7 :: u32) = mask 3" by (simp add: mask_eq_exp_minus_1)
  have x: "bit x n \<longleftrightarrow> (4 \<le> n \<and> bit num (n - 4)) \<or> (mr \<and> n = 3) \<or> bit k n" for n
    unfolding x_def using num [of "n - 4"] b8 [of n] by (auto simp: bit_or_iff bit_push_bit_iff)
  show "drop_bit 4 x = num"
    by (rule bit_word_eqI) (auto simp: bit_drop_bit_eq x dest: k)
  show "bit x 3 \<longleftrightarrow> mr" using k [of 3] by (auto simp: x)
  show "x AND 7 = k" unfolding m7 by (rule bit_word_eqI) (auto simp: bit_and_iff bit_mask_iff x dest: k)
qed

lemma block_roundtrip:
  fixes num :: u32 and mr :: u8 and sz :: u16
  assumes "num \<le> 0x0FFFFF" "sz \<in> set block_sizes"
  defines "x \<equiv> block_value num mr sz"
  shows "drop_bit 4 x = num \<and> (bit x 3 \<longleftrightarrow> mr \<noteq> 0) \<and> push_bit (unat (x AND 7)) 16 = sz"
proof -
  obtain k :: u32 where k: "0xF AND ucast (coap_log_2 (sz div 16)) = k" "take_bit 3 k = k" "push_bit (unat k) 16 = sz"
    using assms(2) by (fastforce simp: block_sizes_def log_2_values)
  have "x = (if mr \<noteq> 0 then push_bit 4 num OR 8 else push_bit 4 num) OR k"
    unfolding x_def block_value_def Let_def k(1) ..
  then show ?thesis using block_fields [OF assms(1) k(2), of "mr \<noteq> 0"] k(3) by simp
qed

section \<open>The options of a packet add up\<close>

fun field_rt :: "opt_field \<Rightarrow> bool" where
  "field_rt (F_Int v) \<longleftrightarrow> True"
| "field_rt (F_Byte bs) \<longleftrightarrow> length bs \<le> COAP_ETAG_LEN"
| "field_rt (F_String (Some (P_Ext a)) l c) \<longleftrightarrow> l < length a \<and> (c \<noteq> 0 \<longrightarrow> take l a = [] \<or> [] \<notin> set (split_sep c (take l a)))"
| "field_rt (F_String _ l c) \<longleftrightarrow> False"
| "field_rt (F_Block num mr sz) \<longleftrightarrow> num \<le> 0x0FFFFF \<and> sz \<in> set block_sizes"

lemma field_rt_ok: "field_rt f \<Longrightarrow> field_ok f"
  by (induction f rule: field_rt.induct) (auto dest: list.set_sel(2) [rotated])

lemma opt_add_merge:
  assumes "n \<in> set str_opts" "n \<noteq> 3" "m n = Some (O_Str (Inr t))" "t \<noteq> []"
  shows "foldl opt_add m (map (Pair n) ss) = m(n := Some (O_Str (Inr (t @ concat (map ((#) (merge_sep n)) ss)))))"
  using assms(3,4)
proof (induction ss arbitrary: m t)
  case Nil
  then show ?case by (simp add: fun_upd_idem)
next
  case (Cons s ss)
  let ?t = "t @ merge_sep n # s"
  have "opt_add m (n, s) = m(n := Some (O_Str (Inr ?t)))"
    using Cons.prems assms(1,2) by (simp add: opt_add_def opt_val_def)
  then show ?case using Cons.IH [of "m(n := Some (O_Str (Inr ?t)))" ?t, OF fun_upd_same] by (simp del: fun_upd_apply)
qed

lemma opt_add_split:
  assumes "n \<in> set str_opts" "n \<noteq> 3" "m n = None" "s = [] \<or> [] \<notin> set (split_sep (merge_sep n) s)"
  shows "foldl opt_add m (map (Pair n) (split_sep (merge_sep n) s)) = m(n := Some (O_Str (Inr s)))"
proof -
  let ?c = "merge_sep n"
  obtain x xs where x: "split_sep ?c s = x # xs" by (meson neq_Nil_conv split_sep_not_Nil)
  have first: "opt_add m (n, x) = m(n := Some (O_Str (Inr x)))" using assms(1-3) by (simp add: opt_add_def opt_val_def)
  have j: "x @ concat (map ((#) ?c) xs) = s" using split_sep_join [of ?c s] by (simp add: x)
  show ?thesis
  proof (cases "s = []")
    case True
    then show ?thesis using x first by simp
  next
    case False
    then have "x \<noteq> []" using assms(4) x by auto
    then show ?thesis using opt_add_merge [OF assms(1,2), of "m(n := Some (O_Str (Inr x)))" x xs] first x j by simp
  qed
qed

lemma port_ucast: "(ucast (ucast (ucast (w :: u16) :: u32) :: u16) :: u32) = ucast w"
  by (rule bit_word_eqI) (auto simp: bit_simps dest: bit_imp_le_length)

lemma field_opts_add:
  assumes "(n, f) \<in> set (option_fields p)" "n \<noteq> 35" "n \<noteq> 39" "field_rt f" "m n = None"
  shows "foldl opt_add m (field_opts (n, f)) = m(n := Some (cp_val n p))"
proof -
  have one: "foldl opt_add m (field_opts (n, f)) = m(n := Some (opt_val None n v))" if "field_vals f = [v]" for v
    using that assms(5) by (simp add: field_opts_def opt_add_def)
  show ?thesis
  proof (cases "n \<in> set str_opts \<and> n \<noteq> 3")
    case True
    then obtain r l where f: "f = F_String r l (merge_sep n)" "str_field n p = (r, l)"
      using assms(1) by (auto simp: option_fields_def str_opts_def merge_sep_def str_field_def)
    then obtain a where a: "r = Some (P_Ext a)" "l < length a"
      "take l a = [] \<or> [] \<notin> set (split_sep (merge_sep n) (take l a))"
      using assms(4) by (auto elim!: field_rt.elims simp: merge_sep_def split: if_splits)
    have "merge_sep n \<noteq> 0" by (simp add: merge_sep_def)
    moreover have "cp_val n p = O_Str (Inr (take l a))" using True f a by (simp add: cp_val_str sref_at_ext)
    ultimately show ?thesis using opt_add_split [of n m "take l a"] True assms(5) a f by (simp add: field_opts_def)
  next
    case False
    have int: "opt_val None n (int_option_bytes v) = cp_val n p" if "f = F_Int v" for v
      using assms(1) that by (auto simp: option_fields_def opt_val_def int_option_roundtrip cp_val_def str_opts_def port_ucast)
    show ?thesis
    proof (cases f)
      case (F_Int v)
      then show ?thesis using one [of "int_option_bytes v"] int [of v] by simp
    next
      case (F_Byte bs)
      then have "opt_val None n bs = cp_val n p"
        using assms(1,4) by (auto simp: option_fields_def opt_val_def cp_val_def str_opts_def)
      then show ?thesis using one [of bs] F_Byte by simp
    next
      case (F_String r l c)
      then have "n = 3" "cp_uri_host p = r" "cp_uri_host_len p = l" "c = 0"
        using assms(1-3) False by (auto simp: option_fields_def str_opts_def)
      moreover obtain a where "r = Some (P_Ext a)" "l < length a"
        using assms(4) F_String by (auto elim!: field_rt.elims)
      ultimately have "cp_val n p = O_Str (Inr (take l a))" "field_vals f = [take l a]"
        using F_String by (auto simp: cp_val_def str_opts_def str_field_def sref_at_ext)
      then show ?thesis using one \<open>n = 3\<close> by (simp add: opt_val_def)
    next
      case (F_Block num mr sz)
      then have "opt_val None n (int_option_bytes (block_value num mr sz)) = O_Block num (mr \<noteq> 0) sz"
        using assms(1,4) block_roundtrip [of num sz mr]
        by (auto simp: option_fields_def opt_val_def int_option_roundtrip str_opts_def)
      moreover have "cp_val n p = O_Block num (mr \<noteq> 0) sz"
        using assms(1) F_Block by (auto simp: option_fields_def cp_val_def str_opts_def)
      ultimately show ?thesis using one [of "int_option_bytes (block_value num mr sz)"] F_Block by simp
    qed
  qed
qed

text \<open>The set options of the entries \<open>es\<close>.\<close>

definition opt_map :: "coap_packet \<Rightarrow> (nat \<times> opt_field) list \<Rightarrow> nat \<Rightarrow> oval option" where
  "opt_map p es n = (if n \<in> fst ` set es \<and> IS_OPTION n p then Some (cp_val n p) else None)"

lemma opts_of_add:
  assumes "set es \<subseteq> set (option_fields p)" "distinct (map fst es)" "\<forall>e \<in> set es. m (fst e) = None"
    and "\<forall>e \<in> set es. IS_OPTION (fst e) p \<longrightarrow> fst e \<noteq> 35 \<and> fst e \<noteq> 39 \<and> field_rt (snd e)"
  shows "foldl opt_add m (opts_of p es) = m ++ opt_map p es"
  using assms
proof (induction es arbitrary: m)
  case Nil
  then show ?case by (auto simp: opts_of_simps opt_map_def map_add_def fun_eq_iff)
next
  case (Cons e es)
  obtain n f where e: "e = (n, f)" by force
  have fresh: "n \<notin> fst ` set es" using Cons.prems(2) by (simp add: e)
  show ?case
  proof (cases "IS_OPTION n p")
    case False
    then have "opt_map p (e # es) = opt_map p es" by (auto simp: opt_map_def e fun_eq_iff)
    then show ?thesis using Cons False by (simp add: e opts_of_simps)
  next
    case True
    have "foldl opt_add m (field_opts (n, f)) = m(n := Some (cp_val n p))"
      using Cons.prems True by (intro field_opts_add) (auto simp: e)
    then have "foldl opt_add m (opts_of p (e # es)) = foldl opt_add (m(n := Some (cp_val n p))) (opts_of p es)"
      using True by (simp add: e opts_of_simps del: fun_upd_apply)
    also have "\<dots> = m(n := Some (cp_val n p)) ++ opt_map p es" using Cons.prems fresh by (intro Cons.IH) (auto simp: e)
    also have "\<dots> = m ++ opt_map p (e # es)" using True fresh by (auto simp: fun_eq_iff map_add_def opt_map_def e split: option.splits)
    finally show ?thesis .
  qed
qed

section \<open>The options of a packet are well formed\<close>

lemma opts_of_numbers: "nv \<in> set (opts_of p es) \<Longrightarrow> fst nv \<in> fst ` set es \<and> IS_OPTION (fst nv) p"
  by (force simp: opts_of_def field_opts_def)

lemma enc_opts_length: "nv \<in> set os \<Longrightarrow> length (snd nv) \<le> length (enc_opts cur os)"
  by (induction os arbitrary: cur) (fastforce simp: opt_bytes_def trans_le_add2)+

lemma opts_ok_sorted:
  "sorted (map fst os) \<Longrightarrow> \<forall>nv \<in> set os. cur \<le> fst nv \<and> fst nv < 64 \<and> length (snd nv) < 65805 \<Longrightarrow> opts_ok cur os"
  by (induction os arbitrary: cur) auto

lemma opts_of_sorted: "sorted (map fst es) \<Longrightarrow> sorted (map fst (opts_of p es))"
proof (induction es)
  case (Cons e es)
  obtain n f where e: "e = (n, f)" by force
  have "sorted (map fst (field_opts (n, f)))" by (simp add: field_opts_def o_def sorted_wrt_map sorted_wrt_iff_nth_less sorted_iff_nth_mono)
  moreover have "\<forall>x \<in> set (field_opts (n, f)). \<forall>y \<in> set (opts_of p es). fst x \<le> fst y"
    using Cons.prems opts_of_numbers [of _ p es] by (force simp: e field_opts_def)
  ultimately show ?case using Cons by (auto simp: e opts_of_simps sorted_append)
qed (simp add: opts_of_simps)

lemma option_fields_facts:
  "sorted (map fst (option_fields p))" "distinct (map fst (option_fields p))" "\<forall>e \<in> set (option_fields p). fst e < 64"
  "\<forall>e \<in> set (option_fields p). fst e \<noteq> 35 \<and> fst e \<noteq> 39 \<longrightarrow> opt_status (fst e) = None"
  by (simp_all add: option_fields_def opt_status_def)

lemma opts_status_None: "(\<And>nv. nv \<in> set os \<Longrightarrow> opt_status (fst nv) = None) \<Longrightarrow> opts_status os = None"
  by (induction os) auto

section \<open>Header and payload\<close>

lemma first_byte:
  fixes t :: u8
  assumes "t < 4" "k \<le> 8"
  defines "b \<equiv> (0xC0 AND push_bit 6 1) OR (0x30 AND push_bit 4 t) OR (0x0F AND of_nat k)"
  shows "drop_bit 6 (0xC0 AND b) = 1" "drop_bit 4 (0x30 AND b) = t" "unat (0x0F AND b) = k"
proof -
  obtain j where j: "t = of_nat j" "j < 4"
  proof -
    have "unat t < 4" using assms(1) by (simp add: word_less_nat_alt)
    then show ?thesis using that [of "unat t"] by simp
  qed
  then have "j \<in> {0, 1, 2, 3}" by auto
  then have t: "t \<in> {0, 1, 2, 3}" using j(1) by auto
  have k: "k \<in> {0, 1, 2, 3, 4, 5, 6, 7, 8}" using assms(2) by auto
  show "drop_bit 6 (0xC0 AND b) = 1" "drop_bit 4 (0x30 AND b) = t" "unat (0x0F AND b) = k"
    unfolding b_def using t k by (auto simp: drop_bit_Suc)
qed

text \<open>The terminator behind the payload leaves the strings alone.\<close>

lemma opt_inv_payload:
  assumes "opt_inv i n p" "take i b = take i (cp_buffer p)" "length b = length (cp_buffer p)"
  shows "cp_opt (p\<lparr>cp_buffer := b, cp_payload := r, cp_payload_len := l\<rparr>) = cp_opt p"
proof
  fix m
  let ?p = "p\<lparr>cp_buffer := b, cp_payload := r, cp_payload_len := l\<rparr>"
  have io: "IS_OPTION m ?p = IS_OPTION m p" by (simp add: IS_OPTION_def)
  have "cp_val m ?p = cp_val m p" if "IS_OPTION m p"
  proof (cases "m \<in> set str_opts")
    case True
    have sf: "str_field m ?p = str_field m p" by (simp add: str_field_def)
    have f: "fst (str_field m p) = Some (P_Buf (str_pos m p))" "str_pos m p + snd (str_field m p) \<le> i" "i \<le> length (cp_buffer p)"
      using assms(1) True that by (auto simp: opt_inv_def)
    then show ?thesis using True take_drop_below [OF assms(2) f(2)] assms(3) by (simp add: cp_val_str sf sref_at_buf)
  qed (simp add: cp_val_def)
  then show "cp_opt ?p m = cp_opt p m" by (simp add: cp_opt_def io)
qed

text \<open>The option loop up to the end of the message, with the payload branch of \<open>coap_parse_message\<close>.\<close>

definition body_bytes :: "bytes \<Rightarrow> bytes" where
  "body_bytes pl = (if pl = [] then [] else 0xFF # pl)"

lemma parse_tail:
  assumes inv: "opt_inv i n p" and buf: "drop i (cp_buffer p) = body_bytes pl @ z # rs" and "length pl \<le> REST_MAX_CHUNK_SIZE"
    and none: "cp_payload p = None" "cp_payload_len p = 0"
  defines "dl \<equiv> i + length (body_bytes pl)"
  shows "\<exists>q. parse_options (parse_payload dl) dl i n p = Inr (0, q) \<and> cp_opt q = cp_opt p \<and>
    (cp_version q, cp_type q, cp_code q, cp_mid q, cp_token q) = (cp_version p, cp_type p, cp_code p, cp_mid p, cp_token p) \<and>
    cp_payload_len q = length pl \<and> sref_at (cp_buffer q) (cp_payload q) 0 (cp_payload_len q) = Inr pl"
proof (cases "pl = []")
  case True
  then have "parse_options (parse_payload dl) dl i n p = Inr (0, p)" by (subst parse_options.simps) (simp add: dl_def body_bytes_def)
  then show ?thesis using True none by (simp add: sref_at_def)
next
  case False
  then have d: "drop i (cp_buffer p) = 0xFF # pl @ z # rs" using buf by (simp add: body_bytes_def)
  have dl: "dl = Suc i + length pl" using False by (simp add: dl_def body_bytes_def)
  have rd: "buf_rd (cp_buffer p) i = Inr 0xFF" "drop (Suc i) (cp_buffer p) = pl @ z # rs" using buf_rd_drop [OF d] by auto
  have "length (pl @ z # rs) = length (cp_buffer p) - Suc i" using rd(2) by (metis length_drop)
  then have len: "dl < length (cp_buffer p)" using dl by simp
  let ?b = "take dl (cp_buffer p) @ [0] @ drop (dl + 1) (cp_buffer p)"
  let ?q = "p\<lparr>cp_buffer := ?b, cp_payload := Some (P_Buf (Suc i)), cp_payload_len := length pl\<rparr>"
  have "parse_payload dl (Suc i) p = Inr ?q" using len dl assms(3) by (simp add: parse_payload_def buf_write_def Let_def)
  then have run: "parse_options (parse_payload dl) dl i n p = Inr (0, ?q)"
    using rd(1) dl by (subst parse_options.simps) simp
  have "cp_opt ?q = cp_opt p" using inv len dl by (intro opt_inv_payload) auto
  moreover have "sref_at ?b (Some (P_Buf (Suc i))) 0 (length pl) = Inr pl"
  proof -
    have "take (length pl) (drop (Suc i) ?b) = take (length pl) (drop (Suc i) (cp_buffer p))"
      using len dl by (intro take_drop_below [of dl]) auto
    then show ?thesis using len dl rd(2) by (simp add: sref_at_buf)
  qed
  ultimately show ?thesis using run by simp
qed

lemma opt_inv_zero:
  assumes "cp_options p = replicate 8 0" "\<And>m. snd (str_field m p) = 0" "i \<le> length (cp_buffer p)"
  shows "opt_inv i 0 p" "cp_opt p = Map.empty"
proof -
  have "\<not> IS_OPTION m p" if "m < 64" for m
  proof -
    have "m div 8 < 8" using that by simp
    then show ?thesis using assms(1) by (simp add: IS_OPTION_def)
  qed
  then show "opt_inv i 0 p" "cp_opt p = Map.empty"
    using assms str_opts_less by (auto simp: opt_inv_def cp_opt_def fun_eq_iff)
qed

lemma parse_message_encoded:
  fixes t code :: u8 and mid :: u16 and token pl :: bytes
  assumes "t < 4" "length token \<le> 8" "opts_ok 0 os" "length pl \<le> REST_MAX_CHUNK_SIZE"
  defines "msg \<equiv> header_bytes (cp_zero\<lparr>cp_version := 1, cp_type := t, cp_code := code, cp_mid := mid, cp_token := token\<rparr>) @ token @
    enc_opts 0 os @ body_bytes pl"
  assumes "length msg < 65536"
  shows "case opts_status os of
      Some st \<Rightarrow> \<exists>q. coap_parse_message (msg @ z # rs) (of_nat (length msg)) = Inr (st, q)
    | None \<Rightarrow> \<exists>q. coap_parse_message (msg @ z # rs) (of_nat (length msg)) = Inr (0, q) \<and>
        cp_opt q = foldl opt_add Map.empty os \<and> (cp_version q, cp_type q, cp_code q, cp_mid q, cp_token q) = (1, t, code, mid, token) \<and>
        cp_payload_len q = length pl \<and> sref_at (cp_buffer q) (cp_payload q) 0 (cp_payload_len q) = Inr pl"
proof -
  let ?data = "msg @ z # rs" and ?k = "length token"
  let ?b0 = "(0xC0 AND push_bit 6 1) OR (0x30 AND push_bit 4 t) OR (0x0F AND of_nat ?k) :: u8"
  note b0 = first_byte [OF assms(1,2)]
  define p0 where "p0 = cp_zero\<lparr>cp_buffer := ?data, cp_version := 1, cp_type := t, cp_code := code, cp_mid := mid, cp_token := token\<rparr>"
  let ?e = "enc_opts 0 os"
  let ?i = "4 + ?k + length ?e"
  have msg: "msg = [?b0, code, ucast (drop_bit 8 mid), ucast mid] @ token @ ?e @ body_bytes pl"
    by (simp add: msg_def header_bytes_def)
  have dl: "unat (of_nat (length msg) :: u16) = ?i + length (body_bytes pl)"
    using assms(6) unfolding msg by (subst unat_of_nat_small) (simp_all add: msg)
  have h: "buf_slice ?data 0 4 = Inr [?b0, code, ucast (drop_bit 8 mid), ucast mid]"
    by (simp add: buf_slice_def msg)
  have tk: "buf_slice ?data 4 ?k = Inr token" by (simp add: buf_slice_def msg)
  have start: "coap_parse_message ?data (of_nat (length msg)) =
      parse_options (parse_payload (?i + length (body_bytes pl))) (?i + length (body_bytes pl)) (4 + ?k) 0 p0"
    unfolding coap_parse_message_def h cbind_simps Let_def dl
    using b0 tk assms(2) by (simp add: COAP_TOKEN_LEN_def p0_def rd16_be16 min_def)
  have inv: "opt_inv (4 + ?k) 0 p0" "cp_opt p0 = Map.empty"
    by (rule opt_inv_zero [of _ "4 + ?k"]; simp add: p0_def cp_zero_def str_field_def msg)+
  have "drop (4 + ?k) (cp_buffer p0) = ?e @ body_bytes pl @ z # rs"
    by (simp add: p0_def msg numeral_eq_Suc)
  note run = parse_options_encoded [OF inv(1) assms(3) this, of "?i + length (body_bytes pl)" "parse_payload (?i + length (body_bytes pl))"]
  show ?thesis
  proof (cases "opts_status os")
    case (Some st)
    then show ?thesis using run start by simp
  next
    case None
    then obtain n p' where p': "parse_options (parse_payload (?i + length (body_bytes pl))) (?i + length (body_bytes pl)) (4 + ?k) 0 p0 =
        parse_options (parse_payload (?i + length (body_bytes pl))) (?i + length (body_bytes pl)) ?i n p'"
      "cp_opt p' = foldl opt_add Map.empty os" "cp_head p' = cp_head p0" "opt_inv ?i n p'" "drop ?i (cp_buffer p') = body_bytes pl @ z # rs"
      using run inv(2) by auto
    have "cp_payload p' = None" "cp_payload_len p' = 0"
      "(cp_version p', cp_type p', cp_code p', cp_mid p', cp_token p') = (1, t, code, mid, token)"
      using p'(3) by (simp_all add: cp_head_def p0_def cp_zero_def)
    then show ?thesis using parse_tail [OF p'(4,5) assms(4)] start p'(1,2) None by simp
  qed
qed

section \<open>Round trip\<close>

text \<open>The packets that survive the round trip: known options only and no proxy option, which the parser
  refuses, split strings without empty parts, and block sizes that are powers of two.\<close>

definition options_rt :: "coap_packet \<Rightarrow> bool" where
  "options_rt p \<longleftrightarrow>
     (\<forall>n \<in> set [0..<64]. IS_OPTION n p \<longrightarrow> n \<noteq> 35 \<and> n \<noteq> 39 \<and> n \<in> fst ` set (option_fields p)) \<and>
     (\<forall>e \<in> set (option_fields p). IS_OPTION (fst e) p \<longrightarrow> field_rt (snd e))"

definition packet_rt :: "coap_packet \<Rightarrow> bool" where
  "packet_rt p \<longleftrightarrow> cp_code p \<noteq> 0 \<and> cp_type p < 4 \<and> length (cp_token p) \<le> COAP_TOKEN_LEN \<and> payload_ok p \<and>
     cp_payload_len p \<le> REST_MAX_CHUNK_SIZE \<and> options_rt p"

lemma packet_rt_ok: "packet_rt p \<Longrightarrow> packet_ok p"
  by (auto simp: packet_rt_def options_rt_def packet_ok_def field_rt_ok)

lemma option_fields_less: "n \<in> fst ` set (option_fields p) \<Longrightarrow> n < 64"
  using option_fields_facts(3) by fastforce

lemma options_rt_entry:
  "options_rt p \<Longrightarrow> e \<in> set (option_fields p) \<Longrightarrow> IS_OPTION (fst e) p \<Longrightarrow> fst e \<noteq> 35 \<and> fst e \<noteq> 39 \<and> field_rt (snd e)"
  using option_fields_less [of "fst e" p] by (auto simp: options_rt_def)

lemma packet_opts:
  fixes p :: coap_packet
  defines "os \<equiv> opts_of p (option_fields p)"
  assumes "options_rt p" "length (enc_opts 0 os) < 65805"
  shows "opts_ok 0 os" "opts_status os = None" "foldl opt_add Map.empty os = cp_opt p"
proof -
  have "length (snd nv) < 65805" if "nv \<in> set os" for nv
    using enc_opts_length [OF that, of 0] assms(3) by simp
  then show "opts_ok 0 os" unfolding os_def
    using opts_of_sorted [OF option_fields_facts(1)] opts_of_numbers option_fields_less by (intro opts_ok_sorted) blast+
  show "opts_status os = None"
  proof (rule opts_status_None)
    fix nv assume "nv \<in> set os"
    then have "fst nv \<in> fst ` set (option_fields p)" "IS_OPTION (fst nv) p" using opts_of_numbers unfolding os_def by blast+
    then obtain e where e: "e \<in> set (option_fields p)" "fst nv = fst e" "IS_OPTION (fst e) p" by (metis imageE)
    then show "opt_status (fst nv) = None" using options_rt_entry [OF assms(2) e(1,3)] option_fields_facts(4) [of p] by simp
  qed
  have "foldl opt_add Map.empty os = Map.empty ++ opt_map p (option_fields p)" unfolding os_def
    using options_rt_entry [OF assms(2)] option_fields_facts(2) by (intro opts_of_add) auto
  moreover have "opt_map p (option_fields p) = cp_opt p"
    using assms(2) option_fields_less [of _ p] by (auto simp: fun_eq_iff opt_map_def cp_opt_def options_rt_def)
  ultimately show "foldl opt_add Map.empty os = cp_opt p" by simp
qed

text \<open>What a received packet shows of the packet that was sent.\<close>

definition same_message :: "coap_packet \<Rightarrow> coap_packet \<Rightarrow> bool" where
  "same_message q p \<longleftrightarrow> cp_opt q = cp_opt p \<and> cp_type q = cp_type p \<and> cp_code q = cp_code p \<and> cp_mid q = cp_mid p \<and>
     cp_token q = cp_token p \<and> cp_payload_len q = cp_payload_len p \<and>
     sref_at (cp_buffer q) (cp_payload q) 0 (cp_payload_len q) = sref_at (cp_buffer p) (cp_payload p) 0 (cp_payload_len p)"

lemma payload_bytes_read:
  "payload_ok p \<Longrightarrow> sref_at buf (cp_payload p) 0 (cp_payload_len p) = Inr (if cp_payload_len p = 0 then [] else payload_bytes p) \<and>
     (cp_payload_len p \<noteq> 0 \<longrightarrow> length (payload_bytes p) = cp_payload_len p)"
  by (auto simp: payload_ok_def payload_bytes_def sref_at_def sref_view_def split: option.splits sref.splits)

text \<open>C1.  CoAP round trip: a packet that meets \<open>packet_rt\<close> and whose header fits is serialised without a fault,
  and parsing what was written, the buffer being one byte longer, succeeds and yields a packet with the
  same type, code, message identifier, token, options and payload.\<close>

theorem coap_message_roundtrip:
  assumes "packet_rt p" "length (wire_head p) \<le> COAP_MAX_HEADER_SIZE" "length (wire_head p @ wire_body p) < length buf"
  shows "\<exists>n buf' p' q. coap_serialize_message p buf = Inr (n, buf', p') \<and> coap_parse_message buf' (of_nat n) = Inr (0, q) \<and> same_message q p"
proof -
  let ?os = "opts_of p (option_fields p)" and ?pl = "if cp_payload_len p = 0 then [] else payload_bytes p"
  let ?w = "wire_head p @ wire_body p"
  have pk: "payload_ok p" "cp_payload_len p \<le> REST_MAX_CHUNK_SIZE" "cp_type p < 4" "length (cp_token p) \<le> 8"
    using assms(1) by (simp_all add: packet_rt_def COAP_TOKEN_LEN_def)
  have "options_rt p" "length (enc_opts 0 ?os) < 65805"
    using assms(1,2) by (simp_all add: packet_rt_def wire_head_def COAP_MAX_HEADER_SIZE_def)
  note opts = packet_opts [OF this]
  have pl: "length ?pl = cp_payload_len p" "sref_at b (cp_payload p) 0 (cp_payload_len p) = Inr ?pl" for b
    using payload_bytes_read [OF pk(1)] by auto
  have w: "?w = header_bytes (cp_zero\<lparr>cp_version := 1, cp_type := cp_type p, cp_code := cp_code p, cp_mid := cp_mid p, cp_token := cp_token p\<rparr>) @
      cp_token p @ enc_opts 0 ?os @ body_bytes ?pl"
    using pl(1) by (auto simp: wire_head_def wire_body_def header_bytes_def body_bytes_def)
  have body: "length (wire_body p) \<le> 1025" using pl(1) pk(2) by (auto simp: wire_body_def REST_MAX_CHUNK_SIZE_def split: if_splits)
  then have len: "length ?w < 65536" using assms(2) by (simp add: COAP_MAX_HEADER_SIZE_def)
  obtain p' where s: "coap_serialize_message p buf = Inr (length ?w, wire_head p @ wire_body p @ drop (length ?w) buf, p')"
    using serialize_message_wire(1) [OF packet_rt_ok [OF assms(1)], of buf] assms(2,3) by auto
  obtain z rs where z: "drop (length ?w) buf = z # rs" using assms(3) by (metis Cons_nth_drop_Suc)
  have "\<exists>q. coap_parse_message (?w @ z # rs) (of_nat (length ?w)) = Inr (0, q) \<and> cp_opt q = foldl opt_add Map.empty ?os \<and>
      (cp_version q, cp_type q, cp_code q, cp_mid q, cp_token q) = (1, cp_type p, cp_code p, cp_mid p, cp_token p) \<and>
      cp_payload_len q = length ?pl \<and> sref_at (cp_buffer q) (cp_payload q) 0 (cp_payload_len q) = Inr ?pl"
    using parse_message_encoded [OF pk(3,4) opts(1), of ?pl] opts(2) pk(2) pl(1) len
    unfolding w by simp
  then show ?thesis using s z pl opts(3) by (auto simp: same_message_def)
qed

definition coap_sample :: coap_packet where
  "coap_sample =
     (let p = coap_init_message 0 1 0x1234;
          p = snd (coap_set_token [7, 9] p);
          p = coap_set_header_uri_path [47, 97, 47, 98, 99] p;
          p = coap_set_header_uri_query [120, 61, 49, 38, 121] p;
          p = coap_set_header_content_format 50 p;
          p = snd (coap_set_header_block2 300 1 64 p)
      in snd (coap_set_payload (Some (P_Ext [104, 105, 0])) 2 p))"

theorem coap_message_roundtrip_witness:
  "\<exists>n buf' p' q. coap_serialize_message coap_sample (replicate 40 0) = Inr (n, buf', p') \<and>
     coap_parse_message buf' (of_nat n) = Inr (0, q) \<and> same_message q coap_sample"
proof (rule coap_message_roundtrip)
  show "packet_rt coap_sample" by code_simp
  show "length (wire_head coap_sample) \<le> COAP_MAX_HEADER_SIZE" by code_simp
  show "length (wire_head coap_sample @ wire_body coap_sample) < length (replicate 40 (0 :: u8))" by code_simp
qed

text \<open>C22.  The parser on well-formed messages: given a header, a token, any list of options with ascending
  numbers below 64, and a payload of at most 1024 bytes, it reads the options in order up to the first one
  it must refuse, a proxy option or an unknown odd number, and returns the status for it; when there is
  none it succeeds, and the packet holds the header fields, the options added up one by one, with repeated
  path and query options joined by their separator, and the payload.\<close>

theorem coap_parse_wellformed:
  fixes t code :: u8 and mid :: u16 and token pl :: bytes
  assumes "t < 4" "length token \<le> 8" "opts_ok 0 os" "length pl \<le> REST_MAX_CHUNK_SIZE"
    and "msg = header_bytes (cp_zero\<lparr>cp_version := 1, cp_type := t, cp_code := code, cp_mid := mid, cp_token := token\<rparr>) @ token @
      enc_opts 0 os @ body_bytes pl" "length msg < 65536"
  shows "case opts_status os of
      Some st \<Rightarrow> \<exists>q. coap_parse_message (msg @ z # rs) (of_nat (length msg)) = Inr (st, q)
    | None \<Rightarrow> \<exists>q. coap_parse_message (msg @ z # rs) (of_nat (length msg)) = Inr (0, q) \<and>
        cp_opt q = foldl opt_add Map.empty os \<and> (cp_version q, cp_type q, cp_code q, cp_mid q, cp_token q) = (1, t, code, mid, token) \<and>
        cp_payload_len q = length pl \<and> sref_at (cp_buffer q) (cp_payload q) 0 (cp_payload_len q) = Inr pl"
  using parse_message_encoded [OF assms(1-4)] assms(5,6) by blast

text \<open>The message with the path \<open>a/b\<close> in two options, an unknown even option and an unknown odd one.\<close>

theorem coap_parse_wellformed_witness:
  "\<exists>q. coap_parse_message ([0x40, 1, 0, 5, 0xB1, 97, 1, 98, 0x30, 0x70] @ [0]) (of_nat (length [0x40, 1, 0, 5, 0xB1, 97, 1, 98, 0x30, 0x70 :: u8])) =
     Inr (BAD_OPTION_4_02, q)"
proof -
  let ?os = "[(11, [97]), (11, [98]), (14, []), (21, [])] :: (nat \<times> bytes) list"
  let ?m = "[0x40, 1, 0, 5, 0xB1, 97, 1, 98, 0x30, 0x70] :: bytes"
  have st: "opts_status ?os = Some BAD_OPTION_4_02" by (simp add: opt_status_def)
  have m: "?m = header_bytes (cp_zero\<lparr>cp_version := 1, cp_type := 0, cp_code := 1, cp_mid := 5, cp_token := []\<rparr>) @ [] @ enc_opts 0 ?os @ body_bytes []"
    by code_simp
  have "opts_ok 0 ?os" by simp
  then show ?thesis
    using coap_parse_wellformed [of 0 "[]" ?os "[]" ?m 5 1 0 "[]", OF _ _ _ _ m] unfolding st by (simp add: REST_MAX_CHUNK_SIZE_def)
qed

text \<open>C23.  The serialiser writes exactly the wire image: for a packet whose set options and payload can be read
  and a buffer that holds it, nothing outside of the first bytes of the buffer changes; when the header
  part exceeds its maximum the result is 0.\<close>

theorem coap_serialize_wire:
  assumes "packet_ok p" "length (wire_head p @ wire_body p) \<le> length buf"
  shows "if length (wire_head p) \<le> COAP_MAX_HEADER_SIZE
    then \<exists>p'. coap_serialize_message p buf =
      Inr (length (wire_head p @ wire_body p), wire_head p @ wire_body p @ drop (length (wire_head p @ wire_body p)) buf, p')
    else \<exists>buf' p'. coap_serialize_message p buf = Inr (0, buf', p')"
  using serialize_message_wire [OF assms(1), of buf] assms(2) by simp

theorem coap_serialize_wire_witness:
  "\<exists>p'. coap_serialize_message coap_sample (replicate 40 0) = Inr (25, [0x42, 1, 0x12, 0x34, 7, 9, 0xB1, 97, 2, 98, 99, 0x11, 50, 0x33, 120, 61, 49, 1, 121, 0x82, 0x12, 0xCA, 0xFF, 104, 105] @ replicate 15 0, p')"
proof -
  have "packet_ok coap_sample" by code_simp
  moreover have "wire_head coap_sample = [0x42, 1, 0x12, 0x34, 7, 9, 0xB1, 97, 2, 98, 99, 0x11, 50, 0x33, 120, 61, 49, 1, 121, 0x82, 0x12, 0xCA]"
    by code_simp
  moreover have "wire_body coap_sample = [0xFF, 104, 105]" by code_simp
  ultimately show ?thesis using coap_serialize_wire [of coap_sample "replicate 40 0"]
    by (simp add: COAP_MAX_HEADER_SIZE_def eval_nat_numeral)
qed

section \<open>Faults\<close>

text \<open>An option number of 64 or more, here as the first option of a message of six bytes, makes the parser
  write behind the option bitmap, whatever the rest of the message is.\<close>

theorem coap_parse_number_overflow:
  assumes "51 \<le> d"
  shows "coap_parse_message ([0x40, code, a, b, 0xD0, d] @ rs) 6 = Inl Out_Of_Bounds"
proof -
  have "51 \<le> unat d" using assms by (simp add: word_le_nat_alt)
  then have n: "\<not> (13 + unat d) div 8 < 8" by (simp add: div_less_iff_less_mult)
  have b: "drop_bit 4 (0xD0 :: u8) = 13" "(0xD0 :: u8) AND 0x0F = 0" "(0xD0 :: u8) AND 0xF0 = 0xD0" "drop_bit 6 (0x40 :: u8) = 1"
    by code_simp+
  let ?d = "[0x40, code, a, b, 0xD0, d] @ rs"
  define p0 where "p0 = cp_zero\<lparr>cp_buffer := ?d, cp_version := 1, cp_type := 0, cp_code := code, cp_mid := rd16 a b, cp_token := []\<rparr>"
  have "coap_parse_message ?d 6 = parse_options (parse_payload 6) 6 4 0 p0"
    by (simp add: coap_parse_message_def buf_slice_def b p0_def Let_def)
  moreover have "parse_option 0xD0 4 0 p0 = Inl Out_Of_Bounds"
    using n by (simp add: parse_option_def parse_ext_def b buf_rd_def p0_def SET_OPTION_def cp_zero_def)
  moreover have "buf_rd (cp_buffer p0) 4 = Inr 0xD0" by (simp add: buf_rd_def p0_def)
  ultimately show ?thesis using b(3) by (simp add: parse_options.simps [of _ 6 4])
qed

theorem coap_parse_number_overflow_witness: "coap_parse_message ([0x40, 1, 0, 0, 0xD0, 51] @ [0]) 6 = Inl Out_Of_Bounds"
  by (rule coap_parse_number_overflow) simp

lemma serialize_part_fault: "serialize_part n cur i buf (Some (P_Ext a)) k m = Inl e \<Longrightarrow> e = Out_Of_Bounds"
  by (auto simp: serialize_part_def Let_def cbind_eq_Inl buf_write_def sref_at_def sref_view_def split: if_splits)

lemma serialize_split_trailing:
  assumes "c \<notin> set s" "j \<le> length s"
  shows "serialize_split n (c_string (s @ [c])) (length s + 1) c j ps i cur buf = Inl Out_Of_Bounds"
  using assms(2)
proof (induction "length s - j" arbitrary: j)
  case 0
  then have j: "j = length s" by simp
  have rd: "sref_at b (c_string (s @ [c])) j 1 = Inr [c]" for b by (simp add: c_string_def sref_at_ext j)
  have past: "serialize_split n (c_string (s @ [c])) (length s + 1) c (j + 2) ps' i' cur' b = Inl Out_Of_Bounds" for ps' i' cur' b
    by (subst serialize_split.simps) (simp add: j c_string_def sref_at_def sref_view_def)
  show ?case
  proof (cases "serialize_part n cur i buf (c_string (s @ [c])) ps (j - ps)")
    case (Inl e)
    then have "e = Out_Of_Bounds" using serialize_part_fault by (simp add: c_string_def)
    with Inl show ?thesis
      using serialize_split.simps [of n "c_string (s @ [c])" "length s + 1" c j ps i cur buf] rd j by simp
  next
    case (Inr r)
    then show ?thesis
      using serialize_split.simps [of n "c_string (s @ [c])" "length s + 1" c j ps i cur buf] rd past j by (cases r) simp
  qed
next
  case (Suc x)
  then have j: "j < length s" by simp
  then have "sref_at b (c_string (s @ [c])) j 1 = Inr [s ! j]" for b
    by (simp add: c_string_def sref_at_ext take_Suc hd_drop_conv_nth nth_append)
  moreover have "s ! j \<noteq> c" using assms(1) j by auto
  moreover have "serialize_split n (c_string (s @ [c])) (length s + 1) c (j + 1) ps i cur buf = Inl Out_Of_Bounds"
    using Suc j by (intro Suc.hyps) auto
  ultimately show ?case
    using serialize_split.simps [of n "c_string (s @ [c])" "length s + 1" c j ps i cur buf] j by simp
qed

text \<open>A path or query that ends in its separator cannot be serialised within its bounds: in every buffer the
  serialiser either runs out of it or reads the byte behind the terminator of the string.\<close>

theorem serialize_trailing_separator:
  assumes "c \<noteq> 0" "c \<notin> set s"
  shows "coap_serialize_array_option n cur i buf (c_string (s @ [c])) (length s + 1) c = Inl Out_Of_Bounds"
  using assms serialize_split_trailing by (simp add: coap_serialize_array_option_def)

theorem serialize_trailing_separator_witness:
  "coap_serialize_array_option 11 0 4 (replicate 64 0) (c_string ([97, 98] @ [47])) (length [97, 98 :: u8] + 1) 47 = Inl Out_Of_Bounds"
  by (rule serialize_trailing_separator) simp_all

end
