(* ===== verification/Coap_Tcp.thy ===== *)
theory Coap_Tcp
  imports Coap_Roundtrip
begin

text \<open>
  CoAP over a stream, \<open>src/idr-mgt-shared-libs/coap/extension/coap_over_tcp.c\<close>: a message starts with the length
  of its options and payload instead of a message identifier.  The option macros and the option
  \<open>switch\<close> are the ones of the datagram codec.  The machine is little-endian.

  The options are collected in a local array, so that pointers into the buffer of the packet lead to
  another object than the one that is written: \<open>cp_detach\<close> states this.
\<close>

section \<open>Model\<close>

definition coap_set_payload_tcp :: "sref option \<Rightarrow> nat \<Rightarrow> coap_packet \<Rightarrow> nat \<times> coap_packet" where
  "coap_set_payload_tcp payload len p =
     (let n = min (1024 * 1024) len mod 2 ^ 16
      in (n, p\<lparr>cp_payload := payload, cp_payload_len := n\<rparr>))"

text \<open>The last comparison is unsigned and its bound wraps around.\<close>

definition coap_calc_ext_len_field :: "int \<Rightarrow> nat" where
  "coap_calc_ext_len_field len =
     (if len < 13 then 0 else if len < 0xFF + 13 then 1 else if len < 0xFFFF + 269 then 2
      else if len mod 2 ^ 32 < (0xFFFFFFFF + 65805) mod 2 ^ 32 then 4 else 0)"

definition coap_max_options_offset :: "coap_packet \<Rightarrow> nat" where
  "coap_max_options_offset p = 6 + length (cp_token p)"

definition detach :: "bytes \<Rightarrow> sref option \<Rightarrow> sref option" where
  "detach buf r = (case r of Some (P_Buf i) \<Rightarrow> Some (P_Ext (drop i buf)) | _ \<Rightarrow> r)"

definition cp_detach :: "coap_packet \<Rightarrow> coap_packet" where
  "cp_detach p = (let d = detach (cp_buffer p) in
     p\<lparr>cp_proxy_uri := d (cp_proxy_uri p), cp_proxy_scheme := d (cp_proxy_scheme p), cp_uri_host := d (cp_uri_host p),
       cp_location_path := d (cp_location_path p), cp_location_query := d (cp_location_query p), cp_uri_path := d (cp_uri_path p),
       cp_uri_query := d (cp_uri_query p), cp_payload := d (cp_payload p)\<rparr>)"

text \<open>The first byte and the extended length.\<close>

definition frame_len_bytes :: "nat \<Rightarrow> u32 \<Rightarrow> bytes" where
  "frame_len_bytes token_len len =
     (let tkl = of_nat token_len AND 0xF in
      if len < 13 then [tkl OR push_bit 4 (ucast len)]
      else if len < 0xFF + 13 then [tkl OR push_bit 4 13, ucast (len - 13)]
      else if len < 0xFFFF + 269 then
        (let len = len - 269 in [tkl OR push_bit 4 14, ucast (drop_bit 8 len), ucast (len AND 0xFF)])
      else
        (let len = len - 65805 in
         [tkl OR push_bit 4 15, ucast (drop_bit 24 len), ucast (drop_bit 16 len), ucast (drop_bit 8 len), ucast (len AND 0xFF)]))"

text \<open>The length of the message and, unless it is 0, the allocated block with the message at its start; the
  allocation is taken to succeed.\<close>

definition coap_serialize_message_tcp :: "coap_packet \<Rightarrow> (nat \<times> bytes \<times> coap_packet) cres" where
  "coap_serialize_message_tcp p =
     (let p = (if cp_token p = [] then p\<lparr>cp_token := [ucast (cp_mid p), ucast (drop_bit 8 (cp_mid p))]\<rparr> else p) in
      if cp_uri_host_len p + cp_uri_path_len p + cp_uri_query_len p > 512 - 64 then Inr (0, [], p)
      else
        cbind (serialize_options (cp_detach p) (option_fields (cp_detach p)) (0, 0, replicate 512 0)) (\<lambda>(i, _, buf).
        cbind (if cp_payload_len p \<noteq> 0 then cbind (buf_write i [0xFF] buf) (\<lambda>buf. Inr (i + 1, buf)) else Inr (i, buf)) (\<lambda>(option_len, buf).
        cbind (sref_at (cp_buffer p) (cp_payload p) 0 (cp_payload_len p)) (\<lambda>payload.
        let out = frame_len_bytes (length (cp_token p)) (of_nat (option_len + cp_payload_len p)) @ [cp_code p] @ cp_token p @
                  take option_len buf @ payload
        in cbind (buf_write 0 out (replicate (coap_max_options_offset p + option_len + cp_payload_len p) 0)) (\<lambda>block.
           Inr (length out, block, p))))))"

text \<open>The payload branch: the position after the marker, relative to the start of the options.\<close>

definition parse_payload_tcp :: "nat \<Rightarrow> nat \<Rightarrow> nat \<Rightarrow> coap_packet \<Rightarrow> coap_packet cres" where
  "parse_payload_tcp options_payload_size option_start i p =
     Inr (p\<lparr>cp_payload := Some (P_Buf i),
            cp_payload_len := nat ((int options_payload_size - (int i - int option_start)) mod 2 ^ 16)\<rparr>)"

text \<open>The announced size and the number of length bytes.  In the last case the shifts bind weaker than the
  additions, and the shift count always exceeds the width.\<close>

definition parse_frame_len :: "bytes \<Rightarrow> (nat \<times> nat) cres" where
  "parse_frame_len data =
     cbind (buf_rd data 0) (\<lambda>b.
     let first_4bits = unat (drop_bit 4 b) in
     if first_4bits < 13 then Inr (first_4bits, 0)
     else if first_4bits = 13 then cbind (buf_rd data 1) (\<lambda>c. Inr (unat c + 13, 1))
     else if first_4bits = 14 then cbind (buf_rd data 1) (\<lambda>c. cbind (buf_rd data 2) (\<lambda>d. Inr (unat c * 256 + unat d + 269, 2)))
     else cbind (buf_slice data 1 4) (\<lambda>_. Inl Bad_Shift))"

definition coap_parse_message_tcp :: "bytes \<Rightarrow> u16 \<Rightarrow> (nat \<times> coap_packet) cres" where
  "coap_parse_message_tcp data data_len =
     cbind (buf_rd data 0) (\<lambda>b.
     let token_len = min COAP_TOKEN_LEN (unat (b AND 0xF));
         p = cp_zero\<lparr>cp_buffer := data, cp_version := 1, cp_type := 1, cp_mid := 0, cp_token := replicate token_len 0\<rparr>
     in cbind (parse_frame_len data) (\<lambda>(options_payload_size, ext_len_field).
        if ext_len_field + token_len + 2 + options_payload_size > unat data_len then Inr (BAD_REQUEST_4_00, p)
        else
          cbind (buf_rd data (1 + ext_len_field)) (\<lambda>code.
          cbind (buf_slice data (2 + ext_len_field) token_len) (\<lambda>token.
          let p = p\<lparr>cp_code := code, cp_token := token, cp_mid := (if token_len \<ge> 2 then rd16 (token ! 1) (token ! 0) else 0)\<rparr>;
              option_start = 2 + ext_len_field + token_len
          in parse_options (parse_payload_tcp options_payload_size option_start) (unat data_len) option_start 0 p))))"

section \<open>The length prefix\<close>

definition ext_len :: "nat \<Rightarrow> nat" where
  "ext_len l = (if l < 13 then 0 else if l < 268 then 1 else 2)"

lemma tkl_nibble: "k < 16 \<Longrightarrow> of_nat k AND 0xF = (of_nat k :: u8) \<and> take_bit 4 (of_nat k) = (of_nat k :: u8)"
proof -
  assume k: "k < 16"
  then have t: "take_bit 4 (of_nat k) = (of_nat k :: u8)" by (simp add: take_bit_4_u8 unat_of_nat_small)
  have "(0xF :: u8) = mask 4" by (simp add: mask_eq_exp_minus_1)
  then have "of_nat k AND 0xF = take_bit 4 (of_nat k :: u8)" by (simp add: take_bit_eq_mask)
  with t show ?thesis by simp
qed

lemma tkl_byte:
  assumes "k < 16" "unat x < 16"
  defines "b \<equiv> (of_nat k AND 0xF) OR push_bit 4 (x :: u8)"
  shows "unat (b AND 0xF) = k" "drop_bit 4 b = x"
proof -
  have "b = push_bit 4 x OR of_nat k" unfolding b_def using tkl_nibble [OF assms(1)] by (simp add: or.commute)
  then have "b AND 0xF = of_nat k" "drop_bit 4 b = x"
    using nibble_pair [of x "of_nat k"] tkl_nibble [OF assms(1)] assms(2) by (simp_all add: take_bit_4_u8)
  then show "unat (b AND 0xF) = k" "drop_bit 4 b = x" using assms(1) by (simp_all add: unat_of_nat_small)
qed

lemma frame_len_roundtrip:
  assumes "k < 16" "l < 65804" "l \<noteq> 268"
  defines "fl \<equiv> frame_len_bytes k (of_nat l)"
  shows "parse_frame_len (fl @ rs) = Inr (l, ext_len l)" "length fl = 1 + ext_len l" "\<exists>b. buf_rd (fl @ rs) 0 = Inr b \<and> unat (b AND 0xF) = k"
proof -
  have u: "unat (of_nat l :: u32) = l" using assms(2) by (intro unat_of_nat_small) simp
  have "parse_frame_len (fl @ rs) = Inr (l, ext_len l) \<and> length fl = 1 + ext_len l \<and> (\<exists>b. buf_rd (fl @ rs) 0 = Inr b \<and> unat (b AND 0xF) = k)"
  proof -
    consider "l < 13" | "13 \<le> l" "l < 268" | "269 \<le> l" using assms(3) by linarith
    then show ?thesis
    proof cases
      case 1
      then have x: "unat (ucast (of_nat l :: u32) :: u8) = l" by (simp add: unat_ucast_byte)
      have "fl = [(of_nat k AND 0xF) OR push_bit 4 (ucast (of_nat l :: u32))]"
        using 1 u by (simp add: fl_def frame_len_bytes_def word_less_nat_alt)
      then show ?thesis using tkl_byte [OF assms(1), of "ucast (of_nat l :: u32)"] 1 x
        by (simp add: parse_frame_len_def buf_rd_def ext_len_def)
    next
      case 2
      obtain y where y: "l = y + 13" using 2(1) by (metis add.commute le_Suc_ex)
      have "fl = [(of_nat k AND 0xF) OR push_bit 4 13, ucast (of_nat y :: u32)]"
        using 2 u y by (simp add: fl_def frame_len_bytes_def word_less_nat_alt)
      then show ?thesis using tkl_byte [OF assms(1), of 13] 2 y
        by (simp add: parse_frame_len_def buf_rd_def ext_len_def unat_ucast_byte)
    next
      case 3
      obtain y where y: "l = y + 269" using 3 by (metis add.commute le_Suc_ex)
      have m: "(0xFF :: u32) = mask 8" by (simp add: mask_eq_exp_minus_1)
      have "ucast ((of_nat y :: u32) AND 0xFF) = (ucast (of_nat y :: u32) :: u8)"
        unfolding m by (rule bit_word_eqI) (auto simp: bit_simps)
      then have "fl = [(of_nat k AND 0xF) OR push_bit 4 14, ucast (drop_bit 8 (of_nat y :: u32)), ucast (of_nat y :: u32)]"
        using 3 u y assms(2) by (simp add: fl_def frame_len_bytes_def word_less_nat_alt Let_def)
      moreover have "y div 256 * 256 + y mod 256 = y" "y < 65536" using assms(2) y by simp_all
      ultimately show ?thesis using tkl_byte [OF assms(1), of 14] 3 y
        by (simp add: parse_frame_len_def buf_rd_def ext_len_def unat_ucast_byte unat_ucast_drop8)
    qed
  qed
  then show "parse_frame_len (fl @ rs) = Inr (l, ext_len l)" "length fl = 1 + ext_len l" "\<exists>b. buf_rd (fl @ rs) 0 = Inr b \<and> unat (b AND 0xF) = k"
    by auto
qed

section \<open>Serialising\<close>

lemma sref_at_detach: "sref_at b (detach buf r) k n = sref_at buf r k n"
  by (auto simp: detach_def sref_at_def sref_view_def split: option.splits sref.splits)

lemma cp_opt_detach: "cp_opt (cp_detach p) = cp_opt p"
proof
  fix n
  have "cp_val n (cp_detach p) = cp_val n p"
    by (simp add: cp_val_def cp_detach_def Let_def str_field_def sref_at_detach)
  moreover have "IS_OPTION n (cp_detach p) = IS_OPTION n p" by (simp add: IS_OPTION_def cp_detach_def Let_def)
  ultimately show "cp_opt (cp_detach p) n = cp_opt p n" by (simp add: cp_opt_def)
qed

lemma token_frame:
  "cp_detach (p\<lparr>cp_token := t\<rparr>) = (cp_detach p)\<lparr>cp_token := t\<rparr>" "option_fields (p\<lparr>cp_token := t\<rparr>) = option_fields p"
  "IS_OPTION n (p\<lparr>cp_token := t\<rparr>) = IS_OPTION n p" "opts_of (p\<lparr>cp_token := t\<rparr>) es = opts_of p es"
  by (simp_all add: cp_detach_def Let_def option_fields_def IS_OPTION_def opts_of_def)

definition tcp_token :: "coap_packet \<Rightarrow> bytes" where
  "tcp_token p = (if cp_token p = [] then [ucast (cp_mid p), ucast (drop_bit 8 (cp_mid p))] else cp_token p)"

definition tcp_opts :: "coap_packet \<Rightarrow> bytes" where
  "tcp_opts p = enc_opts 0 (opts_of (cp_detach p) (option_fields (cp_detach p)))"

definition tcp_wire :: "coap_packet \<Rightarrow> bytes \<Rightarrow> bytes" where
  "tcp_wire p pl = frame_len_bytes (length (tcp_token p)) (of_nat (length (tcp_opts p @ body_bytes pl))) @ [cp_code p] @ tcp_token p @
     tcp_opts p @ body_bytes pl"

lemma sref_at_length: "sref_at buf r k n = Inr v \<Longrightarrow> length v = n"
  by (auto simp: sref_at_def cbind_eq_Inr split: if_splits)

lemma frame_len_max: "length (frame_len_bytes k l) \<le> 5"
  by (simp add: frame_len_bytes_def Let_def)

lemma serialize_tcp_wire:
  assumes "\<forall>e \<in> set (option_fields (cp_detach p)). IS_OPTION (fst e) (cp_detach p) \<longrightarrow> field_ok (snd e)"
    and pl: "sref_at (cp_buffer p) (cp_payload p) 0 (cp_payload_len p) = Inr pl"
    and "cp_uri_host_len p + cp_uri_path_len p + cp_uri_query_len p \<le> 448"
    and len: "length (tcp_opts p) + (if pl = [] then 0 else 1) \<le> 512"
  obtains rs where "coap_serialize_message_tcp p = Inr (length (tcp_wire p pl), tcp_wire p pl @ rs, p\<lparr>cp_token := tcp_token p\<rparr>)"
proof -
  let ?p = "p\<lparr>cp_token := tcp_token p\<rparr>" and ?o = "tcp_opts p" and ?mk = "if pl = [] then [] else [0xFF] :: bytes"
  have n: "cp_payload_len p = length pl" using sref_at_length [OF pl] by simp
  have p1: "(if cp_token p = [] then p\<lparr>cp_token := [ucast (cp_mid p), ucast (drop_bit 8 (cp_mid p))]\<rparr> else p) = ?p"
    by (simp add: tcp_token_def)
  have "\<exists>cur. serialize_options (cp_detach ?p) (option_fields (cp_detach ?p)) (length ([] :: bytes), 0, [] @ replicate 512 0) =
      cbind (appended [] (enc_opts 0 (opts_of (cp_detach ?p) (option_fields (cp_detach ?p)))) (replicate 512 0)) (\<lambda>(i, buf). Inr (i, cur, buf))"
    using assms(1) len by (intro serialize_options_appends) (auto simp: token_frame tcp_opts_def split: if_splits)
  then obtain cur where so: "serialize_options (cp_detach ?p) (option_fields (cp_detach ?p)) (0, 0, replicate 512 0) =
      Inr (length ?o, cur, ?o @ replicate (512 - length ?o) 0)"
    by (auto simp: appended_def token_frame tcp_opts_def)
  have mk: "(if length pl \<noteq> 0 then cbind (buf_write (length ?o) [0xFF] (?o @ replicate (512 - length ?o) 0)) (\<lambda>buf. Inr (length ?o + 1, buf))
      else Inr (length ?o, ?o @ replicate (512 - length ?o) 0)) =
      Inr (length (?o @ ?mk), (?o @ ?mk) @ replicate (512 - length (?o @ ?mk)) 0)"
    using len buf_write_append [of ?o "length ?o" "[0xFF]" "replicate (512 - length ?o) 0"] by (auto split: if_splits)
  have body: "?o @ ?mk @ pl = ?o @ body_bytes pl" by (simp add: body_bytes_def)
  have blen: "length (?o @ ?mk) + length pl = length (?o @ body_bytes pl)" by (simp add: body_bytes_def)
  have w: "tcp_wire p pl = frame_len_bytes (length (tcp_token p)) (of_nat (length (?o @ ?mk) + length pl)) @ [cp_code p] @ tcp_token p @ (?o @ ?mk) @ pl"
    unfolding tcp_wire_def blen by (simp add: body_bytes_def)
  let ?m = "coap_max_options_offset ?p + length (?o @ ?mk) + length pl"
  have fits: "length (tcp_wire p pl) \<le> ?m"
    unfolding w using frame_len_max [of "length (tcp_token p)"] by (simp add: coap_max_options_offset_def add.commute add_le_mono)
  have blk: "buf_write 0 (tcp_wire p pl) (replicate ?m 0) = Inr (tcp_wire p pl @ drop (length (tcp_wire p pl)) (replicate ?m 0))"
    using buf_write_append [of "[]" 0 "tcp_wire p pl" "replicate ?m 0"] fits by simp
  have tk: "take (length (?o @ ?mk)) ((?o @ ?mk) @ replicate (512 - length (?o @ ?mk)) 0) = ?o @ ?mk" by simp
  have "coap_serialize_message_tcp p = Inr (length (tcp_wire p pl), tcp_wire p pl @ drop (length (tcp_wire p pl)) (replicate ?m 0), ?p)"
    unfolding coap_serialize_message_tcp_def p1 Let_def
    using assms(3) so mk blk tk pl n by (simp add: w)
  then show ?thesis by (rule that)
qed

section \<open>Parsing\<close>

lemma cp_opt_payload: "cp_opt (p\<lparr>cp_payload := r, cp_payload_len := l\<rparr>) = cp_opt p"
  by (simp add: fun_eq_iff cp_opt_def cp_val_def IS_OPTION_def str_field_def)

lemma parse_tail_tcp:
  assumes "drop i (cp_buffer p) = body_bytes pl @ rs" "start \<le> i" "length pl < 65536"
    and none: "cp_payload p = None" "cp_payload_len p = 0"
  defines "dl \<equiv> i + length (body_bytes pl)"
  shows "\<exists>q. parse_options (parse_payload_tcp (dl - start) start) dl i n p = Inr (0, q) \<and> cp_opt q = cp_opt p \<and>
    (cp_code q, cp_mid q, cp_token q) = (cp_code p, cp_mid p, cp_token p) \<and>
    cp_payload_len q = length pl \<and> sref_at (cp_buffer q) (cp_payload q) 0 (cp_payload_len q) = Inr pl"
proof (cases "pl = []")
  case True
  then have "parse_options (parse_payload_tcp (dl - start) start) dl i n p = Inr (0, p)"
    by (subst parse_options.simps) (simp add: dl_def body_bytes_def)
  then show ?thesis using True none by (simp add: sref_at_def)
next
  case False
  then have d: "drop i (cp_buffer p) = 0xFF # pl @ rs" using assms(1) by (simp add: body_bytes_def)
  have rd: "buf_rd (cp_buffer p) i = Inr 0xFF" "drop (Suc i) (cp_buffer p) = pl @ rs" using buf_rd_drop [OF d] by auto
  have dl: "dl = Suc i + length pl" using False by (simp add: dl_def body_bytes_def)
  have "int (dl - start) - (int (Suc i) - int start) = int (length pl)" using dl assms(2) by simp
  then have "parse_payload_tcp (dl - start) start (Suc i) p = Inr (p\<lparr>cp_payload := Some (P_Buf (Suc i)), cp_payload_len := length pl\<rparr>)"
    using assms(3) by (simp add: parse_payload_tcp_def)
  then have run: "parse_options (parse_payload_tcp (dl - start) start) dl i n p =
      Inr (0, p\<lparr>cp_payload := Some (P_Buf (Suc i)), cp_payload_len := length pl\<rparr>)"
    using rd(1) dl by (subst parse_options.simps) simp
  have "length (pl @ rs) = length (cp_buffer p) - Suc i" using rd(2) by (metis length_drop)
  then have "Suc i + length pl \<le> length (cp_buffer p)" using False by (cases pl) auto
  then have "sref_at (cp_buffer p) (Some (P_Buf (Suc i))) 0 (length pl) = Inr pl" using rd(2) by (simp add: sref_at_buf)
  then show ?thesis using run by (simp add: cp_opt_payload)
qed

lemma parse_tcp_encoded:
  fixes code :: u8 and token pl :: bytes
  assumes "length token \<le> 8" "opts_ok 0 os" "opts_status os = None"
  defines "l \<equiv> length (enc_opts 0 os @ body_bytes pl)"
  defines "msg \<equiv> frame_len_bytes (length token) (of_nat l) @ [code] @ token @ enc_opts 0 os @ body_bytes pl"
  assumes "l \<noteq> 268" "length msg < 65536"
  shows "\<exists>q. coap_parse_message_tcp (msg @ rs) (of_nat (length msg)) = Inr (0, q) \<and> cp_opt q = foldl opt_add Map.empty os \<and>
    (cp_code q, cp_mid q, cp_token q) = (code, if 2 \<le> length token then rd16 (token ! 1) (token ! 0) else 0, token) \<and>
    cp_payload_len q = length pl \<and> sref_at (cp_buffer q) (cp_payload q) 0 (cp_payload_len q) = Inr pl"
proof -
  let ?k = "length token" and ?fl = "frame_len_bytes (length token) (of_nat l)" and ?e = "enc_opts 0 os"
  let ?x = "ext_len l"
  define data where "data = msg @ rs"
  have k: "?k < 16" "l < 65804" using assms(1,7) by (simp_all add: msg_def l_def)
  note fl = frame_len_roundtrip [OF k assms(6)]
  have flen: "length ?fl = 1 + ?x" by (rule fl(2))
  have msg: "data = ?fl @ code # token @ ?e @ body_bytes pl @ rs" by (simp add: msg_def data_def)
  obtain b where b: "buf_rd data 0 = Inr b" "unat (b AND 0xF) = ?k" using fl(3) unfolding msg by blast
  have pf: "parse_frame_len data = Inr (l, ?x)" unfolding msg by (rule fl(1))
  have "length msg = 2 + ?x + ?k + l"
    unfolding msg_def length_append flen by (simp add: l_def)
  then have dl: "unat (of_nat (length msg) :: u16) = 2 + ?x + ?k + l"
    using assms(7) by (subst unat_of_nat_small) simp_all
  have d1: "drop (1 + ?x) data = code # token @ ?e @ body_bytes pl @ rs" unfolding msg flen [symmetric] by simp
  have rd: "buf_rd data (1 + ?x) = Inr code" and d2: "drop (2 + ?x) data = token @ ?e @ body_bytes pl @ rs"
    using buf_rd_drop [OF d1] by simp_all
  have tk: "buf_slice data (2 + ?x) ?k = Inr token"
    using buf_slice_take [of token ?k "2 + ?x" data ?k] d2 by simp
  define start where "start = 2 + ?x + ?k"
  have d3: "drop start data = ?e @ body_bytes pl @ rs"
  proof -
    have "drop ?k (drop (2 + ?x) data) = ?e @ body_bytes pl @ rs" unfolding d2 by simp
    then show ?thesis by (simp add: start_def add.commute)
  qed
  define p0 where "p0 = cp_zero\<lparr>cp_buffer := data, cp_version := 1, cp_type := 1, cp_code := code, cp_token := token,
    cp_mid := (if 2 \<le> ?k then rd16 (token ! 1) (token ! 0) else 0)\<rparr>"
  have run: "coap_parse_message_tcp data (of_nat (length msg)) = parse_options (parse_payload_tcp l start) (start + l) start 0 p0"
    unfolding coap_parse_message_tcp_def b(1) cbind_simps Let_def pf prod.case dl
    using b(2) rd tk assms(1) by (simp add: COAP_TOKEN_LEN_def min_absorb2 p0_def start_def)
  have "start \<le> length data" unfolding msg using flen by (simp add: start_def)
  then have inv: "opt_inv start 0 p0" "cp_opt p0 = Map.empty"
    by (intro opt_inv_zero [of _ start]; simp add: p0_def cp_zero_def str_field_def)+
  have "drop start (cp_buffer p0) = ?e @ body_bytes pl @ rs" using d3 by (simp add: p0_def)
  from parse_options_encoded [OF inv(1) assms(2) this, of "start + l" "parse_payload_tcp l start"]
  obtain n p' where p': "parse_options (parse_payload_tcp l start) (start + l) start 0 p0 =
      parse_options (parse_payload_tcp l start) (start + l) (start + length ?e) n p'"
    "cp_opt p' = foldl opt_add Map.empty os" "cp_head p' = cp_head p0" "drop (start + length ?e) (cp_buffer p') = body_bytes pl @ rs"
    using assms(3) inv(2) by (auto simp: l_def)
  have pl: "length pl < 65536" using assms(7) by (simp add: msg_def body_bytes_def split: if_splits)
  have hd: "cp_payload p' = None" "cp_payload_len p' = 0" "cp_code p' = code" "cp_mid p' = cp_mid p0" "cp_token p' = token"
    using p'(3) by (simp_all add: cp_head_def p0_def cp_zero_def)
  have sl: "start + length ?e + length (body_bytes pl) = start + l" by (simp add: l_def)
  have "start + l - start = l" by simp
  then have "\<exists>q. parse_options (parse_payload_tcp l start) (start + l) (start + length ?e) n p' = Inr (0, q) \<and> cp_opt q = cp_opt p' \<and>
      (cp_code q, cp_mid q, cp_token q) = (cp_code p', cp_mid p', cp_token p') \<and>
      cp_payload_len q = length pl \<and> sref_at (cp_buffer q) (cp_payload q) 0 (cp_payload_len q) = Inr pl"
    using parse_tail_tcp [OF p'(4) le_add1 pl hd(1,2), of n] unfolding sl by metis
  then show ?thesis unfolding data_def [symmetric] run p'(1,2) hd by (simp only: p0_def) simp
qed

section \<open>Properties\<close>

text \<open>C8.  Round trip over a stream: a packet whose set options and payload can be read, with options that survive
  the round trip, is serialised into an allocated block, whether its strings lead into its own buffer or
  elsewhere; unless options and payload take 268 bytes together, parsing the block yields the code, the
  options and the payload, the token, and for a packet without token, which is sent with its message
  identifier as token, that identifier.\<close>

theorem coap_tcp_roundtrip:
  assumes "options_rt (cp_detach p)" "length (cp_token p) \<le> 8"
    and "sref_at (cp_buffer p) (cp_payload p) 0 (cp_payload_len p) = Inr pl"
    and "cp_uri_host_len p + cp_uri_path_len p + cp_uri_query_len p \<le> 448" "length (tcp_opts p) < 512"
    and "length (tcp_opts p @ body_bytes pl) \<noteq> 268" "length (tcp_opts p @ body_bytes pl) < 65000"
  shows "\<exists>n block p' q. coap_serialize_message_tcp p = Inr (n, block, p') \<and> coap_parse_message_tcp block (of_nat n) = Inr (0, q) \<and>
    cp_opt q = cp_opt p \<and> cp_code q = cp_code p \<and> sref_at (cp_buffer q) (cp_payload q) 0 (cp_payload_len q) = Inr pl \<and>
    (if cp_token p = [] then cp_mid q = cp_mid p else cp_token q = cp_token p)"
proof -
  let ?os = "opts_of (cp_detach p) (option_fields (cp_detach p))"
  have ok: "\<forall>e \<in> set (option_fields (cp_detach p)). IS_OPTION (fst e) (cp_detach p) \<longrightarrow> field_ok (snd e)"
    using assms(1) by (auto simp: options_rt_def field_rt_ok)
  obtain rs where ser: "coap_serialize_message_tcp p = Inr (length (tcp_wire p pl), tcp_wire p pl @ rs, p\<lparr>cp_token := tcp_token p\<rparr>)"
  proof (rule serialize_tcp_wire [OF ok assms(3,4)])
    show "length (tcp_opts p) + (if pl = [] then 0 else 1) \<le> 512" using assms(5) by simp
  qed
  have el: "length (enc_opts 0 ?os) < 65805" using assms(5) by (simp add: tcp_opts_def)
  note opts = packet_opts [OF assms(1) el]
  have tl: "length (tcp_token p) \<le> 8" using assms(2) by (simp add: tcp_token_def)
  have "length (tcp_wire p pl) < 65536"
    using frame_len_max [of "length (tcp_token p)" "of_nat (length (tcp_opts p @ body_bytes pl))"] tl assms(7) by (simp add: tcp_wire_def)
  then obtain q where q: "coap_parse_message_tcp (tcp_wire p pl @ rs) (of_nat (length (tcp_wire p pl))) = Inr (0, q)"
    "cp_opt q = cp_opt p" "cp_code q = cp_code p" "cp_token q = tcp_token p"
    "cp_mid q = (if 2 \<le> length (tcp_token p) then rd16 (tcp_token p ! 1) (tcp_token p ! 0) else 0)"
    "sref_at (cp_buffer q) (cp_payload q) 0 (cp_payload_len q) = Inr pl"
    using parse_tcp_encoded [OF tl opts(1,2), of pl "cp_code p" rs] assms(6) opts(3)
    unfolding tcp_wire_def tcp_opts_def cp_opt_detach by auto
  have "if cp_token p = [] then cp_mid q = cp_mid p else cp_token q = cp_token p"
    using q(4,5) by (simp add: tcp_token_def rd16_be16)
  with ser q show ?thesis by blast
qed

theorem coap_tcp_roundtrip_witness:
  "\<exists>n block p' q. coap_serialize_message_tcp coap_sample = Inr (n, block, p') \<and> coap_parse_message_tcp block (of_nat n) = Inr (0, q) \<and>
    cp_opt q = cp_opt coap_sample \<and> cp_code q = cp_code coap_sample \<and>
    sref_at (cp_buffer q) (cp_payload q) 0 (cp_payload_len q) = Inr [104, 105] \<and>
    (if cp_token coap_sample = [] then cp_mid q = cp_mid coap_sample else cp_token q = cp_token coap_sample)"
proof (rule coap_tcp_roundtrip)
  show "options_rt (cp_detach coap_sample)" by code_simp
  show "length (cp_token coap_sample) \<le> 8" by code_simp
  show "sref_at (cp_buffer coap_sample) (cp_payload coap_sample) 0 (cp_payload_len coap_sample) = Inr [104, 105]" by code_simp
  show "cp_uri_host_len coap_sample + cp_uri_path_len coap_sample + cp_uri_query_len coap_sample \<le> 448" by code_simp
  show "length (tcp_opts coap_sample) < 512" by code_simp
  show "length (tcp_opts coap_sample @ body_bytes [104, 105]) \<noteq> 268" by code_simp
  show "length (tcp_opts coap_sample @ body_bytes [104, 105]) < 65000" by code_simp
qed

lemma frame_len_268: "k < 16 \<Longrightarrow> parse_frame_len (frame_len_bytes k 268 @ rs) = Inr (65804, 2)"
proof -
  assume k: "k < 16"
  have "frame_len_bytes k 268 = [(of_nat k AND 0xF) OR push_bit 4 14, 0xFF, 0xFF]"
    by (simp add: frame_len_bytes_def Let_def) code_simp
  then show ?thesis using tkl_byte(2) [OF k, of 14] by (simp add: parse_frame_len_def buf_rd_def)
qed

text \<open>When options and payload take exactly 268 bytes the message is announced as 65804 bytes long, and the
  receiver rejects it.\<close>

theorem coap_tcp_268_rejected:
  assumes "options_rt (cp_detach p)" "length (cp_token p) \<le> 8"
    and "sref_at (cp_buffer p) (cp_payload p) 0 (cp_payload_len p) = Inr pl"
    and "cp_uri_host_len p + cp_uri_path_len p + cp_uri_query_len p \<le> 448" "length (tcp_opts p @ body_bytes pl) = 268"
  shows "\<exists>n block p' q. coap_serialize_message_tcp p = Inr (n, block, p') \<and> coap_parse_message_tcp block (of_nat n) = Inr (BAD_REQUEST_4_00, q)"
proof -
  let ?fl = "frame_len_bytes (length (tcp_token p)) 268" and ?w = "tcp_wire p pl"
  have ok: "\<forall>e \<in> set (option_fields (cp_detach p)). IS_OPTION (fst e) (cp_detach p) \<longrightarrow> field_ok (snd e)"
    using assms(1) by (auto simp: options_rt_def field_rt_ok)
  have o: "length (tcp_opts p) + (if pl = [] then 0 else 1) \<le> 512" using assms(5) by (auto simp: body_bytes_def split: if_splits)
  obtain rs where ser: "coap_serialize_message_tcp p = Inr (length ?w, ?w @ rs, p\<lparr>cp_token := tcp_token p\<rparr>)"
    by (rule serialize_tcp_wire [OF ok assms(3,4) o])
  have tl: "length (tcp_token p) < 16" using assms(2) by (simp add: tcp_token_def)
  have w: "?w @ rs = ?fl @ [cp_code p] @ tcp_token p @ tcp_opts p @ body_bytes pl @ rs" unfolding tcp_wire_def assms(5) by simp
  have "unat (of_nat (length ?w) :: u16) < 2 ^ LENGTH(16)" by (rule unsigned_less)
  moreover have "parse_frame_len (?w @ rs) = Inr (65804, 2)" unfolding w by (rule frame_len_268 [OF tl])
  moreover obtain b where "buf_rd (?w @ rs) 0 = Inr b" unfolding w by (auto simp: buf_rd_def frame_len_bytes_def Let_def)
  ultimately show ?thesis using ser by (simp add: coap_parse_message_tcp_def Let_def)
qed

definition coap_sample_268 :: coap_packet where
  "coap_sample_268 = coap_sample\<lparr>cp_payload := Some (P_Ext (replicate 251 0)), cp_payload_len := 251\<rparr>"

theorem coap_tcp_268_rejected_witness:
  "\<exists>n block p' q. coap_serialize_message_tcp coap_sample_268 = Inr (n, block, p') \<and>
     coap_parse_message_tcp block (of_nat n) = Inr (BAD_REQUEST_4_00, q)"
proof (rule coap_tcp_268_rejected)
  show "options_rt (cp_detach coap_sample_268)" by code_simp
  show "length (cp_token coap_sample_268) \<le> 8" by code_simp
  show "sref_at (cp_buffer coap_sample_268) (cp_payload coap_sample_268) 0 (cp_payload_len coap_sample_268) = Inr (replicate 251 0)"
    by code_simp
  show "cp_uri_host_len coap_sample_268 + cp_uri_path_len coap_sample_268 + cp_uri_query_len coap_sample_268 \<le> 448" by code_simp
  show "length (tcp_opts coap_sample_268 @ body_bytes (replicate 251 0)) = 268" by code_simp
qed

end
