(* ===== verification/Coap_Typed.thy ===== *)
theory Coap_Typed
  imports Coap_Accessors
begin

text \<open>
  The ranges that the fixed arrays and bit fields of \<open>coap_packet_t\<close> impose: every packet that the parser returns or
  that the setters build from an initialised one fits them.
\<close>

section \<open>Well-formed packets\<close>

definition size_ok :: "u16 \<Rightarrow> bool" where
  "size_ok sz \<longleftrightarrow> 16 \<le> sz \<and> sz \<le> 2048"

text \<open>The fields with a fixed length, and the block sizes, which count when the option is present.\<close>

definition arrays_ok :: "coap_packet \<Rightarrow> bool" where
  "arrays_ok p \<longleftrightarrow> length (cp_options p) = 8 \<and> length (cp_token p) \<le> COAP_TOKEN_LEN \<and> length (cp_etag p) \<le> COAP_ETAG_LEN \<and>
     length (cp_if_match p) \<le> COAP_ETAG_LEN \<and> cp_payload_len p \<le> REST_MAX_CHUNK_SIZE"

definition packet_wf :: "coap_packet \<Rightarrow> bool" where
  "packet_wf p \<longleftrightarrow> arrays_ok p \<and> (IS_OPTION COAP_OPTION_BLOCK2 p \<longrightarrow> size_ok (cp_block2_size p)) \<and>
     (IS_OPTION COAP_OPTION_BLOCK1 p \<longrightarrow> size_ok (cp_block1_size p))"

lemma set_opt_array_fields [simp]:
  "cp_token (set_opt n p) = cp_token p" "cp_etag (set_opt n p) = cp_etag p" "cp_if_match (set_opt n p) = cp_if_match p"
  "cp_payload_len (set_opt n p) = cp_payload_len p" "cp_block1_size (set_opt n p) = cp_block1_size p"
  "cp_block2_size (set_opt n p) = cp_block2_size p"
  by (simp_all add: set_opt_def SET_OPTION_def)

lemma arrays_ok_set_opt [simp]: "arrays_ok (set_opt n p) = arrays_ok p"
  by (simp add: arrays_ok_def length_set_opt)

section \<open>The parser\<close>

lemma size_ok_shift: "size_ok (push_bit (unat ((v :: u32) AND 7)) 16)"
proof -
  have "v AND 7 = take_bit 3 v" by (simp add: take_bit_eq_mask mask_numeral)
  then have "unat (v AND 7) < 2 ^ 3" using unsigned_take_bit_eq [of 3 v] by (metis take_bit_nat_less_exp)
  then have "unat (v AND 7) \<in> {0, 1, 2, 3, 4, 5, 6, 7}" by auto
  then show ?thesis by (auto simp: size_ok_def push_bit_eq_mult)
qed

lemma slice_length: "buf_slice buf i n = Inr v \<Longrightarrow> length v = n"
  by (auto simp: buf_slice_def split: if_splits)

text \<open>What the \<open>switch\<close> leaves of these fields.\<close>

definition switch_ok :: "nat \<Rightarrow> coap_packet \<Rightarrow> coap_packet \<Rightarrow> bool" where
  "switch_ok n p p' \<longleftrightarrow> arrays_ok p' \<and> cp_options p' = cp_options p \<and>
     (if n = COAP_OPTION_BLOCK2 then size_ok (cp_block2_size p') else cp_block2_size p' = cp_block2_size p) \<and>
     (if n = COAP_OPTION_BLOCK1 then size_ok (cp_block1_size p') else cp_block1_size p' = cp_block1_size p)"

lemma parse_switch_fields: "parse_switch n i l p = Inr (st, p') \<Longrightarrow> arrays_ok p \<Longrightarrow> switch_ok n p p'"
  unfolding parse_switch_def Let_def
  by (elim if_InrE cbind_InrE; clarsimp simp: switch_ok_def arrays_ok_def size_ok_shift split_def dest!: slice_length)

lemma parse_option_wf:
  assumes "parse_option b i number p = Inr (st, i', number', p')" and w: "packet_wf p"
  shows "packet_wf p'"
proof -
  from assms(1) obtain n j l q where o: "SET_OPTION n p = Inr q" "parse_switch n j l q = Inr (st, p')"
    by (auto simp: parse_option_def cbind_eq_Inr)
  have a: "length (cp_options p) = 8" using w by (simp add: packet_wf_def arrays_ok_def)
  with o(1) have n: "n < 64" "q = set_opt n p" by (auto simp: SET_OPTION_def set_opt_def split: if_splits)
  have "arrays_ok q" using w n(2) by (simp add: packet_wf_def)
  with o(2) have f: "switch_ok n q p'" by (rule parse_switch_fields)
  have "IS_OPTION m p' \<longleftrightarrow> m = n \<or> IS_OPTION m p" if "m < 64" for m
    using IS_OPTION_cong [of p' q m] f [unfolded switch_ok_def] IS_OPTION_set_opt [OF a n(1) that] n(2) by simp
  then show ?thesis using f w n(2) by (auto simp: packet_wf_def switch_ok_def split: if_splits)
qed

lemma parse_options_wf:
  assumes "parse_options (parse_payload data_len) data_len i number p = Inr (s, p')" and "packet_wf p"
  shows "packet_wf p'"
  using assms
proof (induction "parse_payload data_len" data_len i number p arbitrary: s p' rule: parse_options.induct)
  case (1 data_len i number p)
  show ?case
  proof (cases "i < data_len")
    case True
    with "1.prems"(1) obtain b where b: "buf_rd (cp_buffer p) i = Inr b"
      "(if b AND 0xF0 = 0xF0 then cbind (parse_payload data_len (i + 1) p) (\<lambda>p. Inr (0, p))
        else cbind (parse_option b i number p) (\<lambda>(st, i, number, p).
          case st of Some s \<Rightarrow> Inr (s, p) | None \<Rightarrow> parse_options (parse_payload data_len) data_len i number p)) = Inr (s, p')"
      by (subst (asm) parse_options.simps) (simp add: cbind_eq_Inr, blast)
    show ?thesis
    proof (cases "b AND 0xF0 = 0xF0")
      case t: True
      with b(2) "1.prems"(2) show ?thesis by (auto simp: cbind_eq_Inr parse_payload_def Let_def packet_wf_def arrays_ok_def IS_OPTION_def)
    next
      case f: False
      with b(2) obtain st i' number' q where q: "parse_option b i number p = Inr (st, i', number', q)"
        "(case st of Some s \<Rightarrow> Inr (s, q) | None \<Rightarrow> parse_options (parse_payload data_len) data_len i' number' q) = Inr (s, p')"
        by (auto simp: cbind_eq_Inr)
      from q(1) "1.prems"(2) have w: "packet_wf q" by (rule parse_option_wf)
      show ?thesis
      proof (cases st)
        case None
        then show ?thesis using "1.hyps" [OF True b(1) f q(1) refl refl refl None _ w] q(2) by simp
      qed (use w q(2) in simp)
    qed
  next
    case False
    then show ?thesis using "1.prems" by (simp add: parse_options.simps)
  qed
qed

lemma parse_message_wf: "coap_parse_message data len = Inr (s, p) \<Longrightarrow> packet_wf p"
  unfolding coap_parse_message_def Let_def
proof (elim cbind_InrE if_InrE)
  fix h
  assume "Inr (BAD_REQUEST_4_00, cp_zero\<lparr>cp_buffer := data, cp_version := drop_bit 6 (0xC0 AND h ! 0), cp_type := drop_bit 4 (0x30 AND h ! 0),
      cp_code := h ! 1, cp_mid := rd16 (h ! 2) (h ! 3)\<rparr>\<lparr>cp_token := replicate (min COAP_TOKEN_LEN (unat (0x0F AND h ! 0))) 0\<rparr>) = Inr (s, p)"
  then show "packet_wf p" by (auto simp: packet_wf_def arrays_ok_def cp_zero_def IS_OPTION_def)
next
  fix h token
  assume "buf_slice data 4 (min COAP_TOKEN_LEN (unat (0x0F AND h ! 0))) = Inr token"
    and o: "parse_options (parse_payload (unat len)) (unat len) (4 + min COAP_TOKEN_LEN (unat (0x0F AND h ! 0))) 0
      (cp_zero\<lparr>cp_buffer := data, cp_version := drop_bit 6 (0xC0 AND h ! 0), cp_type := drop_bit 4 (0x30 AND h ! 0),
        cp_code := h ! 1, cp_mid := rd16 (h ! 2) (h ! 3)\<rparr>\<lparr>cp_token := token\<rparr>) = Inr (s, p)"
  then have "length token \<le> COAP_TOKEN_LEN" by (auto dest: slice_length)
  with o show "packet_wf p"
    by (elim parse_options_wf) (simp add: packet_wf_def arrays_ok_def cp_zero_def IS_OPTION_def)
qed

section \<open>The setters\<close>

datatype packet_op = Op_Header header_op | Op_Token bytes | Op_Payload "sref option" nat

fun packet_set :: "packet_op \<Rightarrow> coap_packet \<Rightarrow> coap_packet" where
  "packet_set (Op_Header op) p = header_set op p"
| "packet_set (Op_Token token) p = snd (coap_set_token token p)"
| "packet_set (Op_Payload v n) p = snd (coap_set_payload v n p)"

lemma wf_set_opt:
  assumes "packet_wf p" and "n < 64" and "arrays_ok q" and "cp_options q = cp_options p"
    and "if n = COAP_OPTION_BLOCK2 then size_ok (cp_block2_size q) else cp_block2_size q = cp_block2_size p"
    and "if n = COAP_OPTION_BLOCK1 then size_ok (cp_block1_size q) else cp_block1_size q = cp_block1_size p"
  shows "packet_wf (set_opt n q)"
proof -
  have "length (cp_options q) = 8" using assms(3) by (simp add: arrays_ok_def)
  moreover have "IS_OPTION m q = IS_OPTION m p" for m using assms(4) by (rule IS_OPTION_cong)
  ultimately show ?thesis using assms by (auto simp: packet_wf_def IS_OPTION_set_opt split: if_splits)
qed

lemma wf_fields: "packet_wf p \<Longrightarrow> arrays_ok p"
  by (simp add: packet_wf_def)

lemma location_query_wf:
  assumes "packet_wf p"
  shows "packet_wf (coap_set_header_location_query v p)"
  using wf_fields [OF assms] by (auto simp: coap_set_header_location_query_def Let_def arrays_ok_def intro!: wf_set_opt [OF assms])

lemma location_path_wf:
  assumes w: "packet_wf p"
  shows "packet_wf (snd (coap_set_header_location_path v p))"
proof -
  let ?v = "dropWhile (\<lambda>c. c = 47) v" and ?n = "length (takeWhile (\<lambda>c. c \<noteq> 63) (dropWhile (\<lambda>c. c = 47) v))"
  define q where "q = (if ?n < length ?v then coap_set_header_location_query (drop (?n + 1) ?v) p else p)"
  have q: "packet_wf q" using w location_query_wf by (simp add: q_def)
  let ?q = "q\<lparr>cp_location_path_len := ?n, cp_location_path := c_string ?v\<rparr>"
  have q2: "packet_wf ?q" using q by (simp add: packet_wf_def arrays_ok_def IS_OPTION_def)
  then have "packet_wf (set_opt COAP_OPTION_LOCATION_PATH ?q)" by (rule wf_set_opt) (use wf_fields [OF q2] in simp_all)
  moreover have "snd (coap_set_header_location_path v p) = (if ?n > 0 then set_opt COAP_OPTION_LOCATION_PATH ?q else ?q)"
    by (simp only: coap_set_header_location_path_def Let_def q_def [symmetric] snd_conv)
  ultimately show ?thesis using q2 by presburger
qed

lemma header_set_wf:
  assumes w: "packet_wf p"
  shows "packet_wf (header_set op p)"
proof (cases op)
  case (H_location_path s)
  then show ?thesis using location_path_wf [OF w] by simp
next
  case (H_block2 num mr sz)
  then show ?thesis using w wf_fields [OF w]
    by (auto simp: coap_set_header_block2_def arrays_ok_def size_ok_def not_less intro!: wf_set_opt [OF w])
next
  case (H_block1 num mr sz)
  then show ?thesis using w wf_fields [OF w]
    by (auto simp: coap_set_header_block1_def arrays_ok_def size_ok_def not_less intro!: wf_set_opt [OF w])
qed (use wf_fields [OF w] in \<open>auto simp: coap_set_header_content_format_def coap_set_header_accept_def coap_set_header_observe_def
    coap_set_header_size2_def coap_set_header_size1_def coap_set_header_max_age_def coap_set_header_etag_def coap_set_header_if_match_def
    coap_set_header_if_none_match_def coap_set_header_uri_host_def coap_set_header_uri_path_def coap_set_header_uri_query_def
    coap_set_header_location_query_def Let_def arrays_ok_def intro!: wf_set_opt [OF w]\<close>)

lemma packet_set_wf: "packet_wf p \<Longrightarrow> packet_wf (packet_set op p)"
  by (cases op) (simp_all add: header_set_wf, simp_all add: coap_set_token_def coap_set_payload_def packet_wf_def arrays_ok_def IS_OPTION_def)

lemma packet_sets_wf: "packet_wf p \<Longrightarrow> packet_wf (fold packet_set ops p)"
  by (induction ops arbitrary: p) (simp_all add: packet_set_wf)

section \<open>Properties\<close>

text \<open>C20.  The type of packets: of every packet that \<open>coap_init_message\<close> makes or the parser returns, whatever setters are
  called on it then, with whichever values, the bitmap has eight bytes, the token, the entity tag and the match
  value have at most eight, the payload is at most as long as a packet can carry, and a block option that is
  present has a size from 16 to 2048.  The parser returns no packet, because it has written behind the bitmap,
  when an option number is 64 or more: see \<open>coap_parse_number_overflow\<close>.\<close>

theorem coap_packet_typed:
  assumes "p = coap_init_message t code mid \<or> coap_parse_message data len = Inr (status, p)"
  shows "packet_wf (fold packet_set ops p)"
proof -
  have "packet_wf (coap_init_message t code mid)"
    by (simp add: packet_wf_def arrays_ok_def coap_init_message_def cp_zero_def IS_OPTION_def)
  then show ?thesis using assms by (auto intro: packet_sets_wf parse_message_wf)
qed

text \<open>A received request with a path, a block and a token, whose block option is then replaced.\<close>

definition typed_sample :: bytes where
  "typed_sample = [0x42, 1, 0, 7, 9, 9, 0xB1, 116, 0xC1, 6, 255, 1, 0]"

theorem coap_packet_typed_witness:
  "\<exists>p. coap_parse_message typed_sample 12 = Inr (0, p) \<and> IS_OPTION COAP_OPTION_BLOCK2 p \<and>
     packet_wf (fold packet_set [Op_Header (H_block2 1 0 64), Op_Token [1, 2, 3, 4, 5, 6, 7, 8, 9]] p)"
proof -
  have "case coap_parse_message typed_sample 12 of Inl e \<Rightarrow> False | Inr (s, p) \<Rightarrow> s = 0 \<and> IS_OPTION COAP_OPTION_BLOCK2 p" by code_simp
  then obtain p where p: "coap_parse_message typed_sample 12 = Inr (0, p)" "IS_OPTION COAP_OPTION_BLOCK2 p"
    by (auto split: sum.splits)
  from coap_packet_typed [where ops = "[Op_Header (H_block2 1 0 64), Op_Token [1, 2, 3, 4, 5, 6, 7, 8, 9]]", OF disjI2, OF p(1)] p
  show ?thesis by blast
qed

end
