(* ===== verification/Coap_List.thy ===== *)
theory Coap_List
  imports Prelude
begin

text \<open>
  The singly linked lists of the CoAP engine, \<open>src/idr-mgt-shared-libs/coap/extension/list.c\<close>, at the level of
  pointers.  An address is a number; \<open>links\<close> maps the address of an item to its \<open>next\<close> member, with no entry for
  an address that holds no item.  A loop over the items need not end, so its result is an option: \<open>None\<close> for a
  loop that runs forever, \<open>Some\<close> of a result or fault otherwise.
\<close>

section \<open>Results of loops\<close>

type_synonym 'a run = "'a cres option"

definition rbind :: "'a run \<Rightarrow> ('a \<Rightarrow> 'b run) \<Rightarrow> 'b run" where
  "rbind m f = Option.bind m (case_sum (\<lambda>e. Some (Inl e)) f)"

abbreviation done_with :: "'a \<Rightarrow> 'a run" where "done_with x \<equiv> Some (Inr x)"

lemma rbind_mono [partial_function_mono]:
  assumes "mono_option B" and "\<And>y. mono_option (\<lambda>f. C y f)"
  shows "mono_option (\<lambda>f. rbind (B f) (\<lambda>y. C y f))"
  unfolding rbind_def
proof (rule bind_mono [OF assms(1)])
  show "mono_option (\<lambda>f. case r of Inl e \<Rightarrow> Some (Inl e) | Inr y \<Rightarrow> C y f)" for r
    using assms(2) by (cases r) (simp_all add: option.const_mono)
qed

lemma rbind_simps [simp]: "rbind (Some (Inr x)) f = f x" "rbind (Some (Inl e)) f = Some (Inl e)" "rbind None f = None"
  by (simp_all add: rbind_def)

section \<open>Model\<close>

type_synonym links = "nat \<rightharpoonup> nat option"

record clist =
  cl_head :: "nat option"
  cl_next :: links

definition list_init_coap :: "clist \<Rightarrow> clist" where "list_init_coap l = l\<lparr>cl_head := None\<rparr>"

definition list_head :: "clist \<Rightarrow> nat option" where "list_head l = cl_head l"

definition list_copy :: "clist \<Rightarrow> clist \<Rightarrow> clist" where "list_copy dest src = dest\<lparr>cl_head := cl_head src\<rparr>"

partial_function (option) tail_loop :: "links \<Rightarrow> nat \<Rightarrow> nat run" where
  "tail_loop L l = (case L l of None \<Rightarrow> Some (Inl Bad_Pointer) | Some None \<Rightarrow> Some (Inr l) | Some (Some n) \<Rightarrow> tail_loop L n)"

definition list_tail :: "clist \<Rightarrow> nat option run" where
  "list_tail l = (case cl_head l of None \<Rightarrow> done_with None | Some h \<Rightarrow> rbind (tail_loop (cl_next l) h) (\<lambda>t. done_with (Some t)))"

text \<open>The search of \<open>list_remove_coap\<close>: the item before the one searched, \<open>None\<close> when the search fails.\<close>

partial_function (option) find_loop :: "nat \<Rightarrow> links \<Rightarrow> nat option \<Rightarrow> nat option \<Rightarrow> nat option option run" where
  "find_loop item L r l =
     (if l = None then Some (Inr None)
      else if l = Some item then Some (Inr (Some r))
      else case L (the l) of None \<Rightarrow> Some (Inl Bad_Pointer) | Some n \<Rightarrow> find_loop item L l n)"

definition list_remove_coap :: "nat \<Rightarrow> clist \<Rightarrow> clist run" where
  "list_remove_coap item l =
     rbind (find_loop item (cl_next l) None (cl_head l)) (\<lambda>f.
     case f of
       None \<Rightarrow> done_with l
     | Some r \<Rightarrow>
         (case cl_next l item of
            None \<Rightarrow> Some (Inl Bad_Pointer)
          | Some n \<Rightarrow>
              done_with (case r of
                None \<Rightarrow> l\<lparr>cl_head := n, cl_next := (cl_next l)(item \<mapsto> None)\<rparr>
              | Some r \<Rightarrow> l\<lparr>cl_next := (cl_next l)(r \<mapsto> n, item \<mapsto> None)\<rparr>)))"

text \<open>A write of the \<open>next\<close> member of an item.\<close>

definition set_next :: "nat \<Rightarrow> nat option \<Rightarrow> clist \<Rightarrow> clist run" where
  "set_next x n l = (if cl_next l x = None then Some (Inl Bad_Pointer) else done_with (l\<lparr>cl_next := (cl_next l)(x \<mapsto> n)\<rparr>))"

definition list_add_coap :: "nat \<Rightarrow> clist \<Rightarrow> clist run" where
  "list_add_coap item l =
     rbind (list_remove_coap item l) (\<lambda>l.
     rbind (set_next item None l) (\<lambda>l.
     rbind (list_tail l) (\<lambda>t.
     case t of None \<Rightarrow> done_with (l\<lparr>cl_head := Some item\<rparr>) | Some t \<Rightarrow> set_next t (Some item) l)))"

definition list_push :: "nat \<Rightarrow> clist \<Rightarrow> clist run" where
  "list_push item l =
     rbind (list_remove_coap item l) (\<lambda>l.
     rbind (set_next item (cl_head l) l) (\<lambda>l. done_with (l\<lparr>cl_head := Some item\<rparr>)))"

partial_function (option) chop_loop :: "links \<Rightarrow> nat \<Rightarrow> (nat \<times> nat) run" where
  "chop_loop L l =
     (case L l of
        Some (Some n) \<Rightarrow> (case L n of None \<Rightarrow> Some (Inl Bad_Pointer) | Some None \<Rightarrow> Some (Inr (l, n)) | Some (Some m) \<Rightarrow> chop_loop L n)
      | _ \<Rightarrow> Some (Inl Bad_Pointer))"

definition list_chop :: "clist \<Rightarrow> (nat option \<times> clist) run" where
  "list_chop l =
     (case cl_head l of
        None \<Rightarrow> done_with (None, l)
      | Some h \<Rightarrow>
          (case cl_next l h of
             None \<Rightarrow> Some (Inl Bad_Pointer)
           | Some None \<Rightarrow> done_with (Some h, l\<lparr>cl_head := None\<rparr>)
           | Some (Some _) \<Rightarrow>
               rbind (chop_loop (cl_next l) h) (\<lambda>(x, r). done_with (Some r, l\<lparr>cl_next := (cl_next l)(x \<mapsto> None)\<rparr>))))"

definition list_pop :: "clist \<Rightarrow> (nat option \<times> clist) run" where
  "list_pop l =
     (case cl_head l of
        None \<Rightarrow> done_with (None, l)
      | Some h \<Rightarrow> (case cl_next l h of None \<Rightarrow> Some (Inl Bad_Pointer) | Some n \<Rightarrow> done_with (Some h, l\<lparr>cl_head := n\<rparr>)))"

partial_function (option) length_loop :: "links \<Rightarrow> int \<Rightarrow> nat option \<Rightarrow> int run" where
  "length_loop L n l =
     (case l of
        None \<Rightarrow> Some (Inr n)
      | Some x \<Rightarrow> (case L x of None \<Rightarrow> Some (Inl Bad_Pointer) | Some m \<Rightarrow> length_loop L (n + 1) m))"

definition list_length :: "clist \<Rightarrow> int run" where
  "list_length l = length_loop (cl_next l) 0 (cl_head l)"

definition list_insert :: "nat option \<Rightarrow> nat \<Rightarrow> clist \<Rightarrow> clist run" where
  "list_insert previtem newitem l =
     (case previtem of
        None \<Rightarrow> list_push newitem l
      | Some p \<Rightarrow>
          (case cl_next l p of
             None \<Rightarrow> Some (Inl Bad_Pointer)
           | Some n \<Rightarrow> rbind (set_next newitem n l) (set_next p (Some newitem))))"

definition list_item_next :: "nat option \<Rightarrow> clist \<Rightarrow> nat option cres" where
  "list_item_next item l = (case item of None \<Rightarrow> Inr None | Some x \<Rightarrow> case cl_next l x of None \<Rightarrow> Inl Bad_Pointer | Some n \<Rightarrow> Inr n)"

section \<open>Paths\<close>

fun path :: "links \<Rightarrow> nat option \<Rightarrow> nat list \<Rightarrow> nat option \<Rightarrow> bool" where
  "path L p [] q \<longleftrightarrow> p = q"
| "path L p (x # xs) q \<longleftrightarrow> p = Some x \<and> (\<exists>n. L x = Some n \<and> path L n xs q)"

lemma path_append [simp]: "path L p (xs @ ys) q \<longleftrightarrow> (\<exists>r. path L p xs r \<and> path L r ys q)"
  by (induction xs arbitrary: p) auto

lemma path_upd [simp]: "x \<notin> set xs \<Longrightarrow> path (L(x := v)) p xs q = path L p xs q"
  by (induction xs arbitrary: p) auto

lemma path_None [simp]: "path L None xs None \<longleftrightarrow> xs = []" by (cases xs) auto

lemma path_unique: "path L p xs None \<Longrightarrow> path L p ys None \<Longrightarrow> xs = ys"
proof (induction xs arbitrary: p ys)
  case (Cons x xs)
  then show ?case by (cases ys) auto
qed simp

lemma path_mem: "path L p xs q \<Longrightarrow> x \<in> set xs \<Longrightarrow> L x \<noteq> None"
  by (induction xs arbitrary: p) auto

text \<open>A list that ends does not visit an item twice.\<close>

lemma path_distinct: "path L p xs None \<Longrightarrow> distinct xs"
proof (induction xs arbitrary: p)
  case (Cons x xs)
  have "x \<notin> set xs"
  proof
    assume "x \<in> set xs"
    then obtain ys zs where s: "xs = ys @ x # zs" by (meson split_list)
    from Cons.prems obtain n where n: "L x = Some n" "path L n xs None" by auto
    with s have "path L n zs None" by auto
    with n(2) have "xs = zs" by (rule path_unique)
    with s show False by auto
  qed
  with Cons show ?case by auto
qed simp

text \<open>The state of a list as the sequence of its items.\<close>

definition chain :: "clist \<Rightarrow> nat list \<Rightarrow> bool" where
  "chain l xs \<longleftrightarrow> path (cl_next l) (cl_head l) xs None"

text \<open>Only the \<open>next\<close> members of the items of a set are written, and no item appears or disappears.\<close>

definition writes_only :: "nat set \<Rightarrow> clist \<Rightarrow> clist \<Rightarrow> bool" where
  "writes_only A l l' \<longleftrightarrow> dom (cl_next l') = dom (cl_next l) \<and> (\<forall>y. y \<notin> A \<longrightarrow> cl_next l' y = cl_next l y)"

lemma chain_distinct: "chain l xs \<Longrightarrow> distinct xs"
  unfolding chain_def by (rule path_distinct)

lemma chain_unique: "chain l xs \<Longrightarrow> chain l ys \<Longrightarrow> xs = ys"
  unfolding chain_def by (rule path_unique)

lemma chain_mem: "chain l xs \<Longrightarrow> x \<in> set xs \<Longrightarrow> x \<in> dom (cl_next l)"
  using path_mem by (fastforce simp: chain_def)

lemma writes_only_refl [simp]: "writes_only A l l"
  by (simp add: writes_only_def)

lemma writes_only_trans: "writes_only A l1 l2 \<Longrightarrow> writes_only B l2 l3 \<Longrightarrow> writes_only (A \<union> B) l1 l3"
  by (simp add: writes_only_def)

lemma writes_only_mono: "writes_only A l l' \<Longrightarrow> A \<subseteq> B \<Longrightarrow> writes_only B l l'"
  by (auto simp: writes_only_def)

section \<open>The loops\<close>

lemma tail_loop_path: "path L p (xs @ [t]) None \<Longrightarrow> p = Some h \<Longrightarrow> tail_loop L h = done_with t"
proof (induction xs arbitrary: p h)
  case Nil
  then show ?case by (simp add: tail_loop.simps)
next
  case (Cons x xs)
  then obtain n where "L h = Some n" "path L n (xs @ [t]) None" by auto
  moreover from this(2) obtain m where "n = Some m" by (cases xs) auto
  ultimately show ?case using Cons.IH [of n m] by (simp add: tail_loop.simps [of L h])
qed

lemma find_loop_found:
  "path L p ys (Some x) \<Longrightarrow> x \<notin> set ys \<Longrightarrow> find_loop x L r p = done_with (Some (if ys = [] then r else Some (last ys)))"
proof (induction ys arbitrary: p r)
  case Nil
  then show ?case by (simp add: find_loop.simps)
next
  case (Cons y ys)
  then show ?case by (auto simp add: find_loop.simps [of x L r])
qed

lemma find_loop_missing: "path L p xs None \<Longrightarrow> x \<notin> set xs \<Longrightarrow> find_loop x L r p = done_with None"
proof (induction xs arbitrary: p r)
  case Nil
  then show ?case by (simp add: find_loop.simps)
next
  case (Cons y ys)
  then show ?case by (auto simp add: find_loop.simps [of x L r])
qed

lemma chop_loop_path: "path L p (xs @ [y, t]) None \<Longrightarrow> p = Some h \<Longrightarrow> chop_loop L h = done_with (y, t)"
proof (induction xs arbitrary: p h)
  case Nil
  then show ?case by (simp add: chop_loop.simps)
next
  case (Cons x xs)
  then obtain n where n: "L h = Some n" "path L n (xs @ [y, t]) None" by auto
  moreover from n(2) obtain m k where "n = Some m" "L m = Some (Some k)" by (cases xs; cases "tl xs") auto
  ultimately show ?case using Cons.IH [of n m] by (simp add: chop_loop.simps [of L h])
qed

lemma length_loop_path: "path L p xs None \<Longrightarrow> length_loop L n p = done_with (n + int (length xs))"
proof (induction xs arbitrary: p n)
  case Nil
  then show ?case by (simp add: length_loop.simps)
next
  case (Cons x xs)
  then show ?case by (auto simp add: length_loop.simps [of L n])
qed

text \<open>A loop that returns has left every item that points to itself.\<close>

lemma length_loop_leaves_cycle:
  assumes "length_loop L n p = Some r" shows "L x = Some (Some x) \<longrightarrow> p \<noteq> Some x"
  by (rule length_loop.raw_induct [OF _ assms]) (auto split: option.split_asm, metis)

lemma length_loop_cycle: "L x = Some (Some x) \<Longrightarrow> length_loop L n (Some x) = None"
  using length_loop_leaves_cycle [of L n "Some x" _ x] by (cases "length_loop L n (Some x)") auto

section \<open>The operations on sequences\<close>

lemma remove_chain:
  assumes c: "chain l xs"
  obtains l' where "list_remove_coap x l = done_with l'" and "chain l' (remove1 x xs)"
    and "writes_only (set xs) l l'"
proof (cases "x \<in> set xs")
  case False
  with c that [of l] show ?thesis
    by (simp add: list_remove_coap_def chain_def find_loop_missing remove1_idem)
next
  case True
  then obtain ys zs where s: "xs = ys @ x # zs" "x \<notin> set ys" by (meson split_list_first)
  from c s obtain n where n: "path (cl_next l) (cl_head l) ys (Some x)" "cl_next l x = Some n" "path (cl_next l) n zs None"
    by (auto simp: chain_def)
  from chain_distinct [OF c] s have d: "x \<notin> set zs" "distinct ys" "set ys \<inter> set zs = {}" by auto
  have r: "remove1 x xs = ys @ zs" using s by (simp add: remove1_append)
  show ?thesis
  proof (cases ys rule: rev_cases)
    case Nil
    with n s d r find_loop_found [OF n(1)] that [of "l\<lparr>cl_head := n, cl_next := (cl_next l)(x \<mapsto> None)\<rparr>"] show ?thesis
      by (auto simp: list_remove_coap_def chain_def writes_only_def insert_dom)
  next
    case (snoc vs y)
    with n s d r that [of "l\<lparr>cl_next := (cl_next l)(y \<mapsto> n, x \<mapsto> None)\<rparr>"] show ?thesis
      by (auto simp: list_remove_coap_def find_loop_found [OF n(1)] chain_def writes_only_def)
  qed
qed

lemma set_next_done: "x \<in> dom (cl_next l) \<Longrightarrow> set_next x n l = done_with (l\<lparr>cl_next := (cl_next l)(x \<mapsto> n)\<rparr>)"
  by (auto simp: set_next_def)

lemma tail_chain: "chain l xs \<Longrightarrow> list_tail l = done_with (if xs = [] then None else Some (last xs))"
proof (cases xs rule: rev_cases)
  case Nil
  moreover assume "chain l xs"
  ultimately show ?thesis by (simp add: list_tail_def chain_def)
next
  case (snoc ys t)
  moreover assume "chain l xs"
  ultimately have p: "path (cl_next l) (cl_head l) (ys @ [t]) None" by (simp add: chain_def)
  then obtain h where "cl_head l = Some h" by (cases ys) auto
  with p tail_loop_path [OF p] snoc show ?thesis by (simp add: list_tail_def)
qed

lemma add_chain:
  assumes c: "chain l xs" and x: "x \<in> dom (cl_next l)"
  obtains l' where "list_add_coap x l = done_with l'" and "chain l' (remove1 x xs @ [x])"
    and "writes_only (insert x (set xs)) l l'"
proof -
  from c obtain l1 where r: "list_remove_coap x l = done_with l1" "chain l1 (remove1 x xs)" "writes_only (set xs) l l1"
    by (rule remove_chain)
  define ys where "ys = remove1 x xs"
  define l2 where "l2 = l1\<lparr>cl_next := (cl_next l1)(x \<mapsto> None)\<rparr>"
  from chain_distinct [OF c] have n: "x \<notin> set ys" by (simp add: ys_def)
  from r(3) x have d: "x \<in> dom (cl_next l1)" by (simp add: writes_only_def)
  have c2: "chain l2 ys" using r(2) n by (simp add: chain_def l2_def ys_def)
  have s: "list_add_coap x l = (if ys = [] then done_with (l2\<lparr>cl_head := Some x\<rparr>) else set_next (last ys) (Some x) l2)"
    using r(1) tail_chain [OF c2] set_next_done [OF d] by (simp add: list_add_coap_def l2_def [symmetric])
  have sub: "set ys \<subseteq> set xs" by (simp add: ys_def set_remove1_subset)
  show ?thesis
  proof (cases ys rule: rev_cases)
    case Nil
    with s c2 that [of "l2\<lparr>cl_head := Some x\<rparr>"] d r(3) show ?thesis
      by (auto simp: chain_def l2_def writes_only_def ys_def [symmetric])
  next
    case (snoc vs t)
    with chain_distinct [OF c2] chain_mem [OF c2, of t] have t: "t \<notin> set vs" "t \<in> dom (cl_next l2)" by auto
    have "chain (l2\<lparr>cl_next := (cl_next l2)(t \<mapsto> Some x)\<rparr>) (ys @ [x])"
      using c2 n snoc t by (auto simp: chain_def l2_def)
    moreover have "writes_only (insert x (set xs)) l (l2\<lparr>cl_next := (cl_next l2)(t \<mapsto> Some x)\<rparr>)"
      using r(3) t(2) d sub snoc by (auto simp: l2_def writes_only_def)
    ultimately show ?thesis using that snoc s set_next_done [OF t(2)] by (simp add: ys_def)
  qed
qed

lemma push_chain:
  assumes c: "chain l xs" and x: "x \<in> dom (cl_next l)"
  obtains l' where "list_push x l = done_with l'" and "chain l' (x # remove1 x xs)"
    and "writes_only (insert x (set xs)) l l'"
proof -
  from c obtain l1 where r: "list_remove_coap x l = done_with l1" "chain l1 (remove1 x xs)" "writes_only (set xs) l l1"
    by (rule remove_chain)
  from chain_distinct [OF c] have n: "x \<notin> set (remove1 x xs)" by simp
  from r(3) x have d: "x \<in> dom (cl_next l1)" by (simp add: writes_only_def)
  from r n d that [of "l1\<lparr>cl_next := (cl_next l1)(x \<mapsto> cl_head l1), cl_head := Some x\<rparr>"] show ?thesis
    by (auto simp: list_push_def set_next_done [OF d] chain_def writes_only_def)
qed

lemma pop_chain:
  assumes "chain l xs"
  obtains l' where "list_pop l = done_with (if xs = [] then None else Some (hd xs), l')" and "chain l' (tl xs)"
    and "cl_next l' = cl_next l"
proof (cases xs)
  case Nil
  with assms that [of l] show ?thesis by (simp add: list_pop_def chain_def)
next
  case (Cons x ys)
  with assms obtain n where "cl_head l = Some x" "cl_next l x = Some n" "path (cl_next l) n ys None" by (auto simp: chain_def)
  with Cons that [of "l\<lparr>cl_head := n\<rparr>"] show ?thesis by (simp add: list_pop_def chain_def)
qed

lemma chop_chain:
  assumes c: "chain l xs"
  obtains l' where "list_chop l = done_with (if xs = [] then None else Some (last xs), l')" and "chain l' (butlast xs)"
    and "writes_only (set xs) l l'"
proof (cases xs rule: rev_cases)
  case Nil
  with c that [of l] show ?thesis by (simp add: list_chop_def chain_def)
next
  case (snoc ys t)
  show ?thesis
  proof (cases ys rule: rev_cases)
    case Nil
    with snoc c that [of "l\<lparr>cl_head := None\<rparr>"] show ?thesis by (auto simp: list_chop_def chain_def writes_only_def)
  next
    case (snoc vs y)
    with \<open>xs = ys @ [t]\<close> c have p: "path (cl_next l) (cl_head l) (vs @ [y, t]) None" by (simp add: chain_def)
    then obtain h k where h: "cl_head l = Some h" "cl_next l h = Some (Some k)" by (cases vs; cases "tl vs") auto
    from chain_distinct [OF c] snoc \<open>xs = ys @ [t]\<close> have "y \<notin> set vs" by auto
    with p h chop_loop_path [OF p h(1)] snoc \<open>xs = ys @ [t]\<close>
      that [of "l\<lparr>cl_next := (cl_next l)(y \<mapsto> None)\<rparr>"] show ?thesis
      by (auto simp: list_chop_def chain_def writes_only_def insert_dom butlast_append)
  qed
qed

text \<open>The sequence after the insertion of an item behind another one.\<close>

fun insert_after :: "nat \<Rightarrow> nat \<Rightarrow> nat list \<Rightarrow> nat list" where
  "insert_after p x [] = []"
| "insert_after p x (y # ys) = (if y = p then y # x # ys else y # insert_after p x ys)"

lemma insert_after_split: "p \<notin> set ys \<Longrightarrow> insert_after p x (ys @ p # zs) = ys @ p # x # zs"
  by (induction ys) auto

lemma insert_chain:
  assumes c: "chain l xs" and p: "p \<in> set xs" and x: "x \<in> dom (cl_next l)" "x \<notin> set xs"
  obtains l' where "list_insert (Some p) x l = done_with l'" and "chain l' (insert_after p x xs)"
    and "writes_only (insert x (set xs)) l l'"
proof -
  from p obtain ys zs where s: "xs = ys @ p # zs" "p \<notin> set ys" by (meson split_list_first)
  from c s obtain n where n: "path (cl_next l) (cl_head l) ys (Some p)" "cl_next l p = Some n" "path (cl_next l) n zs None"
    by (auto simp: chain_def)
  from chain_distinct [OF c] s have d: "p \<notin> set zs" "p \<noteq> x" "x \<notin> set ys" "x \<notin> set zs" using x by auto
  from n s d x insert_after_split [OF s(2)] that [of "l\<lparr>cl_next := (cl_next l)(x \<mapsto> n, p \<mapsto> Some x)\<rparr>"] show ?thesis
    by (auto simp: list_insert_def set_next_def chain_def writes_only_def insert_dom)
qed

lemma length_chain: "chain l xs \<Longrightarrow> list_length l = done_with (int (length xs))"
  by (simp add: list_length_def chain_def length_loop_path)

lemma item_next_chain: "chain l (ys @ x # y # zs) \<Longrightarrow> list_item_next (Some x) l = Inr (Some y)"
  by (auto simp: chain_def list_item_next_def)

section \<open>The contract of the module\<close>

text \<open>Calls of the list operations, what they return, and what they mean on the sequence of items.\<close>

datatype list_op =
  Op_Add nat | Op_Push nat | Op_Insert "nat option" nat | Op_Remove nat | Op_Pop | Op_Chop | Op_Length | Op_Head | Op_Tail

datatype list_out = Out_Void | Out_Item "nat option" | Out_Int int

definition out_item :: "(nat option \<times> clist) run \<Rightarrow> (list_out \<times> clist) run" where
  "out_item m = rbind m (\<lambda>(x, l). done_with (Out_Item x, l))"

definition out_void :: "clist run \<Rightarrow> (list_out \<times> clist) run" where
  "out_void m = rbind m (\<lambda>l. done_with (Out_Void, l))"

fun list_exec :: "list_op \<Rightarrow> clist \<Rightarrow> (list_out \<times> clist) run" where
  "list_exec (Op_Add x) l = out_void (list_add_coap x l)"
| "list_exec (Op_Push x) l = out_void (list_push x l)"
| "list_exec (Op_Insert p x) l = out_void (list_insert p x l)"
| "list_exec (Op_Remove x) l = out_void (list_remove_coap x l)"
| "list_exec Op_Pop l = out_item (list_pop l)"
| "list_exec Op_Chop l = out_item (list_chop l)"
| "list_exec Op_Length l = rbind (list_length l) (\<lambda>n. done_with (Out_Int n, l))"
| "list_exec Op_Head l = done_with (Out_Item (list_head l), l)"
| "list_exec Op_Tail l = rbind (list_tail l) (\<lambda>x. done_with (Out_Item x, l))"

fun list_execs :: "list_op list \<Rightarrow> clist \<Rightarrow> (list_out list \<times> clist) run" where
  "list_execs [] l = done_with ([], l)"
| "list_execs (p # ps) l =
     rbind (list_exec p l) (\<lambda>(r, l). rbind (list_execs ps l) (\<lambda>(rs, l). done_with (r # rs, l)))"

definition opt_hd :: "nat list \<Rightarrow> nat option" where "opt_hd xs = (if xs = [] then None else Some (hd xs))"

definition opt_last :: "nat list \<Rightarrow> nat option" where "opt_last xs = (if xs = [] then None else Some (last xs))"

fun seq_exec :: "list_op \<Rightarrow> nat list \<Rightarrow> list_out \<times> nat list" where
  "seq_exec (Op_Add x) xs = (Out_Void, remove1 x xs @ [x])"
| "seq_exec (Op_Push x) xs = (Out_Void, x # remove1 x xs)"
| "seq_exec (Op_Insert None x) xs = (Out_Void, x # remove1 x xs)"
| "seq_exec (Op_Insert (Some p) x) xs = (Out_Void, insert_after p x xs)"
| "seq_exec (Op_Remove x) xs = (Out_Void, remove1 x xs)"
| "seq_exec Op_Pop xs = (Out_Item (opt_hd xs), tl xs)"
| "seq_exec Op_Chop xs = (Out_Item (opt_last xs), butlast xs)"
| "seq_exec Op_Length xs = (Out_Int (int (length xs)), xs)"
| "seq_exec Op_Head xs = (Out_Item (opt_hd xs), xs)"
| "seq_exec Op_Tail xs = (Out_Item (opt_last xs), xs)"

fun seq_execs :: "list_op list \<Rightarrow> nat list \<Rightarrow> list_out list \<times> nat list" where
  "seq_execs [] xs = ([], xs)"
| "seq_execs (p # ps) xs = (case seq_exec p xs of (r, xs) \<Rightarrow> (case seq_execs ps xs of (rs, xs) \<Rightarrow> (r # rs, xs)))"

text \<open>The items of a call are objects; an item is inserted behind one of the list, and only when it is not on the
  list, for \<open>list_insert\<close> does not check that.\<close>

fun op_ok :: "nat set \<Rightarrow> list_op \<Rightarrow> nat list \<Rightarrow> bool" where
  "op_ok A (Op_Add x) xs \<longleftrightarrow> x \<in> A"
| "op_ok A (Op_Push x) xs \<longleftrightarrow> x \<in> A"
| "op_ok A (Op_Insert None x) xs \<longleftrightarrow> x \<in> A"
| "op_ok A (Op_Insert (Some p) x) xs \<longleftrightarrow> x \<in> A \<and> p \<in> set xs \<and> x \<notin> set xs"
| "op_ok A _ xs \<longleftrightarrow> True"

fun ops_ok :: "nat set \<Rightarrow> list_op list \<Rightarrow> nat list \<Rightarrow> bool" where
  "ops_ok A [] xs \<longleftrightarrow> True"
| "ops_ok A (p # ps) xs \<longleftrightarrow> op_ok A p xs \<and> ops_ok A ps (snd (seq_exec p xs))"

lemma push_insert_None: "list_insert None x l = list_push x l"
  by (simp add: list_insert_def)

lemma head_chain: "chain l xs \<Longrightarrow> list_head l = opt_hd xs"
  by (cases xs) (auto simp: chain_def list_head_def opt_hd_def)

text \<open>The item a call is given.\<close>

fun op_items :: "list_op \<Rightarrow> nat set" where
  "op_items (Op_Add x) = {x}"
| "op_items (Op_Push x) = {x}"
| "op_items (Op_Insert p x) = {x}"
| "op_items _ = {}"

lemma seq_exec_items: "set (snd (seq_exec p xs)) \<subseteq> set xs \<union> op_items p"
proof (cases p)
  case Op_Pop
  then show ?thesis by (cases xs) auto
next
  case (Op_Insert q x)
  have "set (insert_after y x xs) \<subseteq> insert x (set xs)" for y by (induction xs) auto
  then show ?thesis using Op_Insert by (cases q) (auto dest: set_remove1_subset [THEN subsetD])
qed (auto dest: set_remove1_subset [THEN subsetD] in_set_butlastD)

lemma list_exec_refines:
  assumes c: "chain l xs" and k: "op_ok (dom (cl_next l)) p xs"
  shows "\<exists>l'. list_exec p l = done_with (fst (seq_exec p xs), l') \<and> chain l' (snd (seq_exec p xs))
           \<and> writes_only (set xs \<union> op_items p) l l'"
proof (cases p)
  case (Op_Add x)
  with k have "x \<in> dom (cl_next l)" by simp
  with c show ?thesis by (rule add_chain) (simp add: Op_Add out_void_def writes_only_def)
next
  case (Op_Push x)
  with k have "x \<in> dom (cl_next l)" by simp
  with c show ?thesis by (rule push_chain) (simp add: Op_Push out_void_def writes_only_def)
next
  case (Op_Insert q x)
  show ?thesis
  proof (cases q)
    case None
    with k Op_Insert have "x \<in> dom (cl_next l)" by simp
    with c show ?thesis by (rule push_chain) (simp add: Op_Insert None out_void_def writes_only_def push_insert_None)
  next
    case (Some y)
    with k Op_Insert have "y \<in> set xs" "x \<in> dom (cl_next l)" "x \<notin> set xs" by simp_all
    with c show ?thesis by (rule insert_chain) (simp add: Op_Insert Some out_void_def writes_only_def)
  qed
next
  case (Op_Remove x)
  from c show ?thesis by (rule remove_chain [where x = x]) (simp add: Op_Remove out_void_def writes_only_def)
next
  case Op_Pop
  from c show ?thesis by (rule pop_chain) (simp add: Op_Pop out_item_def opt_hd_def writes_only_def)
next
  case Op_Chop
  from c show ?thesis by (rule chop_chain) (simp add: Op_Chop out_item_def opt_last_def writes_only_def)
next
  case Op_Length
  with length_chain [OF c] c show ?thesis by simp
next
  case Op_Head
  with head_chain [OF c] c show ?thesis by simp
next
  case Op_Tail
  with tail_chain [OF c] c show ?thesis by (simp add: opt_last_def)
qed

lemma list_execs_refine:
  assumes "chain l xs" and "ops_ok (dom (cl_next l)) ps xs"
  shows "\<exists>l'. list_execs ps l = done_with (fst (seq_execs ps xs), l') \<and> chain l' (snd (seq_execs ps xs))
           \<and> writes_only (set xs \<union> \<Union> (op_items ` set ps)) l l'"
  using assms
proof (induction ps arbitrary: l xs)
  case (Cons p ps)
  from Cons.prems obtain l1 where s: "list_exec p l = done_with (fst (seq_exec p xs), l1)" "chain l1 (snd (seq_exec p xs))"
    "writes_only (set xs \<union> op_items p) l l1" using list_exec_refines [of l xs p] by auto
  from s(3) Cons.prems(2) have "ops_ok (dom (cl_next l1)) ps (snd (seq_exec p xs))" by (simp add: writes_only_def)
  from Cons.IH [OF s(2) this] obtain l2 where t: "list_execs ps l1 = done_with (fst (seq_execs ps (snd (seq_exec p xs))), l2)"
    "chain l2 (snd (seq_execs ps (snd (seq_exec p xs))))" "writes_only (set (snd (seq_exec p xs)) \<union> \<Union> (op_items ` set ps)) l1 l2" by blast
  have "writes_only (set xs \<union> \<Union> (op_items ` set (p # ps))) l l2"
    by (rule writes_only_mono [OF writes_only_trans [OF s(3) t(3)]]) (use seq_exec_items [of p xs] in auto)
  with s t show ?case by (auto split: prod.split)
qed simp

text \<open>Walking along a list, and unlinking an item by hand.\<close>

lemma next_chain: "chain l (ks @ x # us) \<Longrightarrow> cl_next l x = Some (opt_hd us)"
  by (cases us) (auto simp: chain_def opt_hd_def)

lemma unlink_chain:
  assumes c: "chain l (ks @ p # x # us)"
  shows "set_next p (opt_hd us) l = done_with (l\<lparr>cl_next := (cl_next l)(p \<mapsto> opt_hd us)\<rparr>)"
    and "chain (l\<lparr>cl_next := (cl_next l)(p \<mapsto> opt_hd us)\<rparr>) (ks @ p # us)"
proof -
  have "p \<in> dom (cl_next l)" using chain_mem [OF c] by simp
  then show "set_next p (opt_hd us) l = done_with (l\<lparr>cl_next := (cl_next l)(p \<mapsto> opt_hd us)\<rparr>)" by (rule set_next_done)
  have "p \<notin> set ks" "p \<notin> set us" "p \<noteq> x" using chain_distinct [OF c] by auto
  moreover have "cl_next l x = Some (opt_hd us)" using c next_chain [of l "ks @ [p]" x us] by simp
  ultimately show "chain (l\<lparr>cl_next := (cl_next l)(p \<mapsto> opt_hd us)\<rparr>) (ks @ p # us)"
    using c by (auto simp: chain_def)
qed

text \<open>C15.  The linked lists implement sequences without repetition: any sequence of calls on items that are
  objects ends, without a bad access, with the values the sequence operations return and a list that holds the
  resulting sequence; the next pointer of an item that was not on the list and is not given to a call stays as it is.
  An item that is added or pushed is on the list once.  As the code has it, \<open>list_tail\<close> returns the last item.\<close>

theorem coap_list_refines:
  assumes "chain l xs" and "ops_ok (dom (cl_next l)) ps xs"
  shows "\<exists>l'. list_execs ps l = done_with (fst (seq_execs ps xs), l') \<and> chain l' (snd (seq_execs ps xs))
           \<and> distinct (snd (seq_execs ps xs)) \<and> (\<forall>y. y \<notin> set xs \<and> (\<forall>p \<in> set ps. y \<notin> op_items p) \<longrightarrow> cl_next l' y = cl_next l y)"
  using list_execs_refine [OF assms] by (auto simp: writes_only_def chain_distinct)

definition three_items :: clist where
  "three_items = \<lparr>cl_head = None, cl_next = [1 \<mapsto> None, 2 \<mapsto> None, 3 \<mapsto> None, 4 \<mapsto> Some 1]\<rparr>"

theorem coap_list_refines_witness:
  "\<exists>l'. list_execs [Op_Add 1, Op_Push 2, Op_Insert (Some 2) 3, Op_Add 2, Op_Chop, Op_Length] three_items =
      done_with ([Out_Void, Out_Void, Out_Void, Out_Void, Out_Item (Some 2), Out_Int 2], l') \<and> chain l' [3, 1] \<and> distinct [3 :: nat, 1] \<and>
     cl_next l' 4 = cl_next three_items 4"
proof -
  let ?ps = "[Op_Add 1, Op_Push 2, Op_Insert (Some 2) 3, Op_Add 2, Op_Chop, Op_Length]"
  have "chain three_items []" "ops_ok (dom (cl_next three_items)) ?ps []" by (simp_all add: three_items_def chain_def)
  from coap_list_refines [OF this] obtain l' where "list_execs ?ps three_items = done_with (fst (seq_execs ?ps []), l')"
    "chain l' (snd (seq_execs ?ps []))" "\<forall>y. y \<notin> set [] \<and> (\<forall>p \<in> set ?ps. y \<notin> op_items p) \<longrightarrow> cl_next l' y = cl_next three_items y" by blast
  then show ?thesis by (intro exI [of _ l']) (simp add: opt_last_def)
qed

text \<open>\<open>list_insert\<close> has no such check: an item inserted behind itself points to itself, and the length of the list
  is never computed.\<close>

lemma list_insert_self:
  assumes "chain l (x # xs)"
  shows "\<exists>l'. list_insert (Some x) x l = done_with l' \<and> list_length l' = None"
  using assms by (auto simp: list_insert_def set_next_def chain_def list_length_def length_loop_cycle)

end
