(* ===== verification/Coap_Transactions.thy ===== *)
theory Coap_Transactions
  imports Coap_List Coap_Packet
begin

text \<open>
  The transactions of the CoAP client, \<open>src/idr-mgt-shared-libs/coap/er-coap/er-coap-transactions.c\<close>: sent packets that
  wait for an answer, with their retransmission timers, and the ongoing requests, which keep the callback of a
  request beyond the life of its transaction.  Both live in the heap, are linked into the lists of the context
  and point to each other.

  A context with its heap is one record.  The address that \<open>malloc\<close> returns is an argument (\<open>None\<close> for
  \<open>NULL\<close>), and so is the clock.  A callback is called through the parameter \<open>h\<close>, which gets the function pointer, its
  data and the response (\<open>None\<close> for a timeout) and may change the context.  Packets handed to \<open>tx_data\<close> and calls
  of callbacks are recorded as events.
\<close>

section \<open>Data\<close>

definition COAP_MAX_PACKET_SIZE :: nat where "COAP_MAX_PACKET_SIZE = COAP_MAX_HEADER_SIZE + REST_MAX_CHUNK_SIZE"

record coap_ongoing_request =
  og_token :: bytes
  og_observe :: bool
  og_callback :: "nat option"
  og_callback_data :: nat
  og_transaction :: "nat option"

record coap_transaction =
  ct_mid :: u16
  ct_retrans_timer :: u32
  ct_retrans_counter :: u8
  ct_addr :: bytes
  ct_ongoing_request :: "nat option"
  ct_packet_len :: u16
  ct_packet :: bytes

datatype coap_event = Tx_Data bytes bytes | Callback nat nat "coap_packet option"

record coap_context =
  cc_default_retrans_cnt :: u16
  cc_default_retrans_ms :: u32
  cc_last_checktime :: u32
  cc_transactions :: clist
  cc_trans :: "nat \<rightharpoonup> coap_transaction"
  cc_ongoing_requests :: clist
  cc_reqs :: "nat \<rightharpoonup> coap_ongoing_request"
  cc_events :: "coap_event list"

type_synonym 'z resp_handler = "nat \<Rightarrow> nat \<Rightarrow> coap_packet option \<Rightarrow> 'z coap_context_scheme \<Rightarrow> 'z coap_context_scheme run"

text \<open>Access to an object through its address.\<close>

definition trans_at :: "nat \<Rightarrow> 'z coap_context_scheme \<Rightarrow> coap_transaction run" where
  "trans_at t c = (case cc_trans c t of None \<Rightarrow> Some (Inl Bad_Pointer) | Some x \<Rightarrow> done_with x)"

definition req_at :: "nat \<Rightarrow> 'z coap_context_scheme \<Rightarrow> coap_ongoing_request run" where
  "req_at q c = (case cc_reqs c q of None \<Rightarrow> Some (Inl Bad_Pointer) | Some x \<Rightarrow> done_with x)"

definition next_at :: "nat \<Rightarrow> clist \<Rightarrow> nat option run" where
  "next_at x l = (case cl_next l x of None \<Rightarrow> Some (Inl Bad_Pointer) | Some n \<Rightarrow> done_with n)"

definition upd_trans :: "nat \<Rightarrow> (coap_transaction \<Rightarrow> coap_transaction) \<Rightarrow> 'z coap_context_scheme \<Rightarrow> 'z coap_context_scheme run" where
  "upd_trans t f c = rbind (trans_at t c) (\<lambda>x. done_with (c\<lparr>cc_trans := (cc_trans c)(t \<mapsto> f x)\<rparr>))"

definition upd_req :: "nat \<Rightarrow> (coap_ongoing_request \<Rightarrow> coap_ongoing_request) \<Rightarrow> 'z coap_context_scheme \<Rightarrow> 'z coap_context_scheme run" where
  "upd_req q f c = rbind (req_at q c) (\<lambda>x. done_with (c\<lparr>cc_reqs := (cc_reqs c)(q \<mapsto> f x)\<rparr>))"

definition on_trans_list :: "(clist \<Rightarrow> clist run) \<Rightarrow> 'z coap_context_scheme \<Rightarrow> 'z coap_context_scheme run" where
  "on_trans_list f c = rbind (f (cc_transactions c)) (\<lambda>l. done_with (c\<lparr>cc_transactions := l\<rparr>))"

definition on_req_list :: "(clist \<Rightarrow> clist run) \<Rightarrow> 'z coap_context_scheme \<Rightarrow> 'z coap_context_scheme run" where
  "on_req_list f c = rbind (f (cc_ongoing_requests c)) (\<lambda>l. done_with (c\<lparr>cc_ongoing_requests := l\<rparr>))"

text \<open>The heap holds the object and its \<open>next\<close> member.\<close>

definition new_trans :: "nat \<Rightarrow> coap_transaction \<Rightarrow> 'z coap_context_scheme \<Rightarrow> 'z coap_context_scheme" where
  "new_trans t x c = c\<lparr>cc_trans := (cc_trans c)(t \<mapsto> x),
     cc_transactions := cc_transactions c\<lparr>cl_next := (cl_next (cc_transactions c))(t \<mapsto> None)\<rparr>\<rparr>"

definition free_trans :: "nat \<Rightarrow> 'z coap_context_scheme \<Rightarrow> 'z coap_context_scheme" where
  "free_trans t c = c\<lparr>cc_trans := (cc_trans c)(t := None),
     cc_transactions := cc_transactions c\<lparr>cl_next := (cl_next (cc_transactions c))(t := None)\<rparr>\<rparr>"

definition new_req :: "nat \<Rightarrow> coap_ongoing_request \<Rightarrow> 'z coap_context_scheme \<Rightarrow> 'z coap_context_scheme" where
  "new_req q x c = c\<lparr>cc_reqs := (cc_reqs c)(q \<mapsto> x),
     cc_ongoing_requests := cc_ongoing_requests c\<lparr>cl_next := (cl_next (cc_ongoing_requests c))(q \<mapsto> None)\<rparr>\<rparr>"

definition free_req :: "nat \<Rightarrow> 'z coap_context_scheme \<Rightarrow> 'z coap_context_scheme" where
  "free_req q c = c\<lparr>cc_reqs := (cc_reqs c)(q := None),
     cc_ongoing_requests := cc_ongoing_requests c\<lparr>cl_next := (cl_next (cc_ongoing_requests c))(q := None)\<rparr>\<rparr>"

definition emit :: "coap_event \<Rightarrow> 'z coap_context_scheme \<Rightarrow> 'z coap_context_scheme" where
  "emit e c = c\<lparr>cc_events := cc_events c @ [e]\<rparr>"

section \<open>Elapsed time\<close>

definition get_elpased_ms :: "u32 \<Rightarrow> u32 \<Rightarrow> u32 \<times> u32" where
  "get_elpased_ms now last_system_clock =
     (if now < last_system_clock then (now + (0xFFFFFFFF - last_system_clock) + 1, now) else (now - last_system_clock, now))"

definition elapsed :: "u32 \<Rightarrow> 'z coap_context_scheme \<Rightarrow> u32 \<times> 'z coap_context_scheme" where
  "elapsed now c = (case get_elpased_ms now (cc_last_checktime c) of (el, clk) \<Rightarrow> (el, c\<lparr>cc_last_checktime := clk\<rparr>))"

section \<open>Transactions\<close>

partial_function (option) update_loop ::
  "u32 \<Rightarrow> nat option \<Rightarrow> u32 \<Rightarrow> u16 \<Rightarrow> 'z coap_context_scheme \<Rightarrow> (u32 \<times> u16 \<times> 'z coap_context_scheme) run" where
  "update_loop el t nearest expired c =
     (if t = None then done_with (nearest, expired, c)
      else
        rbind (trans_at (the t) c) (\<lambda>x.
        let x' = x\<lparr>ct_retrans_timer := if ct_retrans_timer x \<le> el then 0 else ct_retrans_timer x - el\<rparr> in
        rbind (next_at (the t) (cc_transactions c)) (\<lambda>n.
        update_loop el n (if nearest = -1 then ct_retrans_timer x' else if ct_retrans_timer x' < nearest then ct_retrans_timer x' else nearest)
          (if ct_retrans_timer x \<le> el then expired + 1 else expired) (c\<lparr>cc_trans := (cc_trans c)(the t \<mapsto> x')\<rparr>))))"

definition coap_update_transactions :: "u32 \<Rightarrow> 'z coap_context_scheme \<Rightarrow> (u32 \<times> u16 \<times> 'z coap_context_scheme) run" where
  "coap_update_transactions now c =
     (case elapsed now c of (el, c) \<Rightarrow> update_loop el (list_head (cc_transactions c)) (-1) 0 c)"

definition coap_new_transaction ::
  "nat option \<Rightarrow> u32 \<Rightarrow> u16 \<Rightarrow> bytes \<Rightarrow> 'z coap_context_scheme \<Rightarrow> (nat option \<times> 'z coap_context_scheme) run" where
  "coap_new_transaction p now mid addr c =
     (case p of
        None \<Rightarrow> done_with (None, c)
      | Some t \<Rightarrow>
          rbind (coap_update_transactions now (new_trans t
            \<lparr>ct_mid = mid, ct_retrans_timer = cc_default_retrans_ms c, ct_retrans_counter = 0, ct_addr = addr,
             ct_ongoing_request = None, ct_packet_len = 0, ct_packet = replicate (COAP_MAX_PACKET_SIZE + 1) 0\<rparr> c)) (\<lambda>(_, _, c).
          rbind (on_trans_list (list_add_coap t) c) (\<lambda>c. done_with (Some t, c))))"

definition coap_clear_transaction :: "nat option \<Rightarrow> 'z coap_context_scheme \<Rightarrow> 'z coap_context_scheme run" where
  "coap_clear_transaction p c =
     (case p of
        None \<Rightarrow> done_with c
      | Some t \<Rightarrow>
          rbind (trans_at t c) (\<lambda>x.
          rbind (on_trans_list (list_remove_coap t) c) (\<lambda>c.
          rbind (case ct_ongoing_request x of
                   None \<Rightarrow> done_with c
                 | Some q \<Rightarrow>
                     rbind (req_at q c) (\<lambda>r.
                     if og_transaction r \<noteq> Some t then Some (Inl Assert_Failed)
                     else upd_req q (og_transaction_update (\<lambda>_. None)) c)) (\<lambda>c.
          done_with (free_trans t c)))))"

definition free_ongoing_request :: "nat \<Rightarrow> 'z coap_context_scheme \<Rightarrow> 'z coap_context_scheme run" where
  "free_ongoing_request q c =
     rbind (on_req_list (list_remove_coap q) c) (\<lambda>c.
     rbind (req_at q c) (\<lambda>r.
     rbind (case og_transaction r of None \<Rightarrow> done_with c | Some t \<Rightarrow> upd_trans t (ct_ongoing_request_update (\<lambda>_. None)) c) (\<lambda>c.
     done_with (free_req q c))))"

text \<open>The end of the two branches of \<open>coap_send_transaction\<close> that give up a transaction.\<close>

definition drop_transaction :: "nat \<Rightarrow> 'z coap_context_scheme \<Rightarrow> (bool \<times> 'z coap_context_scheme) run" where
  "drop_transaction t c =
     rbind (trans_at t c) (\<lambda>x.
     rbind (case ct_ongoing_request x of
              None \<Rightarrow> done_with c
            | Some q \<Rightarrow> rbind (free_ongoing_request q c) (upd_trans t (ct_ongoing_request_update (\<lambda>_. None)))) (\<lambda>c.
     rbind (coap_clear_transaction (Some t) c) (\<lambda>c. done_with (True, c))))"

definition call_back :: "'z resp_handler \<Rightarrow> nat \<Rightarrow> nat \<Rightarrow> coap_packet option \<Rightarrow> 'z coap_context_scheme \<Rightarrow> 'z coap_context_scheme run" where
  "call_back h cb d r c = h cb d r (emit (Callback cb d r) c)"

definition run_request_callback :: "'z resp_handler \<Rightarrow> nat option \<Rightarrow> coap_packet option \<Rightarrow> 'z coap_context_scheme \<Rightarrow> 'z coap_context_scheme run" where
  "run_request_callback h q message c =
     (case q of
        None \<Rightarrow> done_with c
      | Some q \<Rightarrow>
          rbind (req_at q c) (\<lambda>r.
          case og_callback r of None \<Rightarrow> done_with c | Some cb \<Rightarrow> call_back h cb (og_callback_data r) message c))"

definition coap_send_transaction :: "'z resp_handler \<Rightarrow> nat \<Rightarrow> 'z coap_context_scheme \<Rightarrow> (bool \<times> 'z coap_context_scheme) run" where
  "coap_send_transaction h t c =
     rbind (trans_at t c) (\<lambda>x.
     let tx = Tx_Data (ct_addr x) (take (unat (ct_packet_len x)) (ct_packet x)) in
     if ct_packet x = [] then Some (Inl Out_Of_Bounds)
     else if COAP_TYPE_CON = drop_bit 4 (0x30 AND hd (ct_packet x)) then
       (if ucast (ct_retrans_counter x) < cc_default_retrans_cnt c then
          rbind (upd_trans t (\<lambda>x. x\<lparr>ct_retrans_timer := cc_default_retrans_ms c, ct_retrans_counter := ct_retrans_counter x + 1\<rparr>) c) (\<lambda>c.
          done_with (False, emit tx c))
        else
          rbind (run_request_callback h (ct_ongoing_request x) None c) (drop_transaction t))
     else drop_transaction t (emit tx c))"

partial_function (option) find_mid :: "u16 \<Rightarrow> nat option \<Rightarrow> 'z coap_context_scheme \<Rightarrow> nat option run" where
  "find_mid mid t c =
     (if t = None then done_with None
      else
        rbind (trans_at (the t) c) (\<lambda>x.
        if ct_mid x = mid then done_with t
        else rbind (next_at (the t) (cc_transactions c)) (\<lambda>n. find_mid mid n c)))"

definition coap_get_transaction_by_mid :: "u16 \<Rightarrow> 'z coap_context_scheme \<Rightarrow> nat option run" where
  "coap_get_transaction_by_mid mid c = find_mid mid (list_head (cc_transactions c)) c"

definition EXPIRY_HANDLING_NUM :: nat where "EXPIRY_HANDLING_NUM = 10"

text \<open>The statement that unlinks an expired transaction, which needs a predecessor that stays.\<close>

definition unlink_after :: "nat option \<Rightarrow> nat \<Rightarrow> 'z coap_context_scheme \<Rightarrow> 'z coap_context_scheme run" where
  "unlink_after prev t c =
     (case prev of None \<Rightarrow> done_with c
      | Some p \<Rightarrow> rbind (next_at t (cc_transactions c)) (\<lambda>n. on_trans_list (set_next p n) c))"

partial_function (option) check_loop ::
  "u32 \<Rightarrow> nat option \<Rightarrow> nat option \<Rightarrow> u32 \<Rightarrow> nat list \<Rightarrow> 'z coap_context_scheme \<Rightarrow> (u32 \<times> nat list \<times> 'z coap_context_scheme) run" where
  "check_loop el t prev nearest expired c =
     (if t = None then done_with (nearest, expired, c)
      else
        rbind (trans_at (the t) c) (\<lambda>x.
        if ct_retrans_timer x \<le> el then
          rbind (unlink_after prev (the t) c) (\<lambda>c.
          if length expired + 1 = EXPIRY_HANDLING_NUM then done_with (0, expired @ [the t], c)
          else rbind (next_at (the t) (cc_transactions c)) (\<lambda>n. check_loop el n prev nearest (expired @ [the t]) c))
        else
          let x' = x\<lparr>ct_retrans_timer := ct_retrans_timer x - el\<rparr> in
          rbind (next_at (the t) (cc_transactions c)) (\<lambda>n.
          check_loop el n t (if ct_retrans_timer x' < nearest then ct_retrans_timer x' else nearest) expired
            (c\<lparr>cc_trans := (cc_trans c)(the t \<mapsto> x')\<rparr>))))"

fun send_expired :: "'z resp_handler \<Rightarrow> nat list \<Rightarrow> u32 \<Rightarrow> 'z coap_context_scheme \<Rightarrow> (u32 \<times> 'z coap_context_scheme) run" where
  "send_expired h [] nearest c = done_with (nearest, c)"
| "send_expired h (t # ts) nearest c =
     rbind (coap_send_transaction h t c) (\<lambda>(clear, c).
     if clear then send_expired h ts nearest c
     else
       rbind (on_trans_list (list_add_coap t) c) (\<lambda>c.
       rbind (trans_at t c) (\<lambda>x.
       send_expired h ts (if ct_retrans_timer x < nearest then ct_retrans_timer x else nearest) c)))"

definition coap_check_transactions :: "'z resp_handler \<Rightarrow> u32 \<Rightarrow> 'z coap_context_scheme \<Rightarrow> (u32 \<times> 'z coap_context_scheme) run" where
  "coap_check_transactions h now c =
     (case elapsed now c of (el, c) \<Rightarrow>
      rbind (check_loop el (list_head (cc_transactions c)) None 60000 [] c) (\<lambda>(nearest, expired, c).
      send_expired h expired nearest c))"

section \<open>Ongoing requests\<close>

definition coap_set_response_handler ::
  "nat option \<Rightarrow> nat \<Rightarrow> coap_packet \<Rightarrow> nat option \<Rightarrow> nat \<Rightarrow> 'z coap_context_scheme \<Rightarrow> 'z coap_context_scheme run" where
  "coap_set_response_handler p t msg callback callback_data c =
     (if cp_token msg = [] then done_with c
      else
        (case p of
           None \<Rightarrow> done_with c
         | Some q \<Rightarrow>
             rbind (upd_trans t (ct_ongoing_request_update (\<lambda>_. Some q)) (new_req q
               \<lparr>og_token = take 8 (cp_token msg), og_observe = (coap_get_header_observe msg \<noteq> None), og_callback = callback,
                og_callback_data = callback_data, og_transaction = Some t\<rparr> c))
             (on_req_list (list_add_coap q))))"

partial_function (option) find_token :: "bytes \<Rightarrow> nat option \<Rightarrow> 'z coap_context_scheme \<Rightarrow> nat option run" where
  "find_token token q c =
     (if q = None then done_with None
      else
        rbind (req_at (the q) c) (\<lambda>x.
        if og_token x = token then done_with q
        else rbind (next_at (the q) (cc_ongoing_requests c)) (\<lambda>n. find_token token n c)))"

definition coap_find_ongoing_request :: "bytes \<Rightarrow> 'z coap_context_scheme \<Rightarrow> nat option run" where
  "coap_find_ongoing_request token c = find_token token (list_head (cc_ongoing_requests c)) c"

section \<open>The invariant of a context\<close>

text \<open>The pointers between transactions and ongoing requests, and that they are mutual.\<close>

definition t_link :: "'z coap_context_scheme \<Rightarrow> nat \<Rightarrow> nat option" where
  "t_link c t = Option.bind (cc_trans c t) ct_ongoing_request"

definition q_link :: "'z coap_context_scheme \<Rightarrow> nat \<Rightarrow> nat option" where
  "q_link c q = Option.bind (cc_reqs c q) og_transaction"

definition linked :: "'z coap_context_scheme \<Rightarrow> bool" where
  "linked c \<longleftrightarrow> (\<forall>t q. t_link c t = Some q \<longleftrightarrow> q_link c q = Some t)"

definition trans_ok :: "u16 \<Rightarrow> coap_transaction \<Rightarrow> bool" where
  "trans_ok n x \<longleftrightarrow> ct_packet x \<noteq> [] \<and> ucast (ct_retrans_counter x) \<le> n"

text \<open>A context whose lists hold the transactions \<open>ts\<close> and the requests \<open>qs\<close>.  Every request is on its list;
  \<open>coap_check_transactions\<close> takes transactions from theirs for a while.\<close>

definition ctx_inv :: "'z coap_context_scheme \<Rightarrow> nat list \<Rightarrow> nat list \<Rightarrow> bool" where
  "ctx_inv c ts qs \<longleftrightarrow>
     chain (cc_transactions c) ts \<and> chain (cc_ongoing_requests c) qs \<and>
     dom (cl_next (cc_transactions c)) = dom (cc_trans c) \<and> dom (cl_next (cc_ongoing_requests c)) = dom (cc_reqs c) \<and>
     set qs = dom (cc_reqs c) \<and> linked c \<and> (\<forall>t x. cc_trans c t = Some x \<longrightarrow> trans_ok (cc_default_retrans_cnt c) x)"

text \<open>What the list operations and the heap leave alone.\<close>

definition frame :: "'z coap_context_scheme \<Rightarrow> u16 \<times> u32 \<times> u32 \<times> coap_event list \<times> 'z" where
  "frame c = (cc_default_retrans_cnt c, cc_default_retrans_ms c, cc_last_checktime c, cc_events c, coap_context.more c)"

named_theorems ctx_defs \<open>accesses to the heap of a context\<close>

lemmas [ctx_defs] = trans_at_def req_at_def next_at_def upd_trans_def upd_req_def on_trans_list_def on_req_list_def
  free_trans_def free_req_def new_trans_def new_req_def emit_def

lemma frame_fields:
  "frame c' = frame c \<Longrightarrow> cc_default_retrans_cnt c' = cc_default_retrans_cnt c"
  "frame c' = frame c \<Longrightarrow> cc_default_retrans_ms c' = cc_default_retrans_ms c"
  "frame c' = frame c \<Longrightarrow> cc_last_checktime c' = cc_last_checktime c"
  "frame c' = frame c \<Longrightarrow> cc_events c' = cc_events c"
  "frame c' = frame c \<Longrightarrow> coap_context.more c' = coap_context.more c"
  by (simp_all add: frame_def)

lemma ctx_inv_subset: "ctx_inv c ts qs \<Longrightarrow> set ts \<subseteq> dom (cc_trans c)"
  using chain_mem unfolding ctx_inv_def by fastforce

lemma ctx_inv_distinct: "ctx_inv c ts qs \<Longrightarrow> distinct ts \<and> distinct qs"
  using chain_distinct by (auto simp: ctx_inv_def)

lemma linkedD: "linked c \<Longrightarrow> t_link c t = Some q \<Longrightarrow> q_link c q = Some t"
  by (simp add: linked_def)

lemma linked_inj: "linked c \<Longrightarrow> q_link c p = Some t \<Longrightarrow> q_link c q = Some t \<Longrightarrow> p = q"
  by (metis linked_def option.inject)

lemma t_link_Some: "t_link c t = Some q \<longleftrightarrow> (\<exists>x. cc_trans c t = Some x \<and> ct_ongoing_request x = Some q)"
  by (simp add: t_link_def bind_eq_Some_conv)

lemma q_link_Some: "q_link c q = Some t \<longleftrightarrow> (\<exists>r. cc_reqs c q = Some r \<and> og_transaction r = Some t)"
  by (simp add: q_link_def bind_eq_Some_conv)

lemma linked_dom:
  "linked c \<Longrightarrow> q_link c q = Some t \<Longrightarrow> t \<in> dom (cc_trans c)"
  "linked c \<Longrightarrow> t_link c t = Some q \<Longrightarrow> q \<in> dom (cc_reqs c)"
  using t_link_Some [of c t q] q_link_Some [of c q t] by (auto simp: linked_def)

lemma linked_upd_req:
  "linked c \<Longrightarrow> cc_trans c' = cc_trans c \<Longrightarrow> (\<And>q. q_link c' q = q_link c q) \<Longrightarrow> linked c'"
  by (simp add: linked_def t_link_def)

lemma emit_simps [simp]:
  "cc_trans (emit e c) = cc_trans c" "cc_reqs (emit e c) = cc_reqs c" "coap_context.more (emit e c) = coap_context.more c"
  "cc_default_retrans_cnt (emit e c) = cc_default_retrans_cnt c" "cc_default_retrans_ms (emit e c) = cc_default_retrans_ms c"
  "cc_transactions (emit e c) = cc_transactions c" "cc_ongoing_requests (emit e c) = cc_ongoing_requests c"
  "cc_last_checktime (emit e c) = cc_last_checktime c" "cc_events (emit e c) = cc_events c @ [e]"
  by (simp_all add: emit_def)

lemma elpased_eq: "get_elpased_ms now l = (now - l, now)"
proof -
  have "(0xFFFFFFFF :: u32) = - 1" by simp
  then show ?thesis unfolding get_elpased_ms_def by simp
qed

section \<open>Freeing requests and transactions\<close>

text \<open>The transactions without pointers to a request.\<close>

definition unlink_req :: "nat \<Rightarrow> (nat \<rightharpoonup> coap_transaction) \<Rightarrow> nat \<rightharpoonup> coap_transaction" where
  "unlink_req q T t = map_option (\<lambda>x. if ct_ongoing_request x = Some q then x\<lparr>ct_ongoing_request := None\<rparr> else x) (T t)"

lemma dom_unlink_req [simp]: "dom (unlink_req q T) = dom T"
  by (auto simp: unlink_req_def dom_def)

lemma unlink_req_link:
  "linked c \<Longrightarrow> unlink_req q (cc_trans c) =
     (case q_link c q of None \<Rightarrow> cc_trans c
      | Some t \<Rightarrow> (cc_trans c)(t := map_option (ct_ongoing_request_update (\<lambda>_. None)) (cc_trans c t)))"
proof (rule ext)
  fix t
  assume l: "linked c"
  show "unlink_req q (cc_trans c) t =
    (case q_link c q of None \<Rightarrow> cc_trans c
      | Some t \<Rightarrow> (cc_trans c)(t := map_option (ct_ongoing_request_update (\<lambda>_. None)) (cc_trans c t))) t"
  proof (cases "cc_trans c t")
    case (Some x)
    have "ct_ongoing_request x = Some q \<longleftrightarrow> q_link c q = Some t" using l Some t_link_Some [of c t q] by (simp add: linked_def)
    then show ?thesis using Some by (auto simp: unlink_req_def split: option.split)
  qed (auto simp: unlink_req_def split: option.split)
qed

lemma free_ongoing_ok:
  assumes i: "ctx_inv c ts qs" and q: "q \<in> dom (cc_reqs c)"
  obtains c' where "free_ongoing_request q c = done_with c'" and "ctx_inv c' ts (remove1 q qs)"
    and "cc_reqs c' = (cc_reqs c)(q := None)" and "cc_trans c' = unlink_req q (cc_trans c)" and "frame c' = frame c"
proof -
  from i have cs: "chain (cc_ongoing_requests c) qs" and l: "linked c" by (simp_all add: ctx_inv_def)
  from cs obtain l' where r: "list_remove_coap q (cc_ongoing_requests c) = done_with l'" "chain l' (remove1 q qs)"
    "writes_only (set qs) (cc_ongoing_requests c) l'" by (rule remove_chain)
  from q obtain r where rq: "cc_reqs c q = Some r" by blast
  define T where "T = unlink_req q (cc_trans c)"
  define c' where "c' = c\<lparr>cc_trans := T, cc_reqs := (cc_reqs c)(q := None), cc_ongoing_requests := l'\<lparr>cl_next := (cl_next l')(q := None)\<rparr>\<rparr>"
  have "q \<notin> set (remove1 q qs)" using chain_distinct [OF cs] by simp
  then have ch: "chain (cc_ongoing_requests c') (remove1 q qs)" using r(2) by (simp add: c'_def chain_def)
  have ql: "q_link c q = og_transaction r" using rq by (simp add: q_link_def)
  have tt: "og_transaction r = Some t \<Longrightarrow> \<exists>x. cc_trans c t = Some x" for t
    using l ql t_link_Some [of c t] by (auto simp: linked_def)
  have f: "free_ongoing_request q c = done_with c'"
    using r(1) rq tt unlink_req_link [OF l, of q] ql
    by (auto simp: free_ongoing_request_def ctx_defs c'_def T_def split: option.split)
  have "linked c'"
  proof (unfold linked_def, intro allI)
    fix t p
    have "t_link c' t = (if t_link c t = Some q then None else t_link c t)"
      by (cases "cc_trans c t") (simp_all add: t_link_def c'_def T_def unlink_req_def)
    moreover have "q_link c' p = (if p = q then None else q_link c p)" by (simp add: q_link_def c'_def)
    ultimately show "t_link c' t = Some p \<longleftrightarrow> q_link c' p = Some t" using l linked_inj [OF l, of p t q] by (auto simp: linked_def)
  qed
  moreover have "\<forall>t x. T t = Some x \<longrightarrow> trans_ok (cc_default_retrans_cnt c) x"
    using i by (auto simp: T_def unlink_req_def ctx_inv_def trans_ok_def)
  ultimately have "ctx_inv c' ts (remove1 q qs)"
    using i ch r(3) chain_distinct [OF cs] by (auto simp: ctx_inv_def c'_def T_def writes_only_def)
  then show ?thesis by (rule that [OF f]) (simp_all add: c'_def T_def frame_def)
qed

text \<open>The requests without pointers to a transaction.\<close>

definition unlink_trans :: "nat \<Rightarrow> (nat \<rightharpoonup> coap_ongoing_request) \<Rightarrow> nat \<rightharpoonup> coap_ongoing_request" where
  "unlink_trans t R q = map_option (\<lambda>r. if og_transaction r = Some t then r\<lparr>og_transaction := None\<rparr> else r) (R q)"

lemma dom_unlink_trans [simp]: "dom (unlink_trans t R) = dom R"
  by (auto simp: unlink_trans_def dom_def)

lemma unlink_trans_link:
  assumes l: "linked c"
  shows "unlink_trans t (cc_reqs c) =
     (case t_link c t of None \<Rightarrow> cc_reqs c
      | Some q \<Rightarrow> (cc_reqs c)(q := map_option (og_transaction_update (\<lambda>_. None)) (cc_reqs c q)))"
proof (rule ext)
  fix q
  show "unlink_trans t (cc_reqs c) q =
     (case t_link c t of None \<Rightarrow> cc_reqs c
      | Some q \<Rightarrow> (cc_reqs c)(q := map_option (og_transaction_update (\<lambda>_. None)) (cc_reqs c q))) q"
  proof (cases "cc_reqs c q")
    case (Some r)
    have "og_transaction r = Some t \<longleftrightarrow> t_link c t = Some q" using l Some q_link_Some [of c q t] by (simp add: linked_def)
    then show ?thesis using Some by (auto simp: unlink_trans_def split: option.split)
  qed (auto simp: unlink_trans_def split: option.split)
qed

lemma clear_ok:
  assumes i: "ctx_inv c ts qs" and t: "t \<in> dom (cc_trans c)"
  obtains c' where "coap_clear_transaction (Some t) c = done_with c'" and "ctx_inv c' (remove1 t ts) qs"
    and "cc_trans c' = (cc_trans c)(t := None)" and "cc_reqs c' = unlink_trans t (cc_reqs c)" and "frame c' = frame c"
proof -
  from i have cs: "chain (cc_transactions c) ts" and l: "linked c" by (simp_all add: ctx_inv_def)
  from cs obtain l' where r: "list_remove_coap t (cc_transactions c) = done_with l'" "chain l' (remove1 t ts)"
    "writes_only (set ts) (cc_transactions c) l'" by (rule remove_chain)
  from t obtain x where tx: "cc_trans c t = Some x" by blast
  define R where "R = unlink_trans t (cc_reqs c)"
  define c' where "c' = c\<lparr>cc_reqs := R, cc_trans := (cc_trans c)(t := None), cc_transactions := l'\<lparr>cl_next := (cl_next l')(t := None)\<rparr>\<rparr>"
  have "t \<notin> set (remove1 t ts)" using chain_distinct [OF cs] by simp
  then have ch: "chain (cc_transactions c') (remove1 t ts)" using r(2) by (simp add: c'_def chain_def)
  have tl: "t_link c t = ct_ongoing_request x" using tx by (simp add: t_link_def)
  have qq: "ct_ongoing_request x = Some q \<Longrightarrow> \<exists>r. cc_reqs c q = Some r \<and> og_transaction r = Some t" for q
    using l tl q_link_Some [of c q t] by (auto simp: linked_def)
  have f: "coap_clear_transaction (Some t) c = done_with c'"
    using r(1) tx qq unlink_trans_link [OF l, of t] tl
    by (auto simp: coap_clear_transaction_def ctx_defs c'_def R_def split: option.split)
  have "linked c'"
  proof (unfold linked_def, intro allI)
    fix u q
    have "q_link c' q = (if q_link c q = Some t then None else q_link c q)"
      by (cases "cc_reqs c q") (simp_all add: q_link_def c'_def R_def unlink_trans_def)
    moreover have "t_link c' u = (if u = t then None else t_link c u)" by (simp add: t_link_def c'_def)
    ultimately show "t_link c' u = Some q \<longleftrightarrow> q_link c' q = Some u" using l by (auto simp: linked_def)
  qed
  then have "ctx_inv c' (remove1 t ts) qs"
    using i ch r(3) chain_distinct [OF cs] by (auto simp: ctx_inv_def c'_def R_def writes_only_def)
  then show ?thesis by (rule that [OF f]) (simp_all add: c'_def R_def frame_def)
qed

lemma ctx_inv_upd_trans:
  assumes "ctx_inv c ts qs" and "cc_trans c t = Some x" and "trans_ok (cc_default_retrans_cnt c) x'"
    and "ct_ongoing_request x' = ct_ongoing_request x"
  shows "ctx_inv (c\<lparr>cc_trans := (cc_trans c)(t \<mapsto> x')\<rparr>) ts qs"
proof -
  let ?c = "c\<lparr>cc_trans := (cc_trans c)(t \<mapsto> x')\<rparr>"
  have "t_link ?c u = t_link c u" for u using assms(2,4) by (simp add: t_link_def)
  moreover have "q_link ?c = q_link c" by (simp add: q_link_def fun_eq_iff)
  ultimately have "linked ?c" using assms(1) by (simp add: linked_def ctx_inv_def)
  with assms show ?thesis by (auto simp: ctx_inv_def)
qed

lemma ctx_inv_events [simp]: "ctx_inv (c\<lparr>cc_events := e\<rparr>) ts qs = ctx_inv c ts qs"
  by (simp add: ctx_inv_def linked_def t_link_def q_link_def)

lemma ctx_inv_emit [simp]: "ctx_inv (emit e c) ts qs = ctx_inv c ts qs"
  by (simp add: emit_def)

lemma ctx_inv_checktime [simp]: "ctx_inv (c\<lparr>cc_last_checktime := e\<rparr>) ts qs = ctx_inv c ts qs"
  by (simp add: ctx_inv_def linked_def t_link_def q_link_def)

lemma drop_ok:
  assumes i: "ctx_inv c ts qs" and t: "cc_trans c t = Some x"
  obtains c' where "drop_transaction t c = done_with (True, c')"
    and "ctx_inv c' (remove1 t ts) (case ct_ongoing_request x of None \<Rightarrow> qs | Some q \<Rightarrow> remove1 q qs)"
    and "cc_trans c' = (cc_trans c)(t := None)"
    and "cc_reqs c' = (case ct_ongoing_request x of None \<Rightarrow> cc_reqs c | Some q \<Rightarrow> (cc_reqs c)(q := None))"
    and "frame c' = frame c"
proof (cases "ct_ongoing_request x")
  case None
  have t_dom: "t \<in> dom (cc_trans c)" using t by blast
  have "t_link c t = None" using t None by (simp add: t_link_def)
  then have u: "unlink_trans t (cc_reqs c) = cc_reqs c" using unlink_trans_link [of c t] i by (simp add: ctx_inv_def)
  obtain c' where "coap_clear_transaction (Some t) c = done_with c'" "ctx_inv c' (remove1 t ts) qs"
    "cc_trans c' = (cc_trans c)(t := None)" "cc_reqs c' = unlink_trans t (cc_reqs c)" "frame c' = frame c"
    using clear_ok [OF i t_dom] .
  then show ?thesis by (intro that [of c']) (simp_all add: drop_transaction_def trans_at_def t None u)
next
  case (Some q)
  have l: "linked c" using i by (simp add: ctx_inv_def)
  have tl: "t_link c t = Some q" using t Some by (simp add: t_link_def)
  with l have ql: "q_link c q = Some t" by (simp add: linked_def)
  then have "q \<in> dom (cc_reqs c)" by (auto simp: q_link_Some)
  with i obtain c1 where c1: "free_ongoing_request q c = done_with c1" "ctx_inv c1 ts (remove1 q qs)"
    "cc_reqs c1 = (cc_reqs c)(q := None)" "cc_trans c1 = unlink_req q (cc_trans c)" "frame c1 = frame c" by (rule free_ongoing_ok)
  have T1: "cc_trans c1 = (cc_trans c)(t \<mapsto> x\<lparr>ct_ongoing_request := None\<rparr>)"
    using c1(4) unlink_req_link [OF l, of q] ql t by simp
  have up: "upd_trans t (ct_ongoing_request_update (\<lambda>_. None)) c1 = done_with c1"
    by (simp add: upd_trans_def trans_at_def T1)
  have "t \<in> dom (cc_trans c1)" using T1 by simp
  with c1(2) obtain c2 where c2: "coap_clear_transaction (Some t) c1 = done_with c2" "ctx_inv c2 (remove1 t ts) (remove1 q qs)"
    "cc_trans c2 = (cc_trans c1)(t := None)" "cc_reqs c2 = unlink_trans t (cc_reqs c1)" "frame c2 = frame c1" by (rule clear_ok)
  have "t_link c1 t = None" by (simp add: t_link_def T1)
  then have "unlink_trans t (cc_reqs c1) = cc_reqs c1" using unlink_trans_link [of c1 t] c1(2) by (simp add: ctx_inv_def)
  with c1(1,2,3,5) c2 T1 show ?thesis
    by (intro that [of c2]) (simp_all add: drop_transaction_def trans_at_def t Some up)
qed

section \<open>Allocating and listing\<close>

lemma add_trans_ok:
  assumes i: "ctx_inv c ts qs" and t: "t \<in> dom (cc_trans c)"
  obtains l where "on_trans_list (list_add_coap t) c = done_with (c\<lparr>cc_transactions := l\<rparr>)"
    and "ctx_inv (c\<lparr>cc_transactions := l\<rparr>) (remove1 t ts @ [t]) qs"
proof -
  from i have "chain (cc_transactions c) ts" "t \<in> dom (cl_next (cc_transactions c))" using t by (simp_all add: ctx_inv_def)
  then obtain l where l: "list_add_coap t (cc_transactions c) = done_with l" "chain l (remove1 t ts @ [t])"
    "writes_only (insert t (set ts)) (cc_transactions c) l" by (rule add_chain)
  have "linked (c\<lparr>cc_transactions := l\<rparr>)" using i by (simp add: ctx_inv_def linked_def t_link_def q_link_def)
  with l i have "ctx_inv (c\<lparr>cc_transactions := l\<rparr>) (remove1 t ts @ [t]) qs" by (auto simp: ctx_inv_def writes_only_def)
  with l(1) show ?thesis by (intro that [of l]) (simp_all add: on_trans_list_def)
qed

lemma new_trans_ok:
  assumes i: "ctx_inv c ts qs" and t: "t \<notin> dom (cc_trans c)" and x: "trans_ok (cc_default_retrans_cnt c) x" "ct_ongoing_request x = None"
  shows "ctx_inv (new_trans t x c) ts qs"
proof -
  have "t \<notin> set ts" using ctx_inv_subset [OF i] t by blast
  moreover have "linked (new_trans t x c)"
  proof -
    have "t_link (new_trans t x c) u = (if u = t then None else t_link c u)" for u by (simp add: t_link_def new_trans_def x(2))
    moreover have "q_link (new_trans t x c) = q_link c" by (simp add: q_link_def new_trans_def fun_eq_iff)
    moreover have "q_link c q \<noteq> Some t" for q using i t linked_dom(1) by (auto simp: ctx_inv_def)
    ultimately show ?thesis using i by (auto simp: linked_def ctx_inv_def)
  qed
  ultimately show ?thesis using i x(1) by (auto simp: ctx_inv_def new_trans_def chain_def)
qed

end
