(* ===== verification/Coap_Retransmit.thy ===== *)
theory Coap_Retransmit
  imports Coap_Transactions
begin

text \<open>
  What the CoAP transactions promise.  The callback of a request that times out is foreign code: the locale
  \<open>timeout_handlers\<close> says what the transaction layer needs of it, and inside it sending, checking and expiring
  transactions are shown to keep the invariant of the context, to free what they give up and to leave no pointer
  to it behind.
\<close>

section \<open>Extensions of a context\<close>

text \<open>A callback may start transactions and requests, which moves the timers; it frees none of those it finds.\<close>

definition ctx_ext :: "'z coap_context_scheme \<Rightarrow> 'z coap_context_scheme \<Rightarrow> bool" where
  "ctx_ext c c' \<longleftrightarrow>
     cc_default_retrans_cnt c' = cc_default_retrans_cnt c \<and> cc_default_retrans_ms c' = cc_default_retrans_ms c \<and>
     (\<forall>t x. cc_trans c t = Some x \<longrightarrow> (\<exists>n. cc_trans c' t = Some (x\<lparr>ct_retrans_timer := n\<rparr>))) \<and>
     (\<forall>q r. cc_reqs c q = Some r \<longrightarrow> cc_reqs c' q = Some r)"

lemma timer_self [simp]: "\<exists>n. x = x\<lparr>ct_retrans_timer := n\<rparr>"
  by (rule exI [of _ "ct_retrans_timer x"]) simp

lemma ctx_ext_refl [simp]: "ctx_ext c c"
  by (simp add: ctx_ext_def)

lemma ctx_ext_trans [trans]:
  assumes a: "ctx_ext c c'" and b: "ctx_ext c' c''"
  shows "ctx_ext c c''"
proof -
  have "\<exists>n. cc_trans c'' t = Some (x\<lparr>ct_retrans_timer := n\<rparr>)" if x: "cc_trans c t = Some x" for t x
  proof -
    from a x obtain m where "cc_trans c' t = Some (x\<lparr>ct_retrans_timer := m\<rparr>)" unfolding ctx_ext_def by blast
    with b obtain n where "cc_trans c'' t = Some (x\<lparr>ct_retrans_timer := m, ct_retrans_timer := n\<rparr>)" unfolding ctx_ext_def by blast
    then have "cc_trans c'' t = Some (x\<lparr>ct_retrans_timer := n\<rparr>)" by simp
    then show ?thesis by blast
  qed
  with a b show ?thesis by (simp add: ctx_ext_def)
qed

lemma ctx_ext_emit [simp]: "ctx_ext (emit e c) c' = ctx_ext c c'" "ctx_ext c (emit e c') = ctx_ext c c'"
  by (simp_all add: ctx_ext_def emit_def)

text \<open>The callbacks registered for requests, which is all that foreign code knows of a context.\<close>

definition cb_of :: "'z coap_context_scheme \<Rightarrow> nat \<Rightarrow> (nat \<times> nat) option" where
  "cb_of c q = Option.bind (cc_reqs c q) (\<lambda>r. map_option (\<lambda>cb. (cb, og_callback_data r)) (og_callback r))"

text \<open>A counter that is below the limit and is incremented does not exceed it, even where it wraps around.\<close>

lemma ucast_inc_le:
  assumes "(ucast (b :: u8) :: u16) < n" shows "ucast (b + 1) \<le> n"
proof -
  have "unat (ucast (b + 1) :: u16) \<le> unat (ucast b :: u16) + 1"
    by (simp add: unat_byte unat_word_ariths)
  then show ?thesis using assms by (simp add: word_less_nat_alt word_le_nat_alt)
qed

text \<open>The transactions that are not in a set are still there.\<close>

definition ctx_ext_but :: "nat set \<Rightarrow> 'z coap_context_scheme \<Rightarrow> 'z coap_context_scheme \<Rightarrow> bool" where
  "ctx_ext_but A c c' \<longleftrightarrow>
     cc_default_retrans_cnt c' = cc_default_retrans_cnt c \<and> cc_default_retrans_ms c' = cc_default_retrans_ms c \<and>
     (\<forall>t x. t \<notin> A \<longrightarrow> cc_trans c t = Some x \<longrightarrow> (\<exists>n. cc_trans c' t = Some (x\<lparr>ct_retrans_timer := n\<rparr>)))"

lemma ctx_ext_but_trans: "ctx_ext_but A c c' \<Longrightarrow> ctx_ext_but B c' c'' \<Longrightarrow> ctx_ext_but (A \<union> B) c c''"
  unfolding ctx_ext_but_def by (auto, fastforce)

text \<open>A confirmable packet, and one that is sent again when its timer runs out.\<close>

definition con_trans :: "coap_transaction \<Rightarrow> bool" where
  "con_trans x \<longleftrightarrow> drop_bit 4 (0x30 AND hd (ct_packet x)) = COAP_TYPE_CON"

definition resends :: "u16 \<Rightarrow> coap_transaction \<Rightarrow> bool" where
  "resends n x \<longleftrightarrow> con_trans x \<and> ucast (ct_retrans_counter x) < n"

section \<open>Scanning the list\<close>

text \<open>The transactions that have expired, at most \<open>n\<close>, those before the last of them that have not, and the
  rest of the list.\<close>

fun scan :: "(nat \<Rightarrow> bool) \<Rightarrow> nat \<Rightarrow> nat list \<Rightarrow> nat list \<times> nat list \<times> nat list" where
  "scan P n [] = ([], [], [])"
| "scan P n (t # ts) =
     (if P t then
        (if n = 1 then ([t], [], ts) else (case scan P (n - 1) ts of (e, k, r) \<Rightarrow> (t # e, k, r)))
      else (case scan P n ts of (e, k, r) \<Rightarrow> (e, t # k, r)))"

definition has_expired :: "u32 \<Rightarrow> (nat \<rightharpoonup> coap_transaction) \<Rightarrow> nat \<Rightarrow> bool" where
  "has_expired el T t \<longleftrightarrow> (case T t of None \<Rightarrow> False | Some x \<Rightarrow> ct_retrans_timer x \<le> el)"

definition age :: "u32 \<Rightarrow> nat set \<Rightarrow> (nat \<rightharpoonup> coap_transaction) \<Rightarrow> nat \<rightharpoonup> coap_transaction" where
  "age el A T t = (if t \<in> A then map_option (\<lambda>x. x\<lparr>ct_retrans_timer := ct_retrans_timer x - el\<rparr>) (T t) else T t)"

lemma scan_ConsE:
  assumes "scan P n (t # ts) = (e, k, r)"
  obtains "P t" "n = 1" "e = [t]" "k = []" "r = ts"
  | e' where "P t" "n \<noteq> 1" "scan P (n - 1) ts = (e', k, r)" "e = t # e'"
  | k' where "\<not> P t" "scan P n ts = (e, k', r)" "k = t # k'"
  using assms by (auto split: if_split_asm prod.split_asm)

lemma scan_mset: "scan P n ts = (e, k, r) \<Longrightarrow> mset ts = mset (e @ k @ r)"
proof (induction ts arbitrary: n e k r)
  case (Cons t ts)
  from Cons.prems show ?case by (rule scan_ConsE) (auto dest: Cons.IH)
qed simp

lemma scan_sets: "scan P n ts = (e, k, r) \<Longrightarrow> set ts = set e \<union> set k \<union> set r"
  by (drule scan_mset, drule mset_eq_setD) auto

lemma scan_distinct: "scan P n ts = (e, k, r) \<Longrightarrow> distinct ts \<Longrightarrow> distinct (e @ k @ r)"
  using scan_mset mset_eq_imp_distinct_iff by metis

lemma scan_cong: "(\<And>t. t \<in> set ts \<Longrightarrow> P t = Q t) \<Longrightarrow> scan P n ts = scan Q n ts"
  by (induction ts arbitrary: n) auto

lemma scan_expired: "scan P n ts = (e, k, r) \<Longrightarrow> (\<forall>t \<in> set e. P t) \<and> (\<forall>t \<in> set k. \<not> P t)"
proof (induction ts arbitrary: n e k r)
  case (Cons t ts)
  from Cons.prems show ?case by (rule scan_ConsE) (auto dest: Cons.IH)
qed simp

lemma scan_length: "scan P n ts = (e, k, r) \<Longrightarrow> 0 < n \<Longrightarrow> length e \<le> n \<and> (length e < n \<longrightarrow> r = [])"
proof (induction ts arbitrary: n e k r)
  case (Cons t ts)
  from Cons.prems(1) show ?case by (rule scan_ConsE) (use Cons.prems(2) in \<open>auto dest: Cons.IH\<close>)
qed simp

text \<open>Unlinking a transaction behind another one.\<close>

lemma ctx_inv_unlink:
  assumes "ctx_inv c (ks @ p # t # us) qs"
  obtains c' where "on_trans_list (set_next p (opt_hd us)) c = done_with c'" and "ctx_inv c' (ks @ p # us) qs"
    and "cc_trans c' = cc_trans c" and "cc_reqs c' = cc_reqs c" and "frame c' = frame c"
    and "cl_next (cc_transactions c') t = cl_next (cc_transactions c) t"
proof -
  define l where "l = (cc_transactions c)\<lparr>cl_next := (cl_next (cc_transactions c))(p \<mapsto> opt_hd us)\<rparr>"
  from assms have ch: "chain (cc_transactions c) (ks @ p # t # us)" by (simp add: ctx_inv_def)
  have pt: "p \<noteq> t" "p \<in> dom (cl_next (cc_transactions c))" using chain_distinct [OF ch] chain_mem [OF ch] by auto
  have "linked (c\<lparr>cc_transactions := l\<rparr>)" using assms by (simp add: ctx_inv_def linked_def t_link_def q_link_def)
  with assms pt unlink_chain [OF ch] show ?thesis
    by (intro that [of "c\<lparr>cc_transactions := l\<rparr>"]) (auto simp: on_trans_list_def l_def ctx_inv_def frame_def insert_dom)
qed

lemma unlink_prev:
  assumes i: "ctx_inv c (ks @ t # us) qs" and p: "prev = None \<or> ks \<noteq> [] \<and> prev = Some (last ks)"
  shows "\<exists>c1 ks1. unlink_after prev t c = done_with c1 \<and>
      ctx_inv c1 (ks1 @ us) qs \<and> cc_trans c1 = cc_trans c \<and> cc_reqs c1 = cc_reqs c \<and> frame c1 = frame c \<and>
      next_at t (cc_transactions c1) = done_with (opt_hd us) \<and> ks1 = (if prev = None then ks @ [t] else ks)"
proof -
  have nx: "cl_next (cc_transactions c) t = Some (opt_hd us)"
    using i next_chain [of _ ks t us] by (simp add: ctx_inv_def)
  show ?thesis
  proof (cases prev)
    case None
    with i nx show ?thesis by (simp add: next_at_def unlink_after_def)
  next
    case (Some q)
    with p have s: "ks @ t # us = butlast ks @ q # t # us" "ks = butlast ks @ [q]" by (auto simp: append_butlast_last_id)
    then have i': "ctx_inv c (butlast ks @ q # t # us) qs" using i by (simp flip: s(1))
    obtain c1 where "on_trans_list (set_next q (opt_hd us)) c = done_with c1" "ctx_inv c1 (butlast ks @ q # us) qs"
      "cc_trans c1 = cc_trans c" "cc_reqs c1 = cc_reqs c" "frame c1 = frame c"
      "cl_next (cc_transactions c1) t = cl_next (cc_transactions c) t" using ctx_inv_unlink [OF i'] .
    moreover have "butlast ks @ q # us = ks @ us" using s(2) by (metis append.assoc append_Cons append_Nil)
    ultimately show ?thesis using nx Some by (intro exI [of _ c1] exI [of _ ks]) (simp add: next_at_def unlink_after_def)
  qed
qed

text \<open>What the loop computes from a position: the transactions \<open>ks\<close> are behind it, \<open>us\<close> before it, \<open>ex\<close> have
  been found expired.\<close>

definition checked ::
  "u32 \<Rightarrow> u32 \<Rightarrow> nat list \<Rightarrow> nat list \<Rightarrow> nat list \<times> nat list \<times> nat list \<Rightarrow> nat list \<Rightarrow> nat list \<Rightarrow> 'z coap_context_scheme \<Rightarrow>
   (u32 \<times> nat list \<times> 'z coap_context_scheme) run \<Rightarrow> bool" where
  "checked el n us ex s ks qs c res \<longleftrightarrow> (case s of (e, k, r) \<Rightarrow>
     \<exists>n' c' L. res = done_with (n', ex @ e, c') \<and> ctx_inv c' (ks @ L) qs \<and>
       filter (\<lambda>x. x \<notin> set e) L = k @ r \<and> set L \<subseteq> set us \<and> cc_trans c' = age el (set k) (cc_trans c) \<and>
       cc_reqs c' = cc_reqs c \<and> frame c' = frame c \<and> n' \<le> n \<and> (length (ex @ e) = EXPIRY_HANDLING_NUM \<longrightarrow> n' = 0) \<and>
       (\<forall>t x. t \<in> set k \<longrightarrow> cc_trans c t = Some x \<longrightarrow> n' \<le> ct_retrans_timer x - el))"

lemma checkedI:
  assumes "res = done_with (n', ex @ e, c')" and "ctx_inv c' (ks @ L) qs" and "filter (\<lambda>x. x \<notin> set e) L = k @ r"
    and "set L \<subseteq> set us" and "cc_trans c' = age el (set k) (cc_trans c)" and "cc_reqs c' = cc_reqs c" and "frame c' = frame c"
    and "n' \<le> n" and "length (ex @ e) = EXPIRY_HANDLING_NUM \<Longrightarrow> n' = 0"
    and "\<And>t x. t \<in> set k \<Longrightarrow> cc_trans c t = Some x \<Longrightarrow> n' \<le> ct_retrans_timer x - el"
  shows "checked el n us ex (e, k, r) ks qs c res"
  unfolding checked_def using assms by auto

lemma checkedE:
  assumes "checked el n us ex (e, k, r) ks qs c res"
  obtains n' c' L where "res = done_with (n', ex @ e, c')" and "ctx_inv c' (ks @ L) qs" and "filter (\<lambda>x. x \<notin> set e) L = k @ r"
    and "set L \<subseteq> set us" and "cc_trans c' = age el (set k) (cc_trans c)" and "cc_reqs c' = cc_reqs c" and "frame c' = frame c"
    and "n' \<le> n" and "length (ex @ e) = EXPIRY_HANDLING_NUM \<longrightarrow> n' = 0"
    and "\<forall>t x. t \<in> set k \<longrightarrow> cc_trans c t = Some x \<longrightarrow> n' \<le> ct_retrans_timer x - el"
  using assms unfolding checked_def by auto

lemma age_empty [simp]: "age el {} T = T"
  by (simp add: age_def fun_eq_iff)

lemma checked_expired:
  assumes c: "checked el n us (ex @ [t]) (e, k, r) ks1 qs c1 res" and "ks1 = (if prev = None then ks @ [t] else ks)"
    and "cc_trans c1 = cc_trans c" and "cc_reqs c1 = cc_reqs c" and "frame c1 = frame c" and t: "t \<notin> set us"
  shows "checked el n (t # us) ex (t # e, k, r) ks qs c res"
  using c
proof (rule checkedE)
  fix n' c' L
  assume L: "res = done_with (n', (ex @ [t]) @ e, c')" "ctx_inv c' (ks1 @ L) qs" "filter (\<lambda>x. x \<notin> set e) L = k @ r" "set L \<subseteq> set us"
    "cc_trans c' = age el (set k) (cc_trans c1)" "cc_reqs c' = cc_reqs c1" "frame c' = frame c1" "n' \<le> n"
    "length ((ex @ [t]) @ e) = EXPIRY_HANDLING_NUM \<longrightarrow> n' = 0"
    "\<forall>u x. u \<in> set k \<longrightarrow> cc_trans c1 u = Some x \<longrightarrow> n' \<le> ct_retrans_timer x - el"
  have f: "filter (\<lambda>x. x \<notin> set (t # e)) (if prev = None then t # L else L) = k @ r"
    using L(3,4) t filter_cong [of L L "\<lambda>x. x \<notin> set (t # e)" "\<lambda>x. x \<notin> set e"] by auto
  from L(2) have i: "ctx_inv c' (ks @ (if prev = None then t # L else L)) qs" using assms(2) by (cases prev) simp_all
  have z: "length (ex @ t # e) = EXPIRY_HANDLING_NUM \<Longrightarrow> n' = 0" using L(9) by simp
  show ?thesis by (rule checkedI [OF _ i f _ _ _ _ _ z]) (use L(1,4-8,10) assms(2-6) in auto)
qed

lemma checked_alive:
  assumes c: "checked el n0 us ex (e, k, r) (ks @ [t]) qs (c\<lparr>cc_trans := (cc_trans c)(t \<mapsto> x1)\<rparr>) res"
    and x: "cc_trans c t = Some x" "x1 = x\<lparr>ct_retrans_timer := ct_retrans_timer x - el\<rparr>"
    and n: "n0 \<le> n" "n0 \<le> ct_retrans_timer x1" and t: "t \<notin> set us" "t \<notin> set e" "t \<notin> set k"
  shows "checked el n (t # us) ex (e, t # k, r) ks qs c res"
  using c
proof (rule checkedE)
  fix n' c' L
  let ?c = "c\<lparr>cc_trans := (cc_trans c)(t \<mapsto> x1)\<rparr>"
  assume L: "res = done_with (n', ex @ e, c')" "ctx_inv c' ((ks @ [t]) @ L) qs" "filter (\<lambda>x. x \<notin> set e) L = k @ r" "set L \<subseteq> set us"
    "cc_trans c' = age el (set k) (cc_trans ?c)" "cc_reqs c' = cc_reqs ?c" "frame c' = frame ?c" "n' \<le> n0"
    "length (ex @ e) = EXPIRY_HANDLING_NUM \<longrightarrow> n' = 0"
    "\<forall>u x. u \<in> set k \<longrightarrow> cc_trans ?c u = Some x \<longrightarrow> n' \<le> ct_retrans_timer x - el"
  have i: "ctx_inv c' (ks @ t # L) qs" using L(2) by simp
  have f: "filter (\<lambda>x. x \<notin> set e) (t # L) = (t # k) @ r" using L(3) t(2) by simp
  have a: "cc_trans c' = age el (set (t # k)) (cc_trans c)" using L(5) x t(3) by (auto simp: age_def fun_eq_iff)
  have b: "n' \<le> ct_retrans_timer y - el" if "u \<in> set (t # k)" "cc_trans c u = Some y" for u y
  proof (cases "u = t")
    case True
    then show ?thesis using that x n(2) L(8) by auto
  next
    case False
    then show ?thesis using that L(10) by simp
  qed
  show ?thesis by (rule checkedI [OF L(1) i f _ a _ _ _ L(9) [rule_format] b]) (use L n in \<open>auto simp: frame_def\<close>)
qed

lemma check_loop_ok:
  assumes "ctx_inv c (ks @ us) qs" and "prev = None \<or> ks \<noteq> [] \<and> prev = Some (last ks)" and "length ex < EXPIRY_HANDLING_NUM"
    and "scan (has_expired el (cc_trans c)) (EXPIRY_HANDLING_NUM - length ex) us = s"
  shows "checked el n us ex s ks qs c (check_loop el (opt_hd us) prev n ex c)"
  using assms
proof (induction us arbitrary: c ks prev ex n s)
  case Nil
  then have s: "s = ([], [], [])" by simp
  show ?case unfolding s
    by (rule checkedI [of _ n _ _ c _ "[]"]) (use Nil.prems in \<open>simp_all add: opt_hd_def check_loop.simps [of el None]\<close>)
next
  case (Cons t us)
  have ch: "chain (cc_transactions c) (ks @ t # us)" using Cons.prems(1) by (simp add: ctx_inv_def)
  have nx: "next_at t (cc_transactions c) = done_with (opt_hd us)" using next_chain [OF ch] by (simp add: next_at_def)
  have nt: "t \<notin> set us" using chain_distinct [OF ch] by simp
  obtain x where x: "cc_trans c t = Some x" using ctx_inv_subset [OF Cons.prems(1)] by auto
  have hd: "opt_hd (t # us) = Some t" by (simp add: opt_hd_def)
  obtain e k r where s: "s = (e, k, r)" by (rule prod_cases3)
  have sc: "scan (has_expired el (cc_trans c)) (EXPIRY_HANDLING_NUM - length ex) (t # us) = (e, k, r)" using Cons.prems(4) s by simp
  show ?case unfolding s hd
  proof (cases "ct_retrans_timer x \<le> el")
    case True
    then have P: "has_expired el (cc_trans c) t" using x by (simp add: has_expired_def)
    obtain c1 ks1 where c1: "unlink_after prev t c = done_with c1" "ctx_inv c1 (ks1 @ us) qs" "cc_trans c1 = cc_trans c"
      "cc_reqs c1 = cc_reqs c" "frame c1 = frame c" "next_at t (cc_transactions c1) = done_with (opt_hd us)"
      "ks1 = (if prev = None then ks @ [t] else ks)" using unlink_prev [OF Cons.prems(1,2)] nx by blast
    show "checked el n (t # us) ex (e, k, r) ks qs c (check_loop el (Some t) prev n ex c)"
    proof (cases "length ex + 1 = EXPIRY_HANDLING_NUM")
      case last: True
      then have "EXPIRY_HANDLING_NUM - length ex = 1" by simp
      with sc P have s1: "e = [t]" "k = []" "r = us" by (elim scan_ConsE; simp)+
      have "check_loop el (Some t) prev n ex c = done_with (0, (ex @ [t]) @ [], c1)"
        using True last c1(1) by (simp add: check_loop.simps [of el "Some t"] trans_at_def x)
      then have "checked el n us (ex @ [t]) ([], [], us) ks1 qs c1 (check_loop el (Some t) prev n ex c)"
        using c1(2) by (intro checkedI) auto
      then show ?thesis unfolding s1 using c1(7,3-5) nt by (rule checked_expired)
    next
      case more: False
      then have "EXPIRY_HANDLING_NUM - length ex \<noteq> 1" using Cons.prems(3) by simp
      with sc P obtain e' where e: "e = t # e'"
        and "scan (has_expired el (cc_trans c)) (EXPIRY_HANDLING_NUM - length ex - 1) us = (e', k, r)" by (elim scan_ConsE) auto
      then have "scan (has_expired el (cc_trans c1)) (EXPIRY_HANDLING_NUM - length (ex @ [t])) us = (e', k, r)" using c1(3) by simp
      moreover have "prev = None \<or> ks1 \<noteq> [] \<and> prev = Some (last ks1)" using Cons.prems(2) c1(7) by auto
      moreover have "length (ex @ [t]) < EXPIRY_HANDLING_NUM" using more Cons.prems(3) by simp
      ultimately have "checked el n us (ex @ [t]) (e', k, r) ks1 qs c1 (check_loop el (opt_hd us) prev n (ex @ [t]) c1)"
        using Cons.IH [OF c1(2)] by blast
      moreover have "check_loop el (Some t) prev n ex c = check_loop el (opt_hd us) prev n (ex @ [t]) c1"
        using True more c1(1,6) by (simp add: check_loop.simps [of el "Some t"] trans_at_def x)
      ultimately have "checked el n us (ex @ [t]) (e', k, r) ks1 qs c1 (check_loop el (Some t) prev n ex c)" by simp
      then show ?thesis unfolding e using c1(7,3-5) nt by (rule checked_expired)
    qed
  next
    case False
    define x1 where "x1 = x\<lparr>ct_retrans_timer := ct_retrans_timer x - el\<rparr>"
    define c1 where "c1 = c\<lparr>cc_trans := (cc_trans c)(t \<mapsto> x1)\<rparr>"
    define n0 where "n0 = (if ct_retrans_timer x1 < n then ct_retrans_timer x1 else n)"
    have "\<not> has_expired el (cc_trans c) t" using x False by (simp add: has_expired_def)
    with sc obtain k' where k: "k = t # k'" and sc0: "scan (has_expired el (cc_trans c)) (EXPIRY_HANDLING_NUM - length ex) us = (e, k', r)"
      by (elim scan_ConsE) auto
    have "u \<in> set us \<Longrightarrow> has_expired el (cc_trans c1) u = has_expired el (cc_trans c) u" for u
      using nt by (auto simp: has_expired_def c1_def)
    with sc0 have sc1: "scan (has_expired el (cc_trans c1)) (EXPIRY_HANDLING_NUM - length ex) us = (e, k', r)"
      using scan_cong [of us "has_expired el (cc_trans c1)" "has_expired el (cc_trans c)"] by simp
    have "trans_ok (cc_default_retrans_cnt c) x1" using Cons.prems(1) x by (auto simp: ctx_inv_def trans_ok_def x1_def)
    then have i: "ctx_inv c1 ((ks @ [t]) @ us) qs"
      using Cons.prems(1) ctx_inv_upd_trans [OF Cons.prems(1) x, of x1] by (simp add: c1_def x1_def)
    have "checked el n0 us ex (e, k', r) (ks @ [t]) qs c1 (check_loop el (opt_hd us) (Some t) n0 ex c1)"
      by (rule Cons.IH [OF i _ Cons.prems(3) sc1]) simp
    moreover have "check_loop el (Some t) prev n ex c = check_loop el (opt_hd us) (Some t) n0 ex c1"
      using False nx by (simp add: check_loop.simps [of el "Some t"] trans_at_def x Let_def n0_def x1_def c1_def)
    moreover have "n0 \<le> n" "n0 \<le> ct_retrans_timer x1" by (auto simp: n0_def)
    moreover have "t \<notin> set e" "t \<notin> set k'" using scan_sets [OF sc0] nt by auto
    ultimately show "checked el n (t # us) ex (e, k, r) ks qs c (check_loop el (Some t) prev n ex c)"
      unfolding k using checked_alive x x1_def nt by (simp add: c1_def)
  qed
qed

text \<open>What becomes of a transaction that is sent again.\<close>

definition resent :: "u32 \<Rightarrow> coap_transaction \<Rightarrow> coap_transaction" where
  "resent ms x = x\<lparr>ct_retrans_timer := ms, ct_retrans_counter := ct_retrans_counter x + 1\<rparr>"

lemma resent_timer [simp]:
  "resends n (x\<lparr>ct_retrans_timer := m\<rparr>) = resends n x" "resent ms (x\<lparr>ct_retrans_timer := m\<rparr>) = resent ms x"
  by (simp_all add: resends_def con_trans_def resent_def)

lemma resend_ok:
  assumes i: "ctx_inv c ts qs" and t: "cc_trans c t = Some x" and r: "resends (cc_default_retrans_cnt c) x"
  shows "coap_send_transaction h t c = done_with (False,
      emit (Tx_Data (ct_addr x) (take (unat (ct_packet_len x)) (ct_packet x)))
        (c\<lparr>cc_trans := (cc_trans c)(t \<mapsto> resent (cc_default_retrans_ms c) x)\<rparr>))"
    and "ctx_inv (c\<lparr>cc_trans := (cc_trans c)(t \<mapsto> resent (cc_default_retrans_ms c) x)\<rparr>) ts qs"
proof -
  from i t have k: "trans_ok (cc_default_retrans_cnt c) x" by (simp add: ctx_inv_def)
  then show "coap_send_transaction h t c = done_with (False,
      emit (Tx_Data (ct_addr x) (take (unat (ct_packet_len x)) (ct_packet x)))
        (c\<lparr>cc_trans := (cc_trans c)(t \<mapsto> resent (cc_default_retrans_ms c) x)\<rparr>))"
    using t r by (simp add: coap_send_transaction_def trans_at_def upd_trans_def resends_def con_trans_def trans_ok_def resent_def)
  have "ucast (ct_retrans_counter x + 1) \<le> cc_default_retrans_cnt c" using r by (intro ucast_inc_le) (simp add: resends_def)
  with k show "ctx_inv (c\<lparr>cc_trans := (cc_trans c)(t \<mapsto> resent (cc_default_retrans_ms c) x)\<rparr>) ts qs"
    by (intro ctx_inv_upd_trans [OF i t]) (simp_all add: trans_ok_def resent_def)
qed

section \<open>A check in which every expired transaction is sent again\<close>

definition tx_of :: "(nat \<rightharpoonup> coap_transaction) \<Rightarrow> nat \<Rightarrow> coap_event" where
  "tx_of T t = (case T t of None \<Rightarrow> Tx_Data [] [] | Some x \<Rightarrow> Tx_Data (ct_addr x) (take (unat (ct_packet_len x)) (ct_packet x)))"

definition resend_all :: "u32 \<Rightarrow> nat set \<Rightarrow> (nat \<rightharpoonup> coap_transaction) \<Rightarrow> nat \<rightharpoonup> coap_transaction" where
  "resend_all ms A T t = (if t \<in> A then map_option (resent ms) (T t) else T t)"

definition all_resend :: "u16 \<Rightarrow> (nat \<rightharpoonup> coap_transaction) \<Rightarrow> nat list \<Rightarrow> bool" where
  "all_resend n T ts \<longleftrightarrow> list_all (\<lambda>t. case T t of None \<Rightarrow> False | Some x \<Rightarrow> resends n x) ts"

lemma all_resend_cong: "(\<And>t. t \<in> set ts \<Longrightarrow> T t = T' t) \<Longrightarrow> all_resend n T ts = all_resend n T' ts"
  by (auto simp: all_resend_def list_all_iff)

lemma all_resend_upd [simp]: "t \<notin> set ts \<Longrightarrow> all_resend n (T(t := v)) ts = all_resend n T ts"
  by (rule all_resend_cong) auto

lemma filter_remove1: "distinct L \<Longrightarrow> filter P (remove1 t L) = filter (\<lambda>x. x \<noteq> t \<and> P x) L"
  by (simp add: distinct_remove1_removeAll removeAll_filter_not_eq) (metis (mono_tags, lifting) filter_cong)

lemma send_expired_resends:
  assumes "ctx_inv c L qs" and "distinct es" and "all_resend (cc_default_retrans_cnt c) (cc_trans c) es"
  shows "\<exists>c'. send_expired h es n c = done_with (if es = [] then n else min (cc_default_retrans_ms c) n, c') \<and>
     ctx_inv c' (filter (\<lambda>x. x \<notin> set es) L @ es) qs \<and>
     cc_trans c' = resend_all (cc_default_retrans_ms c) (set es) (cc_trans c) \<and> cc_reqs c' = cc_reqs c \<and>
     cc_events c' = cc_events c @ map (tx_of (cc_trans c)) es \<and> cc_last_checktime c' = cc_last_checktime c"
  using assms
proof (induction es arbitrary: c L n)
  case Nil
  then show ?case by (simp add: resend_all_def fun_eq_iff)
next
  case (Cons t es)
  let ?ms = "cc_default_retrans_ms c"
  from Cons.prems(3) obtain x where x: "cc_trans c t = Some x" "resends (cc_default_retrans_cnt c) x"
    and es: "all_resend (cc_default_retrans_cnt c) (cc_trans c) es" by (auto simp: all_resend_def split: option.split_asm)
  define c1 where "c1 = emit (Tx_Data (ct_addr x) (take (unat (ct_packet_len x)) (ct_packet x))) (c\<lparr>cc_trans := (cc_trans c)(t \<mapsto> resent ?ms x)\<rparr>)"
  have s: "coap_send_transaction h t c = done_with (False, c1)" and i: "ctx_inv c1 L qs"
    using resend_ok [OF Cons.prems(1) x] by (simp_all add: c1_def)
  have T1: "cc_trans c1 = (cc_trans c)(t \<mapsto> resent ?ms x)" by (simp add: c1_def)
  then have "t \<in> dom (cc_trans c1)" by simp
  with i obtain l where l: "on_trans_list (list_add_coap t) c1 = done_with (c1\<lparr>cc_transactions := l\<rparr>)"
    "ctx_inv (c1\<lparr>cc_transactions := l\<rparr>) (remove1 t L @ [t]) qs" by (rule add_trans_ok)
  let ?c = "c1\<lparr>cc_transactions := l\<rparr>"
  have nt: "t \<notin> set es" "distinct es" using Cons.prems(2) by simp_all
  have ar: "all_resend (cc_default_retrans_cnt ?c) (cc_trans ?c) es" using es nt(1) by (simp add: c1_def)
  have ms: "cc_default_retrans_ms ?c = ?ms" by (simp add: c1_def)
  obtain c' where c': "send_expired h es (min ?ms n) ?c = done_with (if es = [] then min ?ms n else min ?ms (min ?ms n), c')"
    "ctx_inv c' (filter (\<lambda>x. x \<notin> set es) (remove1 t L @ [t]) @ es) qs" "cc_trans c' = resend_all ?ms (set es) (cc_trans ?c)"
    "cc_reqs c' = cc_reqs ?c" "cc_events c' = cc_events ?c @ map (tx_of (cc_trans ?c)) es" "cc_last_checktime c' = cc_last_checktime ?c"
    using Cons.IH [OF l(2) nt(2) ar, of "min ?ms n", unfolded ms] by blast
  have "send_expired h (t # es) n c = done_with (min ?ms n, c')"
  proof (cases "?ms < n")
    case True
    then show ?thesis using s l(1) c'(1) T1 by (simp add: trans_at_def resent_def)
  next
    case False
    then show ?thesis using s l(1) c'(1) T1 by (simp add: trans_at_def resent_def min_absorb2)
  qed
  moreover have "ctx_inv c' (filter (\<lambda>x. x \<notin> set (t # es)) L @ t # es) qs"
    using c'(2) nt ctx_inv_distinct [OF Cons.prems(1)] by (simp add: filter_remove1)
  moreover have "cc_trans c' = resend_all ?ms (set (t # es)) (cc_trans c)"
    using c'(3) nt x(1) by (auto simp: resend_all_def T1 fun_eq_iff)
  moreover have "map (tx_of (cc_trans c1)) es = map (tx_of (cc_trans c)) es" using nt(1) by (auto simp: tx_of_def T1)
  then have "cc_events c' = cc_events c @ map (tx_of (cc_trans c)) (t # es)" using c'(5) x(1) by (simp add: c1_def tx_of_def)
  ultimately show ?case using c'(4,6) by (intro exI [of _ c']) (simp add: c1_def)
qed

section \<open>The contract of callbacks\<close>

locale timeout_handlers =
  fixes h :: "'z resp_handler" and I :: "nat option \<Rightarrow> 'z coap_context_scheme \<Rightarrow> bool"
  assumes timeout_ok: "ctx_inv c ts qs \<Longrightarrow> I None c \<Longrightarrow> cb_of c q = Some (cb, d) \<Longrightarrow>
      \<exists>c' ts' qs'. h cb d None c = done_with c' \<and> ctx_inv c' (ts @ ts') (qs @ qs') \<and> ctx_ext c c' \<and>
        dom (cc_trans c') = dom (cc_trans c) \<union> set ts' \<and> set ts' \<inter> dom (cc_trans c) = {} \<and> I (Some q) c'"
    and callbacks_only: "I p c \<Longrightarrow> coap_context.more c' = coap_context.more c \<Longrightarrow>
      (\<And>q cb. p' \<noteq> Some q \<Longrightarrow> cb_of c' q = Some cb \<Longrightarrow> p \<noteq> Some q \<and> cb_of c q = Some cb) \<Longrightarrow> I p' c'"
begin

lemma invariant_emit: "I p c \<Longrightarrow> I p (emit e c)"
  by (rule callbacks_only [where p = p and c = c]) (simp_all add: emit_def cb_of_def)

lemma drop_keeps:
  assumes "ctx_inv c ts qs" and "cc_trans c t = Some x" and "I (ct_ongoing_request x) c \<or> I None c"
  obtains c' qs' where "drop_transaction t c = done_with (True, c')" and "ctx_inv c' (remove1 t ts) qs'"
    and "cc_trans c' = (cc_trans c)(t := None)" and "I None c'" and "frame c' = frame c"
proof -
  from assms(1,2) obtain c' where c': "drop_transaction t c = done_with (True, c')"
    "ctx_inv c' (remove1 t ts) (case ct_ongoing_request x of None \<Rightarrow> qs | Some q \<Rightarrow> remove1 q qs)"
    "cc_trans c' = (cc_trans c)(t := None)"
    "cc_reqs c' = (case ct_ongoing_request x of None \<Rightarrow> cc_reqs c | Some q \<Rightarrow> (cc_reqs c)(q := None))"
    "frame c' = frame c" by (rule drop_ok)
  have m: "coap_context.more c' = coap_context.more c" using c'(5) by (rule frame_fields)
  have "I None c'"
    using assms(3)
  proof
    assume "I (ct_ongoing_request x) c"
    then show ?thesis using m
      by (rule callbacks_only) (use c'(4) in \<open>auto simp: cb_of_def split: option.split_asm if_split_asm\<close>)
  next
    assume "I None c"
    then show ?thesis using m
      by (rule callbacks_only) (use c'(4) in \<open>auto simp: cb_of_def split: option.split_asm if_split_asm\<close>)
  qed
  with c' that show ?thesis by blast
qed

lemma callback_keeps:
  assumes i: "ctx_inv c ts qs" "I None c" and q: "\<And>q. p = Some q \<Longrightarrow> q \<in> dom (cc_reqs c)"
  obtains c' ts' qs' where "run_request_callback h p None c = done_with c'" and "ctx_inv c' (ts @ ts') (qs @ qs')"
    and "ctx_ext c c'" and "dom (cc_trans c') = dom (cc_trans c) \<union> set ts'" and "set ts' \<inter> dom (cc_trans c) = {}"
    and "I p c' \<or> I None c'"
proof (cases p)
  case None
  with i that [of c "[]" "[]"] show ?thesis by (simp add: run_request_callback_def)
next
  case (Some q)
  with q obtain r where r: "cc_reqs c q = Some r" by blast
  show ?thesis
  proof (cases "og_callback r")
    case None
    with i Some r that [of c "[]" "[]"] show ?thesis by (simp add: run_request_callback_def req_at_def)
  next
    case (Some cb)
    let ?e = "emit (Callback cb (og_callback_data r) None) c"
    have "cb_of ?e q = Some (cb, og_callback_data r)" using r Some by (simp add: cb_of_def emit_def)
    moreover have "ctx_inv ?e ts qs" "I None ?e" using i by (simp_all add: invariant_emit)
    ultimately obtain c' ts' qs' where "h cb (og_callback_data r) None ?e = done_with c'" "ctx_inv c' (ts @ ts') (qs @ qs')"
      "ctx_ext ?e c'" "dom (cc_trans c') = dom (cc_trans ?e) \<union> set ts'" "set ts' \<inter> dom (cc_trans ?e) = {}" "I (Some q) c'"
      using timeout_ok by blast
    then show ?thesis using that [of c' ts' qs'] Some r \<open>p = Some q\<close>
      by (simp add: run_request_callback_def req_at_def call_back_def)
  qed
qed

lemma give_up_keeps:
  assumes i: "ctx_inv c ts qs" "I None c" and t: "cc_trans c t = Some x" and r: "\<not> resends (cc_default_retrans_cnt c) x"
  obtains c' ts' qs' where "coap_send_transaction h t c = done_with (True, c')" and "ctx_inv c' (remove1 t (ts @ ts')) qs'"
    and "I None c'" and "dom (cc_trans c') = (dom (cc_trans c) \<union> set ts') - {t}" and "ctx_ext_but {t} c c'"
    and "set ts' \<inter> dom (cc_trans c) = {}"
proof (cases "con_trans x")
  case False
  let ?e = "emit (Tx_Data (ct_addr x) (take (unat (ct_packet_len x)) (ct_packet x))) c"
  from i t obtain c' qs' where "drop_transaction t ?e = done_with (True, c')" "ctx_inv c' (remove1 t ts) qs'"
    "cc_trans c' = (cc_trans ?e)(t := None)" "I None c'" "frame c' = frame ?e"
    using drop_keeps [of ?e ts qs t x] invariant_emit by auto
  then show ?thesis using False t i frame_fields [of c' ?e]
    by (intro that [of c' "[]" qs']) (auto simp: coap_send_transaction_def trans_at_def con_trans_def ctx_ext_but_def ctx_inv_def trans_ok_def)
next
  case True
  have "\<And>q. ct_ongoing_request x = Some q \<Longrightarrow> q \<in> dom (cc_reqs c)"
    using i(1) t linked_dom(2) [of c t] by (auto simp: ctx_inv_def t_link_def)
  with i obtain c1 ts' qs' where c1: "run_request_callback h (ct_ongoing_request x) None c = done_with c1"
    "ctx_inv c1 (ts @ ts') (qs @ qs')" "ctx_ext c c1" "dom (cc_trans c1) = dom (cc_trans c) \<union> set ts'"
    "set ts' \<inter> dom (cc_trans c) = {}" "I (ct_ongoing_request x) c1 \<or> I None c1" by (rule callback_keeps)
  from c1(3) t obtain n where n: "cc_trans c1 t = Some (x\<lparr>ct_retrans_timer := n\<rparr>)" unfolding ctx_ext_def by blast
  have "I (ct_ongoing_request (x\<lparr>ct_retrans_timer := n\<rparr>)) c1 \<or> I None c1" using c1(6) by simp
  with c1(2) n obtain c' rs where c': "drop_transaction t c1 = done_with (True, c')" "ctx_inv c' (remove1 t (ts @ ts')) rs"
    "cc_trans c' = (cc_trans c1)(t := None)" "I None c'" "frame c' = frame c1" by (rule drop_keeps)
  have "ctx_ext_but {t} c c'"
    using c1(3) c'(3) frame_fields [OF c'(5)] by (auto simp: ctx_ext_def ctx_ext_but_def)
  then show ?thesis using True t r i c1 c'
    by (intro that [of c' ts' rs]) (auto simp: coap_send_transaction_def trans_at_def con_trans_def resends_def ctx_inv_def trans_ok_def)
qed

text \<open>The second half of \<open>coap_check_transactions\<close>: everything ends up on the list or is freed.\<close>

lemma send_expired_keeps:
  assumes "ctx_inv c L qs" and "I None c" and "dom (cc_trans c) = set L \<union> set es" and "distinct es"
  shows "\<exists>n' c' ts' qs'. send_expired h es n c = done_with (n', c') \<and> ctx_inv c' ts' qs' \<and> I None c' \<and>
    dom (cc_trans c') = set ts' \<and> ctx_ext_but (set es) c c' \<and>
    (\<forall>t x. t \<in> set es \<longrightarrow> cc_trans c t = Some x \<longrightarrow> resends (cc_default_retrans_cnt c) x \<longrightarrow>
       (\<exists>m. cc_trans c' t = Some ((resent (cc_default_retrans_ms c) x)\<lparr>ct_retrans_timer := m\<rparr>)))"
  using assms
proof (induction es arbitrary: c L qs n)
  case Nil
  then show ?case by - (rule exI [of _ n], rule exI [of _ c], rule exI [of _ L], rule exI [of _ qs], simp add: ctx_ext_but_def)
next
  case (Cons t es)
  from Cons.prems(3) obtain x where x: "cc_trans c t = Some x" by (metis Un_iff domD list.set_intros(1))
  show ?case
  proof (cases "resends (cc_default_retrans_cnt c) x")
    case True
    let ?x = "resent (cc_default_retrans_ms c) x"
    define c1 where "c1 = emit (Tx_Data (ct_addr x) (take (unat (ct_packet_len x)) (ct_packet x))) (c\<lparr>cc_trans := (cc_trans c)(t \<mapsto> ?x)\<rparr>)"
    have s: "coap_send_transaction h t c = done_with (False, c1)" and i: "ctx_inv c1 L qs"
      using resend_ok [OF Cons.prems(1) x True] by (simp_all add: c1_def)
    have T1: "cc_trans c1 = (cc_trans c)(t \<mapsto> ?x)" by (simp add: c1_def)
    then have "t \<in> dom (cc_trans c1)" by simp
    with i obtain l where l: "on_trans_list (list_add_coap t) c1 = done_with (c1\<lparr>cc_transactions := l\<rparr>)"
      "ctx_inv (c1\<lparr>cc_transactions := l\<rparr>) (remove1 t L @ [t]) qs" by (rule add_trans_ok)
    let ?c = "c1\<lparr>cc_transactions := l\<rparr>"
    have "I None c1" unfolding c1_def
      by (rule invariant_emit, rule callbacks_only [OF Cons.prems(2)]) (simp_all add: cb_of_def)
    then have "I None ?c" by (rule callbacks_only) (simp_all add: cb_of_def)
    moreover have "set (remove1 t L) = set L - {t}" using ctx_inv_distinct [OF Cons.prems(1)] by simp
    then have "dom (cc_trans ?c) = set (remove1 t L @ [t]) \<union> set es" using Cons.prems(3,4) T1 by auto
    ultimately obtain n' c' ts' qs' where IH: "send_expired h es (if ct_retrans_timer ?x < n then ct_retrans_timer ?x else n) ?c = done_with (n', c')"
      "ctx_inv c' ts' qs'" "I None c'" "dom (cc_trans c') = set ts'" "ctx_ext_but (set es) ?c c'"
      "\<forall>u x. u \<in> set es \<longrightarrow> cc_trans ?c u = Some x \<longrightarrow> resends (cc_default_retrans_cnt ?c) x \<longrightarrow>
       (\<exists>m. cc_trans c' u = Some ((resent (cc_default_retrans_ms ?c) x)\<lparr>ct_retrans_timer := m\<rparr>))"
      using Cons.IH [OF l(2)] Cons.prems(4) by (metis distinct.simps(2))
    have "send_expired h (t # es) n c = done_with (n', c')"
      using s l(1) IH(1) T1 by (simp add: trans_at_def)
    moreover have "ctx_ext_but (set (t # es)) c c'" using IH(5) T1 by (simp add: ctx_ext_but_def c1_def)
    moreover have "\<exists>m. cc_trans c' u = Some ((resent (cc_default_retrans_ms c) y)\<lparr>ct_retrans_timer := m\<rparr>)"
      if u: "u \<in> set (t # es)" "cc_trans c u = Some y" "resends (cc_default_retrans_cnt c) y" for u y
    proof (cases "u = t")
      case True
      then show ?thesis using IH(5) T1 Cons.prems(4) x u(2) by (simp add: ctx_ext_but_def)
    next
      case False
      then show ?thesis using IH(6) T1 u by (simp add: c1_def)
    qed
    ultimately show ?thesis using IH(2,3,4)
      by - (rule exI [of _ n'], rule exI [of _ c'], rule exI [of _ ts'], rule exI [of _ qs'], simp)
  next
    case False
    from Cons.prems(1,2) x False obtain c1 ts1 qs1 where c1: "coap_send_transaction h t c = done_with (True, c1)"
      "ctx_inv c1 (remove1 t (L @ ts1)) qs1" "I None c1" "dom (cc_trans c1) = (dom (cc_trans c) \<union> set ts1) - {t}"
      "ctx_ext_but {t} c c1" "set ts1 \<inter> dom (cc_trans c) = {}" by (rule give_up_keeps)
    have "t \<notin> set ts1" using c1(6) x by auto
    then have "distinct ts1" using ctx_inv_distinct [OF c1(2)] by (auto simp: remove1_append remove1_idem split: if_split_asm)
    then have "distinct (L @ ts1)" using ctx_inv_distinct [OF Cons.prems(1)] c1(6) ctx_inv_subset [OF Cons.prems(1)] by auto
    then have "set (remove1 t (L @ ts1)) = set (L @ ts1) - {t}" by simp
    then have "dom (cc_trans c1) = set (remove1 t (L @ ts1)) \<union> set es" using c1(4) Cons.prems(3,4) by auto
    then obtain n' c' ts' qs' where IH: "send_expired h es n c1 = done_with (n', c')"
      "ctx_inv c' ts' qs'" "I None c'" "dom (cc_trans c') = set ts'" "ctx_ext_but (set es) c1 c'"
      "\<forall>u x. u \<in> set es \<longrightarrow> cc_trans c1 u = Some x \<longrightarrow> resends (cc_default_retrans_cnt c1) x \<longrightarrow>
       (\<exists>m. cc_trans c' u = Some ((resent (cc_default_retrans_ms c1) x)\<lparr>ct_retrans_timer := m\<rparr>))"
      using Cons.IH [OF c1(2,3)] Cons.prems(4) by (metis distinct.simps(2))
    have "ctx_ext_but (set (t # es)) c c'" using ctx_ext_but_trans [OF c1(5) IH(5)] by simp
    moreover have "\<exists>m. cc_trans c' u = Some ((resent (cc_default_retrans_ms c) y)\<lparr>ct_retrans_timer := m\<rparr>)"
      if u: "u \<in> set (t # es)" "cc_trans c u = Some y" "resends (cc_default_retrans_cnt c) y" for u y
    proof -
      have "u \<noteq> t" using u False x by auto
      then obtain m where "cc_trans c1 u = Some (y\<lparr>ct_retrans_timer := m\<rparr>)" using c1(5) u(2) by (auto simp: ctx_ext_but_def)
      then show ?thesis using IH(6) [rule_format, of u "y\<lparr>ct_retrans_timer := m\<rparr>"] u \<open>u \<noteq> t\<close> c1(5) by (simp add: ctx_ext_but_def)
    qed
    moreover have "send_expired h (t # es) n c = done_with (n', c')" using c1(1) IH(1) by simp
    ultimately show ?thesis using IH(2,3,4)
      by - (rule exI [of _ n'], rule exI [of _ c'], rule exI [of _ ts'], rule exI [of _ qs'], simp)
  qed
qed

lemma check_keeps:
  assumes i: "ctx_inv c ts qs" "set ts = dom (cc_trans c)" "I None c"
    and sc: "scan (has_expired (fst (get_elpased_ms now (cc_last_checktime c))) (cc_trans c)) EXPIRY_HANDLING_NUM ts = (e, k, r)"
  shows "\<exists>n c' ts' qs'. coap_check_transactions h now c = done_with (n, c') \<and>
    ctx_inv c' ts' qs' \<and> set ts' = dom (cc_trans c') \<and> I None c' \<and> ctx_ext_but (set e) c c' \<and>
    (\<forall>t x. t \<in> set e \<longrightarrow> cc_trans c t = Some x \<longrightarrow> resends (cc_default_retrans_cnt c) x \<longrightarrow>
       (\<exists>m. cc_trans c' t = Some ((resent (cc_default_retrans_ms c) x)\<lparr>ct_retrans_timer := m\<rparr>)))"
proof -
  obtain el where el: "get_elpased_ms now (cc_last_checktime c) = (el, now)" by (simp add: elpased_eq)
  let ?c = "c\<lparr>cc_last_checktime := now\<rparr>"
  have hd: "list_head (cc_transactions c) = opt_hd ts" using i(1) head_chain by (simp add: ctx_inv_def)
  from i(1) have "ctx_inv ?c ([] @ ts) qs" by simp
  moreover have "scan (has_expired el (cc_trans ?c)) (EXPIRY_HANDLING_NUM - length []) ts = (e, k, r)" using sc el by simp
  ultimately have "checked el 60000 ts [] (e, k, r) [] qs ?c (check_loop el (opt_hd ts) None 60000 [] ?c)"
    by (intro check_loop_ok) (simp_all add: EXPIRY_HANDLING_NUM_def)
  then obtain n1 c1 L where L: "check_loop el (opt_hd ts) None 60000 [] ?c = done_with (n1, [] @ e, c1)" "ctx_inv c1 ([] @ L) qs"
    "filter (\<lambda>x. x \<notin> set e) L = k @ r" "set L \<subseteq> set ts" "cc_trans c1 = age el (set k) (cc_trans ?c)" "cc_reqs c1 = cc_reqs ?c"
    "frame c1 = frame ?c" by (rule checkedE)
  have kr: "set k \<union> set r = set L - set e" using arg_cong [OF L(3), of set] by auto
  then have k_e: "t \<in> set k \<Longrightarrow> t \<notin> set e" for t by blast
  have "set ts = set L \<union> set e" using scan_sets [OF sc] kr L(4) by blast
  then have "dom (cc_trans c1) = set L \<union> set e" using L(5) i(2) by (auto simp: age_def dom_def split: if_split_asm)
  moreover have "distinct e" using scan_distinct [OF sc] ctx_inv_distinct [OF i(1)] by simp
  moreover have "I None c1" using i(3)
    by (rule callbacks_only) (use L(6) frame_fields [OF L(7)] in \<open>simp_all add: cb_of_def\<close>)
  ultimately obtain n c' ts' qs' where s: "send_expired h e n1 c1 = done_with (n, c')" "ctx_inv c' ts' qs'" "I None c'"
    "dom (cc_trans c') = set ts'" "ctx_ext_but (set e) c1 c'"
    "\<forall>t x. t \<in> set e \<longrightarrow> cc_trans c1 t = Some x \<longrightarrow> resends (cc_default_retrans_cnt c1) x \<longrightarrow>
       (\<exists>m. cc_trans c' t = Some ((resent (cc_default_retrans_ms c1) x)\<lparr>ct_retrans_timer := m\<rparr>))"
    using send_expired_keeps [OF L(2) [unfolded append_Nil]] by blast
  have "ctx_ext_but {} c c1" unfolding ctx_ext_but_def using L(5) frame_fields [OF L(7)] by (auto simp: age_def)
  with s(5) have x: "ctx_ext_but (set e) c c'" using ctx_ext_but_trans [of "{}" c c1 "set e" c'] by simp
  have "coap_check_transactions h now c = done_with (n, c')"
    using L(1) s(1) hd el by (simp add: coap_check_transactions_def elapsed_def)
  moreover have "\<forall>t x. t \<in> set e \<longrightarrow> cc_trans c t = Some x \<longrightarrow> resends (cc_default_retrans_cnt c) x \<longrightarrow>
       (\<exists>m. cc_trans c' t = Some ((resent (cc_default_retrans_ms c) x)\<lparr>ct_retrans_timer := m\<rparr>))"
  proof (intro allI impI)
    fix t x
    assume t: "t \<in> set e" "cc_trans c t = Some x" "resends (cc_default_retrans_cnt c) x"
    then have "cc_trans c1 t = Some x" using L(5) k_e by (auto simp: age_def)
    then show "\<exists>m. cc_trans c' t = Some ((resent (cc_default_retrans_ms c) x)\<lparr>ct_retrans_timer := m\<rparr>)"
      using s(6) t frame_fields(1,2) [OF L(7)] by simp
  qed
  ultimately show ?thesis using s(2-4) x by - (rule exI [of _ n], rule exI [of _ c'], rule exI [of _ ts'], rule exI [of _ qs'], simp)
qed

end

section \<open>Properties\<close>

lemma check_exact:
  assumes i: "ctx_inv c ts qs" "set ts = dom (cc_trans c)"
    and sc: "scan (has_expired (now - cc_last_checktime c) (cc_trans c)) EXPIRY_HANDLING_NUM ts = (e, k, r)"
    and a: "all_resend (cc_default_retrans_cnt c) (cc_trans c) e"
  shows "\<exists>n c'. coap_check_transactions h now c = done_with (n, c') \<and> ctx_inv c' (k @ r @ e) qs \<and>
    cc_trans c' = resend_all (cc_default_retrans_ms c) (set e) (age (now - cc_last_checktime c) (set k) (cc_trans c)) \<and>
    cc_reqs c' = cc_reqs c \<and> cc_events c' = cc_events c @ map (tx_of (cc_trans c)) e \<and> cc_last_checktime c' = now \<and>
    (\<forall>t x. cc_trans c' t = Some x \<longrightarrow> n \<le> ct_retrans_timer x) \<and> (length e = EXPIRY_HANDLING_NUM \<longrightarrow> n = 0)"
proof -
  define el where "el = now - cc_last_checktime c"
  let ?c = "c\<lparr>cc_last_checktime := now\<rparr>" and ?ms = "cc_default_retrans_ms c"
  have hd: "list_head (cc_transactions c) = opt_hd ts" using i(1) head_chain by (simp add: ctx_inv_def)
  have "checked el 60000 ts [] (e, k, r) [] qs ?c (check_loop el (opt_hd ts) None 60000 [] ?c)"
    using i(1) sc by (intro check_loop_ok) (simp_all add: EXPIRY_HANDLING_NUM_def el_def)
  then obtain n1 c1 L where L: "check_loop el (opt_hd ts) None 60000 [] ?c = done_with (n1, [] @ e, c1)" "ctx_inv c1 ([] @ L) qs"
    "filter (\<lambda>x. x \<notin> set e) L = k @ r" "set L \<subseteq> set ts" "cc_trans c1 = age el (set k) (cc_trans ?c)" "cc_reqs c1 = cc_reqs ?c"
    "frame c1 = frame ?c" "n1 \<le> 60000" "length ([] @ e) = EXPIRY_HANDLING_NUM \<longrightarrow> n1 = 0"
    "\<forall>t x. t \<in> set k \<longrightarrow> cc_trans ?c t = Some x \<longrightarrow> n1 \<le> ct_retrans_timer x - el" by (rule checkedE)
  have d: "distinct (e @ k @ r)" using scan_distinct [OF sc] ctx_inv_distinct [OF i(1)] by simp
  have e_age: "t \<in> set e \<Longrightarrow> cc_trans c1 t = cc_trans c t" for t using L(5) d by (auto simp: age_def)
  have "all_resend (cc_default_retrans_cnt c1) (cc_trans c1) e"
    using a all_resend_cong [OF e_age, of e] frame_fields(1) [OF L(7)] by simp
  then obtain c' where c': "send_expired h e n1 c1 = done_with (if e = [] then n1 else min (cc_default_retrans_ms c1) n1, c')"
    "ctx_inv c' (filter (\<lambda>x. x \<notin> set e) L @ e) qs" "cc_trans c' = resend_all (cc_default_retrans_ms c1) (set e) (cc_trans c1)"
    "cc_reqs c' = cc_reqs c1" "cc_events c' = cc_events c1 @ map (tx_of (cc_trans c1)) e" "cc_last_checktime c' = cc_last_checktime c1"
    using send_expired_resends [of c1 L qs e h n1] L(2) d by auto
  define n where "n = (if e = [] then n1 else min ?ms n1)"
  have "coap_check_transactions h now c = done_with (n, c')"
    using L(1) c'(1) hd frame_fields(2) [OF L(7)] by (simp add: coap_check_transactions_def elapsed_def elpased_eq el_def n_def)
  moreover have "map (tx_of (cc_trans c1)) e = map (tx_of (cc_trans c)) e" using e_age by (simp add: tx_of_def)
  moreover have "n \<le> ct_retrans_timer x" if tx: "cc_trans c' t = Some x" for t x
  proof -
    have "t \<in> set e \<union> set k \<union> set r" using tx c'(3) L(5) i(2) scan_sets [OF sc] by (auto simp: resend_all_def age_def split: if_split_asm)
    then consider "t \<in> set e" | "t \<in> set k" "t \<notin> set e" | "t \<in> set r" by blast
    then show ?thesis
    proof cases
      case 1
      then have "ct_retrans_timer x = ?ms" "e \<noteq> []"
        using tx c'(3) frame_fields(2) [OF L(7)] by (auto simp: resend_all_def resent_def)
      then show ?thesis by (simp add: n_def)
    next
      case 2
      then obtain y where "cc_trans c t = Some y" "ct_retrans_timer x = ct_retrans_timer y - el"
        using tx c'(3) L(5) by (auto simp: resend_all_def age_def)
      with L(10) 2 have "n1 \<le> ct_retrans_timer x" by simp
      then show ?thesis by (auto simp: n_def min_le_iff_disj)
    next
      case 3
      with scan_length [OF sc] have "n1 = 0" using L(9) by (auto simp: EXPIRY_HANDLING_NUM_def)
      then show ?thesis by (simp add: n_def)
    qed
  qed
  moreover have "length e = EXPIRY_HANDLING_NUM \<longrightarrow> n = 0" using L(9) by (simp add: n_def)
  ultimately show ?thesis using c'(2-6) L(3,5,6) frame_fields [OF L(7)]
    by (intro exI [of _ n] exI [of _ c']) (simp add: el_def)
qed

text \<open>C16.  A check of the transactions in which no transaction is given up: with the transactions split into the
  first ten expired ones \<open>e\<close>, the ones before the last of them that have time left \<open>k\<close> and the rest \<open>r\<close>, the packets of
  \<open>e\<close> are sent again in their order, their counters are incremented and they move to the end of the list with fresh
  timers; the timers of \<open>k\<close> are reduced by the elapsed time, everything else stays, and the returned time is not
  later than any timer.\<close>

theorem coap_check_exact:
  assumes i: "ctx_inv c ts qs" "set ts = dom (cc_trans c)"
    and sc: "scan (has_expired (now - cc_last_checktime c) (cc_trans c)) EXPIRY_HANDLING_NUM ts = (e, k, r)"
    and a: "all_resend (cc_default_retrans_cnt c) (cc_trans c) e"
  shows "\<exists>n c'. coap_check_transactions h now c = done_with (n, c') \<and> ctx_inv c' (k @ r @ e) qs \<and>
    cc_trans c' = resend_all (cc_default_retrans_ms c) (set e) (age (now - cc_last_checktime c) (set k) (cc_trans c)) \<and>
    cc_reqs c' = cc_reqs c \<and> cc_events c' = cc_events c @ map (tx_of (cc_trans c)) e \<and> cc_last_checktime c' = now \<and>
    (\<forall>t x. cc_trans c' t = Some x \<longrightarrow> n \<le> ct_retrans_timer x)"
  using check_exact [OF assms] by blast

text \<open>A context that holds transactions at the addresses from 1 on, without requests.\<close>

definition ctx_of :: "coap_transaction list \<Rightarrow> coap_context" where
  "ctx_of xs =
     \<lparr>cc_default_retrans_cnt = 4, cc_default_retrans_ms = 3000, cc_last_checktime = 0,
      cc_transactions = \<lparr>cl_head = if xs = [] then None else Some 1,
        cl_next = (\<lambda>a. if a \<in> {1..length xs} then Some (if a < length xs then Some (a + 1) else None) else None)\<rparr>,
      cc_trans = (\<lambda>a. if a \<in> {1..length xs} then Some (xs ! (a - 1)) else None),
      cc_ongoing_requests = \<lparr>cl_head = None, cl_next = Map.empty\<rparr>, cc_reqs = Map.empty, cc_events = []\<rparr>"

lemma path_upt:
  "0 < a \<Longrightarrow> a \<le> n \<Longrightarrow> path (\<lambda>a. if a \<in> {1..n} then Some (if a < n then Some (a + 1) else None) else None) (Some a) [a..<Suc n] None"
proof (induction "n - a" arbitrary: a)
  case 0
  then have "a = n" by simp
  with 0 show ?case by simp
next
  case (Suc m)
  then have "[a..<Suc n] = a # [Suc a..<Suc n]" by (simp add: upt_rec)
  with Suc show ?case by simp
qed

lemma ctx_of_inv:
  assumes "list_all (\<lambda>x. trans_ok 4 x \<and> ct_ongoing_request x = None) xs"
  shows "ctx_inv (ctx_of xs) [1..<Suc (length xs)] []" and "set [1..<Suc (length xs)] = dom (cc_trans (ctx_of xs))"
proof -
  have d: "dom (\<lambda>a. if a \<in> {1..n} then Some (f a) else None) = {1..n}" for n :: nat and f :: "nat \<Rightarrow> 'a"
    by (auto simp: dom_def)
  have x: "trans_ok 4 (xs ! (a - 1)) \<and> ct_ongoing_request (xs ! (a - 1)) = None" if "a \<in> {1..length xs}" for a
    using assms that by (auto simp: list_all_length)
  have "chain (cc_transactions (ctx_of xs)) [1..<Suc (length xs)]"
    using path_upt [of 1 "length xs"] by (cases "xs = []") (simp_all add: chain_def ctx_of_def Suc_le_eq del: upt_Suc)
  moreover have "linked (ctx_of xs)" using x by (auto simp: linked_def t_link_def q_link_def ctx_of_def)
  ultimately show "ctx_inv (ctx_of xs) [1..<Suc (length xs)] []"
    using x by (auto simp: ctx_inv_def chain_def ctx_of_def d split: if_split_asm)
  show "set [1..<Suc (length xs)] = dom (cc_trans (ctx_of xs))" by (auto simp: ctx_of_def dom_def)
qed

text \<open>A confirmable packet of four bytes with its timer, sent once.\<close>

definition sample_trans :: "u32 \<Rightarrow> coap_transaction" where
  "sample_trans n = \<lparr>ct_mid = 7, ct_retrans_timer = n, ct_retrans_counter = 1, ct_addr = [], ct_ongoing_request = None,
     ct_packet_len = 4, ct_packet = [64, 1, 0, 7]\<rparr>"

lemma sample_trans_ok: "trans_ok 4 (sample_trans n)" "resends 4 (sample_trans n)" "ct_ongoing_request (sample_trans n) = None"
  by (simp_all add: trans_ok_def sample_trans_def resends_def con_trans_def COAP_TYPE_CON_def)

theorem coap_check_exact_witness:
  "\<exists>n c'. coap_check_transactions (\<lambda>_ _ _. done_with) 500 (ctx_of [sample_trans 700, sample_trans 400]) = done_with (n, c') \<and>
     ctx_inv c' [1, 2] [] \<and> cc_events c' = [Tx_Data [] [64, 1, 0, 7]] \<and> cc_last_checktime c' = 500 \<and> n \<le> 200"
proof -
  let ?c = "ctx_of [sample_trans 700, sample_trans 400]"
  have u: "[1..<Suc (length [sample_trans 700, sample_trans 400])] = [1, 2]" by (simp add: upt_rec numeral_2_eq_2)
  have "list_all (\<lambda>x. trans_ok 4 x \<and> ct_ongoing_request x = None) [sample_trans 700, sample_trans 400]" by (simp add: sample_trans_ok)
  from ctx_of_inv [OF this, unfolded u] have i: "ctx_inv ?c [1, 2] []" "set [1, 2] = dom (cc_trans ?c)" .
  have s: "scan (has_expired (500 - cc_last_checktime ?c) (cc_trans ?c)) EXPIRY_HANDLING_NUM [1, 2] = ([2], [1], [])"
    by (simp add: has_expired_def ctx_of_def sample_trans_def EXPIRY_HANDLING_NUM_def)
  have a: "all_resend (cc_default_retrans_cnt ?c) (cc_trans ?c) [2]"
    by (simp add: all_resend_def ctx_of_def sample_trans_ok)
  from coap_check_exact [OF i s a, of "\<lambda>_ _ _. done_with"] obtain n c' where
    c': "coap_check_transactions (\<lambda>_ _ _. done_with) 500 ?c = done_with (n, c')" "ctx_inv c' ([1] @ [] @ [2]) []"
    "cc_trans c' = resend_all (cc_default_retrans_ms ?c) (set [2]) (age (500 - cc_last_checktime ?c) (set [1]) (cc_trans ?c))"
    "cc_events c' = cc_events ?c @ map (tx_of (cc_trans ?c)) [2]" "cc_last_checktime c' = 500"
    "\<forall>t x. cc_trans c' t = Some x \<longrightarrow> n \<le> ct_retrans_timer x" by blast
  moreover have "cc_trans c' 1 = Some (sample_trans 200)" using c'(3) by (simp add: resend_all_def age_def ctx_of_def sample_trans_def)
  then have "n \<le> 200" using c'(6) by (fastforce simp: sample_trans_def)
  moreover have "cc_events c' = [Tx_Data [] [64, 1, 0, 7]]" using c'(4) by (simp add: tx_of_def ctx_of_def sample_trans_def)
  ultimately show ?thesis by auto
qed

text \<open>The scan stops at the tenth expired transaction.\<close>

lemma scan_all: "list_all P es \<Longrightarrow> es \<noteq> [] \<Longrightarrow> scan P (length es) (es @ us) = (es, [], us)"
proof (induction es)
  case (Cons t es)
  then show ?case by (cases "es = []") auto
qed simp

text \<open>C36.  The time of the transactions behind ten expired ones stands still: the check stops at the tenth and leaves
  the timers behind it as they are, but sets the time of the last check to now, so the elapsed time is lost for
  them and their packets are sent again later than their timers say.\<close>

theorem coap_check_loses_time:
  assumes "ctx_inv c (es @ us) qs" and "set (es @ us) = dom (cc_trans c)" and "length es = 10"
    and "list_all (has_expired (now - cc_last_checktime c) (cc_trans c)) es"
    and "all_resend (cc_default_retrans_cnt c) (cc_trans c) es"
  shows "\<exists>c'. coap_check_transactions h now c = done_with (0, c') \<and> cc_last_checktime c' = now \<and>
    list_all (\<lambda>t. cc_trans c' t = cc_trans c t) us"
proof -
  have s: "scan (has_expired (now - cc_last_checktime c) (cc_trans c)) EXPIRY_HANDLING_NUM (es @ us) = (es, [], us)"
    using scan_all [OF assms(4), of us] assms(3) by (cases "es = []") (simp_all add: EXPIRY_HANDLING_NUM_def)
  have d: "set es \<inter> set us = {}" using ctx_inv_distinct [OF assms(1)] by simp
  obtain n c' where c': "coap_check_transactions h now c = done_with (n, c')" "cc_last_checktime c' = now"
    "cc_trans c' = resend_all (cc_default_retrans_ms c) (set es) (age (now - cc_last_checktime c) (set []) (cc_trans c))"
    "length es = EXPIRY_HANDLING_NUM \<longrightarrow> n = 0" using check_exact [OF assms(1,2) s assms(5), of h] by blast
  then have "n = 0" using assms(3) by (simp add: EXPIRY_HANDLING_NUM_def)
  with c' d show ?thesis by (intro exI [of _ c']) (auto simp: list_all_iff resend_all_def)
qed

theorem coap_check_loses_time_witness:
  "\<exists>c'. coap_check_transactions (\<lambda>_ _ _. done_with) 2000 (ctx_of (replicate 10 (sample_trans 500) @ [sample_trans 2500])) = done_with (0, c') \<and>
     cc_last_checktime c' = 2000 \<and> cc_trans c' 11 = Some (sample_trans 2500)"
proof -
  let ?xs = "replicate 10 (sample_trans 500) @ [sample_trans 2500]"
  have u: "[1..<Suc (length ?xs)] = [1..<11] @ [11]" by (simp add: upt_rec)
  have "list_all (\<lambda>x. trans_ok 4 x \<and> ct_ongoing_request x = None) ?xs" by (simp add: sample_trans_ok list_all_iff)
  from ctx_of_inv [OF this, unfolded u] have i: "ctx_inv (ctx_of ?xs) ([1..<11] @ [11]) []" "set ([1..<11] @ [11]) = dom (cc_trans (ctx_of ?xs))" .
  have T: "a \<in> {1..10} \<Longrightarrow> cc_trans (ctx_of ?xs) a = Some (sample_trans 500)" for a
    by (auto simp: ctx_of_def nth_append)
  have "list_all (has_expired (2000 - cc_last_checktime (ctx_of ?xs)) (cc_trans (ctx_of ?xs))) [1..<11]"
    using T by (auto simp: list_all_iff has_expired_def ctx_of_def sample_trans_def)
  moreover have "all_resend (cc_default_retrans_cnt (ctx_of ?xs)) (cc_trans (ctx_of ?xs)) [1..<11]"
    using T by (auto simp: all_resend_def list_all_iff ctx_of_def sample_trans_ok)
  ultimately show ?thesis
    using coap_check_loses_time [OF i, of 2000 "\<lambda>_ _ _. done_with"] by (auto simp: ctx_of_def nth_append)
qed

end
