(* ===== verification/Coap_Block1.thy ===== *)
theory Coap_Block1
  imports Coap_Parse
begin

text \<open>
  Block-wise requests: \<open>coap_block1_handler\<close> of \<open>src/idr-mgt-shared-libs/coap/er-coap/er-coap-block1.c\<close>, which
  assembles the payloads of a sequence of requests in a buffer.  \<open>target\<close> is the buffer with its
  length variable when both pointers are given; the sum of offset and payload length has 32 bits.
\<close>

section \<open>Model\<close>

definition BAD_REQUEST_400 :: int where "BAD_REQUEST_400 = - 1"

definition REQUEST_ENTITY_TOO_LARGE :: int where "REQUEST_ENTITY_TOO_LARGE = - 2"

definition CONTINUE_2_31 :: u32 where "CONTINUE_2_31 = 95"

record block1_state =
  b1_status :: int
  b1_response :: coap_packet
  b1_target :: "bytes option"
  b1_len :: nat

definition coap_block1_handler :: "coap_packet \<Rightarrow> nat \<Rightarrow> block1_state \<Rightarrow> (int \<times> block1_state) cres" where
  "coap_block1_handler request max_len st =
     (case coap_get_payload request of
        None \<Rightarrow> Inr (-1, st\<lparr>b1_status := BAD_REQUEST_400\<rparr>)
      | Some (payload, pay_len) \<Rightarrow>
          if pay_len = 0 then Inr (-1, st\<lparr>b1_status := BAD_REQUEST_400\<rparr>)
          else let total = cp_block1_offset request + of_nat pay_len in
          if unat total > max_len then Inr (-1, st\<lparr>b1_status := REQUEST_ENTITY_TOO_LARGE\<rparr>)
          else
            cbind (case b1_target st of
                     None \<Rightarrow> Inr st
                   | Some target \<Rightarrow>
                       cbind (sref_at (cp_buffer request) (Some payload) 0 pay_len) (\<lambda>v.
                       cbind (buf_write (unat (cp_block1_offset request)) v target) (\<lambda>target.
                       Inr (st\<lparr>b1_target := Some target, b1_len := unat total\<rparr>)))) (\<lambda>st.
            if IS_OPTION COAP_OPTION_BLOCK1 request then
              let r = snd (coap_set_header_block1 (cp_block1_num request) (cp_block1_more request) (cp_block1_size request) (b1_response st))
              in if cp_block1_more request \<noteq> 0 then Inr (1, st\<lparr>b1_response := snd (coap_set_status_code CONTINUE_2_31 r)\<rparr>)
                 else Inr (0, st\<lparr>b1_response := r\<rparr>)
            else Inr (0, st)))"

text \<open>The handler called for one request after the other, with the results so far.\<close>

fun block1_run :: "coap_packet list \<Rightarrow> nat \<Rightarrow> block1_state \<Rightarrow> (int list \<times> block1_state) cres" where
  "block1_run [] max_len st = Inr ([], st)"
| "block1_run (r # rs) max_len st =
     cbind (coap_block1_handler r max_len st) (\<lambda>(i, st). cbind (block1_run rs max_len st) (\<lambda>(is, st). Inr (i # is, st)))"

section \<open>One request\<close>

text \<open>A request that carries the block \<open>v\<close> at position \<open>off\<close>.\<close>

definition carries :: "coap_packet \<Rightarrow> nat \<Rightarrow> bytes \<Rightarrow> bool \<Rightarrow> bool" where
  "carries r off v mr \<longleftrightarrow> IS_OPTION COAP_OPTION_BLOCK1 r \<and> unat (cp_block1_offset r) = off \<and> (cp_block1_more r \<noteq> 0 \<longleftrightarrow> mr) \<and>
     v \<noteq> [] \<and> cp_payload r \<noteq> None \<and> cp_payload_len r = length v \<and> sref_at (cp_buffer r) (cp_payload r) 0 (length v) = Inr v"

lemma block1_sum: "unat (x :: u32) + n < 2 ^ 32 \<Longrightarrow> unat (x + of_nat n) = unat x + n"
proof -
  assume a: "unat x + n < 2 ^ 32"
  then have "unat (of_nat n :: u32) = n" by (intro unat_of_nat_small) simp
  with a show ?thesis by (simp add: unat_word_ariths)
qed

lemma block1_stores:
  assumes "carries r off v mr" "b1_target st = Some t" "off + length v \<le> max_len" "max_len \<le> length t" "off + length v < 2 ^ 32"
  shows "\<exists>st'. coap_block1_handler r max_len st = Inr (if mr then 1 else 0, st') \<and>
    b1_target st' = Some (take off t @ v @ drop (off + length v) t) \<and> b1_len st' = off + length v \<and> b1_status st' = b1_status st"
proof -
  obtain pl where pl: "cp_payload r = Some pl" using assms(1) by (auto simp: carries_def)
  have v: "sref_at (cp_buffer r) (Some pl) 0 (length v) = Inr v" "cp_payload_len r = length v" "v \<noteq> []" "unat (cp_block1_offset r) = off"
    "IS_OPTION COAP_OPTION_BLOCK1 r" "cp_block1_more r \<noteq> 0 \<longleftrightarrow> mr"
    using assms(1) pl by (auto simp: carries_def)
  have s: "unat (cp_block1_offset r + of_nat (length v)) = off + length v" using block1_sum [of "cp_block1_offset r"] v(4) assms(5) by simp
  have w: "buf_write off v t = Inr (take off t @ v @ drop (off + length v) t)" using assms(3,4) v(3) by (simp add: buf_write_def)
  show ?thesis using v s w pl assms(2,3)
    by (auto simp: coap_block1_handler_def coap_get_payload_def Let_def)
qed

section \<open>Properties\<close>

text \<open>A sequence of requests that carries the consecutive blocks of a payload.\<close>

fun carries_all :: "coap_packet list \<Rightarrow> nat \<Rightarrow> bytes list \<Rightarrow> bool" where
  "carries_all [] off [] \<longleftrightarrow> True"
| "carries_all (r # rs) off (v # vs) \<longleftrightarrow> carries r off v (vs \<noteq> []) \<and> carries_all rs (off + length v) vs"
| "carries_all _ _ _ \<longleftrightarrow> False"

lemma block1_run_assembles:
  assumes "carries_all rs off vs" "b1_target st = Some t" "off + length (concat vs) \<le> max_len" "max_len \<le> length t" "max_len < 2 ^ 32" "vs \<noteq> []"
  shows "\<exists>st'. block1_run rs max_len st = Inr (replicate (length vs - 1) 1 @ [0], st') \<and>
    b1_target st' = Some (take off t @ concat vs @ drop (off + length (concat vs)) t) \<and> b1_len st' = off + length (concat vs)"
  using assms
proof (induction rs off vs arbitrary: st t rule: carries_all.induct)
  case (2 r rs off v vs)
  obtain st1 where s1: "coap_block1_handler r max_len st = Inr (if vs \<noteq> [] then 1 else 0, st1)"
    "b1_target st1 = Some (take off t @ v @ drop (off + length v) t)" "b1_len st1 = off + length v"
    using block1_stores [of r off v "vs \<noteq> []" st t max_len] 2 by auto
  show ?case
  proof (cases "vs = []")
    case True
    then have "rs = []" using "2.prems"(1) by (cases rs) auto
    then show ?thesis using s1 True by simp
  next
    case False
    let ?t = "take off t @ v @ drop (off + length v) t"
    have "length ?t = length t" using "2.prems" by simp
    then obtain st2 where "block1_run rs max_len st1 = Inr (replicate (length vs - 1) 1 @ [0], st2)"
      "b1_target st2 = Some (take (off + length v) ?t @ concat vs @ drop (off + length v + length (concat vs)) ?t)"
      "b1_len st2 = off + length v + length (concat vs)"
      using "2.IH" [OF _ s1(2)] "2.prems" False by auto
    moreover have "take (off + length v) ?t = take off t @ v" using "2.prems" by simp
    moreover have "drop (off + length v + length (concat vs)) ?t = drop (off + length v + length (concat vs)) t"
      using "2.prems" by (simp add: add.commute)
    ultimately show ?thesis using s1(1) False by (cases vs) (simp_all add: add.assoc)
  qed
qed simp_all

text \<open>Block-wise assembly: requests that carry the consecutive blocks of a payload, each but the last with the
  more flag, leave the payload at the start of the buffer and its length in the length variable; every
  request but the last is answered with \<open>continue\<close>.\<close>

theorem block1_assembles:
  assumes "carries_all rs 0 vs" "vs \<noteq> []" "b1_target st = Some t" "length (concat vs) \<le> max_len" "max_len \<le> length t" "max_len < 2 ^ 32"
  shows "\<exists>st'. block1_run rs max_len st = Inr (replicate (length vs - 1) 1 @ [0], st') \<and>
    b1_target st' = Some (concat vs @ drop (length (concat vs)) t) \<and> b1_len st' = length (concat vs)"
  using block1_run_assembles [OF assms(1,3) _ assms(5,6,2)] assms(4) by simp

definition block1_sample :: "nat \<Rightarrow> u32 \<Rightarrow> u8 \<Rightarrow> bytes \<Rightarrow> coap_packet" where
  "block1_sample k off mr v =
     (snd (coap_set_header_block1 (of_nat k) mr 16 (snd (coap_set_payload (Some (P_Ext v)) (length v) (coap_init_message 0 2 7)))))
       \<lparr>cp_block1_offset := off\<rparr>"

definition block1_start :: "nat \<Rightarrow> block1_state" where
  "block1_start n = \<lparr>b1_status = 0, b1_response = coap_init_message 2 68 7, b1_target = Some (replicate n 0), b1_len = 0\<rparr>"

theorem block1_assembles_witness:
  "\<exists>st'. block1_run [block1_sample 0 0 1 (replicate 16 5), block1_sample 1 16 0 [6, 7]] 20 (block1_start 20) = Inr (replicate (length [replicate 16 5, [6, 7 :: u8]] - 1) 1 @ [0], st') \<and>
    b1_target st' = Some (concat [replicate 16 5, [6, 7]] @ drop (length (concat [replicate 16 5, [6, 7 :: u8]])) (replicate 20 0)) \<and>
    b1_len st' = length (concat [replicate 16 5, [6, 7 :: u8]])"
proof (rule block1_assembles [where t = "replicate 20 0"])
  show "carries_all [block1_sample 0 0 1 (replicate 16 5), block1_sample 1 16 0 [6, 7]] 0 [replicate 16 5, [6, 7]]" by code_simp
qed (simp_all add: block1_start_def)

text \<open>The size check uses a sum of 32 bits: a block offset close to its end passes the check when the sum
  wraps around, and the payload is written outside of the buffer.\<close>

theorem block1_offset_wraps:
  assumes "carries r off v mr" "b1_target st = Some t" "2 ^ 32 \<le> off + length v" "off + length v - 2 ^ 32 \<le> max_len"
    and "length v < 2 ^ 32" "length t < off + length v"
  shows "coap_block1_handler r max_len st = Inl Out_Of_Bounds"
proof -
  obtain pl where pl: "cp_payload r = Some pl" using assms(1) by (auto simp: carries_def)
  have v: "sref_at (cp_buffer r) (Some pl) 0 (length v) = Inr v" "cp_payload_len r = length v" "v \<noteq> []" "unat (cp_block1_offset r) = off"
    using assms(1) pl by (auto simp: carries_def)
  have "unat (cp_block1_offset r) < 2 ^ LENGTH(32)" by (rule unsigned_less)
  then have "off < 2 ^ 32" using v(4) by simp
  then have "unat (cp_block1_offset r + of_nat (length v)) = off + length v - 2 ^ 32"
    using v(4) assms(3,5) by (simp add: unat_word_ariths unat_of_nat_small mod_if)
  then show ?thesis using v pl assms(2,4,6) by (simp add: coap_block1_handler_def coap_get_payload_def Let_def buf_write_def)
qed

theorem block1_offset_wraps_witness:
  "coap_block1_handler (block1_sample 0 0xFFFFFFF0 0 (replicate 32 1)) 64 (block1_start 64) = Inl Out_Of_Bounds"
proof (rule block1_offset_wraps [where t = "replicate 64 0"])
  let ?r = "block1_sample 0 0xFFFFFFF0 0 (replicate 32 1)"
  have "IS_OPTION COAP_OPTION_BLOCK1 ?r" "cp_block1_more ?r = 0" "cp_block1_offset ?r = 0xFFFFFFF0" "cp_payload ?r \<noteq> None"
    "cp_payload_len ?r = length (replicate 32 (1 :: u8))" "sref_at (cp_buffer ?r) (cp_payload ?r) 0 (length (replicate 32 (1 :: u8))) = Inr (replicate 32 1)"
    by code_simp+
  then show "carries ?r 0xFFFFFFF0 (replicate 32 1) False" by (simp add: carries_def)
qed (simp_all add: block1_start_def)

end
