(* ===== verification/Coap_Request.thy ===== *)
theory Coap_Request
  imports Coap_Retransmit Coap_Codec Coap_Block1
begin

text \<open>
  The CoAP client of \<open>src/idr-mgt-shared-libs/coap/extension/coap_request.c\<close>: requests that are answered through a
  callback, cut into blocks when their payload is long, and the handling of received packets.

  The context of the transactions is extended by the request states in the heap, the message identifier, the clock
  and the addresses that \<open>malloc\<close> returns next; an empty list stands for \<open>NULL\<close>.  A state owns its copy of the
  request and of the payload, which live and die with it.  Callbacks of the client are a parameter; they return
  whether the request is to be stopped.  Callbacks of the engine may be called while one is running, so \<open>engine\<close> has a
  depth; requests received are handed to the parameter \<open>serve\<close>.
\<close>

section \<open>Data\<close>

record request_state =
  rs_transaction :: "nat option"
  rs_request :: coap_packet
  rs_response_callback :: "nat option"
  rs_user_data :: nat
  rs_block_num :: u32
  rs_block_size :: u16

record req_ctx = coap_context +
  rq_states :: "nat \<rightharpoonup> request_state"
  rq_mid :: u16
  rq_now :: u32
  rq_mem :: "nat list"

type_synonym user_handler = "nat \<Rightarrow> nat \<Rightarrow> coap_packet option \<Rightarrow> req_ctx \<Rightarrow> (bool \<times> req_ctx) run"

type_synonym engine_handler = "nat \<Rightarrow> nat \<Rightarrow> coap_packet option \<Rightarrow> req_ctx \<Rightarrow> req_ctx run"

definition COAP_MAX_BLOCK_SIZE :: nat where "COAP_MAX_BLOCK_SIZE = 1024"

definition PING_RESPONSE :: int where "PING_RESPONSE = 195"

text \<open>The function pointers of the two callbacks of the engine.\<close>

definition PUT_CALLBACK :: nat where "PUT_CALLBACK = 0"

definition GET_CALLBACK :: nat where "GET_CALLBACK = 1"

definition malloc :: "req_ctx \<Rightarrow> nat option \<times> req_ctx" where
  "malloc c = (case rq_mem c of [] \<Rightarrow> (None, c) | a # m \<Rightarrow> (Some a, c\<lparr>rq_mem := m\<rparr>))"

definition state_at :: "nat \<Rightarrow> req_ctx \<Rightarrow> request_state run" where
  "state_at s c = (case rq_states c s of None \<Rightarrow> Some (Inl Bad_Pointer) | Some x \<Rightarrow> done_with x)"

definition upd_state :: "nat \<Rightarrow> (request_state \<Rightarrow> request_state) \<Rightarrow> req_ctx \<Rightarrow> req_ctx run" where
  "upd_state s f c = rbind (state_at s c) (\<lambda>x. done_with (c\<lparr>rq_states := (rq_states c)(s \<mapsto> f x)\<rparr>))"

definition free_blockwise_state :: "nat \<Rightarrow> req_ctx \<Rightarrow> req_ctx run" where
  "free_blockwise_state s c = rbind (state_at s c) (\<lambda>_. done_with (c\<lparr>rq_states := (rq_states c)(s := None)\<rparr>))"

section \<open>Steps of requests\<close>

definition next_mid :: "req_ctx \<Rightarrow> u16 \<times> req_ctx" where
  "next_mid c = (case coap_get_mid (rq_mid c) of (m, st) \<Rightarrow> (m, c\<lparr>rq_mid := st\<rparr>))"

definition start_transaction :: "u16 \<Rightarrow> bytes \<Rightarrow> req_ctx \<Rightarrow> (nat option \<times> req_ctx) run" where
  "start_transaction mid addr c = (case malloc c of (p, c) \<Rightarrow> coap_new_transaction p (rq_now c) mid addr c)"

definition serialize_to :: "nat \<Rightarrow> coap_packet \<Rightarrow> req_ctx \<Rightarrow> req_ctx run" where
  "serialize_to t msg c =
     rbind (trans_at t c) (\<lambda>x.
     rbind (Some (coap_serialize_message msg (ct_packet x))) (\<lambda>(n, buf, _).
     upd_trans t (\<lambda>x. x\<lparr>ct_packet := buf, ct_packet_len := of_nat n\<rparr>) c))"

definition set_handler :: "nat \<Rightarrow> coap_packet \<Rightarrow> nat option \<Rightarrow> nat \<Rightarrow> req_ctx \<Rightarrow> req_ctx run" where
  "set_handler t msg cb d c =
     (if cp_token msg = [] then done_with c
      else case malloc c of (p, c) \<Rightarrow> coap_set_response_handler p t msg cb d c)"

text \<open>The transaction that a state refers to, and its address.\<close>

definition state_addr :: "request_state \<Rightarrow> req_ctx \<Rightarrow> bytes run" where
  "state_addr x c =
     (case rs_transaction x of
        None \<Rightarrow> Some (Inl Null_Deref)
      | Some t \<Rightarrow> rbind (trans_at t c) (\<lambda>y. done_with (ct_addr y)))"

text \<open>\<open>payload + k\<close>.\<close>

fun sref_plus :: "sref option \<Rightarrow> nat \<Rightarrow> sref option" where
  "sref_plus None k = None"
| "sref_plus (Some (P_Ext v)) k = Some (P_Ext (drop k v))"
| "sref_plus (Some (P_Buf i)) k = Some (P_Buf (i + k))"

section \<open>Callbacks\<close>

definition user_call :: "user_handler \<Rightarrow> nat \<Rightarrow> nat \<Rightarrow> coap_packet option \<Rightarrow> req_ctx \<Rightarrow> (bool \<times> req_ctx) run" where
  "user_call u cb d r c = u cb d r (emit (Callback cb d r) c)"

text \<open>The ends of \<open>coap_nonblocking_put_callback\<close>: the callback of the client, if it has one, and the state freed.\<close>

definition put_finish :: "user_handler \<Rightarrow> nat \<Rightarrow> request_state \<Rightarrow> coap_packet option \<Rightarrow> req_ctx \<Rightarrow> req_ctx run" where
  "put_finish u s x r c =
     rbind (case rs_response_callback x of
              None \<Rightarrow> done_with c
            | Some cb \<Rightarrow> rbind (user_call u cb (rs_user_data x) r c) (\<lambda>(_, c). done_with c))
       (free_blockwise_state s)"

text \<open>The next block: its payload and whether more follow.\<close>

definition put_block :: "request_state \<Rightarrow> coap_packet" where
  "put_block x =
     (let request = rs_request x;
          off = rs_block_num x * ucast (rs_block_size x);
          rest = of_nat (cp_payload_len request) - off;
          (payload_len, mr) = (if rest < ucast (rs_block_size x) then (rest, 0) else (ucast (rs_block_size x), 1));
          msg = snd (coap_set_payload (sref_plus (cp_payload request) (unat off)) (unat payload_len) request)
      in snd (coap_set_header_block1 (rs_block_num x) mr (rs_block_size x) msg))"

definition coap_nonblocking_put_callback :: "engine_handler \<Rightarrow> user_handler \<Rightarrow> nat \<Rightarrow> coap_packet option \<Rightarrow> req_ctx \<Rightarrow> req_ctx run" where
  "coap_nonblocking_put_callback h u s response c =
     rbind (state_at s c) (\<lambda>x.
     case response of
       None \<Rightarrow> put_finish u s x None c
     | Some r \<Rightarrow>
         if cp_type r = COAP_TYPE_RST then put_finish u s x None c
         else
           (case (case coap_get_header_block1 r of None \<Rightarrow> (0, 0) | Some (b, m, _, _) \<Rightarrow> (b, m)) of (res_block, mr) \<Rightarrow>
            if cp_code r = CREATED_2_01 then put_finish u s x (Some r) c
            else if res_block \<noteq> rs_block_num x then put_finish u s x None c
            else
              rbind (upd_state s (\<lambda>x. x\<lparr>rs_block_num := rs_block_num x + 1\<rparr>) c) (\<lambda>c.
              let x = x\<lparr>rs_block_num := rs_block_num x + 1\<rparr> in
              if cp_code r = ucast CONTINUE_2_31 \<and> mr = 0 then put_finish u s x None c
              else if cp_code r = CHANGED_2_04 \<and>
                of_nat (cp_payload_len (rs_request x)) < rs_block_num x * ucast (rs_block_size x) then put_finish u s x (Some r) c
              else if cp_code r \<noteq> ucast CONTINUE_2_31 \<and> cp_code r \<noteq> CHANGED_2_04 then put_finish u s x None c
              else
                (case next_mid c of (mid, c) \<Rightarrow>
                 rbind (state_addr x c) (\<lambda>addr.
                 rbind (start_transaction mid addr c) (\<lambda>(t, c).
                 let x = x\<lparr>rs_transaction := t, rs_request := (rs_request x)\<lparr>cp_mid := mid\<rparr>\<rparr> in
                 rbind (upd_state s (\<lambda>_. x) c) (\<lambda>c.
                 case t of
                   None \<Rightarrow> put_finish u s x None c
                 | Some t \<Rightarrow>
                     rbind (set_handler t (put_block x) (Some PUT_CALLBACK) s c) (\<lambda>c.
                     rbind (serialize_to t (put_block x) c) (\<lambda>c.
                     rbind (coap_send_transaction h t c) (\<lambda>(freed, c).
                     if freed then put_finish u s x None c else done_with c))))))))))"

definition get_finish :: "user_handler \<Rightarrow> nat \<Rightarrow> request_state \<Rightarrow> req_ctx \<Rightarrow> req_ctx run" where
  "get_finish u s x c =
     (case rs_response_callback x of
        None \<Rightarrow> Some (Inl Null_Deref)
      | Some cb \<Rightarrow> rbind (user_call u cb (rs_user_data x) None c) (\<lambda>(_, c). free_blockwise_state s c))"

text \<open>The request for the next block.\<close>

definition get_next :: "engine_handler \<Rightarrow> user_handler \<Rightarrow> nat \<Rightarrow> req_ctx \<Rightarrow> req_ctx run" where
  "get_next h u s c =
     rbind (state_at s c) (\<lambda>x.
     case next_mid c of (mid, c) \<Rightarrow>
     rbind (state_addr x c) (\<lambda>addr.
     rbind (start_transaction mid addr c) (\<lambda>(t, c).
     let request = (rs_request x)\<lparr>cp_mid := mid\<rparr> in
     case t of
       None \<Rightarrow> rbind (upd_state s (\<lambda>x. x\<lparr>rs_transaction := None, rs_request := request\<rparr>) c) (get_finish u s x)
     | Some t' \<Rightarrow>
         rbind (set_handler t' request (Some GET_CALLBACK) s c) (\<lambda>c.
         let msg = (if 0 < rs_block_num x then snd (coap_set_header_block2 (rs_block_num x) 0 (of_nat REST_MAX_CHUNK_SIZE) request) else request) in
         rbind (upd_state s (\<lambda>x. x\<lparr>rs_transaction := t, rs_request := msg\<rparr>) c) (\<lambda>c.
         rbind (serialize_to t' msg c) (\<lambda>c.
         rbind (coap_send_transaction h t' c) (\<lambda>(_, c). done_with c)))))))"

definition coap_nonblocking_request_callback :: "engine_handler \<Rightarrow> user_handler \<Rightarrow> nat \<Rightarrow> coap_packet option \<Rightarrow> req_ctx \<Rightarrow> req_ctx run" where
  "coap_nonblocking_request_callback h u s response c =
     rbind (state_at s c) (\<lambda>x.
     case response of
       None \<Rightarrow> get_finish u s x c
     | Some r \<Rightarrow>
         if cp_type r = COAP_TYPE_RST then get_finish u s x c
         else
           (case (case coap_get_header_block2 r of None \<Rightarrow> (0, 0) | Some (b, m, _, _) \<Rightarrow> (b, m)) of (res_block, mr) \<Rightarrow>
            rbind
              (if res_block \<noteq> rs_block_num x then done_with (False, c)
               else
                 (case rs_response_callback x of
                    None \<Rightarrow> Some (Inl Null_Deref)
                  | Some cb \<Rightarrow>
                      rbind (user_call u cb (rs_user_data x) (Some r) c) (\<lambda>(stop, c).
                      if stop then rbind (get_finish u s x c) (\<lambda>c. done_with (True, c))
                      else rbind (upd_state s (\<lambda>x. x\<lparr>rs_block_num := rs_block_num x + 1\<rparr>) c) (\<lambda>c. done_with (False, c)))))
              (\<lambda>(finished, c).
               if finished then done_with c
               else if mr = 0 then free_blockwise_state s c
               else get_next h u s c)))"

fun engine :: "nat \<Rightarrow> user_handler \<Rightarrow> engine_handler" where
  "engine 0 u cb d r c = None"
| "engine (Suc n) u cb d r c =
     (if cb = PUT_CALLBACK then coap_nonblocking_put_callback (engine n u) u d r c
      else if cb = GET_CALLBACK then coap_nonblocking_request_callback (engine n u) u d r c
      else rbind (u cb d r c) (\<lambda>(_, c). done_with c))"

section \<open>Requests\<close>

text \<open>The first block of a long payload.\<close>

definition put_first :: "coap_packet \<Rightarrow> coap_packet" where
  "put_first own =
     snd (coap_set_payload (cp_payload own) COAP_MAX_BLOCK_SIZE
       (coap_set_header_size1 (of_nat (cp_payload_len own))
         (snd (coap_set_header_block1 0 1 (of_nat COAP_MAX_BLOCK_SIZE) own))))"

definition coap_nonblocking_put ::
  "engine_handler \<Rightarrow> bytes \<Rightarrow> coap_packet \<Rightarrow> nat option \<Rightarrow> nat \<Rightarrow> req_ctx \<Rightarrow> req_ctx run" where
  "coap_nonblocking_put h addr request cb d c =
     (case next_mid c of (mid, c) \<Rightarrow>
      let request = request\<lparr>cp_mid := mid\<rparr> in
      if cp_payload_len request \<le> COAP_MAX_BLOCK_SIZE then
        rbind (start_transaction mid addr c) (\<lambda>(t, c).
        case t of
          None \<Rightarrow> Some (Inl Null_Deref)
        | Some t \<Rightarrow>
            rbind (serialize_to t request c) (\<lambda>c.
            rbind (set_handler t request cb d c) (\<lambda>c.
            rbind (coap_send_transaction h t c) (\<lambda>(_, c). done_with c))))
      else
        (case malloc c of
           (None, c) \<Rightarrow> Some (Inl Null_Deref)
         | (Some s, c) \<Rightarrow>
             rbind (Some (sref_at (cp_buffer request) (cp_payload request) 0 (cp_payload_len request))) (\<lambda>payload.
             let own = request\<lparr>cp_type := COAP_TYPE_CON, cp_payload := Some (P_Ext payload)\<rparr>;
                 x = \<lparr>rs_transaction = None, rs_request = own, rs_response_callback = cb, rs_user_data = d,
                      rs_block_num = 0, rs_block_size = of_nat COAP_MAX_BLOCK_SIZE\<rparr>
             in rbind (start_transaction mid addr c) (\<lambda>(t, c).
                let c = c\<lparr>rq_states := (rq_states c)(s \<mapsto> x\<lparr>rs_transaction := t\<rparr>)\<rparr> in
                case t of
                  None \<Rightarrow> done_with c
                | Some t \<Rightarrow>
                    rbind (serialize_to t (put_first own) c) (\<lambda>c.
                       rbind (set_handler t (put_first own) (Some PUT_CALLBACK) s c) (\<lambda>c.
                       rbind (coap_send_transaction h t c) (\<lambda>(_, c). done_with c)))))))"

definition coap_nonblocking_get ::
  "engine_handler \<Rightarrow> bytes \<Rightarrow> coap_packet \<Rightarrow> nat option \<Rightarrow> nat \<Rightarrow> u32 \<Rightarrow> req_ctx \<Rightarrow> req_ctx run" where
  "coap_nonblocking_get h addr request cb d block_num c =
     (case malloc c of
        (None, c) \<Rightarrow> Some (Inl Null_Deref)
      | (Some s, c) \<Rightarrow>
          rbind (if cp_payload_len request = 0 then done_with request
                 else rbind (Some (sref_at (cp_buffer request) (cp_payload request) 0 (cp_payload_len request)))
                        (\<lambda>payload. done_with (request\<lparr>cp_payload := Some (P_Ext payload)\<rparr>))) (\<lambda>own.
          case next_mid c of (mid, c) \<Rightarrow>
          let request = request\<lparr>cp_mid := mid\<rparr> in
          rbind (start_transaction mid addr c) (\<lambda>(t, c).
          let c = c\<lparr>rq_states := (rq_states c)(s \<mapsto>
                \<lparr>rs_transaction = t, rs_request = own, rs_response_callback = cb, rs_user_data = d,
                 rs_block_num = block_num, rs_block_size = 0\<rparr>)\<rparr>
          in case t of
               None \<Rightarrow> free_blockwise_state s c
             | Some t \<Rightarrow>
                 rbind (set_handler t request (Some GET_CALLBACK) s c) (\<lambda>c.
                 rbind (serialize_to t request c) (\<lambda>c.
                 rbind (coap_send_transaction h t c) (\<lambda>(freed, c).
                 if freed then rbind (upd_state s (\<lambda>x. x\<lparr>rs_transaction := None\<rparr>) c) (free_blockwise_state s)
                 else done_with c))))))"

text \<open>The token a request gets is the identifier in the byte order of the host.\<close>

definition coap_nonblocking_request ::
  "engine_handler \<Rightarrow> bytes \<Rightarrow> coap_packet \<Rightarrow> nat option \<Rightarrow> nat \<Rightarrow> req_ctx \<Rightarrow> req_ctx run" where
  "coap_nonblocking_request h addr request cb d c =
     (let request =
            (if cb = None then request
             else let request = request\<lparr>cp_type := COAP_TYPE_CON\<rparr> in
                  if cp_token request = [] then snd (coap_set_token [ucast (cp_mid request), ucast (drop_bit 8 (cp_mid request))] request)
                  else request)
      in if cp_code request = COAP_GET then coap_nonblocking_get h addr request cb d 0 c
         else coap_nonblocking_put h addr request cb d c)"

section \<open>Received packets\<close>

definition send_coap_msg :: "bytes \<Rightarrow> coap_packet \<Rightarrow> req_ctx \<Rightarrow> req_ctx run" where
  "send_coap_msg src msg c =
     rbind (Some (coap_serialize_message msg (replicate COAP_MAX_PACKET_SIZE 0))) (\<lambda>(n, buf, _).
     done_with (if 0 < n then emit (Tx_Data src (take n buf)) c else c))"

text \<open>A response whose identifier belongs to a transaction, and one that is found by its token.\<close>

definition response_by_mid :: "engine_handler \<Rightarrow> nat \<Rightarrow> coap_packet \<Rightarrow> req_ctx \<Rightarrow> req_ctx run" where
  "response_by_mid h t message c =
     rbind (trans_at t c) (\<lambda>x.
     rbind (case ct_ongoing_request x of
              None \<Rightarrow> done_with c
            | Some q \<Rightarrow>
                rbind (if cp_code message \<noteq> 0 \<or> cp_type message = COAP_TYPE_RST then run_request_callback h (Some q) (Some message) c
                       else done_with c) (\<lambda>c.
                rbind (if cp_code message = 0 then done_with False else rbind (req_at q c) (\<lambda>r. done_with (\<not> og_observe r))) (\<lambda>b.
                if b \<or> cp_type message = COAP_TYPE_RST then free_ongoing_request q c
                else done_with c)))
       (coap_clear_transaction (Some t)))"

definition response_by_token :: "engine_handler \<Rightarrow> coap_packet \<Rightarrow> req_ctx \<Rightarrow> req_ctx run" where
  "response_by_token h message c =
     rbind (coap_find_ongoing_request (cp_token message) c) (\<lambda>q.
     case q of
       None \<Rightarrow> done_with c
     | Some q \<Rightarrow>
         rbind (run_request_callback h (Some q) (Some message) c) (\<lambda>c.
         rbind (req_at q c) (\<lambda>r.
         if \<not> og_observe r \<or> cp_type message = COAP_TYPE_RST then free_ongoing_request q c else done_with c)))"

definition coap_handle_packet ::
  "engine_handler \<Rightarrow> (coap_packet \<Rightarrow> req_ctx \<Rightarrow> req_ctx run) \<Rightarrow> bytes \<Rightarrow> bytes \<Rightarrow> u16 \<Rightarrow> req_ctx \<Rightarrow> (int \<times> req_ctx) run" where
  "coap_handle_packet h serve src buf buf_len c =
     rbind (Some (coap_parse_message buf buf_len)) (\<lambda>(status, message).
     if status \<noteq> 0 then done_with (int status, c)
     else if COAP_GET \<le> cp_code message \<and> cp_code message \<le> COAP_DELETE then
       rbind (serve message c) (\<lambda>c. done_with (int status, c))
     else
       let status = (if cp_type message = COAP_TYPE_CON \<and> cp_code message = 0 then PING_RESPONSE else int status) in
       rbind (coap_get_transaction_by_mid (cp_mid message) c) (\<lambda>t.
       rbind (case t of Some t \<Rightarrow> response_by_mid h t message c | None \<Rightarrow> response_by_token h message c) (\<lambda>c.
       if cp_type message = COAP_TYPE_CON then
         (case malloc c of
            (None, c) \<Rightarrow> done_with (-1, c)
          | (Some _, c) \<Rightarrow>
              rbind (send_coap_msg src (coap_init_message COAP_TYPE_ACK 0 (cp_mid message)) c) (\<lambda>c. done_with (status, c)))
       else done_with (status, c))))"

end
