(* ===== verification/Coap_Blockwise.thy ===== *)
theory Coap_Blockwise
  imports Coap_Request Coap_Serialize
begin

text \<open>
  The CoAP client on top of the transactions.  The contract \<open>user_handlers\<close> says what a callback of the client may do;
  from it follows, as a sublocale, that the engine's own callbacks meet the contract of the transaction layer, so that
  checking the transactions is safe with requests of the client in progress.
\<close>

section \<open>Valid callback data\<close>

text \<open>The data of an engine callback is the address of a request state, no two requests share one, and the state of a
  GET has a callback.  A request may be left out.\<close>

definition engine_cb :: "nat \<Rightarrow> bool" where
  "engine_cb cb \<longleftrightarrow> cb = PUT_CALLBACK \<or> cb = GET_CALLBACK"

definition used_states :: "nat option \<Rightarrow> req_ctx \<Rightarrow> (nat \<times> nat \<times> nat) set" where
  "used_states p c = {(q, cb, d). p \<noteq> Some q \<and> cb_of c q = Some (cb, d) \<and> engine_cb cb}"

definition states_ok :: "nat option \<Rightarrow> req_ctx \<Rightarrow> bool" where
  "states_ok p c \<longleftrightarrow>
     (\<forall>q cb d. (q, cb, d) \<in> used_states p c \<longrightarrow> (\<exists>x. rq_states c d = Some x \<and> (cb = GET_CALLBACK \<longrightarrow> rs_response_callback x \<noteq> None))) \<and>
     (\<forall>q cb q' cb' d. (q, cb, d) \<in> used_states p c \<longrightarrow> (q', cb', d) \<in> used_states p c \<longrightarrow> q = q')"

lemma states_okD:
  assumes "states_ok p c" and "(q, cb, d) \<in> used_states p c"
  obtains x where "rq_states c d = Some x" and "cb = GET_CALLBACK \<longrightarrow> rs_response_callback x \<noteq> None"
  using assms unfolding states_ok_def by blast

lemma states_ok_inj:
  "states_ok p c \<Longrightarrow> (q, cb, d) \<in> used_states p c \<Longrightarrow> (q', cb', d) \<in> used_states p c \<Longrightarrow> q = q'"
  unfolding states_ok_def by blast

lemma states_ok_mono:
  assumes o: "states_ok p c" and s: "used_states p' c' \<subseteq> used_states p c"
    and r: "\<And>q cb d. (q, cb, d) \<in> used_states p' c' \<Longrightarrow> rq_states c' d = rq_states c d"
  shows "states_ok p' c'"
  unfolding states_ok_def
proof (intro conjI allI impI)
  fix q cb d
  assume a: "(q, cb, d) \<in> used_states p' c'"
  with s have "(q, cb, d) \<in> used_states p c" by blast
  with o obtain x where "rq_states c d = Some x" "cb = GET_CALLBACK \<longrightarrow> rs_response_callback x \<noteq> None" by (rule states_okD)
  with r [OF a] show "\<exists>x. rq_states c' d = Some x \<and> (cb = GET_CALLBACK \<longrightarrow> rs_response_callback x \<noteq> None)" by simp
next
  fix q cb q' cb' d
  assume "(q, cb, d) \<in> used_states p' c'" "(q', cb', d) \<in> used_states p' c'"
  with s have "(q, cb, d) \<in> used_states p c" "(q', cb', d) \<in> used_states p c" by blast+
  with o show "q = q'" by (rule states_ok_inj)
qed

lemma states_ok_callbacks:
  assumes o: "states_ok p c" and m: "coap_context.more c' = coap_context.more c"
    and b: "\<And>q cb. p' \<noteq> Some q \<Longrightarrow> cb_of c' q = Some cb \<Longrightarrow> p \<noteq> Some q \<and> cb_of c q = Some cb"
  shows "states_ok p' c'"
proof (rule states_ok_mono [OF o])
  have "rq_states c' = rq_states c" using m by (cases c; cases c') simp
  then show "rq_states c' d = rq_states c d" for d by simp
  show "used_states p' c' \<subseteq> used_states p c" unfolding used_states_def using b by blast
qed

lemma ctx_rq [simp]:
  "ctx_inv (c\<lparr>rq_states := S\<rparr>) ts qs = ctx_inv c ts qs" "ctx_ext c (c'\<lparr>rq_states := S\<rparr>) = ctx_ext c c'"
  "cb_of (c\<lparr>rq_states := S\<rparr>) = cb_of c" "used_states p (c\<lparr>rq_states := S\<rparr>) = used_states p c"
  by (simp_all add: ctx_inv_def linked_def t_link_def q_link_def ctx_ext_def cb_of_def fun_eq_iff used_states_def)

lemma states_ok_weaken: "states_ok None c \<Longrightarrow> states_ok (Some q) c"
  by (erule states_ok_mono) (simp_all add: used_states_def Collect_mono_iff)

text \<open>A request that is left out gives its state back.\<close>

lemma states_ok_free:
  assumes o: "states_ok None c" and q: "cb_of c q = Some (cb, d)" "engine_cb cb"
  shows "states_ok (Some q) (c\<lparr>rq_states := (rq_states c)(d := None)\<rparr>)"
proof (rule states_ok_mono [OF o])
  let ?c = "c\<lparr>rq_states := (rq_states c)(d := None)\<rparr>"
  show "used_states (Some q) ?c \<subseteq> used_states None c" by (simp add: used_states_def Collect_mono_iff)
  fix q' cb' d'
  assume "(q', cb', d') \<in> used_states (Some q) ?c"
  then have "(q', cb', d') \<in> used_states None c" "q' \<noteq> q" by (auto simp: used_states_def)
  moreover have "(q, cb, d) \<in> used_states None c" using q by (simp add: used_states_def)
  ultimately have "d' \<noteq> d" using states_ok_inj [OF o] by blast
  then show "rq_states ?c d' = rq_states c d'" by simp
qed

lemma rbind_assoc: "rbind (rbind m f) g = rbind m (\<lambda>x. rbind (f x) g)"
  by (cases m; cases "the m") auto

section \<open>The callbacks of the client\<close>

text \<open>What a callback of the client may do when its request has ended without an answer.\<close>

locale user_handlers =
  fixes u :: user_handler
  assumes no_answer: "ctx_inv c ts qs \<Longrightarrow> states_ok None c \<Longrightarrow>
      \<exists>b c' ts' qs'. u cb d None c = done_with (b, c') \<and> ctx_inv c' (ts @ ts') (qs @ qs') \<and> ctx_ext c c' \<and>
        dom (cc_trans c') = dom (cc_trans c) \<union> set ts' \<and> set ts' \<inter> dom (cc_trans c) = {} \<and> states_ok None c'"
begin

lemma user_call_ok:
  assumes "ctx_inv c ts qs" and "states_ok None c"
  obtains b c' ts' qs' where "user_call u cb d None c = done_with (b, c')" and "ctx_inv c' (ts @ ts') (qs @ qs')" and "ctx_ext c c'"
    and "dom (cc_trans c') = dom (cc_trans c) \<union> set ts'" and "set ts' \<inter> dom (cc_trans c) = {}" and "states_ok None c'"
proof -
  let ?e = "emit (Callback cb d None) c"
  have "ctx_inv ?e ts qs" using assms(1) by simp
  moreover have "states_ok None ?e" using assms(2) by (rule states_ok_callbacks) (simp_all add: cb_of_def)
  ultimately obtain b c' ts' qs' where "u cb d None ?e = done_with (b, c')" "ctx_inv c' (ts @ ts') (qs @ qs')" "ctx_ext ?e c'"
    "dom (cc_trans c') = dom (cc_trans ?e) \<union> set ts'" "set ts' \<inter> dom (cc_trans ?e) = {}" "states_ok None c'"
    using no_answer by blast
  then show ?thesis by (intro that [of b c' ts' qs']) (simp_all add: user_call_def)
qed

lemma put_finish_ok:
  assumes i: "ctx_inv c ts qs" "states_ok None c" and q: "cb_of c q = Some (cb, s)" "engine_cb cb"
  obtains c' ts' qs' where "put_finish u s x None c = done_with c'" and "ctx_inv c' (ts @ ts') (qs @ qs')" and "ctx_ext c c'"
    and "dom (cc_trans c') = dom (cc_trans c) \<union> set ts'" and "set ts' \<inter> dom (cc_trans c) = {}" and "states_ok (Some q) c'"
proof -
  obtain c1 ts' qs' where c1: "(case rs_response_callback x of None \<Rightarrow> done_with c
      | Some cb \<Rightarrow> rbind (user_call u cb (rs_user_data x) None c) (\<lambda>(_, c). done_with c)) = done_with c1"
    "ctx_inv c1 (ts @ ts') (qs @ qs')" "ctx_ext c c1" "dom (cc_trans c1) = dom (cc_trans c) \<union> set ts'"
    "set ts' \<inter> dom (cc_trans c) = {}" "states_ok None c1"
  proof (cases "rs_response_callback x")
    case None
    with i that [of c "[]" "[]"] show ?thesis by simp
  next
    case (Some f)
    from i show ?thesis by (rule user_call_ok [of c ts qs f "rs_user_data x"]) (use Some that in auto)
  qed
  have q1: "cb_of c1 q = Some (cb, s)" using q(1) c1(3) by (auto simp: cb_of_def ctx_ext_def bind_eq_Some_conv)
  then have "(q, cb, s) \<in> used_states None c1" using q(2) by (simp add: used_states_def)
  with c1(6) obtain y where "rq_states c1 s = Some y" by (rule states_okD)
  with c1 states_ok_free [OF c1(6) q1 q(2)] show ?thesis
    by (intro that [of "c1\<lparr>rq_states := (rq_states c1)(s := None)\<rparr>" ts' qs'])
      (simp_all add: put_finish_def free_blockwise_state_def state_at_def)
qed

lemma get_finish_put: "rs_response_callback x \<noteq> None \<Longrightarrow> get_finish u s x c = put_finish u s x None c"
  by (auto simp: get_finish_def put_finish_def rbind_assoc split_def)

text \<open>The callbacks of the engine end a request that was not answered and free its state.\<close>

lemma engine_timeout:
  assumes i: "ctx_inv c ts qs" "states_ok None c" and q: "cb_of c q = Some (cb, d)"
  shows "\<exists>c' ts' qs'. engine (Suc n) u cb d None c = done_with c' \<and> ctx_inv c' (ts @ ts') (qs @ qs') \<and> ctx_ext c c' \<and>
    dom (cc_trans c') = dom (cc_trans c) \<union> set ts' \<and> set ts' \<inter> dom (cc_trans c) = {} \<and> states_ok (Some q) c'"
proof (cases "engine_cb cb")
  case True
  then have "(q, cb, d) \<in> used_states None c" using q by (simp add: used_states_def)
  with i(2) obtain x where x: "rq_states c d = Some x" "cb = GET_CALLBACK \<longrightarrow> rs_response_callback x \<noteq> None" by (rule states_okD)
  have e: "engine (Suc n) u cb d None c = put_finish u d x None c"
    using True x get_finish_put [of x d c] 
    by (auto simp: engine_cb_def coap_nonblocking_put_callback_def coap_nonblocking_request_callback_def state_at_def
        PUT_CALLBACK_def GET_CALLBACK_def)
  from i q True show ?thesis by (rule put_finish_ok [where x = x]) (unfold e, blast)
next
  case False
  from i obtain b c' ts' qs' where c': "u cb d None c = done_with (b, c')" "ctx_inv c' (ts @ ts') (qs @ qs')" "ctx_ext c c'"
    "dom (cc_trans c') = dom (cc_trans c) \<union> set ts'" "set ts' \<inter> dom (cc_trans c) = {}" "states_ok None c'" using no_answer by blast
  have "engine (Suc n) u cb d None c = done_with c'" using False c'(1) by (simp add: engine_cb_def)
  with c' states_ok_weaken [OF c'(6), of q] show ?thesis by blast
qed

end

sublocale user_handlers \<subseteq> eng: timeout_handlers "engine (Suc n) u" states_ok for n
proof
  fix c ts qs q cb d
  assume "ctx_inv c ts qs" "states_ok None c" "cb_of c q = Some (cb, d)"
  then show "\<exists>c' ts' qs'. engine (Suc n) u cb d None c = done_with c' \<and> ctx_inv c' (ts @ ts') (qs @ qs') \<and> ctx_ext c c' \<and>
      dom (cc_trans c') = dom (cc_trans c) \<union> set ts' \<and> set ts' \<inter> dom (cc_trans c) = {} \<and> states_ok (Some q) c'"
    by (rule engine_timeout)
next
  fix p c c' p'
  assume "states_ok p c" "coap_context.more c' = coap_context.more c"
    "\<And>q cb. p' \<noteq> Some q \<Longrightarrow> cb_of c' q = Some cb \<Longrightarrow> p \<noteq> Some q \<and> cb_of c q = Some cb"
  then show "states_ok p' c'" by (rule states_ok_callbacks)
qed

context user_handlers
begin

lemma check_safe:
  assumes "ctx_inv c ts qs" and "set ts = dom (cc_trans c)" and "states_ok None c"
    and "scan (has_expired (now - cc_last_checktime c) (cc_trans c)) EXPIRY_HANDLING_NUM ts = (e, k, r)"
  shows "\<exists>m c' ts' qs'. coap_check_transactions (engine (Suc n) u) now c = done_with (m, c') \<and>
    ctx_inv c' ts' qs' \<and> set ts' = dom (cc_trans c') \<and> states_ok None c' \<and> ctx_ext_but (set e) c c' \<and>
    (\<forall>t x. t \<in> set e \<longrightarrow> cc_trans c t = Some x \<longrightarrow> resends (cc_default_retrans_cnt c) x \<longrightarrow>
       (\<exists>m. cc_trans c' t = Some ((resent (cc_default_retrans_ms c) x)\<lparr>ct_retrans_timer := m\<rparr>)))"
  using eng.check_keeps [OF assms(1-3)] assms(4) by (simp add: elpased_eq)

end

text \<open>The callbacks of the agent's end point requests (\<open>cb_foward_ep_response_to_cloud\<close> and
  \<open>cb_foward_ep_response_to_bus\<close>) send the response on and leave the CoAP context alone; they never stop a request.\<close>

definition ep_handler :: user_handler where
  "ep_handler cb d response c = done_with (False, c)"

interpretation ep: user_handlers ep_handler
proof
  fix c ts qs cb d
  assume "ctx_inv c ts qs" "states_ok None c"
  then show "\<exists>b c' ts' qs'. ep_handler cb d None c = done_with (b, c') \<and> ctx_inv c' (ts @ ts') (qs @ qs') \<and> ctx_ext c c' \<and>
      dom (cc_trans c') = dom (cc_trans c) \<union> set ts' \<and> set ts' \<inter> dom (cc_trans c) = {} \<and> states_ok None c'"
    by (intro exI [of _ False] exI [of _ c] exI [of _ "[]"]) (simp add: ep_handler_def)
qed

text \<open>A context with one request in progress.\<close>

definition pending_ctx :: "coap_transaction \<Rightarrow> nat \<Rightarrow> request_state \<Rightarrow> nat list \<Rightarrow> req_ctx" where
  "pending_ctx y cb x m =
     \<lparr>cc_default_retrans_cnt = 4, cc_default_retrans_ms = 3000, cc_last_checktime = 0,
      cc_transactions = \<lparr>cl_head = Some 1, cl_next = [1 \<mapsto> None]\<rparr>, cc_trans = [1 \<mapsto> y\<lparr>ct_ongoing_request := Some 2\<rparr>],
      cc_ongoing_requests = \<lparr>cl_head = Some 2, cl_next = [2 \<mapsto> None]\<rparr>,
      cc_reqs = [2 \<mapsto> \<lparr>og_token = [5], og_observe = False, og_callback = Some cb, og_callback_data = 3, og_transaction = Some 1\<rparr>],
      cc_events = [], rq_states = [3 \<mapsto> x], rq_mid = 6, rq_now = 0, rq_mem = m\<rparr>"

lemma pending_ctx_fields [simp]:
  "cc_trans (pending_ctx y cb x m) = [1 \<mapsto> y\<lparr>ct_ongoing_request := Some 2\<rparr>]" "rq_states (pending_ctx y cb x m) = [3 \<mapsto> x]"
  "cc_reqs (pending_ctx y cb x m) =
     [2 \<mapsto> \<lparr>og_token = [5], og_observe = False, og_callback = Some cb, og_callback_data = 3, og_transaction = Some 1\<rparr>]"
  "rq_mem (pending_ctx y cb x m) = m" "rq_mid (pending_ctx y cb x m) = 6" "cc_last_checktime (pending_ctx y cb x m) = 0"
  "cc_default_retrans_cnt (pending_ctx y cb x m) = 4" "cc_events (pending_ctx y cb x m) = []"
  by (simp_all add: pending_ctx_def)

lemma pending_ctx_inv: "trans_ok 4 y \<Longrightarrow> ctx_inv (pending_ctx y cb x m) [1] [2]"
  by (auto simp: ctx_inv_def chain_def linked_def t_link_def q_link_def trans_ok_def) (simp_all add: pending_ctx_def split: if_splits)

lemma pending_ctx_states: "rs_response_callback x \<noteq> None \<Longrightarrow> states_ok None (pending_ctx y cb x m)"
  by (auto simp: states_ok_def used_states_def cb_of_def split: if_splits)

definition sample_state :: request_state where
  "sample_state = \<lparr>rs_transaction = Some 1, rs_request = cp_zero\<lparr>cp_code := COAP_GET, cp_token := [5]\<rparr>, rs_response_callback = Some 9,
     rs_user_data = 4, rs_block_num = 0, rs_block_size = 0\<rparr>"

section \<open>Properties\<close>

text \<open>C14.  Checking the transactions with requests of the client in progress, for callbacks that keep their contract:
  whatever has expired, the check returns without a bad access, every transaction is on the list or freed, no request
  points to a freed transaction or state, each expired confirmable transaction below the limit has been sent once
  more, and transactions that have not expired are still there.\<close>

theorem coap_check_safe:
  assumes "user_handlers u" and "ctx_inv c ts qs" and "set ts = dom (cc_trans c)" and "states_ok None c"
    and "scan (has_expired (now - cc_last_checktime c) (cc_trans c)) EXPIRY_HANDLING_NUM ts = (e, k, r)"
  shows "\<exists>m c' ts' qs'. coap_check_transactions (engine (Suc n) u) now c = done_with (m, c') \<and>
    ctx_inv c' ts' qs' \<and> set ts' = dom (cc_trans c') \<and> states_ok None c' \<and> ctx_ext_but (set e) c c' \<and>
    (\<forall>t x. t \<in> set e \<longrightarrow> cc_trans c t = Some x \<longrightarrow> resends (cc_default_retrans_cnt c) x \<longrightarrow>
       (\<exists>m. cc_trans c' t = Some ((resent (cc_default_retrans_ms c) x)\<lparr>ct_retrans_timer := m\<rparr>)))"
  using assms by (rule user_handlers.check_safe)

theorem coap_check_safe_witness:
  "\<exists>m c' ts' qs'. coap_check_transactions (engine 1 ep_handler) 500
       (pending_ctx ((sample_trans 400)\<lparr>ct_retrans_counter := 4\<rparr>) GET_CALLBACK sample_state []) = done_with (m, c') \<and>
     ctx_inv c' ts' qs' \<and> states_ok None c'"
proof -
  let ?y = "(sample_trans 400)\<lparr>ct_retrans_counter := 4\<rparr>"
  let ?c = "pending_ctx ?y GET_CALLBACK sample_state []"
  have "trans_ok 4 ?y" by (simp add: trans_ok_def sample_trans_def)
  then have i: "ctx_inv ?c [1] [2]" by (rule pending_ctx_inv)
  have d: "set [1] = dom (cc_trans ?c)" by simp
  have s: "states_ok None ?c" by (rule pending_ctx_states) (simp add: sample_state_def)
  have e: "scan (has_expired (500 - cc_last_checktime ?c) (cc_trans ?c)) EXPIRY_HANDLING_NUM [1] = ([1], [], [])"
    by (simp add: has_expired_def sample_trans_def EXPIRY_HANDLING_NUM_def)
  show ?thesis using coap_check_safe [OF ep.user_handlers_axioms i d s e, of 0] by auto
qed

end
