(* ===== verification/Coap_Start.thy ===== *)
theory Coap_Start
  imports Coap_Blockwise
begin

text \<open>
  Starting transactions: adding a transaction to the context, registering the handler of its response, writing its
  packet and sending it for the first time keep the invariants, and send exactly the serialised message.
\<close>

section \<open>Moving the timers\<close>

definition age0 :: "u32 \<Rightarrow> nat set \<Rightarrow> (nat \<rightharpoonup> coap_transaction) \<Rightarrow> nat \<rightharpoonup> coap_transaction" where
  "age0 el A T t =
     (if t \<in> A then map_option (\<lambda>x. x\<lparr>ct_retrans_timer := if ct_retrans_timer x \<le> el then 0 else ct_retrans_timer x - el\<rparr>) (T t) else T t)"

lemma dom_age0 [simp]: "dom (age0 el A T) = dom T"
  by (auto simp: age0_def dom_def)

lemma update_loop_ok:
  assumes "ctx_inv c (ks @ us) qs"
  shows "\<exists>n' e' c'. update_loop el (opt_hd us) n e c = done_with (n', e', c') \<and> ctx_inv c' (ks @ us) qs \<and>
    cc_trans c' = age0 el (set us) (cc_trans c) \<and> cc_reqs c' = cc_reqs c \<and> frame c' = frame c"
  using assms
proof (induction us arbitrary: c ks n e)
  case Nil
  then show ?case by (simp add: opt_hd_def update_loop.simps age0_def fun_eq_iff)
next
  case (Cons t us)
  have ch: "chain (cc_transactions c) (ks @ t # us)" using Cons.prems by (simp add: ctx_inv_def)
  have nx: "next_at t (cc_transactions c) = done_with (opt_hd us)" using next_chain [OF ch] by (simp add: next_at_def)
  have nt: "t \<notin> set us" using chain_distinct [OF ch] by simp
  obtain x where x: "cc_trans c t = Some x" using ctx_inv_subset [OF Cons.prems] by auto
  have hd: "opt_hd (t # us) = Some t" by (simp add: opt_hd_def)
  define x1 where "x1 = x\<lparr>ct_retrans_timer := if ct_retrans_timer x \<le> el then 0 else ct_retrans_timer x - el\<rparr>"
  define c1 where "c1 = c\<lparr>cc_trans := (cc_trans c)(t \<mapsto> x1)\<rparr>"
  have "trans_ok (cc_default_retrans_cnt c) x1" using Cons.prems x by (auto simp: ctx_inv_def trans_ok_def x1_def)
  then have i: "ctx_inv c1 ((ks @ [t]) @ us) qs"
    using Cons.prems ctx_inv_upd_trans [OF Cons.prems x, of x1] by (simp add: c1_def x1_def)
  define n1 where "n1 = (if n = -1 then ct_retrans_timer x1 else if ct_retrans_timer x1 < n then ct_retrans_timer x1 else n)"
  obtain n' e' c' where IH: "update_loop el (opt_hd us) n1 (if ct_retrans_timer x \<le> el then e + 1 else e) c1 = done_with (n', e', c')"
    "ctx_inv c' ((ks @ [t]) @ us) qs" "cc_trans c' = age0 el (set us) (cc_trans c1)" "cc_reqs c' = cc_reqs c1" "frame c' = frame c1"
    using Cons.IH [OF i] by blast
  have "update_loop el (opt_hd (t # us)) n e c = done_with (n', e', c')"
    using IH(1) [unfolded n1_def c1_def x1_def] nx
    by (simp add: hd update_loop.simps [of el "Some t"] trans_at_def x Let_def split del: if_split)
  moreover have "age0 el (set us) (cc_trans c1) = age0 el (set (t # us)) (cc_trans c)"
    using nt x by (auto simp: age0_def c1_def x1_def fun_eq_iff)
  ultimately show ?case using IH by (intro exI [of _ n'] exI [of _ e'] exI [of _ c']) (simp add: c1_def frame_def)
qed

lemma ctx_ext_age0: "cc_trans c' = age0 el A (cc_trans c) \<Longrightarrow> cc_reqs c' = cc_reqs c \<Longrightarrow>
    cc_default_retrans_cnt c' = cc_default_retrans_cnt c \<Longrightarrow> cc_default_retrans_ms c' = cc_default_retrans_ms c \<Longrightarrow> ctx_ext c c'"
  by (auto simp: ctx_ext_def age0_def)

section \<open>A new transaction\<close>

definition fresh_trans :: "u16 \<Rightarrow> bytes \<Rightarrow> u32 \<Rightarrow> coap_transaction" where
  "fresh_trans mid addr ms = \<lparr>ct_mid = mid, ct_retrans_timer = ms, ct_retrans_counter = 0, ct_addr = addr,
     ct_ongoing_request = None, ct_packet_len = 0, ct_packet = replicate (COAP_MAX_PACKET_SIZE + 1) 0\<rparr>"

lemma new_transaction_ok:
  assumes i: "ctx_inv c ts qs" and t: "t \<notin> dom (cc_trans c)"
  obtains c' where "coap_new_transaction (Some t) now mid addr c = done_with (Some t, c')" and "ctx_inv c' (ts @ [t]) qs"
    and "cc_trans c' = (age0 (now - cc_last_checktime c) (set ts) (cc_trans c))(t \<mapsto> fresh_trans mid addr (cc_default_retrans_ms c))"
    and "cc_reqs c' = cc_reqs c" and "frame c' = frame (c\<lparr>cc_last_checktime := now\<rparr>)" and "ctx_ext c c'"
proof -
  let ?x = "fresh_trans mid addr (cc_default_retrans_ms c)" and ?el = "now - cc_last_checktime c"
  let ?c = "(new_trans t ?x c)\<lparr>cc_last_checktime := now\<rparr>"
  have "ctx_inv (new_trans t ?x c) ts qs"
    using i t by (rule new_trans_ok) (simp_all add: fresh_trans_def trans_ok_def)
  then have i1: "ctx_inv ?c ([] @ ts) qs" by simp
  have hd: "list_head (cc_transactions ?c) = opt_hd ts" using i1 head_chain by (simp add: ctx_inv_def)
  from update_loop_ok [OF i1, of ?el "-1" 0] obtain n e c1 where c1: "update_loop ?el (opt_hd ts) (-1) 0 ?c = done_with (n, e, c1)"
    "ctx_inv c1 ts qs" "cc_trans c1 = age0 ?el (set ts) (cc_trans ?c)" "cc_reqs c1 = cc_reqs ?c" "frame c1 = frame ?c" by auto
  have nt: "t \<notin> set ts" using ctx_inv_subset [OF i] t by blast
  have T1: "cc_trans c1 = (age0 ?el (set ts) (cc_trans c))(t \<mapsto> ?x)"
    using c1(3) nt by (auto simp: age0_def new_trans_def fun_eq_iff)
  then have "t \<in> dom (cc_trans c1)" by simp
  with c1(2) obtain l where l: "on_trans_list (list_add_coap t) c1 = done_with (c1\<lparr>cc_transactions := l\<rparr>)"
    "ctx_inv (c1\<lparr>cc_transactions := l\<rparr>) (remove1 t ts @ [t]) qs" by (rule add_trans_ok)
  let ?c2 = "c1\<lparr>cc_transactions := l\<rparr>"
  have f: "frame ?c2 = frame (c\<lparr>cc_last_checktime := now\<rparr>)" using c1(5) by (simp add: frame_def new_trans_def)
  have "coap_new_transaction (Some t) now mid addr c = done_with (Some t, ?c2)"
    using c1(1) hd l(1) by (simp add: coap_new_transaction_def coap_update_transactions_def elapsed_def elpased_eq new_trans_def
        fresh_trans_def split_def)
  moreover have "ctx_ext c ?c2" using T1 t c1(4) frame_fields(1,2) [OF f]
    by (auto simp: ctx_ext_def age0_def new_trans_def)
  ultimately show ?thesis using l(2) nt T1 c1(4) f by (intro that [of ?c2]) (simp_all add: remove1_idem new_trans_def)
qed

section \<open>The handler of the response\<close>

definition new_request :: "coap_packet \<Rightarrow> nat option \<Rightarrow> nat \<Rightarrow> nat \<Rightarrow> coap_ongoing_request" where
  "new_request msg cb d t = \<lparr>og_token = take 8 (cp_token msg), og_observe = (coap_get_header_observe msg \<noteq> None), og_callback = cb,
     og_callback_data = d, og_transaction = Some t\<rparr>"

lemma set_response_handler_ok:
  assumes i: "ctx_inv c ts qs" and x: "cc_trans c t = Some x" "ct_ongoing_request x = None" and q: "q \<notin> dom (cc_reqs c)"
    and m: "cp_token msg \<noteq> []"
  obtains c' where "coap_set_response_handler (Some q) t msg cb d c = done_with c'" and "ctx_inv c' ts (qs @ [q])"
    and "cc_trans c' = (cc_trans c)(t \<mapsto> x\<lparr>ct_ongoing_request := Some q\<rparr>)" and "cc_reqs c' = (cc_reqs c)(q \<mapsto> new_request msg cb d t)"
    and "frame c' = frame c"
proof -
  from i have cs: "chain (cc_ongoing_requests c) qs" and l: "linked c" and dq: "set qs = dom (cc_reqs c)"
    and dn: "dom (cl_next (cc_ongoing_requests c)) = dom (cc_reqs c)" by (simp_all add: ctx_inv_def)
  let ?l = "cc_ongoing_requests c\<lparr>cl_next := (cl_next (cc_ongoing_requests c))(q \<mapsto> None)\<rparr>"
  have "q \<notin> set qs" using q dq by simp
  then have "chain ?l qs" using cs by (simp add: chain_def)
  moreover have "q \<in> dom (cl_next ?l)" by simp
  ultimately obtain l' where l': "list_add_coap q ?l = done_with l'" "chain l' (remove1 q qs @ [q])" "writes_only (insert q (set qs)) ?l l'"
    by (rule add_chain)
  define c' where "c' = c\<lparr>cc_trans := (cc_trans c)(t \<mapsto> x\<lparr>ct_ongoing_request := Some q\<rparr>), cc_reqs := (cc_reqs c)(q \<mapsto> new_request msg cb d t),
     cc_ongoing_requests := l'\<rparr>"
  have f: "coap_set_response_handler (Some q) t msg cb d c = done_with c'"
    using l'(1) x(1) m by (simp add: coap_set_response_handler_def ctx_defs c'_def new_request_def)
  have tl: "t_link c t = None" using x by (simp add: t_link_def)
  have "linked c'"
  proof (unfold linked_def, intro allI)
    fix u p
    have "t_link c' u = (if u = t then Some q else t_link c u)" by (simp add: t_link_def c'_def)
    moreover have "q_link c' p = (if p = q then Some t else q_link c p)" by (simp add: q_link_def c'_def new_request_def)
    moreover have "q_link c p \<noteq> Some t" using l tl linkedD unfolding linked_def by (metis option.distinct(1))
    moreover have "t_link c u \<noteq> Some q" using linked_dom(2) [OF l] q by blast
    ultimately show "t_link c' u = Some p \<longleftrightarrow> q_link c' p = Some u" using l by (auto simp: linked_def)
  qed
  moreover have "remove1 q qs = qs" using \<open>q \<notin> set qs\<close> by (rule remove1_idem)
  ultimately have "ctx_inv c' ts (qs @ [q])"
    using i l'(2,3) dq dn x by (auto simp: ctx_inv_def c'_def writes_only_def trans_ok_def)
  then show ?thesis by (rule that [OF f]) (simp_all add: c'_def frame_def)
qed

section \<open>The packet\<close>

lemma wire_type: "drop_bit 4 (0x30 AND hd (wire_head p)) = cp_type p AND 3"
proof -
  have "hd (wire_head p) = hd (header_bytes (p\<lparr>cp_version := 1\<rparr>))" by (simp add: wire_head_def header_bytes_def)
  moreover have "drop_bit 4 (0x30 AND hd (header_bytes (p\<lparr>cp_version := 1\<rparr>))) = cp_type p AND 3"
  proof (rule bit_word_eqI)
    fix n :: nat
    assume "n < LENGTH(8)"
    then have "n \<in> {0, 1, 2, 3, 4, 5, 6, 7}" by auto
    then show "bit (drop_bit 4 (0x30 AND hd (header_bytes (p\<lparr>cp_version := 1\<rparr>)))) n \<longleftrightarrow> bit (cp_type p AND 3) n"
      unfolding header_bytes_def list.sel by (auto simp: bit_simps)
  qed
  ultimately show ?thesis by simp
qed

text \<open>A message the serialiser accepts and a packet buffer can hold.\<close>

definition sendable :: "coap_packet \<Rightarrow> bool" where
  "sendable p \<longleftrightarrow> packet_ok p \<and> length (wire_head p) \<le> COAP_MAX_HEADER_SIZE \<and> cp_payload_len p \<le> REST_MAX_CHUNK_SIZE"

definition wire :: "coap_packet \<Rightarrow> bytes" where
  "wire p = wire_head p @ wire_body p"

definition with_packet :: "coap_packet \<Rightarrow> coap_transaction \<Rightarrow> coap_transaction" where
  "with_packet p x = x\<lparr>ct_packet := wire p @ drop (length (wire p)) (ct_packet x), ct_packet_len := of_nat (length (wire p))\<rparr>"

lemma sendable_length: "sendable p \<Longrightarrow> length (wire p) \<le> COAP_MAX_PACKET_SIZE + 1"
  by (auto simp: sendable_def wire_def wire_body_def payload_bytes_def COAP_MAX_PACKET_SIZE_def COAP_MAX_HEADER_SIZE_def
      REST_MAX_CHUNK_SIZE_def split: option.split sref.split)

lemma wire_not_Nil [simp]: "wire p \<noteq> []"
  by (simp add: wire_def wire_head_def header_bytes_def)

lemma serialize_to_ok:
  assumes x: "cc_trans c t = Some x" "length (ct_packet x) = COAP_MAX_PACKET_SIZE + 1" and p: "sendable p"
  shows "serialize_to t p c = done_with (c\<lparr>cc_trans := (cc_trans c)(t \<mapsto> with_packet p x)\<rparr>)"
proof -
  have "\<exists>p'. coap_serialize_message p (ct_packet x) = Inr (length (wire p), wire p @ drop (length (wire p)) (ct_packet x), p')"
    using serialize_message_wire(1) [of p "ct_packet x"] p x(2) sendable_length [OF p] by (simp add: sendable_def wire_def)
  then show ?thesis by (auto simp: serialize_to_def upd_trans_def trans_at_def x(1) with_packet_def)
qed

lemma with_packet_sent:
  assumes "sendable p"
  shows "take (unat (ct_packet_len (with_packet p x))) (ct_packet (with_packet p x)) = wire p"
proof -
  have "length (wire p) < 2 ^ LENGTH(16)"
    using sendable_length [OF assms] by (simp add: COAP_MAX_PACKET_SIZE_def COAP_MAX_HEADER_SIZE_def REST_MAX_CHUNK_SIZE_def)
  then show ?thesis by (simp add: with_packet_def unat_of_nat_small)
qed

lemma with_packet_con: "cp_type p AND 3 = COAP_TYPE_CON \<Longrightarrow> con_trans (with_packet p x)"
  using wire_type [of p] by (simp add: con_trans_def with_packet_def wire_def wire_head_def header_bytes_def)

text \<open>The first transmission of a confirmable message.\<close>

lemma first_send:
  assumes i: "ctx_inv c ts qs" and x: "cc_trans c t = Some (with_packet p x)" "ct_retrans_counter x = 0" and p: "sendable p"
    and con: "cp_type p AND 3 = COAP_TYPE_CON" and n: "0 < cc_default_retrans_cnt c"
  shows "coap_send_transaction h t c = done_with (False,
      emit (Tx_Data (ct_addr x) (wire p)) (c\<lparr>cc_trans := (cc_trans c)(t \<mapsto> resent (cc_default_retrans_ms c) (with_packet p x))\<rparr>))"
    and "ctx_inv (c\<lparr>cc_trans := (cc_trans c)(t \<mapsto> resent (cc_default_retrans_ms c) (with_packet p x))\<rparr>) ts qs"
proof -
  have r: "resends (cc_default_retrans_cnt c) (with_packet p x)"
    using with_packet_con [OF con] n x(2) by (simp add: resends_def) (simp add: with_packet_def)
  have "ct_addr (with_packet p x) = ct_addr x" by (simp add: with_packet_def)
  then show "coap_send_transaction h t c = done_with (False,
      emit (Tx_Data (ct_addr x) (wire p)) (c\<lparr>cc_trans := (cc_trans c)(t \<mapsto> resent (cc_default_retrans_ms c) (with_packet p x))\<rparr>))"
    using resend_ok(1) [OF i x(1) r] with_packet_sent [OF p, of x] by simp
  show "ctx_inv (c\<lparr>cc_trans := (cc_trans c)(t \<mapsto> resent (cc_default_retrans_ms c) (with_packet p x))\<rparr>) ts qs"
    by (rule resend_ok(2) [OF i x(1) r])
qed

section \<open>Registering, writing and sending\<close>

lemma rq_simps [simp]:
  "ctx_inv (c\<lparr>rq_mem := m\<rparr>) ts qs = ctx_inv c ts qs" "ctx_inv (c\<lparr>rq_mid := k\<rparr>) ts qs = ctx_inv c ts qs"
  "cb_of (c\<lparr>rq_mem := m\<rparr>) = cb_of c" "cb_of (c\<lparr>rq_mid := k\<rparr>) = cb_of c"
  by (simp_all add: ctx_inv_def linked_def t_link_def q_link_def cb_of_def fun_eq_iff)

lemma more_fields:
  assumes "coap_context.more c' = coap_context.more c"
  shows "rq_states c' = rq_states c" and "rq_mid c' = rq_mid c" and "rq_now c' = rq_now c" and "rq_mem c' = rq_mem c"
  using assms by (cases c; cases c'; simp)+

lemma launch_ok:
  assumes i: "ctx_inv c ts qs" and x: "cc_trans c t = Some (fresh_trans mid addr ms)" and m: "rq_mem c = q # m"
    and q: "q \<notin> dom (cc_reqs c)" and k: "cp_token msg \<noteq> []" and p: "sendable p" and con: "cp_type p AND 3 = COAP_TYPE_CON"
    and n: "0 < cc_default_retrans_cnt c"
  obtains c1 c2 c' where "set_handler t msg cb d c = done_with c1" and "serialize_to t p c1 = done_with c2"
    and "coap_send_transaction h t c2 = done_with (False, c')" and "ctx_inv c' ts (qs @ [q])"
    and "cc_reqs c' = (cc_reqs c)(q \<mapsto> new_request msg cb d t)" and "dom (cc_trans c') = dom (cc_trans c)"
    and "cc_events c' = cc_events c @ [Tx_Data addr (wire p)]" and "coap_context.more c' = coap_context.more (c\<lparr>rq_mem := m\<rparr>)"
    and "coap_context.more c1 = coap_context.more (c\<lparr>rq_mem := m\<rparr>)"
proof -
  let ?x = "fresh_trans mid addr ms"
  let ?c = "c\<lparr>rq_mem := m\<rparr>"
  have i0: "ctx_inv ?c ts qs" "cc_trans ?c t = Some ?x" "ct_ongoing_request ?x = None" "q \<notin> dom (cc_reqs ?c)"
    using i x q by (simp_all add: fresh_trans_def)
  from i0 k obtain c1 where c1: "coap_set_response_handler (Some q) t msg cb d ?c = done_with c1" "ctx_inv c1 ts (qs @ [q])"
    "cc_trans c1 = (cc_trans ?c)(t \<mapsto> ?x\<lparr>ct_ongoing_request := Some q\<rparr>)" "cc_reqs c1 = (cc_reqs ?c)(q \<mapsto> new_request msg cb d t)"
    "frame c1 = frame ?c" by (rule set_response_handler_ok)
  let ?y = "?x\<lparr>ct_ongoing_request := Some q\<rparr>"
  have y: "cc_trans c1 t = Some ?y" "length (ct_packet ?y) = COAP_MAX_PACKET_SIZE + 1" "ct_retrans_counter ?y = 0" "ct_addr ?y = addr"
    using c1(3) by (simp_all add: fresh_trans_def)
  define c2 where "c2 = c1\<lparr>cc_trans := (cc_trans c1)(t \<mapsto> with_packet p ?y)\<rparr>"
  have s: "serialize_to t p c1 = done_with c2" unfolding c2_def by (rule serialize_to_ok [OF y(1,2) p])
  have "trans_ok (cc_default_retrans_cnt c1) (with_packet p ?y)" by (simp add: trans_ok_def with_packet_def fresh_trans_def)
  then have i2: "ctx_inv c2 ts (qs @ [q])" unfolding c2_def by (rule ctx_inv_upd_trans [OF c1(2) y(1)]) (simp add: with_packet_def)
  have x2: "cc_trans c2 t = Some (with_packet p ?y)" "0 < cc_default_retrans_cnt c2"
    using n frame_fields(1) [OF c1(5)] by (simp_all add: c2_def)
  define c' where "c' = emit (Tx_Data (ct_addr ?y) (wire p)) (c2\<lparr>cc_trans := (cc_trans c2)(t \<mapsto> resent (cc_default_retrans_ms c2) (with_packet p ?y))\<rparr>)"
  show ?thesis
  proof (rule that)
    show "set_handler t msg cb d c = done_with c1" using c1(1) m k by (simp add: set_handler_def malloc_def)
    show "serialize_to t p c1 = done_with c2" by (rule s)
    show "coap_send_transaction h t c2 = done_with (False, c')" unfolding c'_def by (rule first_send [OF i2 x2(1) y(3) p con x2(2)])
    show "ctx_inv c' ts (qs @ [q])" unfolding c'_def ctx_inv_emit by (rule first_send [OF i2 x2(1) y(3) p con x2(2)])
    show "cc_reqs c' = (cc_reqs c)(q \<mapsto> new_request msg cb d t)" using c1(4) by (simp add: c'_def c2_def)
    show "dom (cc_trans c') = dom (cc_trans c)" using c1(3) x by (auto simp: c'_def c2_def)
    show "cc_events c' = cc_events c @ [Tx_Data addr (wire p)]" using frame_fields(4) [OF c1(5)] y(4) by (simp add: c'_def c2_def)
    show "coap_context.more c' = coap_context.more ?c" using frame_fields(5) [OF c1(5)] by (simp add: c'_def c2_def)
    show "coap_context.more c1 = coap_context.more ?c" by (rule frame_fields(5) [OF c1(5)])
  qed
qed

text \<open>A new request with a state of its own.\<close>

lemma states_ok_new:
  assumes o: "states_ok None c" and s: "rq_states c s = None" "rq_states c' = (rq_states c)(s \<mapsto> x)"
    and q: "q \<notin> dom (cc_reqs c)" "cc_reqs c' = (cc_reqs c)(q \<mapsto> new_request msg (Some cb) s t)"
    and cb: "cb = GET_CALLBACK \<longrightarrow> rs_response_callback x \<noteq> None"
  shows "states_ok None c'"
proof -
  have old: "(p, f, d) \<in> used_states None c \<and> d \<noteq> s" if u: "(p, f, d) \<in> used_states None c'" "p \<noteq> q" for p f d
  proof -
    have "cb_of c' p = cb_of c p" using u(2) q(2) by (simp add: cb_of_def)
    with u(1) have "(p, f, d) \<in> used_states None c" by (simp add: used_states_def)
    moreover with o obtain y where "rq_states c d = Some y" by (rule states_okD)
    ultimately show ?thesis using s(1) by auto
  qed
  have new: "(q, f, d) \<in> used_states None c' \<Longrightarrow> f = cb \<and> d = s" for f d
    using q(2) by (auto simp: used_states_def cb_of_def new_request_def)
  show ?thesis unfolding states_ok_def
  proof (intro conjI allI impI)
    fix p f d
    assume u: "(p, f, d) \<in> used_states None c'"
    show "\<exists>x. rq_states c' d = Some x \<and> (f = GET_CALLBACK \<longrightarrow> rs_response_callback x \<noteq> None)"
    proof (cases "p = q")
      case True
      then show ?thesis using new u s(2) cb by auto
    next
      case False
      then have "(p, f, d) \<in> used_states None c" "d \<noteq> s" using old u by blast+
      then show ?thesis using states_okD [OF o] s(2) by (metis fun_upd_other)
    qed
  next
    fix p f p' f' d
    assume u: "(p, f, d) \<in> used_states None c'" "(p', f', d) \<in> used_states None c'"
    show "p = p'"
    proof (cases "p = q \<or> p' = q")
      case True
      then show ?thesis using old [OF u(1)] old [OF u(2)] new u by auto
    next
      case False
      then show ?thesis using old u states_ok_inj [OF o] by blast
    qed
  qed
qed

section \<open>Properties\<close>

text \<open>C19.  Starting a GET request with a callback and a token: the request returns, one packet has been sent, the
  serialised request as a confirmable message with the next identifier, one transaction and one pending request have
  been added, which refer to each other and to the state of the request, and all invariants hold.\<close>

theorem coap_get_starts:
  assumes i: "ctx_inv c ts qs" "states_ok None c" and m: "rq_mem c = s # t # q # m"
    and fr: "rq_states c s = None" "t \<notin> dom (cc_trans c)" "q \<notin> dom (cc_reqs c)" and n: "0 < cc_default_retrans_cnt c"
    and r: "cp_code request = COAP_GET" "cp_token request \<noteq> []" "cp_payload_len request = 0"
    and p: "p = request\<lparr>cp_type := COAP_TYPE_CON, cp_mid := rq_mid c + 1\<rparr>" "sendable p"
  shows "\<exists>c'. coap_nonblocking_request h addr request (Some f) d c = done_with c' \<and> ctx_inv c' (ts @ [t]) (qs @ [q]) \<and>
    states_ok None c' \<and> cc_events c' = cc_events c @ [Tx_Data addr (wire p)] \<and> dom (cc_trans c') = insert t (dom (cc_trans c)) \<and>
    cb_of c' q = Some (GET_CALLBACK, s) \<and> map_option rs_transaction (rq_states c' s) = Some (Some t) \<and> q_link c' q = Some t"
proof -
  let ?c0 = "c\<lparr>rq_mid := rq_mid c + 1, rq_mem := q # m\<rparr>"
  have i0: "ctx_inv ?c0 ts qs" "t \<notin> dom (cc_trans ?c0)" using i fr by simp_all
  then obtain c1 where c1: "coap_new_transaction (Some t) (rq_now ?c0) (rq_mid c + 1) addr ?c0 = done_with (Some t, c1)"
    "ctx_inv c1 (ts @ [t]) qs"
    "cc_trans c1 = (age0 (rq_now ?c0 - cc_last_checktime ?c0) (set ts) (cc_trans ?c0))(t \<mapsto> fresh_trans (rq_mid c + 1) addr (cc_default_retrans_ms ?c0))"
    "cc_reqs c1 = cc_reqs ?c0" "frame c1 = frame (?c0\<lparr>cc_last_checktime := rq_now ?c0\<rparr>)" "ctx_ext ?c0 c1" by (rule new_transaction_ok)
  define x where "x = \<lparr>rs_transaction = Some t, rs_request = request\<lparr>cp_type := COAP_TYPE_CON\<rparr>, rs_response_callback = Some f, rs_user_data = d,
     rs_block_num = 0, rs_block_size = 0\<rparr>"
  define c2 where "c2 = c1\<lparr>rq_states := (rq_states c1)(s \<mapsto> x)\<rparr>"
  have mr: "coap_context.more c1 = coap_context.more ?c0" using frame_fields(5) [OF c1(5)] by simp
  have i2: "ctx_inv c2 (ts @ [t]) qs" "cc_trans c2 t = Some (fresh_trans (rq_mid c + 1) addr (cc_default_retrans_ms ?c0))" "rq_mem c2 = q # m"
    "q \<notin> dom (cc_reqs c2)" "0 < cc_default_retrans_cnt c2"
    using c1(2-4) fr(3) n frame_fields(1) [OF c1(5)] more_fields(4) [OF mr] by (simp_all add: c2_def)
  have pp: "cp_token p \<noteq> []" "cp_type p AND 3 = COAP_TYPE_CON" using p r by (simp_all add: COAP_TYPE_CON_def)
  from i2(1-4) pp(1) p(2) pp(2) i2(5) obtain c3 c4 c' where c': "set_handler t p (Some GET_CALLBACK) s c2 = done_with c3"
    "serialize_to t p c3 = done_with c4" "coap_send_transaction h t c4 = done_with (False, c')" "ctx_inv c' (ts @ [t]) (qs @ [q])"
    "cc_reqs c' = (cc_reqs c2)(q \<mapsto> new_request p (Some GET_CALLBACK) s t)" "dom (cc_trans c') = dom (cc_trans c2)"
    "cc_events c' = cc_events c2 @ [Tx_Data addr (wire p)]" "coap_context.more c' = coap_context.more (c2\<lparr>rq_mem := m\<rparr>)" by (rule launch_ok)
  have run: "coap_nonblocking_request h addr request (Some f) d c = done_with c'"
    using c1(1) c'(1-3) m r unfolding p(1)
    by (simp add: coap_nonblocking_request_def coap_nonblocking_get_def malloc_def next_mid_def coap_get_mid_def start_transaction_def
        Let_def c2_def x_def COAP_GET_def)
  have st: "rq_states c' = (rq_states c)(s \<mapsto> x)" using more_fields(1) [OF c'(8)] more_fields(1) [OF mr] by (simp add: c2_def)
  have rq: "cc_reqs c' = (cc_reqs c)(q \<mapsto> new_request p (Some GET_CALLBACK) s t)" using c'(5) c1(4) by (simp add: c2_def)
  have "states_ok None c'" using i(2) fr(1) st fr(3) rq by (rule states_ok_new) (simp add: x_def)
  moreover have "cc_events c' = cc_events c @ [Tx_Data addr (wire p)]" using c'(7) frame_fields(4) [OF c1(5)] by (simp add: c2_def)
  moreover have "dom (cc_trans c') = insert t (dom (cc_trans c))" using c'(6) c1(3) by (simp add: c2_def)
  ultimately show ?thesis using run c'(4) st rq by (intro exI [of _ c']) (simp add: cb_of_def q_link_def new_request_def x_def)
qed

text \<open>A request for one resource.\<close>

definition sample_get :: coap_packet where
  "sample_get = cp_zero\<lparr>cp_code := COAP_GET, cp_token := [7], cp_uri_path := Some (P_Ext [116, 101, 109, 112, 0]), cp_uri_path_len := 4,
     cp_options := [0, 8, 0, 0, 0, 0, 0, 0]\<rparr>"

theorem coap_get_starts_witness:
  "\<exists>c'. coap_nonblocking_request (engine 1 ep_handler) [10, 0] sample_get (Some 9) 5
       (pending_ctx (sample_trans 400) GET_CALLBACK sample_state [20, 21, 22]) = done_with c' \<and> ctx_inv c' [1, 21] [2, 22] \<and>
     cc_events c' = [Tx_Data [10, 0] [0x41, 1, 0, 7, 7, 0xB4, 116, 101, 109, 112]] \<and> cb_of c' 22 = Some (GET_CALLBACK, 20)"
proof -
  let ?c = "pending_ctx (sample_trans 400) GET_CALLBACK sample_state [20, 21, 22]"
  let ?p = "sample_get\<lparr>cp_type := COAP_TYPE_CON, cp_mid := rq_mid ?c + 1\<rparr>"
  have i: "ctx_inv ?c [1] [2]" by (rule pending_ctx_inv) (rule sample_trans_ok)
  have s: "states_ok None ?c" by (rule pending_ctx_states) (simp add: sample_state_def)
  have k: "sendable ?p" by (unfold pending_ctx_fields) code_simp
  have w: "wire ?p = [0x41, 1, 0, 7, 7, 0xB4, 116, 101, 109, 112]" by (unfold pending_ctx_fields) code_simp
  have r: "cp_code sample_get = COAP_GET" "cp_token sample_get \<noteq> []" "cp_payload_len sample_get = 0"
    by (simp_all add: sample_get_def cp_zero_def)
  have "rq_states ?c 20 = None" "21 \<notin> dom (cc_trans ?c)" "22 \<notin> dom (cc_reqs ?c)" "0 < cc_default_retrans_cnt ?c" "rq_mem ?c = [20, 21, 22]" by simp_all
  from coap_get_starts [OF i s this(5,1-4) r refl k, of "engine 1 ep_handler" "[10, 0]" 9 5] show ?thesis unfolding w by auto
qed

end
