(* ===== verification/Coap_Put.thy ===== *)
theory Coap_Put
  imports Coap_Start Coap_Accessors
begin

text \<open>
  The blocks of a long payload.  The client cuts it with \<open>put_first\<close> and \<open>put_block\<close>; the handler of
  \<open>Coap_Block1\<close> on the other side puts it together.  Further what an answer can make the client do.
\<close>

section \<open>The blocks the client sends\<close>

text \<open>What a receiver computes from the number and the size of a block.\<close>

definition as_received :: "coap_packet \<Rightarrow> coap_packet" where
  "as_received p = p\<lparr>cp_block1_offset := cp_block1_num p * ucast (cp_block1_size p)\<rparr>"

definition chunk :: "bytes \<Rightarrow> nat \<Rightarrow> bytes" where
  "chunk v i = take 1024 (drop (1024 * i) v)"

lemma concat_chunks: "concat (map (chunk v) [0..<k]) = take (1024 * k) v"
  by (induction k) (simp_all add: chunk_def take_add [symmetric] add.commute)

text \<open>A request with a payload that it owns, and the numbers of its blocks.\<close>

definition owns :: "coap_packet \<Rightarrow> bytes \<Rightarrow> bool" where
  "owns p v \<longleftrightarrow> cp_payload p = Some (P_Ext v) \<and> cp_payload_len p = length v \<and> length v < 65536 \<and> length (cp_options p) = 8"

lemma block_numbers:
  assumes "1024 * i \<le> n" "n < 65536"
  shows "unat ((of_nat i :: u32) * 1024) = 1024 * i" and "unat (of_nat n - (of_nat i :: u32) * 1024) = n - 1024 * i"
    and "(of_nat i :: u32) \<le> 0x0FFFFF"
proof -
  have i: "unat (of_nat i :: u32) = i" "unat (of_nat n :: u32) = n" using assms by (simp_all add: unat_of_nat_small)
  show "unat ((of_nat i :: u32) * 1024) = 1024 * i" using i assms by (simp add: unat_word_ariths)
  then have m: "(of_nat i :: u32) * 1024 \<le> of_nat n" using i assms by (simp add: word_le_nat_alt)
  show "unat (of_nat n - (of_nat i :: u32) * 1024) = n - 1024 * i"
    using unat_sub [OF m] i \<open>unat ((of_nat i :: u32) * 1024) = 1024 * i\<close> by simp
  show "(of_nat i :: u32) \<le> 0x0FFFFF" using i assms by (simp add: word_le_nat_alt)
qed

lemma set_opt_fields [simp]:
  "cp_payload (set_opt n p) = cp_payload p" "cp_payload_len (set_opt n p) = cp_payload_len p"
  "cp_block1_num (set_opt n p) = cp_block1_num p" "cp_block1_more (set_opt n p) = cp_block1_more p"
  "cp_block1_size (set_opt n p) = cp_block1_size p"
  by (simp_all add: set_opt_def SET_OPTION_def)

lemma IS_OPTION_fields [simp]:
  "IS_OPTION m (p\<lparr>cp_payload := a, cp_payload_len := b\<rparr>) = IS_OPTION m p" "IS_OPTION m (p\<lparr>cp_size1 := d\<rparr>) = IS_OPTION m p"
  "IS_OPTION m (p\<lparr>cp_block1_offset := e\<rparr>) = IS_OPTION m p"
  by (simp_all add: IS_OPTION_def)

lemma put_block_fields:
  assumes o: "owns (rs_request x) v" and x: "rs_block_num x = of_nat i" "rs_block_size x = 1024" and i: "1024 * i \<le> length v"
  shows "cp_payload (put_block x) = Some (P_Ext (drop (1024 * i) v))" and "cp_payload_len (put_block x) = min 1024 (length v - 1024 * i)"
    and "cp_block1_num (put_block x) = of_nat i" and "cp_block1_more (put_block x) = (if 1024 \<le> length v - 1024 * i then 1 else 0)"
    and "cp_block1_size (put_block x) = 1024" and "IS_OPTION COAP_OPTION_BLOCK1 (put_block x)"
proof -
  have v: "cp_payload (rs_request x) = Some (P_Ext v)" "cp_payload_len (rs_request x) = length v" "length v < 65536" "length (cp_options (rs_request x)) = 8"
    using o by (simp_all add: owns_def)
  note b = block_numbers [OF i v(3)]
  have lt: "of_nat (length v) - (of_nat i :: u32) * 1024 < 1024 \<longleftrightarrow> length v - 1024 * i < 1024" using b(2) by (simp add: word_less_nat_alt)
  have nl: "\<not> 0x0FFFFF < (of_nat i :: u32)" using b(3) by simp
  note defs = nl put_block_def Let_def coap_set_payload_def coap_set_header_block1_def v x b lt REST_MAX_CHUNK_SIZE_def
  show "cp_payload (put_block x) = Some (P_Ext (drop (1024 * i) v))" by (simp add: defs)
  show "cp_payload_len (put_block x) = min 1024 (length v - 1024 * i)" by (auto simp: defs)
  show "cp_block1_num (put_block x) = of_nat i" by (auto simp: defs not_less)
  show "cp_block1_more (put_block x) = (if 1024 \<le> length v - 1024 * i then 1 else 0)" by (auto simp: defs not_less)
  show "cp_block1_size (put_block x) = 1024" by (auto simp: defs not_less)
  show "IS_OPTION COAP_OPTION_BLOCK1 (put_block x)" by (auto simp: defs not_less IS_OPTION_set_opt)
qed

lemma put_first_fields:
  assumes o: "owns p v" and "1024 < length v"
  shows "cp_payload (put_first p) = Some (P_Ext v)" and "cp_payload_len (put_first p) = 1024" and "cp_block1_num (put_first p) = 0"
    and "cp_block1_more (put_first p) = 1" and "cp_block1_size (put_first p) = 1024" and "IS_OPTION COAP_OPTION_BLOCK1 (put_first p)"
  using assms by (simp_all add: put_first_def owns_def coap_set_payload_def coap_set_header_size1_def coap_set_header_block1_def
      REST_MAX_CHUNK_SIZE_def COAP_MAX_BLOCK_SIZE_def IS_OPTION_set_opt length_set_opt)

lemma carriesI:
  assumes "IS_OPTION COAP_OPTION_BLOCK1 p" and "cp_payload p = Some (P_Ext w)" and "cp_payload_len p = n" and "0 < n" and "n \<le> length w"
    and "unat (cp_block1_num p * ucast (cp_block1_size p)) = off" and "cp_block1_more p \<noteq> 0 \<longleftrightarrow> mr"
  shows "carries (as_received p) off (take n w) mr"
  using assms by (auto simp: carries_def as_received_def sref_at_def sref_view_def)

lemma put_block_carries:
  assumes o: "owns (rs_request x) v" and x: "rs_block_num x = of_nat i" "rs_block_size x = 1024" and i: "1024 * i < length v"
  shows "carries (as_received (put_block x)) (1024 * i) (chunk v i) (1024 * Suc i \<le> length v)"
proof -
  have i': "1024 * i \<le> length v" using i by simp
  note f = put_block_fields [OF o x i']
  have "unat ((of_nat i :: u32) * 1024) = 1024 * i" using block_numbers(1) [OF i'] o by (simp add: owns_def)
  then have "carries (as_received (put_block x)) (1024 * i) (take (min 1024 (length v - 1024 * i)) (drop (1024 * i) v)) (1024 * Suc i \<le> length v)"
    using f i by (intro carriesI) auto
  moreover have "take (min 1024 (length v - 1024 * i)) (drop (1024 * i) v) = chunk v i" by (simp add: chunk_def min_def)
  ultimately show ?thesis by simp
qed

lemma put_first_carries:
  assumes "owns p v" and "1024 < length v"
  shows "carries (as_received (put_first p)) 0 (take 1024 v) True"
  using put_first_fields [OF assms] assms(2) by (intro carriesI) auto

lemma carries_all_from:
  assumes "\<And>j. i \<le> j \<Longrightarrow> j < i + n \<Longrightarrow> carries (g j) (1024 * j) (chunk v j) (Suc j < i + n)"
    and "\<And>j. i \<le> j \<Longrightarrow> Suc j < i + n \<Longrightarrow> length (chunk v j) = 1024"
  shows "carries_all (map g [i..<i + n]) (1024 * i) (map (chunk v) [i..<i + n])"
  using assms
proof (induction n arbitrary: i)
  case (Suc n)
  have u: "[i..<i + Suc n] = i # [Suc i..<Suc i + n]" by (simp add: upt_rec)
  have IH: "carries_all (map g [Suc i..<Suc i + n]) (1024 * Suc i) (map (chunk v) [Suc i..<Suc i + n])"
    by (rule Suc.IH) (use Suc.prems in auto)
  show ?case
  proof (cases "n = 0")
    case True
    then show ?thesis using Suc.prems(1) [of i] by simp
  next
    case False
    then have "length (chunk v i) = 1024" using Suc.prems(2) [of i] by simp
    moreover have "carries (g i) (1024 * i) (chunk v i) True" using Suc.prems(1) [of i] False by simp
    ultimately show ?thesis using IH False unfolding u by (simp add: add.commute)
  qed
qed simp

section \<open>Properties\<close>

text \<open>A buffer of 4096 bytes, and requests with payloads of a given length.\<close>

definition sample_block1 :: block1_state where
  "sample_block1 = \<lparr>b1_status = 0, b1_response = cp_zero, b1_target = Some (replicate 4096 0), b1_len = 0\<rparr>"

definition sample_put :: "nat \<Rightarrow> coap_packet" where
  "sample_put n = cp_zero\<lparr>cp_code := COAP_PUT, cp_token := [5], cp_payload := Some (P_Ext (replicate n 1)), cp_payload_len := n\<rparr>"

definition put_state :: "nat \<Rightarrow> u32 \<Rightarrow> request_state" where
  "put_state n i = sample_state\<lparr>rs_request := sample_put n, rs_block_num := i, rs_block_size := 1024\<rparr>"

lemma sample_put_owns: "n < 65536 \<Longrightarrow> owns (sample_put n) (replicate n 1)"
  by (simp add: owns_def sample_put_def cp_zero_def)

text \<open>C18.  Block-wise transfer end to end: the first block and the blocks that follow it, as the client cuts them from a
  payload whose length is not a multiple of the block size, are what the handler on the other side expects; it
  answers all but the last with \<open>continue\<close> and ends with the payload in its buffer.\<close>

theorem put_blocks_assemble:
  assumes o: "owns p v" and v: "1024 < length v" "length v mod 1024 \<noteq> 0"
    and x: "rs_request x = p" "rs_block_size x = 1024"
    and st: "b1_target st = Some t" "length v \<le> max_len" "max_len \<le> length t" "max_len < 2 ^ 32"
  shows "\<exists>st'. block1_run (as_received (put_first p) #
      map (\<lambda>i. as_received (put_block (x\<lparr>rs_block_num := of_nat i\<rparr>))) [1..<Suc (length v div 1024)]) max_len st =
      Inr (replicate (length v div 1024) 1 @ [0], st') \<and>
    b1_target st' = Some (v @ drop (length v) t) \<and> b1_len st' = length v"
proof -
  define k where "k = length v div 1024"
  define g where "g j = (if j = 0 then as_received (put_first p) else as_received (put_block (x\<lparr>rs_block_num := of_nat j\<rparr>)))" for j
  have k: "1024 * k < length v" "length v < 1024 * Suc k" "0 < k"
    using v by (auto simp: k_def) (metis mult_div_mod_eq less_add_same_cancel1 neq0_conv)
  have c: "carries (g j) (1024 * j) (chunk v j) (Suc j < Suc k)" if "j < Suc k" for j
  proof (cases "j = 0")
    case True
    then show ?thesis using put_first_carries [OF o v(1)] k by (simp add: g_def chunk_def)
  next
    case False
    let ?x = "x\<lparr>rs_block_num := of_nat j\<rparr>"
    have "1024 * j < length v" using that k(1) by (meson less_Suc_eq_le le_less_trans mult_le_mono2)
    with o x have "carries (as_received (put_block ?x)) (1024 * j) (chunk v j) (1024 * Suc j \<le> length v)" by (intro put_block_carries) simp_all
    moreover have "1024 * Suc j \<le> length v \<longleftrightarrow> Suc j < Suc k" using that k by auto
    ultimately show ?thesis using False by (simp add: g_def)
  qed
  have l: "length (chunk v j) = 1024" if "Suc j < Suc k" for j using that k(1) by (auto simp: chunk_def)
  have "carries_all (map g [0..<0 + Suc k]) (1024 * 0) (map (chunk v) [0..<0 + Suc k])"
    by (rule carries_all_from) (use c l in auto)
  then have ca: "carries_all (map g [0..<Suc k]) 0 (map (chunk v) [0..<Suc k])" by simp
  have cc: "concat (map (chunk v) [0..<Suc k]) = v" unfolding concat_chunks using k(2) by simp
  have "map g [0..<Suc k] = as_received (put_first p) # map (\<lambda>i. as_received (put_block (x\<lparr>rs_block_num := of_nat i\<rparr>))) [1..<Suc k]"
    by (simp add: upt_conv_Cons g_def del: upt_Suc)
  then show ?thesis using block1_run_assembles [OF ca st(1) _ st(3,4)] st(2) cc by (simp add: k_def del: upt_Suc)
qed

theorem put_blocks_assemble_witness:
  "\<exists>st'. block1_run [as_received (put_first (sample_put 2500)), as_received (put_block (put_state 2500 1)), as_received (put_block (put_state 2500 2))]
       4096 sample_block1 = Inr ([1, 1, 0], st') \<and> b1_target st' = Some (replicate 2500 1 @ replicate 1596 0) \<and> b1_len st' = 2500"
proof -
  let ?x = "put_state 2500 0"
  have o: "owns (sample_put 2500) (replicate 2500 1)" by (rule sample_put_owns) simp
  have x: "rs_request ?x = sample_put 2500" "rs_block_size ?x = 1024" by (simp_all add: put_state_def)
  have st: "b1_target sample_block1 = Some (replicate 4096 0)" by (simp add: sample_block1_def)
  have u: "[1..<Suc (2500 div 1024)] = [1, 2]" "replicate (2500 div 1024) (1 :: int) = [1, 1]" by (simp_all add: upt_rec numeral_2_eq_2)
  have n: "?x\<lparr>rs_block_num := i\<rparr> = put_state 2500 i" for i by (simp add: put_state_def)
  show ?thesis using put_blocks_assemble [OF o _ _ x st, of 4096]
    by (simp add: u [simplified] n)
qed

text \<open>Blocks that are all followed by another one.\<close>

lemma block1_run_append:
  "block1_run (rs @ qs) m st = cbind (block1_run rs m st) (\<lambda>(is, st). cbind (block1_run qs m st) (\<lambda>(js, st). Inr (is @ js, st)))"
  by (induction rs arbitrary: st) (simp_all add: cbind_assoc cbind_Inr_right split_def)

lemma block1_run_continue:
  assumes "\<And>j. i \<le> j \<Longrightarrow> j < i + n \<Longrightarrow> carries (g j) (1024 * j) (chunk v j) True"
    and "\<And>j. i \<le> j \<Longrightarrow> j < i + n \<Longrightarrow> length (chunk v j) = 1024"
    and "b1_target st = Some t" "1024 * (i + n) \<le> max_len" "max_len \<le> length t" "max_len < 2 ^ 32"
  shows "\<exists>st'. block1_run (map g [i..<i + n]) max_len st = Inr (replicate n 1, st') \<and>
    b1_target st' = Some (take (1024 * i) t @ concat (map (chunk v) [i..<i + n]) @ drop (1024 * (i + n)) t)"
  using assms
proof (induction n arbitrary: i st t)
  case (Suc n)
  have u: "[i..<i + Suc n] = i # [Suc i..<Suc i + n]" by (simp add: upt_rec)
  have c: "carries (g i) (1024 * i) (chunk v i) True" "length (chunk v i) = 1024" using Suc.prems(1,2) [of i] by simp_all
  let ?t = "take (1024 * i) t @ chunk v i @ drop (1024 * i + 1024) t"
  obtain st1 where s1: "coap_block1_handler (g i) max_len st = Inr (1, st1)" "b1_target st1 = Some ?t"
    using block1_stores [OF c(1) Suc.prems(3), of max_len] c(2) Suc.prems(4-6) by auto
  have lt: "length ?t = length t" using c(2) Suc.prems(4,5) by simp
  have "\<exists>st'. block1_run (map g [Suc i..<Suc i + n]) max_len st1 = Inr (replicate n 1, st') \<and>
      b1_target st' = Some (take (1024 * Suc i) ?t @ concat (map (chunk v) [Suc i..<Suc i + n]) @ drop (1024 * (Suc i + n)) ?t)"
    by (rule Suc.IH) (use Suc.prems s1(2) lt in auto)
  then obtain st' where "block1_run (map g [Suc i..<Suc i + n]) max_len st1 = Inr (replicate n 1, st')"
    "b1_target st' = Some (take (1024 * Suc i) ?t @ concat (map (chunk v) [Suc i..<Suc i + n]) @ drop (1024 * (Suc i + n)) ?t)" by blast
  moreover have "take (1024 * Suc i) ?t = take (1024 * i) t @ chunk v i" "drop (1024 * (Suc i + n)) ?t = drop (1024 * (i + Suc n)) t"
    using c(2) Suc.prems(4,5) by (simp_all add: ac_simps)
  ultimately show ?case unfolding u using s1(1) by simp
qed simp

text \<open>Where the length of the payload is a multiple of the block size, the block that ends it announces one more, which
  is empty; the handler has the whole payload by then and refuses the request.\<close>

theorem put_multiple_refused:
  assumes o: "owns p v" and v: "1024 < length v" "length v mod 1024 = 0"
    and x: "rs_request x = p" "rs_block_size x = 1024"
    and st: "b1_target st = Some t" "length v \<le> max_len" "max_len \<le> length t" "max_len < 2 ^ 32"
  shows "\<exists>st'. block1_run (as_received (put_first p) #
      map (\<lambda>i. as_received (put_block (x\<lparr>rs_block_num := of_nat i\<rparr>))) [1..<Suc (length v div 1024)]) max_len st =
      Inr (replicate (length v div 1024) 1 @ [-1], st') \<and>
    b1_target st' = Some (v @ drop (length v) t) \<and> b1_status st' = BAD_REQUEST_400"
proof -
  define k where "k = length v div 1024"
  define g where "g j = (if j = 0 then as_received (put_first p) else as_received (put_block (x\<lparr>rs_block_num := of_nat j\<rparr>)))" for j
  have k: "1024 * k = length v" "0 < k" using v by (auto simp: k_def)
  have c: "carries (g j) (1024 * j) (chunk v j) True" if "j < k" for j
  proof -
    have j: "1024 * j < length v" "1024 * Suc j \<le> length v" using that k(1) by auto
    show ?thesis
    proof (cases "j = 0")
      case True
      then show ?thesis using put_first_carries [OF o v(1)] by (simp add: g_def chunk_def)
    next
      case False
      then show ?thesis using put_block_carries [of "x\<lparr>rs_block_num := of_nat j\<rparr>" v j] o x j by (simp add: g_def)
    qed
  qed
  have l: "length (chunk v j) = 1024" if "j < k" for j using that k(1) by (auto simp: chunk_def)
  obtain st1 where s1: "block1_run (map g [0..<k]) max_len st = Inr (replicate k 1, st1)" "b1_target st1 = Some (v @ drop (length v) t)"
    using block1_run_continue [of 0 k g v st t max_len] c l st k(1) by (auto simp: concat_chunks)
  let ?x = "x\<lparr>rs_block_num := of_nat k\<rparr>"
  have "cp_payload_len (put_block ?x) = 0" "cp_payload (put_block ?x) = Some (P_Ext [])"
    using put_block_fields(1,2) [of ?x v k] o x k by simp_all
  then have "coap_block1_handler (g k) max_len st1 = Inr (-1, st1\<lparr>b1_status := BAD_REQUEST_400\<rparr>)"
    using k(2) by (simp add: g_def coap_block1_handler_def coap_get_payload_def as_received_def)
  with s1 have "block1_run (map g [0..<Suc k]) max_len st = Inr (replicate k 1 @ [-1], st1\<lparr>b1_status := BAD_REQUEST_400\<rparr>)"
    by (simp add: block1_run_append)
  moreover have "map g [0..<Suc k] = as_received (put_first p) # map (\<lambda>i. as_received (put_block (x\<lparr>rs_block_num := of_nat i\<rparr>))) [1..<Suc k]"
    by (simp add: upt_conv_Cons g_def del: upt_Suc)
  ultimately show ?thesis using s1(2) by (simp add: k_def del: upt_Suc)
qed

theorem put_multiple_refused_witness:
  "\<exists>st'. block1_run [as_received (put_first (sample_put 2048)), as_received (put_block (put_state 2048 1)), as_received (put_block (put_state 2048 2))]
       4096 sample_block1 = Inr ([1, 1, -1], st') \<and> b1_target st' = Some (replicate 2048 1 @ replicate 2048 0) \<and> b1_status st' = BAD_REQUEST_400"
proof -
  let ?x = "put_state 2048 0"
  have o: "owns (sample_put 2048) (replicate 2048 1)" by (rule sample_put_owns) simp
  have x: "rs_request ?x = sample_put 2048" "rs_block_size ?x = 1024" by (simp_all add: put_state_def)
  have st: "b1_target sample_block1 = Some (replicate 4096 0)" by (simp add: sample_block1_def)
  have u: "[1..<Suc (2048 div 1024)] = [1, 2]" "replicate (2048 div 1024) (1 :: int) = [1, 1]" by (simp_all add: upt_rec numeral_2_eq_2)
  have n: "?x\<lparr>rs_block_num := i\<rparr> = put_state 2048 i" for i by (simp add: put_state_def)
  show ?thesis using put_multiple_refused [OF o _ _ x st, of 4096]
    by (simp add: u [simplified] n)
qed

section \<open>The next block\<close>

text \<open>A server that asks for more brings the client to its next block, whatever is left of the payload.\<close>

definition asks_more :: "request_state \<Rightarrow> coap_packet \<Rightarrow> bool" where
  "asks_more x r \<longleftrightarrow> cp_type r \<noteq> COAP_TYPE_RST \<and> cp_code r = ucast CONTINUE_2_31 \<and> IS_OPTION COAP_OPTION_BLOCK1 r \<and>
     cp_block1_num r = rs_block_num x \<and> cp_block1_more r \<noteq> 0"

definition next_state :: "request_state \<Rightarrow> nat \<Rightarrow> u16 \<Rightarrow> request_state" where
  "next_state x t mid = x\<lparr>rs_block_num := rs_block_num x + 1, rs_transaction := Some t, rs_request := (rs_request x)\<lparr>cp_mid := mid\<rparr>\<rparr>"

lemma put_reaches_block:
  assumes i: "ctx_inv c ts qs" and x: "rq_states c s = Some x" "rs_transaction x = Some t0" "cc_trans c t0 = Some y"
    and m: "rq_mem c = t # m" and t: "t \<notin> dom (cc_trans c)" and r: "asks_more x r"
    and b: "n = next_state x t (rq_mid c + 1)" "b = put_block n"
  obtains c2 where "coap_nonblocking_put_callback h u s (Some r) c =
      rbind (set_handler t b (Some PUT_CALLBACK) s c2) (\<lambda>c. rbind (serialize_to t b c) (\<lambda>c.
      rbind (coap_send_transaction h t c) (\<lambda>(freed, c). if freed then put_finish u s n None c else done_with c)))"
    and "ctx_inv c2 (ts @ [t]) qs" and "cc_trans c2 t = Some (fresh_trans (rq_mid c + 1) (ct_addr y) (cc_default_retrans_ms c))"
    and "dom (cc_trans c2) = insert t (dom (cc_trans c))" and "cc_reqs c2 = cc_reqs c" and "cc_events c2 = cc_events c"
    and "cc_default_retrans_cnt c2 = cc_default_retrans_cnt c" and "rq_mem c2 = m"
    and "rq_states c2 = (rq_states c)(s \<mapsto> n)"
proof -
  let ?x = "x\<lparr>rs_block_num := rs_block_num x + 1\<rparr>" 
  let ?c0 = "c\<lparr>rq_states := (rq_states c)(s \<mapsto> ?x), rq_mid := rq_mid c + 1, rq_mem := m\<rparr>"
  have i0: "ctx_inv ?c0 ts qs" "t \<notin> dom (cc_trans ?c0)" using i t by simp_all
  then obtain c1 where c1: "coap_new_transaction (Some t) (rq_now ?c0) (rq_mid c + 1) (ct_addr y) ?c0 = done_with (Some t, c1)"
    "ctx_inv c1 (ts @ [t]) qs"
    "cc_trans c1 = (age0 (rq_now ?c0 - cc_last_checktime ?c0) (set ts) (cc_trans ?c0))(t \<mapsto> fresh_trans (rq_mid c + 1) (ct_addr y) (cc_default_retrans_ms ?c0))"
    "cc_reqs c1 = cc_reqs ?c0" "frame c1 = frame (?c0\<lparr>cc_last_checktime := rq_now ?c0\<rparr>)" "ctx_ext ?c0 c1" by (rule new_transaction_ok)
  have mr: "coap_context.more c1 = coap_context.more ?c0" using frame_fields(5) [OF c1(5)] by simp
  note mf = more_fields [OF mr]
  define c2 where "c2 = c1\<lparr>rq_states := (rq_states c1)(s \<mapsto> n)\<rparr>"
  show ?thesis
  proof (rule that)
    show "coap_nonblocking_put_callback h u s (Some r) c =
      rbind (set_handler t b (Some PUT_CALLBACK) s c2) (\<lambda>c. rbind (serialize_to t b c) (\<lambda>c.
      rbind (coap_send_transaction h t c) (\<lambda>(freed, c). if freed then put_finish u s n None c else done_with c)))"
      using r x m c1(1) mf unfolding b c2_def
      by (simp add: coap_nonblocking_put_callback_def asks_more_def state_at_def upd_state_def coap_get_header_block1_def next_mid_def
          coap_get_mid_def state_addr_def trans_at_def start_transaction_def malloc_def next_state_def CREATED_2_01_def CONTINUE_2_31_def
          CHANGED_2_04_def Let_def cong: if_cong)
  qed (use c1 mf frame_fields [OF c1(5)] in \<open>auto simp: c2_def\<close>)
qed

text \<open>Behind the end the length of the rest wraps around.\<close>

lemma put_block_behind:
  assumes o: "owns (rs_request x) v" and x: "rs_block_num x = of_nat k" "rs_block_size x = 1024"
    and k: "length v < 1024 * k" "k \<le> 0x0FFFFF"
  shows "cp_payload (put_block x) = Some (P_Ext [])" and "cp_payload_len (put_block x) = 1024"
proof -
  have v: "cp_payload (rs_request x) = Some (P_Ext v)" "cp_payload_len (rs_request x) = length v" "length v < 65536"
    using o by (simp_all add: owns_def)
  have u: "unat (of_nat k :: u32) = k" "unat (of_nat (length v) :: u32) = length v" using k v(3) by (simp_all add: unat_of_nat_small)
  have off: "unat ((of_nat k :: u32) * 1024) = 1024 * k" using u k by (simp add: unat_word_ariths)
  let ?rest = "of_nat (length v) - (of_nat k :: u32) * 1024"
  have "unat ?rest = 2 ^ 32 + length v - 1024 * k"
    using off u k by (simp add: unat_sub_if_size word_size)
  then have nl: "\<not> ?rest < 1024" using k by (simp add: word_less_nat_alt)
  have "\<not> 0x0FFFFF < (of_nat k :: u32)" using k u by (simp add: word_less_nat_alt)
  note defs = this nl put_block_def Let_def coap_set_payload_def coap_set_header_block1_def v x off REST_MAX_CHUNK_SIZE_def
  show "cp_payload (put_block x) = Some (P_Ext [])" using k by (simp add: defs)
  show "cp_payload_len (put_block x) = 1024" by (simp add: defs)
qed

lemma serialize_overread:
  assumes "head_ok p" "length (wire_head p) \<le> COAP_MAX_HEADER_SIZE" and "COAP_MAX_HEADER_SIZE < length buf"
    and "cp_payload p = Some (P_Ext w)" "length w < cp_payload_len p"
  shows "coap_serialize_message p buf = Inl Out_Of_Bounds"
  using serialize_message_head [of p buf] assms by (auto simp: pack_payload_def buf_write_def sref_at_def sref_view_def)

text \<open>The block at the end of the payload and the one behind it, without the bytes before them.\<close>

definition sample_block :: "bytes \<Rightarrow> nat \<Rightarrow> u32 \<Rightarrow> u8 \<Rightarrow> coap_packet" where
  "sample_block v n i mr = set_opt COAP_OPTION_BLOCK1 (cp_zero\<lparr>cp_code := COAP_PUT, cp_mid := 7, cp_token := [5], cp_payload := Some (P_Ext v),
     cp_payload_len := n, cp_block1_num := i, cp_block1_more := mr, cp_block1_size := 1024\<rparr>)"

lemma sample_mid: "(6 :: u16) + 1 = 7"
  by simp

lemma sample_blocks:
  "put_block (next_state (put_state 1028 0) 21 7) = sample_block (replicate 4 1) 4 1 0"
  "put_block (next_state (put_state 1028 1) 21 7) = sample_block [] 1024 2 1"
  by (simp_all add: put_block_def next_state_def put_state_def sample_put_def sample_state_def sample_block_def coap_set_payload_def
      coap_set_header_block1_def cp_zero_def Let_def REST_MAX_CHUNK_SIZE_def)

text \<open>An answer that asks for the block after the given one.\<close>

definition sample_more :: "u32 \<Rightarrow> coap_packet" where
  "sample_more i = snd (coap_set_header_block1 i 1 1024 (coap_init_message COAP_TYPE_ACK 95 6))"

text \<open>C29.  The client goes on as a server asks it to: an answer that asks for more makes the callback send the next block
  as a confirmable message with a new identifier to the same address, registered under the callback with the
  request's state, which now holds the number of that block and the new transaction.\<close>

theorem put_continues:
  assumes i: "ctx_inv c ts qs" and x: "rq_states c s = Some x" "rs_transaction x = Some t0" "cc_trans c t0 = Some y"
    and m: "rq_mem c = t # q # m" and fr: "t \<notin> dom (cc_trans c)" "q \<notin> dom (cc_reqs c)" and n: "0 < cc_default_retrans_cnt c"
    and r: "asks_more x r" and b: "n = next_state x t (rq_mid c + 1)" "b = put_block n" "sendable b" "cp_token b \<noteq> []" "cp_type b = COAP_TYPE_CON"
  shows "\<exists>c'. coap_nonblocking_put_callback h u s (Some r) c = done_with c' \<and> ctx_inv c' (ts @ [t]) (qs @ [q]) \<and>
    cc_events c' = cc_events c @ [Tx_Data (ct_addr y) (wire b)] \<and> rq_states c' = (rq_states c)(s \<mapsto> n) \<and>
    dom (cc_trans c') = insert t (dom (cc_trans c)) \<and> cc_reqs c' = (cc_reqs c)(q \<mapsto> new_request b (Some PUT_CALLBACK) s t)"
proof -
  from i x m fr(1) r b(1,2) obtain c2 where c2: "coap_nonblocking_put_callback h u s (Some r) c =
      rbind (set_handler t b (Some PUT_CALLBACK) s c2) (\<lambda>c. rbind (serialize_to t b c) (\<lambda>c.
      rbind (coap_send_transaction h t c) (\<lambda>(freed, c). if freed then put_finish u s n None c else done_with c)))"
    "ctx_inv c2 (ts @ [t]) qs" "cc_trans c2 t = Some (fresh_trans (rq_mid c + 1) (ct_addr y) (cc_default_retrans_ms c))"
    "dom (cc_trans c2) = insert t (dom (cc_trans c))" "cc_reqs c2 = cc_reqs c" "cc_events c2 = cc_events c"
    "cc_default_retrans_cnt c2 = cc_default_retrans_cnt c" "rq_mem c2 = q # m" "rq_states c2 = (rq_states c)(s \<mapsto> n)"
    by (rule put_reaches_block)
  have con: "cp_type b AND 3 = COAP_TYPE_CON" using b(5) by (simp add: COAP_TYPE_CON_def)
  have q: "q \<notin> dom (cc_reqs c2)" "0 < cc_default_retrans_cnt c2" using fr(2) n c2(5,7) by simp_all
  from c2(2,3,8) q(1) b(4,3) con q(2) obtain c3 c4 c' where c': "set_handler t b (Some PUT_CALLBACK) s c2 = done_with c3"
    "serialize_to t b c3 = done_with c4" "coap_send_transaction h t c4 = done_with (False, c')" "ctx_inv c' (ts @ [t]) (qs @ [q])"
    "cc_reqs c' = (cc_reqs c2)(q \<mapsto> new_request b (Some PUT_CALLBACK) s t)" "dom (cc_trans c') = dom (cc_trans c2)"
    "cc_events c' = cc_events c2 @ [Tx_Data (ct_addr y) (wire b)]" "coap_context.more c' = coap_context.more (c2\<lparr>rq_mem := m\<rparr>)" by (rule launch_ok)
  show ?thesis using c2 c' more_fields(1) [OF c'(8)] by (intro exI [of _ c']) simp
qed

theorem put_continues_witness:
  "\<exists>c'. coap_nonblocking_put_callback (engine 1 ep_handler) ep_handler 3 (Some (sample_more 0))
       (pending_ctx (sample_trans 400) PUT_CALLBACK (put_state 1028 0) [21, 22]) = done_with c' \<and> ctx_inv c' [1, 21] [2, 22] \<and>
     cc_events c' = [Tx_Data [] [0x41, 3, 0, 7, 5, 0xD1, 14, 0x16, 0xFF, 1, 1, 1, 1]]"
proof -
  let ?c = "pending_ctx (sample_trans 400) PUT_CALLBACK (put_state 1028 0) [21, 22]"
  let ?n = "next_state (put_state 1028 0) 21 (rq_mid ?c + 1)"
  have i: "ctx_inv ?c [1] [2]" by (rule pending_ctx_inv) (rule sample_trans_ok)
  have k: "sendable (put_block ?n)" by (simp only: pending_ctx_fields sample_blocks sample_mid) code_simp
  have w: "wire (put_block ?n) = [0x41, 3, 0, 7, 5, 0xD1, 14, 0x16, 0xFF, 1, 1, 1, 1]" by (simp only: pending_ctx_fields sample_blocks sample_mid) code_simp
  have a: "asks_more (put_state 1028 0) (sample_more 0)" by code_simp
  have "cp_token (put_block ?n) = [5]" by (simp only: pending_ctx_fields sample_blocks sample_mid) code_simp
  then have t: "cp_token (put_block ?n) \<noteq> []" by simp
  have c: "cp_type (put_block ?n) = COAP_TYPE_CON" by (simp only: pending_ctx_fields sample_blocks sample_mid) code_simp
  have x: "rs_transaction (put_state 1028 0) = Some 1" by (simp add: put_state_def sample_state_def)
  have f: "rq_states ?c 3 = Some (put_state 1028 0)" "cc_trans ?c 1 = Some ((sample_trans 400)\<lparr>ct_ongoing_request := Some 2\<rparr>)"
    "rq_mem ?c = [21, 22]" "21 \<notin> dom (cc_trans ?c)" "22 \<notin> dom (cc_reqs ?c)" "0 < cc_default_retrans_cnt ?c" by simp_all
  from put_continues [OF i f(1) x f(2-6) a refl refl k t c, of "engine 1 ep_handler" ep_handler] show ?thesis unfolding w
    by (auto simp: sample_trans_def)
qed

text \<open>A server that asks for more when the payload has been sent makes the client read behind it: the length of the
  rest wraps around, the block has the full size and the bytes after the payload would be sent to the server.\<close>

theorem put_overread:
  assumes i: "ctx_inv c ts qs" and x: "rq_states c s = Some x" "rs_transaction x = Some t0" "cc_trans c t0 = Some y"
    and m: "rq_mem c = t # q # m" and fr: "t \<notin> dom (cc_trans c)" "q \<notin> dom (cc_reqs c)" and r: "asks_more x r"
    and v: "owns (rs_request x) v" "rs_block_num x = of_nat k" "rs_block_size x = 1024" "length v < 1024 * Suc k" "k < 0x0FFFFF"
    and b: "b = put_block (next_state x t (rq_mid c + 1))" "head_ok b" "length (wire_head b) \<le> COAP_MAX_HEADER_SIZE" "cp_token b \<noteq> []"
  shows "coap_nonblocking_put_callback h u s (Some r) c = Some (Inl Out_Of_Bounds)"
proof -
  define n where "n = next_state x t (rq_mid c + 1)"
  have bn: "b = put_block n" using b(1) by (simp add: n_def)
  from i x m fr(1) r n_def bn obtain c2 where c2: "coap_nonblocking_put_callback h u s (Some r) c =
      rbind (set_handler t b (Some PUT_CALLBACK) s c2) (\<lambda>c. rbind (serialize_to t b c) (\<lambda>c.
      rbind (coap_send_transaction h t c) (\<lambda>(freed, c). if freed then put_finish u s n None c else done_with c)))"
    "ctx_inv c2 (ts @ [t]) qs" "cc_trans c2 t = Some (fresh_trans (rq_mid c + 1) (ct_addr y) (cc_default_retrans_ms c))"
    "cc_reqs c2 = cc_reqs c" "rq_mem c2 = q # m" by (rule put_reaches_block)
  let ?x = "fresh_trans (rq_mid c + 1) (ct_addr y) (cc_default_retrans_ms c)" and ?c = "c2\<lparr>rq_mem := m\<rparr>"
  have "ctx_inv ?c (ts @ [t]) qs" "cc_trans ?c t = Some ?x" "ct_ongoing_request ?x = None" "q \<notin> dom (cc_reqs ?c)"
    using c2 fr by (simp_all add: fresh_trans_def)
  then obtain c1 where c1: "coap_set_response_handler (Some q) t b (Some PUT_CALLBACK) s ?c = done_with c1"
    "cc_trans c1 = (cc_trans ?c)(t \<mapsto> ?x\<lparr>ct_ongoing_request := Some q\<rparr>)" using b(4) by (rule set_response_handler_ok)
  have n: "owns (rs_request n) v" "rs_block_num n = of_nat (Suc k)" "rs_block_size n = 1024" "Suc k \<le> 0x0FFFFF"
    using v by (simp_all add: n_def next_state_def owns_def)
  note w = put_block_behind [OF n(1-3) v(4) n(4), folded bn]
  have "coap_serialize_message b (ct_packet ?x) = Inl Out_Of_Bounds"
    by (rule serialize_overread [OF b(2,3) _ w(1)]) (simp_all add: w(2) fresh_trans_def COAP_MAX_PACKET_SIZE_def)
  then have "serialize_to t b c1 = Some (Inl Out_Of_Bounds)" using c1(2) by (simp add: serialize_to_def trans_at_def)
  moreover have "set_handler t b (Some PUT_CALLBACK) s c2 = done_with c1" using c1(1) c2(5) b(4) by (simp add: set_handler_def malloc_def)
  ultimately show ?thesis using c2(1) by simp
qed

theorem put_overread_witness:
  "coap_nonblocking_put_callback (engine 1 ep_handler) ep_handler 3 (Some (sample_more 1))
     (pending_ctx (sample_trans 400) PUT_CALLBACK (put_state 1028 1) [21, 22]) = Some (Inl Out_Of_Bounds)"
proof -
  let ?c = "pending_ctx (sample_trans 400) PUT_CALLBACK (put_state 1028 1) [21, 22]"
  let ?b = "put_block (next_state (put_state 1028 1) 21 (rq_mid ?c + 1))"
  have i: "ctx_inv ?c [1] [2]" by (rule pending_ctx_inv) (rule sample_trans_ok)
  have h: "head_ok ?b" by (simp only: pending_ctx_fields sample_blocks sample_mid) code_simp
  have l: "length (wire_head ?b) \<le> COAP_MAX_HEADER_SIZE" by (simp only: pending_ctx_fields sample_blocks sample_mid) code_simp
  have "cp_token ?b = [5]" by (simp only: pending_ctx_fields sample_blocks sample_mid) code_simp
  then have t: "cp_token ?b \<noteq> []" by simp
  have a: "asks_more (put_state 1028 1) (sample_more 1)" by code_simp
  have o: "owns (rs_request (put_state 1028 1)) (replicate 1028 1)" using sample_put_owns [of 1028] by (simp add: put_state_def)
  have x: "rs_transaction (put_state 1028 1) = Some 1" "rs_block_num (put_state 1028 1) = of_nat 1" "rs_block_size (put_state 1028 1) = 1024"
    by (simp_all add: put_state_def sample_state_def)
  have f: "rq_states ?c 3 = Some (put_state 1028 1)" "cc_trans ?c 1 = Some ((sample_trans 400)\<lparr>ct_ongoing_request := Some 2\<rparr>)"
    "rq_mem ?c = [21, 22]" "21 \<notin> dom (cc_trans ?c)" "22 \<notin> dom (cc_reqs ?c)" "0 < cc_default_retrans_cnt ?c" by simp_all
  show ?thesis by (rule put_overread [OF i f(1) x(1) f(2-5) a o x(2,3) _ _ refl h l t]) simp_all
qed

end
