(* ===== verification/Coap_Receive.thy ===== *)
theory Coap_Receive
  imports Coap_Put
begin

text \<open>
  Received responses.  The searches for a transaction and for a pending request are searches of the lists behind the
  pointers; a response that ends a request frees all that belongs to it; and what an empty acknowledgement before the
  response leads to.
\<close>

section \<open>Searches\<close>

definition has_mid :: "'z coap_context_scheme \<Rightarrow> u16 \<Rightarrow> nat \<Rightarrow> bool" where
  "has_mid c mid t \<longleftrightarrow> map_option ct_mid (cc_trans c t) = Some mid"

definition has_token :: "'z coap_context_scheme \<Rightarrow> bytes \<Rightarrow> nat \<Rightarrow> bool" where
  "has_token c token q \<longleftrightarrow> map_option og_token (cc_reqs c q) = Some token"

lemma find_mid_from:
  assumes "chain (cc_transactions c) (ks @ us)" and "set us \<subseteq> dom (cc_trans c)"
  shows "find_mid mid (opt_hd us) c = done_with (find (has_mid c mid) us)"
  using assms
proof (induction us arbitrary: ks)
  case Nil
  then show ?case by (simp add: find_mid.simps opt_hd_def)
next
  case (Cons t us)
  then obtain x where x: "cc_trans c t = Some x" by auto
  have "find_mid mid (opt_hd us) c = done_with (find (has_mid c mid) us)" using Cons.IH [of "ks @ [t]"] Cons.prems by simp
  moreover have "cl_next (cc_transactions c) t = Some (opt_hd us)" by (rule next_chain [OF Cons.prems(1)])
  moreover have "opt_hd (t # us) = Some t" "has_mid c mid t \<longleftrightarrow> ct_mid x = mid" using x by (simp_all add: opt_hd_def has_mid_def)
  ultimately show ?case using x by (simp add: find_mid.simps [of mid "Some t"] trans_at_def next_at_def)
qed

lemma find_token_from:
  assumes "chain (cc_ongoing_requests c) (ks @ us)" and "set us \<subseteq> dom (cc_reqs c)"
  shows "find_token token (opt_hd us) c = done_with (find (has_token c token) us)"
  using assms
proof (induction us arbitrary: ks)
  case Nil
  then show ?case by (simp add: find_token.simps opt_hd_def)
next
  case (Cons q us)
  then obtain x where x: "cc_reqs c q = Some x" by auto
  have "find_token token (opt_hd us) c = done_with (find (has_token c token) us)" using Cons.IH [of "ks @ [q]"] Cons.prems by simp
  moreover have "cl_next (cc_ongoing_requests c) q = Some (opt_hd us)" by (rule next_chain [OF Cons.prems(1)])
  moreover have "opt_hd (q # us) = Some q" "has_token c token q \<longleftrightarrow> og_token x = token" using x by (simp_all add: opt_hd_def has_token_def)
  ultimately show ?case using x by (simp add: find_token.simps [of token "Some q"] req_at_def next_at_def)
qed

lemma by_mid:
  assumes "ctx_inv c ts qs"
  shows "coap_get_transaction_by_mid mid c = done_with (find (has_mid c mid) ts)"
proof -
  have "chain (cc_transactions c) ([] @ ts)" using assms by (simp add: ctx_inv_def)
  then show ?thesis using find_mid_from [of c "[]" ts mid] ctx_inv_subset [OF assms] head_chain [of "cc_transactions c" ts]
    by (simp add: coap_get_transaction_by_mid_def)
qed

lemma by_token:
  assumes "ctx_inv c ts qs"
  shows "coap_find_ongoing_request token c = done_with (find (has_token c token) qs)"
proof -
  have "chain (cc_ongoing_requests c) ([] @ qs)" "set qs \<subseteq> dom (cc_reqs c)" using assms by (simp_all add: ctx_inv_def)
  then show ?thesis using find_token_from [of c "[]" qs token] head_chain [of "cc_ongoing_requests c" qs]
    by (simp add: coap_find_ongoing_request_def)
qed

section \<open>A request that awaits its answer\<close>

definition awaits :: "req_ctx \<Rightarrow> nat \<Rightarrow> nat \<Rightarrow> nat \<Rightarrow> request_state \<Rightarrow> bool" where
  "awaits c t q s x \<longleftrightarrow> t_link c t = Some q \<and> cb_of c q = Some (GET_CALLBACK, s) \<and> map_option og_observe (cc_reqs c q) = Some False \<and>
     rq_states c s = Some x"

lemma awaitsD:
  assumes "awaits c t q s x"
  obtains y g where "cc_trans c t = Some y" and "ct_ongoing_request y = Some q" and "cc_reqs c q = Some g" and "og_callback g = Some GET_CALLBACK"
    and "og_callback_data g = s" and "\<not> og_observe g" and "rq_states c s = Some x"
  using assms by (auto simp: awaits_def t_link_Some cb_of_def bind_eq_Some_conv)

text \<open>The block of a response that the state expects: with no block option the only one.\<close>

definition block_of :: "coap_packet \<Rightarrow> u32 \<times> bool" where
  "block_of r = (case coap_get_header_block2 r of None \<Rightarrow> (0, False) | Some (b, m, _, _) \<Rightarrow> (b, m \<noteq> 0))"

lemma rq_emit [simp]: "rq_states (emit e c) = rq_states c" "rq_mid (emit e c) = rq_mid c" "rq_mem (emit e c) = rq_mem c"
  by (simp_all add: emit_def)

text \<open>The callback for the last block.\<close>

lemma request_callback_last:
  assumes s: "rq_states c s = Some x" "rs_response_callback x = Some f" and r: "cp_type r \<noteq> COAP_TYPE_RST" "block_of r = (rs_block_num x, False)"
    and u: "\<And>c. u f (rs_user_data x) (Some r) c = done_with (False, c)"
  shows "coap_nonblocking_request_callback h u s (Some r) c =
    done_with (emit (Callback f (rs_user_data x) (Some r)) (c\<lparr>rq_states := (rq_states c)(s := None)\<rparr>))"
proof -
  have "(case coap_get_header_block2 r of None \<Rightarrow> (0, 0) | Some (b, m, _, _) \<Rightarrow> (b, m)) = (rs_block_num x, 0)"
    using r(2) by (auto simp: block_of_def split: option.splits)
  then show ?thesis using s r(1) u
    by (simp add: coap_nonblocking_request_callback_def state_at_def user_call_def upd_state_def free_blockwise_state_def emit_def)
qed

section \<open>Properties\<close>

text \<open>A piggybacked response 2.05 without options, an empty acknowledgement, and a confirmable response 2.05 with token 5
  and the first of several blocks, each in a buffer with one byte to spare.\<close>

definition answer_bytes :: bytes where "answer_bytes = [0x61, 69, 0, 7, 5, 0xFF, 50, 51, 0]"

definition ack_bytes :: bytes where "ack_bytes = [0x60, 0, 0, 7, 0]"

definition first_block_bytes :: bytes where "first_block_bytes = [0x41, 69, 0, 9, 5, 0xD1, 10, 0x0E, 0xFF, 50, 51, 0]"

definition parsed :: "bytes \<Rightarrow> coap_packet" where
  "parsed v = (case coap_parse_message v (of_nat (length v - 1)) of Inl _ \<Rightarrow> cp_zero | Inr (_, p) \<Rightarrow> p)"

text \<open>C17.  The response to a GET: an acknowledgement that carries the last or only block of the response is handed to the
  client's callback once, the transaction, the pending request and the state are freed, nothing else changes and the
  invariants hold.\<close>

theorem coap_response_completes:
  assumes i: "ctx_inv c ts qs" "states_ok None c" and a: "awaits c t q s x" "rs_response_callback x = Some f"
    and p: "coap_parse_message buf len = Inr (0, r)" and r: "cp_type r = COAP_TYPE_ACK" "COAP_DELETE < cp_code r"
    and t: "find (has_mid c (cp_mid r)) ts = Some t" and b: "block_of r = (rs_block_num x, False)"
    and u: "\<And>c. u f (rs_user_data x) (Some r) c = done_with (False, c)"
  shows "\<exists>c'. coap_handle_packet (engine (Suc n) u) serve src buf len c = done_with (0, c') \<and>
    ctx_inv c' (remove1 t ts) (remove1 q qs) \<and> states_ok None c' \<and> cc_trans c' = (cc_trans c)(t := None) \<and>
    cc_reqs c' = (cc_reqs c)(q := None) \<and> rq_states c' = (rq_states c)(s := None) \<and>
    cc_events c' = cc_events c @ [Callback GET_CALLBACK s (Some r), Callback f (rs_user_data x) (Some r)]"
proof -
  from a(1) obtain y g where y: "cc_trans c t = Some y" "ct_ongoing_request y = Some q" "cc_reqs c q = Some g" "og_callback g = Some GET_CALLBACK"
    "og_callback_data g = s" "\<not> og_observe g" "rq_states c s = Some x" by (rule awaitsD)
  let ?e = "emit (Callback GET_CALLBACK s (Some r)) c"
  define c1 where "c1 = emit (Callback f (rs_user_data x) (Some r)) (?e\<lparr>rq_states := (rq_states c)(s := None)\<rparr>)"
  have "coap_nonblocking_request_callback (engine n u) u s (Some r) ?e = done_with c1"
    unfolding c1_def using request_callback_last [of ?e s x f r u] y(7) a(2) r(1) b u by (simp add: COAP_TYPE_RST_def COAP_TYPE_ACK_def)
  then have run: "run_request_callback (engine (Suc n) u) (Some q) (Some r) c = done_with c1"
    using y by (simp add: run_request_callback_def req_at_def call_back_def PUT_CALLBACK_def GET_CALLBACK_def)
  have c1: "ctx_inv c1 ts qs" "cc_trans c1 = cc_trans c" "cc_reqs c1 = cc_reqs c" using i(1) by (simp_all add: c1_def)
  then have "q \<in> dom (cc_reqs c1)" using y(3) by auto
  with c1(1) obtain c2 where c2: "free_ongoing_request q c1 = done_with c2" "ctx_inv c2 ts (remove1 q qs)" "cc_reqs c2 = (cc_reqs c1)(q := None)"
    "cc_trans c2 = unlink_req q (cc_trans c1)" "frame c2 = frame c1" by (rule free_ongoing_ok)
  then have "t \<in> dom (cc_trans c2)" using c1(2) y(1) by (simp add: domIff)
  with c2(2) obtain c' where c': "coap_clear_transaction (Some t) c2 = done_with c'" "ctx_inv c' (remove1 t ts) (remove1 q qs)"
    "cc_trans c' = (cc_trans c2)(t := None)" "cc_reqs c' = unlink_trans t (cc_reqs c2)" "frame c' = frame c2" by (rule clear_ok)
  have l: "linked c" "linked c2" using i(1) c2(2) by (simp_all add: ctx_inv_def)
  have ql: "q_link c q = Some t" using l(1) y t_link_Some [of c t q] by (simp add: linked_def)
  have ct: "cc_trans c2 = (cc_trans c)(t \<mapsto> y\<lparr>ct_ongoing_request := None\<rparr>)" using unlink_req_link [OF l(1), of q] ql c2(4) c1(2) y(1) by simp
  then have "t_link c2 t = None" by (simp add: t_link_def)
  then have rq: "cc_reqs c' = (cc_reqs c)(q := None)" using unlink_trans_link [OF l(2), of t] c'(4) c2(3) c1(3) by simp
  have nz: "cp_code r \<noteq> 0" using r(2) by auto
  have run': "response_by_mid (engine (Suc n) u) t r c = done_with c'"
    using run c2(1) c'(1) y c1(3) nz by (simp add: response_by_mid_def trans_at_def req_at_def)
  have nreq: "\<not> cp_code r \<le> COAP_DELETE" using r(2) leD by blast
  have fin: "coap_handle_packet (engine (Suc n) u) serve src buf len c = done_with (0, c')"
    using p nreq run' by_mid [OF i(1)] t r(1) by (simp add: coap_handle_packet_def Let_def COAP_TYPE_ACK_def COAP_TYPE_CON_def)
  have fr: "frame c' = frame c1" using c'(5) c2(5) by simp
  have st: "rq_states c' = (rq_states c)(s := None)" using more_fields(1) [OF frame_fields(5) [OF fr]] by (simp add: c1_def)
  have "states_ok (Some q) (c\<lparr>rq_states := (rq_states c)(s := None)\<rparr>)"
    using states_ok_free [OF i(2), of q GET_CALLBACK s] y by (simp add: cb_of_def engine_cb_def)
  then have "states_ok None c'"
    by (rule states_ok_mono) (use rq st in \<open>auto simp: used_states_def cb_of_def split: if_splits\<close>)
  then show ?thesis using fin c'(2,3) ct rq st frame_fields(4) [OF fr] by (intro exI [of _ c']) (simp add: c1_def)
qed

theorem coap_response_completes_witness:
  "\<exists>c'. coap_handle_packet (engine 1 ep_handler) (\<lambda>_. done_with) [] answer_bytes 8
       (pending_ctx (sample_trans 400) GET_CALLBACK sample_state []) = done_with (0, c') \<and> ctx_inv c' [] [] \<and>
     cc_trans c' = Map.empty \<and> rq_states c' = Map.empty \<and>
     cc_events c' = [Callback GET_CALLBACK 3 (Some (parsed answer_bytes)), Callback 9 4 (Some (parsed answer_bytes))]"
proof -
  let ?c = "pending_ctx (sample_trans 400) GET_CALLBACK sample_state []" and ?r = "parsed answer_bytes"
  have i: "ctx_inv ?c [1] [2]" by (rule pending_ctx_inv) (rule sample_trans_ok)
  have s: "states_ok None ?c" by (rule pending_ctx_states) (simp add: sample_state_def)
  have a: "awaits ?c 1 2 3 sample_state" by (simp add: awaits_def t_link_def cb_of_def)
  have p: "coap_parse_message answer_bytes 8 = Inr (0, ?r)" by code_simp
  have r: "cp_type ?r = COAP_TYPE_ACK" by code_simp
  have c: "COAP_DELETE < cp_code ?r" by code_simp
  have b: "block_of ?r = (rs_block_num sample_state, False)" by code_simp
  have m: "cp_mid ?r = 7" by code_simp
  have f: "find (has_mid ?c (cp_mid ?r)) [1] = Some 1" by (simp add: m has_mid_def sample_trans_def)
  have x: "rs_response_callback sample_state = Some 9" "rs_user_data sample_state = 4" by (simp_all add: sample_state_def)
  from coap_response_completes [OF i s a x(1) p r c f b, of ep_handler 0 "\<lambda>_. done_with" "[]"] show ?thesis
    by (auto simp: ep_handler_def x)
qed

text \<open>C37.  A separate response in blocks: the empty acknowledgement before it frees the transaction that the state of the
  request still refers to, so that the first block of the response, found by its token, makes the callback read the
  address of the peer in freed memory.\<close>

theorem separate_response_uaf:
  assumes i: "ctx_inv c ts qs" and a: "awaits c t q s x" "rs_transaction x = Some t" "rs_response_callback x = Some f"
    and p: "coap_parse_message buf1 len1 = Inr (0, ack)" "cp_type ack = COAP_TYPE_ACK" "cp_code ack = 0" "find (has_mid c (cp_mid ack)) ts = Some t"
    and r: "coap_parse_message buf2 len2 = Inr (0, r)" "cp_type r \<noteq> COAP_TYPE_RST" "COAP_DELETE < cp_code r"
      "find (has_mid c (cp_mid r)) ts = None" "find (has_token c (cp_token r)) qs = Some q" "block_of r = (rs_block_num x, True)"
    and u: "\<And>c. u f (rs_user_data x) (Some r) c = done_with (False, c)"
  shows "\<exists>c'. coap_handle_packet (engine (Suc n) u) serve src buf1 len1 c = done_with (0, c') \<and> ctx_inv c' (remove1 t ts) qs \<and>
    coap_handle_packet (engine (Suc n) u) serve src buf2 len2 c' = Some (Inl Bad_Pointer)"
proof -
  from a(1) obtain y g where y: "cc_trans c t = Some y" "ct_ongoing_request y = Some q" "cc_reqs c q = Some g" "og_callback g = Some GET_CALLBACK"
    "og_callback_data g = s" "\<not> og_observe g" "rq_states c s = Some x" by (rule awaitsD)
  then have "t \<in> dom (cc_trans c)" by auto
  with i obtain c' where c': "coap_clear_transaction (Some t) c = done_with c'" "ctx_inv c' (remove1 t ts) qs"
    "cc_trans c' = (cc_trans c)(t := None)" "cc_reqs c' = unlink_trans t (cc_reqs c)" "frame c' = frame c" by (rule clear_ok)
  have "response_by_mid (engine (Suc n) u) t ack c = done_with c'"
    using c'(1) y p(2,3) by (simp add: response_by_mid_def trans_at_def COAP_TYPE_ACK_def COAP_TYPE_RST_def)
  then have fst: "coap_handle_packet (engine (Suc n) u) serve src buf1 len1 c = done_with (0, c')"
    using p by_mid [OF i] by (simp add: coap_handle_packet_def Let_def COAP_TYPE_ACK_def COAP_TYPE_CON_def COAP_GET_def)
  have st: "rq_states c' s = Some x" using more_fields(1) [OF frame_fields(5) [OF c'(5)]] y(7) by simp
  have m: "find (has_mid c' (cp_mid r)) (remove1 t ts) = None"
    using r(4) c'(3) by (auto simp: find_None_iff has_mid_def dest: notin_set_remove1)
  have "has_token c' (cp_token r) = has_token c (cp_token r)" by (simp add: has_token_def c'(4) unlink_trans_def fun_eq_iff map_option.compositionality comp_def if_distrib cong: if_cong)
  then have k: "find (has_token c' (cp_token r)) qs = Some q" using r(5) by simp
  obtain g' where g': "cc_reqs c' q = Some g'" "og_callback g' = Some GET_CALLBACK" "og_callback_data g' = s"
    using y by (auto simp: c'(4) unlink_trans_def)
  let ?e = "emit (Callback GET_CALLBACK s (Some r)) c'"
  obtain mr where mr: "(case coap_get_header_block2 r of None \<Rightarrow> (0, 0) | Some (b, m, _, _) \<Rightarrow> (b, m)) = (rs_block_num x, mr)" "mr \<noteq> 0"
    using r(6) by (auto simp: block_of_def split: option.splits)
  have "coap_nonblocking_request_callback (engine n u) u s (Some r) ?e = Some (Inl Bad_Pointer)"
    using st a(2,3) r(2) u mr c'(3)
    by (simp add: coap_nonblocking_request_callback_def state_at_def user_call_def upd_state_def get_next_def next_mid_def coap_get_mid_def
        state_addr_def trans_at_def)
  then have "response_by_token (engine (Suc n) u) r c' = Some (Inl Bad_Pointer)"
    using by_token [OF c'(2)] k g' by (simp add: response_by_token_def run_request_callback_def req_at_def call_back_def PUT_CALLBACK_def GET_CALLBACK_def)
  moreover have "\<not> cp_code r \<le> COAP_DELETE" using r(3) leD by blast
  ultimately have "coap_handle_packet (engine (Suc n) u) serve src buf2 len2 c' = Some (Inl Bad_Pointer)"
    using r(1) by_mid [OF c'(2)] m by (simp add: coap_handle_packet_def Let_def)
  with fst c'(2) show ?thesis by blast
qed

theorem separate_response_uaf_witness:
  "\<exists>c'. coap_handle_packet (engine 1 ep_handler) (\<lambda>_. done_with) [] ack_bytes 4
       (pending_ctx (sample_trans 400) GET_CALLBACK sample_state []) = done_with (0, c') \<and>
     coap_handle_packet (engine 1 ep_handler) (\<lambda>_. done_with) [] first_block_bytes 11 c' = Some (Inl Bad_Pointer)"
proof -
  let ?c = "pending_ctx (sample_trans 400) GET_CALLBACK sample_state []" and ?a = "parsed ack_bytes" and ?r = "parsed first_block_bytes"
  have i: "ctx_inv ?c [1] [2]" by (rule pending_ctx_inv) (rule sample_trans_ok)
  have a: "awaits ?c 1 2 3 sample_state" by (simp add: awaits_def t_link_def cb_of_def)
  have x: "rs_transaction sample_state = Some 1" "rs_response_callback sample_state = Some 9" by (simp_all add: sample_state_def)
  have p: "coap_parse_message ack_bytes 4 = Inr (0, ?a)" by code_simp
  have t: "cp_type ?a = COAP_TYPE_ACK" by code_simp
  have k: "cp_code ?a = 0" by code_simp
  have "cp_mid ?a = 7" by code_simp
  then have f: "find (has_mid ?c (cp_mid ?a)) [1] = Some 1" by (simp add: has_mid_def sample_trans_def)
  have q: "coap_parse_message first_block_bytes 11 = Inr (0, ?r)" by code_simp
  have "cp_type ?r = COAP_TYPE_CON" by code_simp
  then have u: "cp_type ?r \<noteq> COAP_TYPE_RST" by (simp add: COAP_TYPE_CON_def COAP_TYPE_RST_def)
  have c: "COAP_DELETE < cp_code ?r" by code_simp
  have b: "block_of ?r = (rs_block_num sample_state, True)" by code_simp
  have "cp_mid ?r = 9" by code_simp
  then have m: "find (has_mid ?c (cp_mid ?r)) [1] = None" by (simp add: has_mid_def sample_trans_def)
  have "cp_token ?r = [5]" by code_simp
  then have k2: "find (has_token ?c (cp_token ?r)) [2] = Some 2" by (simp add: has_token_def)
  from separate_response_uaf [OF i a x p t k f q u c m k2 b, of ep_handler 0 "\<lambda>_. done_with" "[]"] show ?thesis
    by (auto simp: ep_handler_def)
qed

end
