(* ===== verification/Coap_Partial.thy ===== *)
theory Coap_Partial
  imports Coap_Start Coap_Roundtrip
begin

text \<open>
  The functions of \<open>src/idr-mgt-shared-libs/coap/extension/coap_partial_parse.c\<close> that look at a message in its buffer without
  parsing it: the head, the message identifier, which can be replaced in place, and the code.  They agree with the serialiser:
  on the bytes of a packet they return its fields, and replacing the identifier in the bytes is the same as serialising the
  packet with the new one.
\<close>

definition coap_parse_partial :: "bytes \<Rightarrow> (nat \<times> coap_packet) cres" where
  "coap_parse_partial data =
     cbind (buf_slice data 0 4) (\<lambda>h.
     let p = cp_zero\<lparr>cp_buffer := data, cp_version := drop_bit 6 (0xC0 AND h ! 0), cp_type := drop_bit 4 (0x30 AND h ! 0),
               cp_code := h ! 1, cp_mid := rd16 (h ! 2) (h ! 3)\<rparr>;
         token_len = min COAP_TOKEN_LEN (unat (0x0F AND h ! 0))
     in if cp_version p \<noteq> 1 then Inr (BAD_REQUEST_4_00, p\<lparr>cp_token := replicate token_len 0\<rparr>)
        else cbind (buf_slice data 4 token_len) (\<lambda>token. Inr (0, p\<lparr>cp_token := token\<rparr>)))"

definition coap_find_mid :: "bytes \<Rightarrow> u16 cres" where
  "coap_find_mid buffer = cbind (buf_rd buffer 2) (\<lambda>a. cbind (buf_rd buffer 3) (\<lambda>b. Inr (rd16 a b)))"

definition coap_change_mid :: "bytes \<Rightarrow> u16 \<Rightarrow> bytes cres" where
  "coap_change_mid buffer i =
     cbind (buf_write 3 [ucast (i AND 0xFFFF)] buffer) (\<lambda>buffer. buf_write 2 [ucast (drop_bit 8 i AND 0xFFFF)] buffer)"

definition coap_find_code :: "bytes \<Rightarrow> u8 cres" where
  "coap_find_code buffer = buf_rd buffer 1"

definition coap_is_request :: "coap_packet \<Rightarrow> u8" where
  "coap_is_request p = (if COAP_GET \<le> cp_code p \<and> cp_code p \<le> COAP_DELETE then 1 else 0)"

lemma wire_fields:
  "wire p = [(0xC0 AND push_bit 6 1) OR (0x30 AND push_bit 4 (cp_type p)) OR (0x0F AND of_nat (length (cp_token p))),
     cp_code p, ucast (drop_bit 8 (cp_mid p)), ucast (cp_mid p)] @ cp_token p @ enc_opts 0 (opts_of p (option_fields p)) @ wire_body p"
  by (simp add: wire_def wire_head_def header_bytes_def)

lemma wire_other_mid: "enc_opts 0 (opts_of (p\<lparr>cp_mid := i\<rparr>) (option_fields (p\<lparr>cp_mid := i\<rparr>))) = enc_opts 0 (opts_of p (option_fields p))"
  "wire_body (p\<lparr>cp_mid := i\<rparr>) = wire_body p"
  by (simp_all add: opts_of_def option_fields_def IS_OPTION_def wire_body_def payload_bytes_def split: option.split sref.split)

text \<open>C31.  The in-place functions agree with the serialiser: on the bytes of a packet, whatever follows them, they find its
  identifier and code, the partial parser returns its head, and with the identifier replaced the bytes are those of the packet with
  that identifier.\<close>

theorem coap_in_place_agrees:
  assumes "cp_type p < 4" and "length (cp_token p) \<le> 8"
  shows "coap_find_mid (wire p @ rs) = Inr (cp_mid p) \<and> coap_find_code (wire p @ rs) = Inr (cp_code p) \<and>
    coap_change_mid (wire p @ rs) i = Inr (wire (p\<lparr>cp_mid := i\<rparr>) @ rs) \<and>
    (\<exists>q. coap_parse_partial (wire p @ rs) = Inr (0, q) \<and> (cp_version q, cp_type q, cp_code q, cp_mid q, cp_token q) = (1, cp_type p, cp_code p, cp_mid p, cp_token p) \<and>
      coap_is_request q = coap_is_request p)"
proof -
  let ?b0 = "(0xC0 AND push_bit 6 1) OR (0x30 AND push_bit 4 (cp_type p)) OR (0x0F AND of_nat (length (cp_token p))) :: u8"
  note b0 = first_byte [OF assms]
  have "(0xFFFF :: u16) = - 1" by simp
  then have mask: "i AND 0xFFFF = i" for i :: u16 by (simp only: and.right_neutral)
  have "coap_find_mid (wire p @ rs) = Inr (cp_mid p)" "coap_find_code (wire p @ rs) = Inr (cp_code p)"
    by (simp_all add: wire_fields coap_find_mid_def coap_find_code_def buf_rd_def rd16_be16)
  moreover have "coap_change_mid (wire p @ rs) i = Inr (wire (p\<lparr>cp_mid := i\<rparr>) @ rs)"
    by (simp add: wire_fields wire_other_mid coap_change_mid_def mask buf_write_def numeral_eq_Suc)
  moreover have "\<exists>q. coap_parse_partial (wire p @ rs) = Inr (0, q) \<and>
      (cp_version q, cp_type q, cp_code q, cp_mid q, cp_token q) = (1, cp_type p, cp_code p, cp_mid p, cp_token p) \<and> coap_is_request q = coap_is_request p"
  proof -
    have h: "buf_slice (wire p @ rs) 0 4 = Inr [?b0, cp_code p, ucast (drop_bit 8 (cp_mid p)), ucast (cp_mid p)]"
      "buf_slice (wire p @ rs) 4 (length (cp_token p)) = Inr (cp_token p)"
      unfolding wire_fields by (simp_all add: buf_slice_def)
    show ?thesis unfolding coap_parse_partial_def h(1) cbind_simps Let_def
      using b0 h(2) assms(2) by (simp add: COAP_TOKEN_LEN_def rd16_be16 min_def coap_is_request_def)
  qed
  ultimately show ?thesis by blast
qed

theorem coap_in_place_agrees_witness:
  "coap_change_mid (wire (sample_get\<lparr>cp_mid := 7\<rparr>) @ [9]) 0x1234 = Inr (wire (sample_get\<lparr>cp_mid := 0x1234\<rparr>) @ [9]) \<and>
   coap_find_mid [0x41, 1, 0x12, 0x34] = Inr 0x1234"
proof -
  have "cp_type (sample_get\<lparr>cp_mid := 7\<rparr>) < 4" "length (cp_token (sample_get\<lparr>cp_mid := 7\<rparr>)) \<le> 8" by code_simp+
  from coap_in_place_agrees [OF this, of "[9]" "0x1234"] have "coap_change_mid (wire (sample_get\<lparr>cp_mid := 7\<rparr>) @ [9]) 0x1234 = Inr (wire (sample_get\<lparr>cp_mid := 0x1234\<rparr>) @ [9])"
    by simp
  moreover have "coap_find_mid [0x41, 1, 0x12, 0x34] = Inr 0x1234" by code_simp
  ultimately show ?thesis ..
qed

end
