(* ===== verification/Coap_Server.thy ===== *)
theory Coap_Server
  imports Coap_Put Url "HOL-Library.Signed_Division"
begin

text \<open>
  The CoAP server of \<open>src/idr-mgt-shared-libs/coap/extension/request_handler.c\<close>: requests are routed to resource
  handlers; payloads that do not fit one packet are collected from, or kept for, a sequence of requests of one peer.

  The two linked lists, of peers and of the transfers of a peer, are lists here: no pointer into them outlives a
  call.  The environment holds what the server is configured with and what the system returns: the resource handlers,
  the handler for other resources, the memory that \<open>malloc\<close> returns for a size (\<open>None\<close> is \<open>NULL\<close>) and the
  uninitialised response buffer.  Small structures are always allocated.  A block size is never zero: the parser reads
  it from three bits as a power of two.
\<close>

section \<open>Data\<close>

record res_block_state =
  rb_url :: "bytes option"
  rb_buffer :: "bytes option"
  rb_buffer_size :: int
  rb_block_num :: u32
  rb_block_size :: u16
  rb_content_fmt :: u16
  rb_last_access :: u32
  rb_is_get :: bool

record peer_block_state =
  pb_addr :: bytes
  pb_list :: "res_block_state list"

record res_handler =
  rh_url :: bytes
  rh_get :: "(coap_packet \<Rightarrow> coap_packet \<Rightarrow> int \<times> coap_packet \<times> bytes) option"
  rh_put :: "(coap_packet \<Rightarrow> coap_packet \<Rightarrow> int \<times> coap_packet) option"
  rh_post :: "(coap_packet \<Rightarrow> coap_packet \<Rightarrow> int \<times> coap_packet \<times> bytes) option"
  rh_other :: "(coap_packet \<Rightarrow> coap_packet \<Rightarrow> int \<times> coap_packet) option"

record server_env =
  se_handlers :: "res_handler list"
  se_request_handler :: "(coap_packet \<Rightarrow> int) option"
  se_response_on_not_found :: bool
  se_alloc :: "nat \<Rightarrow> bytes option"
  se_payload :: bytes

record server_ctx =
  sv_blockwise :: "peer_block_state list"
  sv_src :: bytes
  sv_now :: u32
  sv_mid :: u16
  sv_tx :: "coap_event list"

definition COAP_TYPE_NON :: u8 where "COAP_TYPE_NON = 1"

definition CONTENT_2_05 :: u8 where "CONTENT_2_05 = 69"

definition REQUEST_ENTITY_TOO_LARGE_4_13 :: u32 where "REQUEST_ENTITY_TOO_LARGE_4_13 = 141"

definition NOT_IMPLEMENTED_5_01 :: int where "NOT_IMPLEMENTED_5_01 = 161"

definition MANUAL_RESPONSE :: int where "MANUAL_RESPONSE = 194"

text \<open>The string at a pointer, and \<open>strcmp\<close> on pointers that may be \<open>NULL\<close>.\<close>

definition cstr :: "bytes \<Rightarrow> bytes" where
  "cstr v = takeWhile (\<lambda>b. b \<noteq> 0) v"

definition str_same :: "bytes option \<Rightarrow> bytes option \<Rightarrow> bool cres" where
  "str_same a b = cbind (deref a) (\<lambda>a. cbind (deref b) (\<lambda>b. Inr (cstr a = cstr b)))"

section \<open>The URL of a request\<close>

definition header_len :: "(sref option \<times> nat) option \<Rightarrow> sref option \<times> nat" where
  "header_len h = (case h of None \<Rightarrow> (None, 0) | Some x \<Rightarrow> x)"

definition coap_get_full_url_alloc :: "server_env \<Rightarrow> coap_packet \<Rightarrow> bytes option cres" where
  "coap_get_full_url_alloc env request =
     (case header_len (coap_get_header_uri_path request) of (url, url_len) \<Rightarrow>
      case header_len (coap_get_header_uri_query request) of (query, query_len) \<Rightarrow>
      if url_len = 0 then Inr None
      else
        cbind (deref (se_alloc env (url_len + 1 + query_len + 1))) (\<lambda>m.
        cbind (sref_at (cp_buffer request) url 0 url_len) (\<lambda>v.
        cbind (buf_write 0 (v @ [0]) m) (\<lambda>m.
        if query_len = 0 then Inr (Some m)
        else
          cbind (buf_write (length (cstr m)) [38, 0] m) (\<lambda>m.
          cbind (sref_at (cp_buffer request) query 0 query_len) (\<lambda>q.
          cbind (buf_write (length (cstr m)) q m) (\<lambda>m.
          cbind (buf_write (url_len + 1 + query_len) [0] m) (\<lambda>m. Inr (Some m)))))))))"

section \<open>Transfers of a peer\<close>

fun put_peer :: "bytes \<Rightarrow> res_block_state \<Rightarrow> peer_block_state list \<Rightarrow> peer_block_state list option" where
  "put_peer src b [] = None"
| "put_peer src b (p # ps) =
     (if src = pb_addr p then Some (p\<lparr>pb_list := b # pb_list p\<rparr> # ps) else map_option ((#) p) (put_peer src b ps))"

definition add_block :: "bytes \<Rightarrow> res_block_state \<Rightarrow> peer_block_state list \<Rightarrow> peer_block_state list" where
  "add_block src b ps = (case put_peer src b ps of Some ps' \<Rightarrow> ps' | None \<Rightarrow> \<lparr>pb_addr = src, pb_list = [b]\<rparr> # ps)"

text \<open>The two loops of \<open>find_block\<close>: the transfer that is found, and the list with \<open>g\<close> of it in its place.\<close>

fun find_res :: "bytes option \<Rightarrow> bool \<Rightarrow> (res_block_state \<Rightarrow> res_block_state list) \<Rightarrow> res_block_state list \<Rightarrow>
    (res_block_state \<times> res_block_state list) option cres" where
  "find_res url is_get g [] = Inr None"
| "find_res url is_get g (b # bs) =
     cbind (if is_get = rb_is_get b then str_same (rb_url b) url else Inr False) (\<lambda>found.
     if found then Inr (Some (b, g b @ bs))
     else cbind (find_res url is_get g bs) (\<lambda>r. Inr (map_option (\<lambda>(x, xs). (x, b # xs)) r)))"

fun find_peer :: "bytes \<Rightarrow> bytes option \<Rightarrow> bool \<Rightarrow> (res_block_state \<Rightarrow> res_block_state list) \<Rightarrow> peer_block_state list \<Rightarrow>
    (res_block_state option \<times> peer_block_state list) cres" where
  "find_peer src url is_get g [] = Inr (None, [])"
| "find_peer src url is_get g (p # ps) =
     cbind (if src = pb_addr p then find_res url is_get g (pb_list p) else Inr None) (\<lambda>r.
     case r of
       Some (b, bs) \<Rightarrow> Inr (Some b, p\<lparr>pb_list := bs\<rparr> # ps)
     | None \<Rightarrow> cbind (find_peer src url is_get g ps) (\<lambda>(b, ps). Inr (b, p # ps)))"

definition find_block :: "bytes \<Rightarrow> bytes option \<Rightarrow> bool \<Rightarrow> bool \<Rightarrow> peer_block_state list \<Rightarrow>
    (res_block_state option \<times> peer_block_state list) cres" where
  "find_block src url is_get remove_if_found ps = find_peer src url is_get (\<lambda>b. if remove_if_found then [] else [b]) ps"

definition set_res_blockwise :: "bytes option \<Rightarrow> bytes option \<Rightarrow> int \<Rightarrow> u32 \<Rightarrow> u16 \<Rightarrow> server_ctx \<Rightarrow> server_ctx cres" where
  "set_res_blockwise url buffer buffer_size block_num content_fmt c =
     cbind (find_block (sv_src c) url True True (sv_blockwise c)) (\<lambda>(r, ps).
     let b = (case r of
                Some b \<Rightarrow> b
              | None \<Rightarrow> \<lparr>rb_url = url, rb_buffer = None, rb_buffer_size = 0, rb_block_num = 0, rb_block_size = 0, rb_content_fmt = 0,
                         rb_last_access = 0, rb_is_get = True\<rparr>)
     in Inr (c\<lparr>sv_blockwise := add_block (sv_src c) (b\<lparr>rb_buffer := buffer, rb_content_fmt := content_fmt, rb_buffer_size := buffer_size,
          rb_block_num := block_num, rb_last_access := sv_now c\<rparr>) ps\<rparr>))"

section \<open>Block-wise transfers\<close>

datatype bw_result =
  Not_Blockwise_Request
| Invalid_Blockwise_Request
| Completed_Blockwise_Request "bytes option" int
| Uncompleted_Blockwise_Request
| Get_from_Bockwise_Cache

text \<open>The block option of a request with the defaults of the server.\<close>

definition block_params :: "(u32 \<times> u8 \<times> u16 \<times> u32) option \<Rightarrow> u32 \<times> u8 \<times> u16 \<times> u32" where
  "block_params b =
     (case b of None \<Rightarrow> (0, 0, of_nat REST_MAX_CHUNK_SIZE, 0)
      | Some (num, mr, sz, off) \<Rightarrow> (num, mr, min sz (of_nat REST_MAX_CHUNK_SIZE), off))"

text \<open>\<open>buffer + k\<close> for a buffer that may be \<open>NULL\<close>.\<close>

definition at_buffer :: "bytes option \<Rightarrow> nat \<Rightarrow> sref option" where
  "at_buffer b k = map_option (\<lambda>v. P_Ext (drop k v)) b"

definition check_blockwise_transfer_get ::
  "server_env \<Rightarrow> coap_packet \<Rightarrow> coap_packet \<Rightarrow> server_ctx \<Rightarrow> (bw_result \<times> coap_packet \<times> server_ctx) cres" where
  "check_blockwise_transfer_get env request response c =
     cbind (coap_get_full_url_alloc env request) (\<lambda>url.
     if url = None then Inr (Not_Blockwise_Request, response, c)
     else if cp_payload response = None then Inl Assert_Failed
     else
       cbind (find_block (sv_src c) url True False (sv_blockwise c)) (\<lambda>(r, _).
       case r of
         None \<Rightarrow> Inr (Not_Blockwise_Request, response, c)
       | Some b \<Rightarrow>
           (case block_params (coap_get_header_block2 request) of (block_num, mr, block_size, _) \<Rightarrow>
            let size = int (unat block_size);
                rest = (rb_buffer_size b) smod size;
                toal_blocks = (rb_buffer_size b) sdiv size + (if rest \<noteq> 0 then 1 else 0);
                payload_len = (if rest \<noteq> 0 \<and> block_num = of_int (toal_blocks - 1) then rest else size)
            in if (of_int toal_blocks :: u32) \<le> block_num then
                 Inr (Invalid_Blockwise_Request, snd (coap_set_status_code REQUEST_ENTITY_TOO_LARGE_4_13 response), c)
               else
                 let response = snd (coap_set_header_block2 block_num (if block_num + 1 < of_int toal_blocks then 1 else 0) block_size response);
                     response = snd (coap_set_payload (at_buffer (rb_buffer b) (unat (block_num * ucast block_size))) (nat (payload_len mod 2 ^ 64)) response);
                     response = snd (coap_set_status_code (ucast CONTENT_2_05) response);
                     response = coap_set_header_content_format (ucast (rb_content_fmt b)) response
                 in cbind (find_peer (sv_src c) url True (\<lambda>b. [b\<lparr>rb_last_access := sv_now c, rb_block_num := block_num\<rparr>]) (sv_blockwise c)) (\<lambda>(_, ps).
                    Inr (Get_from_Bockwise_Cache, response, c\<lparr>sv_blockwise := ps\<rparr>)))))"

text \<open>The copy into the buffer of a transfer: a negative offset is before the buffer.\<close>

definition copy_block :: "bytes option \<Rightarrow> int \<Rightarrow> bytes \<Rightarrow> bytes option cres" where
  "copy_block buffer offset v =
     (if v = [] then Inr buffer
      else if offset < 0 then Inl Out_Of_Bounds
      else cbind (deref buffer) (\<lambda>m. cbind (buf_write (nat offset) v m) (\<lambda>m. Inr (Some m))))"

definition put_store ::
  "coap_packet \<Rightarrow> coap_packet \<Rightarrow> u32 \<Rightarrow> u8 \<Rightarrow> u16 \<Rightarrow> int \<Rightarrow> res_block_state \<Rightarrow> server_ctx \<Rightarrow> (bw_result \<times> coap_packet \<times> server_ctx) cres" where
  "put_store request response block_num mr block_size offset b c =
     cbind (sref_at (cp_buffer request) (cp_payload request) 0 (cp_payload_len request)) (\<lambda>v.
     cbind (copy_block (rb_buffer b) offset v) (\<lambda>m.
     let b = b\<lparr>rb_buffer := m, rb_last_access := sv_now c, rb_block_num := block_num\<rparr>;
         response = snd (coap_set_header_block1 block_num mr block_size response)
     in if mr = 0 then Inr (Completed_Blockwise_Request m (offset + int (cp_payload_len request)), response, c)
        else Inr (Uncompleted_Blockwise_Request, snd (coap_set_status_code CONTINUE_2_31 response),
               c\<lparr>sv_blockwise := add_block (sv_src c) b (sv_blockwise c)\<rparr>)))"

definition check_blockwise_transfer_put ::
  "server_env \<Rightarrow> coap_packet \<Rightarrow> coap_packet \<Rightarrow> server_ctx \<Rightarrow> (bw_result \<times> coap_packet \<times> server_ctx) cres" where
  "check_blockwise_transfer_put env request response c =
     (if \<not> IS_OPTION COAP_OPTION_BLOCK1 request then Inr (Not_Blockwise_Request, response, c)
      else
        (case block_params (coap_get_header_block1 request) of (block_num, mr, block_size, _) \<Rightarrow>
         if mr = 0 \<and> block_num = 0 then Inr (Not_Blockwise_Request, response, c)
         else
           cbind (coap_get_full_url_alloc env request) (\<lambda>url.
           if url = None then Inr (Not_Blockwise_Request, response, c)
           else
             cbind (find_block (sv_src c) url False True (sv_blockwise c)) (\<lambda>(r, ps).
             let c = c\<lparr>sv_blockwise := ps\<rparr> in
             case r of
               None \<Rightarrow>
                 if block_num \<noteq> 0 \<or> mr = 0 then
                   Inr (Invalid_Blockwise_Request, snd (coap_set_status_code (of_nat BAD_OPTION_4_02) response), c)
                 else
                   let size = (case coap_get_header_size1 request of None \<Rightarrow> 1024 * 16 | Some sz \<Rightarrow> sz);
                       b = \<lparr>rb_url = url, rb_buffer = se_alloc env (unat size), rb_buffer_size = sint size, rb_block_num = 0, rb_block_size = 0,
                            rb_content_fmt = 0, rb_last_access = sv_now c, rb_is_get = False\<rparr>
                   in put_store request response block_num mr block_size 0 b c
             | Some b \<Rightarrow>
                 if block_num \<noteq> rb_block_num b \<and> block_num \<noteq> rb_block_num b + 1 then
                   Inr (Invalid_Blockwise_Request, snd (coap_set_status_code (of_nat BAD_OPTION_4_02) response),
                     c\<lparr>sv_blockwise := add_block (sv_src c) b ps\<rparr>)
                 else
                   let offset = sint (block_num * ucast block_size) in
                   if offset + int (cp_payload_len request) > rb_buffer_size b then
                     Inr (Invalid_Blockwise_Request, snd (coap_set_status_code REQUEST_ENTITY_TOO_LARGE_4_13 response),
                       c\<lparr>sv_blockwise := add_block (sv_src c) b ps\<rparr>)
                   else put_store request response block_num mr block_size offset b c))))"

section \<open>Requests\<close>

definition add_resource_handler :: "res_handler \<Rightarrow> server_env \<Rightarrow> server_env" where
  "add_resource_handler handler env = env\<lparr>se_handlers := handler # se_handlers env\<rparr>"

definition send_response :: "coap_packet \<Rightarrow> server_ctx \<Rightarrow> server_ctx cres" where
  "send_response msg c =
     cbind (coap_serialize_message msg (replicate COAP_MAX_PACKET_SIZE 0)) (\<lambda>(n, buf, _).
     Inr (if 0 < n then c\<lparr>sv_tx := sv_tx c @ [Tx_Data (sv_src c) (take n buf)]\<rparr> else c))"

text \<open>The loop over the resource handlers; the result has eight bits.\<close>

fun run_handlers :: "bytes \<Rightarrow> coap_packet \<Rightarrow> coap_packet \<Rightarrow> res_handler list \<Rightarrow> (u8 \<times> coap_packet \<times> bytes) cres" where
  "run_handlers url request response [] = Inr (of_int NOT_IMPLEMENTED_5_01, response, [])"
| "run_handlers url request response (h # hs) =
     cbind (match_url (rh_url h) url) (\<lambda>matched.
     let call = (if cp_code request = COAP_GET then map_option (\<lambda>f. f request response) (rh_get h)
                 else if cp_code request = COAP_POST then map_option (\<lambda>f. f request response) (rh_post h)
                 else if cp_code request = COAP_PUT then map_option (\<lambda>f. case f request response of (i, r) \<Rightarrow> (i, r, [])) (rh_put h)
                 else map_option (\<lambda>f. case f request response of (i, r) \<Rightarrow> (i, r, [])) (rh_other h))
     in case (if matched then call else None) of
          Some (i, r, out) \<Rightarrow> Inr (of_int i, r, out)
        | None \<Rightarrow> run_handlers url request response hs)"

definition coap_handle_request_internal :: "server_env \<Rightarrow> coap_packet \<Rightarrow> coap_packet \<Rightarrow> (u8 \<times> coap_packet \<times> bytes) cres" where
  "coap_handle_request_internal env request response =
     (case header_len (coap_get_header_uri_path request) of (url, url_len) \<Rightarrow>
      if url_len = 0 \<or> 256 \<le> url_len then Inr (- 1, response, [])
      else cbind (sref_at (cp_buffer request) url 0 url_len) (\<lambda>v. run_handlers (cstr v) request response (se_handlers env)))"

text \<open>The response to a GET: cut to a block, and kept for the blocks that follow.\<close>

definition get_response :: "server_env \<Rightarrow> coap_packet \<Rightarrow> coap_packet \<Rightarrow> bytes \<Rightarrow> server_ctx \<Rightarrow> server_ctx cres" where
  "get_response env request response out c =
     (case block_params (coap_get_header_block2 request) of (block_num, mr, block_size, block_offset) \<Rightarrow>
      let payload_len = (if out = [] then cp_payload_len response else length out) in
      cbind (if ucast block_size < of_nat payload_len - block_offset
             then
               cbind (if out = [] \<and> payload_len \<noteq> 0 then
                        cbind (deref (se_alloc env payload_len)) (\<lambda>_. sref_at (cp_buffer response) (cp_payload response) 0 payload_len)
                      else Inr out) (\<lambda>out.
               Inr (1, coap_set_header_size2 (of_nat payload_len) (snd (coap_set_header_block2 block_num 1 block_size response)), out))
             else Inr (mr, response, out)) (\<lambda>(mr, response, out).
      cbind (if out \<noteq> [] then
               Inr (snd (coap_set_payload (Some (P_Ext (drop (unat block_offset) out))) (unat (min (of_nat (length out) - block_offset) (ucast block_size))) response))
             else if block_offset \<noteq> 0 then
               if mr \<noteq> 0 then Inl Assert_Failed
               else Inr (snd (coap_set_payload (sref_plus (cp_payload response) (unat block_offset))
                      (unat (of_nat (cp_payload_len response) - block_offset)) response))
             else Inr response) (\<lambda>response.
      cbind (send_response response c) (\<lambda>c.
      if mr \<noteq> 0 then
        cbind (coap_get_full_url_alloc env request) (\<lambda>url.
        set_res_blockwise url (if out = [] then None else Some out) (int (length out)) block_num (ucast (cp_content_format response)) c)
      else Inr c))))"

definition serve_request :: "server_env \<Rightarrow> coap_packet \<Rightarrow> coap_packet \<Rightarrow> server_ctx \<Rightarrow> (int \<times> server_ctx) cres" where
  "serve_request env request response c =
     cbind (coap_handle_request_internal env request response) (\<lambda>(ret, response, out).
     let ret = (case se_request_handler env of
                  Some f \<Rightarrow> if int (unat ret) = NOT_IMPLEMENTED_5_01 then f request else int (unat ret)
                | None \<Rightarrow> int (unat ret));
         response = snd (coap_set_status_code (of_int ret) response)
     in if ret = MANUAL_RESPONSE then Inr (ret, c)
        else if NOT_IMPLEMENTED_5_01 \<noteq> ret then
          cbind (if cp_code request = COAP_GET then get_response env request response out c else send_response response c) (\<lambda>c. Inr (ret, c))
        else if se_response_on_not_found env then cbind (send_response response c) (\<lambda>c. Inr (ret, c))
        else Inr (- 1, c))"

definition coap_request_handler :: "server_env \<Rightarrow> coap_packet \<Rightarrow> server_ctx \<Rightarrow> (int \<times> server_ctx) cres" where
  "coap_request_handler env request c =
     (if \<not> (COAP_GET \<le> cp_code request \<and> cp_code request \<le> COAP_DELETE) then Inl Assert_Failed
      else
        let (response, c) =
              (if cp_type request = COAP_TYPE_CON then (coap_init_message COAP_TYPE_ACK CONTENT_2_05 (cp_mid request), c)
               else case coap_get_mid (sv_mid c) of (mid, st) \<Rightarrow> (coap_init_message COAP_TYPE_NON CONTENT_2_05 mid, c\<lparr>sv_mid := st\<rparr>));
            response = response\<lparr>cp_payload := Some (P_Ext (se_payload env))\<rparr>;
            response = (if cp_token request = [] then response else snd (coap_set_token (cp_token request) response))
        in if cp_code request = COAP_GET then
             cbind (check_blockwise_transfer_get env request response c) (\<lambda>(r, response, c).
             if r = Get_from_Bockwise_Cache \<or> r = Invalid_Blockwise_Request then cbind (send_response response c) (\<lambda>c. Inr (0, c))
             else serve_request env request response c)
           else if cp_code request = COAP_POST \<or> cp_code request = COAP_PUT then
             cbind (check_blockwise_transfer_put env request response c) (\<lambda>(r, response, c).
             case r of
               Completed_Blockwise_Request m n \<Rightarrow>
                 serve_request env (request\<lparr>cp_payload := map_option P_Ext m, cp_payload_len := nat (n mod 65536)\<rparr>) response c
             | Not_Blockwise_Request \<Rightarrow> serve_request env request response c
             | Get_from_Bockwise_Cache \<Rightarrow> serve_request env request response c
             | _ \<Rightarrow> cbind (send_response response c) (\<lambda>c. Inr (0, c)))
           else serve_request env request response c)"

section \<open>Timeouts\<close>

text \<open>One peer: the transfers that stay, and the earliest access so far.\<close>

fun drop_old :: "int \<Rightarrow> int \<Rightarrow> u32 \<Rightarrow> res_block_state list \<Rightarrow> u32 \<times> res_block_state list" where
  "drop_old now timeout next_timeout [] = (next_timeout, [])"
| "drop_old now timeout next_timeout (b # bs) =
     (if now - int (unat (rb_last_access b)) > timeout then drop_old now timeout next_timeout bs
      else (case drop_old now timeout
                  (if next_timeout = -1 \<or> next_timeout > rb_last_access b then rb_last_access b else next_timeout) bs of
              (n, bs) \<Rightarrow> (n, b # bs)))"

fun drop_old_peers :: "int \<Rightarrow> int \<Rightarrow> u32 \<Rightarrow> peer_block_state list \<Rightarrow> u32 \<times> peer_block_state list" where
  "drop_old_peers now timeout next_timeout [] = (next_timeout, [])"
| "drop_old_peers now timeout next_timeout (p # ps) =
     (case drop_old now timeout next_timeout (pb_list p) of (n, bs) \<Rightarrow>
      case drop_old_peers now timeout n ps of (n, ps) \<Rightarrow> (n, if bs = [] then ps else p\<lparr>pb_list := bs\<rparr> # ps))"

definition check_blockwise_timeout_ms :: "int \<Rightarrow> server_ctx \<Rightarrow> u32 \<times> server_ctx" where
  "check_blockwise_timeout_ms timeout c =
     (case drop_old_peers (int (unat (sv_now c))) timeout (-1) (sv_blockwise c) of (n, ps) \<Rightarrow>
      (if n = -1 then -1 else of_int ((int (unat n) - int (unat (sv_now c))) * 1000), c\<lparr>sv_blockwise := ps\<rparr>))"

section \<open>A server with one resource\<close>

text \<open>The resource \<open>temp\<close> with a response of 40 bytes, memory that never runs out, and a peer without transfers.\<close>

definition sample_path :: bytes where
  "sample_path = [116, 101, 109, 112]"

definition sample_env :: server_env where
  "sample_env = add_resource_handler
     \<lparr>rh_url = sample_path, rh_get = Some (\<lambda>request response. (69, response, replicate 40 1)), rh_put = Some (\<lambda>request response. (68, response)),
      rh_post = None, rh_other = None\<rparr>
     \<lparr>se_handlers = [], se_request_handler = None, se_response_on_not_found = True, se_alloc = (\<lambda>n. Some (replicate n 0)), se_payload = []\<rparr>"

definition sample_server :: server_ctx where
  "sample_server = \<lparr>sv_blockwise = [], sv_src = [10, 0], sv_now = 100, sv_mid = 0, sv_tx = []\<rparr>"

definition at_temp :: "coap_packet \<Rightarrow> coap_packet" where
  "at_temp p = set_opt COAP_OPTION_URI_PATH (p\<lparr>cp_uri_path := Some (P_Ext sample_path), cp_uri_path_len := 4\<rparr>)"

end
