(* ===== verification/Coap_Transfer.thy ===== *)
theory Coap_Transfer
  imports Coap_Server
begin

text \<open>
  The transfers of the CoAP server.  The lists of peers and transfers act as a map from peer, direction and URL; with
  it, the payload that the client cuts into blocks arrives at the resource handler, and the payload of a resource
  arrives at a client that asks for its blocks.  Further what requests can do that no client of this library sends.
\<close>

section \<open>The cache as a map\<close>

type_synonym block_key = "bytes \<times> bool \<times> bytes"

definition res_key :: "res_block_state \<Rightarrow> bool \<times> bytes" where
  "res_key b = (rb_is_get b, case rb_url b of None \<Rightarrow> [] | Some u \<Rightarrow> cstr u)"

definition res_ok :: "res_block_state \<Rightarrow> bool" where
  "res_ok b \<longleftrightarrow> rb_url b \<noteq> None"

definition peer_ok :: "peer_block_state \<Rightarrow> bool" where
  "peer_ok p \<longleftrightarrow> list_all res_ok (pb_list p) \<and> distinct (map res_key (pb_list p))"

text \<open>Each peer has one entry, and each of its transfers a URL of its own.\<close>

definition cache_ok :: "peer_block_state list \<Rightarrow> bool" where
  "cache_ok ps \<longleftrightarrow> distinct (map pb_addr ps) \<and> list_all peer_ok ps"

definition res_map :: "res_block_state list \<Rightarrow> bool \<times> bytes \<rightharpoonup> res_block_state" where
  "res_map bs = map_of (map (\<lambda>b. (res_key b, b)) bs)"

fun cache_map :: "peer_block_state list \<Rightarrow> block_key \<rightharpoonup> res_block_state" where
  "cache_map [] k = None"
| "cache_map (p # ps) k = (if fst k = pb_addr p then res_map (pb_list p) (snd k) else cache_map ps k)"

lemma res_map_simps [simp]: "res_map [] k = None" "res_map (b # bs) k = (if k = res_key b then Some b else res_map bs k)"
  by (simp_all add: res_map_def)

lemma res_map_notin: "k \<notin> res_key ` set bs \<Longrightarrow> res_map bs k = None"
  by (induction bs) auto

lemma cache_map_notin: "fst k \<notin> pb_addr ` set ps \<Longrightarrow> cache_map ps k = None"
  by (induction ps) auto

text \<open>A search with a key: what it finds, and what it leaves when \<open>g\<close> keeps the key or removes the node.\<close>

definition upd_opt :: "('a \<Rightarrow> 'a option) \<Rightarrow> 'k \<Rightarrow> ('k \<rightharpoonup> 'a) \<Rightarrow> 'k \<rightharpoonup> 'a" where
  "upd_opt h k m = m(k := Option.bind (m k) h)"

definition places :: "(res_block_state \<Rightarrow> res_block_state list) \<Rightarrow> (res_block_state \<Rightarrow> res_block_state option) \<Rightarrow> bool" where
  "places g h \<longleftrightarrow> (\<forall>b. g b = (case h b of None \<Rightarrow> [] | Some x \<Rightarrow> [x]) \<and> (\<forall>x. h b = Some x \<longrightarrow> res_key x = res_key b \<and> res_ok x = res_ok b))"

lemma find_res_map:
  assumes "list_all res_ok bs" and "distinct (map res_key bs)" and "places g h"
  shows "\<exists>bs'. find_res (Some url) is_get g bs = Inr (map_option (\<lambda>b. (b, bs')) (res_map bs (is_get, cstr url))) \<and>
    (res_map bs (is_get, cstr url) \<noteq> None \<longrightarrow> list_all res_ok bs' \<and> distinct (map res_key bs') \<and> res_key ` set bs' \<subseteq> res_key ` set bs \<and>
       res_map bs' = upd_opt h (is_get, cstr url) (res_map bs))"
  using assms
proof (induction bs)
  case Nil
  then show ?case by simp
next
  case (Cons b bs)
  then obtain bs' where IH: "find_res (Some url) is_get g bs = Inr (map_option (\<lambda>b. (b, bs')) (res_map bs (is_get, cstr url)))"
    "res_map bs (is_get, cstr url) \<noteq> None \<longrightarrow> list_all res_ok bs' \<and> distinct (map res_key bs') \<and> res_key ` set bs' \<subseteq> res_key ` set bs \<and>
       res_map bs' = upd_opt h (is_get, cstr url) (res_map bs)" by auto
  obtain u where u: "rb_url b = Some u" using Cons.prems(1) by (auto simp: res_ok_def)
  show ?case
  proof (cases "(is_get, cstr url) = res_key b")
    case True
    then have k: "res_key b = (is_get, cstr url)" "res_map bs (is_get, cstr url) = None" using Cons.prems(2) res_map_notin [of "res_key b" bs] by auto
    have "g b = (case h b of None \<Rightarrow> [] | Some x \<Rightarrow> [x])" and hx: "h b = Some x \<Longrightarrow> res_key x = res_key b \<and> res_ok x = res_ok b" for x
      using Cons.prems(3) by (simp_all add: places_def)
    then show ?thesis using Cons.prems k u
      by (intro exI [of _ "g b @ bs"]) (auto simp: res_key_def str_same_def deref_def upd_opt_def fun_eq_iff split: option.splits)
  next
    case False
    then have nf: "(if is_get = rb_is_get b then str_same (rb_url b) (Some url) else Inr False) = Inr False"
      using u by (auto simp: res_key_def str_same_def deref_def)
    show ?thesis using IH False nf Cons.prems
      by (intro exI [of _ "b # bs'"]) (auto simp: option.map_comp comp_def upd_opt_def fun_eq_iff)
  qed
qed

lemma find_peer_map:
  assumes "cache_ok ps" and "places g h" and "k = (src, is_get, cstr url)"
  shows "\<exists>ps'. find_peer src (Some url) is_get g ps = Inr (cache_map ps k, ps') \<and> cache_ok ps' \<and> map pb_addr ps' = map pb_addr ps \<and>
    cache_map ps' = upd_opt h k (cache_map ps)"
  using assms(1)
proof (induction ps)
  case Nil
  then show ?case by (simp add: upd_opt_def fun_eq_iff)
next
  case (Cons p ps)
  then have ps: "cache_ok ps" "pb_addr p \<notin> pb_addr ` set ps" "peer_ok p" by (auto simp: cache_ok_def)
  from Cons.IH [OF ps(1)] obtain ps' where IH: "find_peer src (Some url) is_get g ps = Inr (cache_map ps k, ps')" "cache_ok ps'"
    "map pb_addr ps' = map pb_addr ps" "cache_map ps' = upd_opt h k (cache_map ps)" by blast
  have ad: "pb_addr p \<notin> pb_addr ` set ps'" using ps(2) IH(3) by (metis list.set_map)
  show ?case
  proof (cases "src = pb_addr p")
    case True
    obtain bs' where b: "find_res (Some url) is_get g (pb_list p) = Inr (map_option (\<lambda>b. (b, bs')) (res_map (pb_list p) (is_get, cstr url)))"
      "res_map (pb_list p) (is_get, cstr url) \<noteq> None \<longrightarrow> list_all res_ok bs' \<and> distinct (map res_key bs') \<and>
         res_map bs' = upd_opt h (is_get, cstr url) (res_map (pb_list p))"
      using find_res_map [OF _ _ assms(2), of "pb_list p" url is_get] ps(3) by (auto simp: peer_ok_def)
    have no: "cache_map ps k = None" using ps(2) True assms(3) by (intro cache_map_notin) simp
    show ?thesis
    proof (cases "res_map (pb_list p) (is_get, cstr url)")
      case None
      then show ?thesis using IH b True no ps ad assms(3)
        by (intro exI [of _ "p # ps'"]) (auto simp: cache_ok_def upd_opt_def fun_eq_iff)
    next
      case (Some x)
      then show ?thesis using b True ps assms(3)
        by (intro exI [of _ "p\<lparr>pb_list := bs'\<rparr> # ps"]) (auto simp: cache_ok_def peer_ok_def upd_opt_def fun_eq_iff)
    qed
  next
    case False
    then show ?thesis using IH ps ad assms(3)
      by (intro exI [of _ "p # ps'"]) (auto simp: cache_ok_def upd_opt_def fun_eq_iff)
  qed
qed

lemma put_peer_map:
  assumes "cache_ok ps" and "cache_map ps (src, res_key b) = None" and "res_ok b"
  shows "case put_peer src b ps of
      None \<Rightarrow> src \<notin> pb_addr ` set ps
    | Some ps' \<Rightarrow> cache_ok ps' \<and> map pb_addr ps' = map pb_addr ps \<and> cache_map ps' = (cache_map ps)((src, res_key b) \<mapsto> b)"
  using assms(1,2)
proof (induction ps)
  case (Cons p ps)
  then have ps: "cache_ok ps" "pb_addr p \<notin> pb_addr ` set ps" "peer_ok p" by (auto simp: cache_ok_def)
  show ?case
  proof (cases "src = pb_addr p")
    case True
    then have "res_map (pb_list p) (res_key b) = None" using Cons.prems(2) by simp
    then have "res_key b \<notin> res_key ` set (pb_list p)" unfolding res_map_def map_of_eq_None_iff by (auto simp: image_image)
    then show ?thesis using True ps assms(3) by (auto simp: cache_ok_def peer_ok_def fun_eq_iff)
  next
    case False
    with Cons.prems(2) have "cache_map ps (src, res_key b) = None" by simp
    note IH = Cons.IH [OF ps(1) this]
    show ?thesis
    proof (cases "put_peer src b ps")
      case None
      then show ?thesis using IH False by auto
    next
      case (Some ps')
      then have "map pb_addr ps' = map pb_addr ps" using IH by simp
      then have "pb_addr ` set ps' = pb_addr ` set ps" by (metis list.set_map)
      then have "pb_addr p \<notin> pb_addr ` set ps'" using ps(2) by simp
      moreover have "cache_map (p # ps') k = ((cache_map (p # ps))((src, res_key b) \<mapsto> b)) k" for k using IH Some False by auto
      ultimately show ?thesis using IH Some False ps by (auto simp: cache_ok_def simp del: cache_map.simps)
    qed
  qed
qed simp

lemma add_block_map:
  assumes "cache_ok ps" and "cache_map ps (src, res_key b) = None" and "res_ok b"
  shows "cache_ok (add_block src b ps)" and "cache_map (add_block src b ps) = (cache_map ps)((src, res_key b) \<mapsto> b)"
proof -
  note pm = put_peer_map [OF assms]
  have "cache_ok (add_block src b ps) \<and> cache_map (add_block src b ps) = (cache_map ps)((src, res_key b) \<mapsto> b)"
  proof (cases "put_peer src b ps")
    case None
    then have "src \<notin> pb_addr ` set ps" using pm by simp
    then show ?thesis using None assms cache_map_notin [of "(src, _)" ps]
      by (auto simp: add_block_def cache_ok_def peer_ok_def fun_eq_iff)
  next
    case (Some ps')
    then show ?thesis using pm by (simp add: add_block_def)
  qed
  then show "cache_ok (add_block src b ps)" "cache_map (add_block src b ps) = (cache_map ps)((src, res_key b) \<mapsto> b)" by blast+
qed

lemma find_block_map:
  assumes "cache_ok ps" and "k = (src, is_get, cstr url)"
  obtains ps' where "find_block src (Some url) is_get rm ps = Inr (cache_map ps k, ps')" and "cache_ok ps'"
    and "cache_map ps' = (if rm then (cache_map ps)(k := None) else cache_map ps)"
proof -
  have "places (\<lambda>b. if rm then [] else [b]) (\<lambda>b. if rm then None else Some b)" by (simp add: places_def)
  from find_peer_map [OF assms(1) this assms(2)] obtain ps' where
    "find_peer src (Some url) is_get (\<lambda>b. if rm then [] else [b]) ps = Inr (cache_map ps k, ps')" "cache_ok ps'"
    "cache_map ps' = upd_opt (\<lambda>b. if rm then None else Some b) k (cache_map ps)" by blast
  moreover have "upd_opt (\<lambda>b. if rm then None else Some b) k (cache_map ps) = (if rm then (cache_map ps)(k := None) else cache_map ps)"
    by (auto simp: upd_opt_def fun_eq_iff)
  ultimately show ?thesis using that [of ps'] by (simp add: find_block_def)
qed

section \<open>Collecting a payload\<close>

text \<open>A request for block \<open>i\<close> with the bytes \<open>v\<close>, and a transfer that has its first blocks in \<open>m\<close>.\<close>

definition block1_req :: "coap_packet \<Rightarrow> u32 \<Rightarrow> u16 \<Rightarrow> bytes \<Rightarrow> u8 \<Rightarrow> bool" where
  "block1_req r i sz v mr \<longleftrightarrow> IS_OPTION COAP_OPTION_BLOCK1 r \<and> cp_block1_num r = i \<and> cp_block1_size r = sz \<and> cp_block1_more r = mr \<and>
     cp_payload_len r = length v \<and> sref_at (cp_buffer r) (cp_payload r) 0 (length v) = Inr v"

definition collecting :: "bytes \<Rightarrow> bytes \<Rightarrow> u32 \<Rightarrow> res_block_state \<Rightarrow> bool" where
  "collecting url m i b \<longleftrightarrow> res_ok b \<and> res_key b = (False, cstr url) \<and> rb_buffer b = Some m \<and> rb_buffer_size b = int (length m) \<and> rb_block_num b = i"

lemma copy_block_ok:
  "off + length v \<le> length m \<Longrightarrow> copy_block (Some m) (int off) v = Inr (Some (take off m @ v @ drop (off + length v) m))"
  by (auto simp: copy_block_def deref_def buf_write_def)

lemma put_store_ok:
  assumes r: "block1_req r i sz v mr" and b: "collecting url m j b" and lo: "off + length v \<le> length m"
    and c: "cache_ok (sv_blockwise c)" "cache_map (sv_blockwise c) k = None" "k = (sv_src c, False, cstr url)"
    and m': "m' = take off m @ v @ drop (off + length v) m"
  obtains response' c' where "put_store r response i mr bs (int off) b c =
      Inr (if mr = 0 then Completed_Blockwise_Request (Some m') (int (off + length v)) else Uncompleted_Blockwise_Request, response', c')"
    and "cache_ok (sv_blockwise c')" and "sv_src c' = sv_src c"
    and "mr = 0 \<longrightarrow> cache_map (sv_blockwise c') = cache_map (sv_blockwise c)"
    and "mr \<noteq> 0 \<longrightarrow> (\<exists>b'. collecting url m' i b' \<and> cache_map (sv_blockwise c') = (cache_map (sv_blockwise c))(k \<mapsto> b'))"
proof -
  let ?b = "b\<lparr>rb_buffer := Some m', rb_last_access := sv_now c, rb_block_num := i\<rparr>"
  have b': "collecting url m' i ?b" using b lo by (auto simp: collecting_def res_ok_def res_key_def m')
  then have kb: "k = (sv_src c, res_key ?b)" "res_ok ?b" using c(3) by (simp_all add: collecting_def)
  note ab = add_block_map [OF c(1) c(2)[unfolded kb(1)] kb(2)]
  have st: "put_store r response i mr bs (int off) b c =
      Inr (if mr = 0 then Completed_Blockwise_Request (Some m') (int (off + length v)) else Uncompleted_Blockwise_Request,
        if mr = 0 then snd (coap_set_header_block1 i mr bs response)
          else snd (coap_set_status_code CONTINUE_2_31 (snd (coap_set_header_block1 i mr bs response))),
        if mr = 0 then c else c\<lparr>sv_blockwise := add_block (sv_src c) ?b (sv_blockwise c)\<rparr>)"
    using r b copy_block_ok [OF lo] by (simp add: put_store_def block1_req_def collecting_def Let_def m')
  show ?thesis using ab b' kb(1) c by (intro that [OF st]) auto
qed

lemma sint_small:
  assumes "unat (x :: u32) < 2 ^ 31"
  shows "sint x = int (unat x)"
proof -
  have u: "uint x < 2 ^ 31" using assms by (metis of_nat_less_iff of_nat_numeral of_nat_power uint_nat)
  have "- (2 ^ 31) \<le> (0 :: int)" by simp
  also have "0 \<le> uint x" by simp
  finally have "- (2 ^ 31) \<le> uint x" .
  with u have "signed_take_bit 31 (uint x) = uint x" by (intro signed_take_bit_int_eq_self)
  moreover have "sint x = signed_take_bit 31 (uint x)" by (simp add: sint_uint)
  ultimately have "sint x = uint x" by simp
  then show ?thesis by (simp only: uint_nat)
qed

text \<open>The first block of a transfer that announces its sz1.\<close>

lemma put_first_step:
  assumes r: "block1_req r 0 sz v mr" "mr \<noteq> 0" and u: "coap_get_full_url_alloc env r = Inr (Some url)"
    and z: "coap_get_header_size1 r = Some sz1" "se_alloc env (unat sz1) = Some m" "length m = unat sz1" "length v \<le> unat sz1" "unat sz1 < 2 ^ 31"
    and c: "cache_ok (sv_blockwise c)" "cache_map (sv_blockwise c) k = None" "k = (sv_src c, False, cstr url)"
  obtains response' c' b' where "check_blockwise_transfer_put env r response c = Inr (Uncompleted_Blockwise_Request, response', c')"
    and "cache_ok (sv_blockwise c')" and "sv_src c' = sv_src c" and "collecting url (v @ drop (length v) m) 0 b'"
    and "cache_map (sv_blockwise c') = (cache_map (sv_blockwise c))(k \<mapsto> b')"
proof -
  obtain ps where ps: "find_block (sv_src c) (Some url) False True (sv_blockwise c) = Inr (None, ps)" "cache_ok ps"
    "cache_map ps = cache_map (sv_blockwise c)"
    using find_block_map [OF c(1,3), of True] c(2) by (metis fun_upd_triv)
  let ?c = "c\<lparr>sv_blockwise := ps\<rparr>"
  let ?b = "\<lparr>rb_url = Some url, rb_buffer = Some m, rb_buffer_size = sint sz1, rb_block_num = 0, rb_block_size = 0,
    rb_content_fmt = 0, rb_last_access = sv_now c, rb_is_get = False\<rparr>"
  have "sint sz1 = int (unat sz1)" using z(5) by (rule sint_small)
  then have b: "collecting url m 0 ?b" using z(3) by (simp add: collecting_def res_ok_def res_key_def)
  have c2: "cache_ok (sv_blockwise ?c)" "cache_map (sv_blockwise ?c) k = None" "k = (sv_src ?c, False, cstr url)" "0 + length v \<le> length m"
    using ps c z by simp_all
  obtain response' c' where "put_store r response 0 mr (min sz (of_nat REST_MAX_CHUNK_SIZE)) (int 0) ?b ?c =
      Inr (if mr = 0 then Completed_Blockwise_Request (Some (take 0 m @ v @ drop (0 + length v) m)) (int (0 + length v)) else Uncompleted_Blockwise_Request, response', c')"
    "cache_ok (sv_blockwise c')" "sv_src c' = sv_src ?c"
    "mr \<noteq> 0 \<longrightarrow> (\<exists>b'. collecting url (take 0 m @ v @ drop (0 + length v) m) 0 b' \<and> cache_map (sv_blockwise c') = (cache_map (sv_blockwise ?c))(k \<mapsto> b'))"
    by (rule put_store_ok [OF r(1) b c2(4,1-3) refl])
  with that [of response' c'] r u z(1,2) ps show ?thesis
    by (auto simp: check_blockwise_transfer_put_def block1_req_def block_params_def coap_get_header_block1_def Let_def)
qed

text \<open>The blocks after it.\<close>

lemma put_next_step:
  assumes r: "block1_req r (i + 1) sz v mr" and u: "coap_get_full_url_alloc env r = Inr (Some url)" and nz: "i + 1 \<noteq> 0"
    and z: "unat ((i + 1) * ucast (min sz (of_nat REST_MAX_CHUNK_SIZE))) = off" "off + length v \<le> length m" "length m < 2 ^ 31"
    and c: "cache_ok (sv_blockwise c)" "cache_map (sv_blockwise c) k = Some b" "collecting url m i b" "k = (sv_src c, False, cstr url)"
    and m': "m' = take off m @ v @ drop (off + length v) m"
  obtains response' c' where "check_blockwise_transfer_put env r response c =
      Inr (if mr = 0 then Completed_Blockwise_Request (Some m') (int (off + length v)) else Uncompleted_Blockwise_Request, response', c')"
    and "cache_ok (sv_blockwise c')" and "sv_src c' = sv_src c"
    and "mr = 0 \<longrightarrow> cache_map (sv_blockwise c') = (cache_map (sv_blockwise c))(k := None)"
    and "mr \<noteq> 0 \<longrightarrow> (\<exists>b'. collecting url m' (i + 1) b' \<and> cache_map (sv_blockwise c') = (cache_map (sv_blockwise c))(k \<mapsto> b'))"
proof -
  obtain ps where ps: "find_block (sv_src c) (Some url) False True (sv_blockwise c) = Inr (Some b, ps)" "cache_ok ps"
    "cache_map ps = (cache_map (sv_blockwise c))(k := None)"
    using find_block_map [OF c(1,4), of True] c(2) by metis
  let ?c = "c\<lparr>sv_blockwise := ps\<rparr>"
  have c2: "cache_ok (sv_blockwise ?c)" "cache_map (sv_blockwise ?c) k = None" "k = (sv_src ?c, False, cstr url)" using ps c by simp_all
  obtain response' c' where st: "put_store r response (i + 1) mr (min sz (of_nat REST_MAX_CHUNK_SIZE)) (int off) b ?c =
      Inr (if mr = 0 then Completed_Blockwise_Request (Some m') (int (off + length v)) else Uncompleted_Blockwise_Request, response', c')"
    "cache_ok (sv_blockwise c')" "sv_src c' = sv_src ?c" "mr = 0 \<longrightarrow> cache_map (sv_blockwise c') = cache_map (sv_blockwise ?c)"
    "mr \<noteq> 0 \<longrightarrow> (\<exists>b'. collecting url m' (i + 1) b' \<and> cache_map (sv_blockwise c') = (cache_map (sv_blockwise ?c))(k \<mapsto> b'))"
    by (rule put_store_ok [OF r c(3) z(2) c2 m'])
  have "off < 2 ^ 31" using z(2,3) by simp
  then have si: "sint ((i + 1) * ucast (min sz (of_nat REST_MAX_CHUNK_SIZE))) = int off" using sint_small z(1) by metis
  have bs: "rb_block_num b = i" "rb_buffer_size b = int (length m)" using c(3) by (simp_all add: collecting_def)
  have "check_blockwise_transfer_put env r response c = put_store r response (i + 1) mr (min sz (of_nat REST_MAX_CHUNK_SIZE)) (int off) b ?c"
    using r u nz ps(1) si bs z(2)
    by (simp add: check_blockwise_transfer_put_def block1_req_def block_params_def coap_get_header_block1_def)
  with st ps(3) show ?thesis by (intro that [of response' c']) auto
qed

text \<open>Blocks and URL of the requests that the client sends.\<close>

lemma full_url_cong:
  assumes "IS_OPTION COAP_OPTION_URI_PATH q = IS_OPTION COAP_OPTION_URI_PATH p" "IS_OPTION COAP_OPTION_URI_QUERY q = IS_OPTION COAP_OPTION_URI_QUERY p"
    "cp_uri_path q = cp_uri_path p" "cp_uri_path_len q = cp_uri_path_len p" "cp_uri_query q = cp_uri_query p" "cp_uri_query_len q = cp_uri_query_len p"
    "cp_buffer q = cp_buffer p"
  shows "coap_get_full_url_alloc env q = coap_get_full_url_alloc env p"
  by (simp only: coap_get_full_url_alloc_def coap_get_header_uri_path_def coap_get_header_uri_query_def assms)

lemma set_opt_url_fields [simp]:
  "cp_uri_path (set_opt n p) = cp_uri_path p" "cp_uri_path_len (set_opt n p) = cp_uri_path_len p"
  "cp_uri_query (set_opt n p) = cp_uri_query p" "cp_uri_query_len (set_opt n p) = cp_uri_query_len p" "cp_buffer (set_opt n p) = cp_buffer p"
  "cp_size1 (set_opt n p) = cp_size1 p"
  by (simp_all add: set_opt_def SET_OPTION_def)

lemma IS_OPTION_upd [simp]:
  "IS_OPTION m (cp_block1_num_update f p) = IS_OPTION m p" "IS_OPTION m (cp_block1_more_update g p) = IS_OPTION m p"
  "IS_OPTION m (cp_block1_size_update h p) = IS_OPTION m p" "IS_OPTION m (cp_payload_update a p) = IS_OPTION m p"
  "IS_OPTION m (cp_payload_len_update b p) = IS_OPTION m p"
  by (simp_all add: IS_OPTION_def)

lemma put_first_url:
  assumes "length (cp_options p) = 8"
  shows "coap_get_full_url_alloc env (as_received (put_first p)) = coap_get_full_url_alloc env p"
  using assms
  by (intro full_url_cong) (auto simp: as_received_def put_first_def coap_set_header_block1_def coap_set_header_size1_def coap_set_payload_def
      IS_OPTION_set_opt length_set_opt COAP_MAX_BLOCK_SIZE_def)

lemma put_block_url:
  assumes "length (cp_options (rs_request x)) = 8"
  shows "coap_get_full_url_alloc env (as_received (put_block x)) = coap_get_full_url_alloc env (rs_request x)"
  using assms
  by (intro full_url_cong) (auto simp: as_received_def put_block_def coap_set_header_block1_def coap_set_payload_def Let_def split_def
      IS_OPTION_set_opt length_set_opt)

lemma put_block_req:
  assumes o: "owns (rs_request x) v" and x: "rs_block_num x = of_nat i" "rs_block_size x = 1024" and i: "1024 * i \<le> length v"
  shows "block1_req (as_received (put_block x)) (of_nat i) 1024 (chunk v i) (if 1024 * Suc i \<le> length v then 1 else 0)"
proof -
  note f = put_block_fields [OF o x i]
  have "1024 \<le> length v - 1024 * i \<longleftrightarrow> 1024 * Suc i \<le> length v" by auto
  then show ?thesis using f by (auto simp: block1_req_def as_received_def chunk_def sref_at_def sref_view_def min_def)
qed

lemma put_first_req:
  assumes o: "owns p v" and v: "1024 < length v"
  shows "block1_req (as_received (put_first p)) 0 1024 (chunk v 0) 1"
    and "coap_get_header_size1 (as_received (put_first p)) = Some (of_nat (length v))"
proof -
  note f = put_first_fields [OF o v]
  show "block1_req (as_received (put_first p)) 0 1024 (chunk v 0) 1"
    using f v by (auto simp: block1_req_def as_received_def chunk_def sref_at_def sref_view_def)
  show "coap_get_header_size1 (as_received (put_first p)) = Some (of_nat (length v))"
    using o v by (simp add: as_received_def put_first_def owns_def coap_get_header_size1_def coap_set_header_size1_def coap_set_payload_def
        coap_set_header_block1_def COAP_MAX_BLOCK_SIZE_def IS_OPTION_set_opt length_set_opt)
qed

section \<open>The client against the server\<close>

text \<open>The requests of a client one after the other; the results and the responses.  Each response starts as
  \<open>response\<close>, as \<open>coap_request_handler\<close> prepares it.\<close>

fun put_run :: "server_env \<Rightarrow> coap_packet list \<Rightarrow> coap_packet \<Rightarrow> server_ctx \<Rightarrow> ((bw_result \<times> coap_packet) list \<times> server_ctx) cres" where
  "put_run env [] response c = Inr ([], c)"
| "put_run env (r # rs) response c =
     cbind (check_blockwise_transfer_put env r response c) (\<lambda>(x, a, c). cbind (put_run env rs response c) (\<lambda>(xs, c). Inr ((x, a) # xs, c)))"

text \<open>The response to a block that was stored.\<close>

definition put_answer :: "coap_packet \<Rightarrow> u32 \<Rightarrow> u8 \<Rightarrow> coap_packet" where
  "put_answer response num mr =
     (let a = snd (coap_set_header_block1 num mr 1024 response) in if mr = 0 then a else snd (coap_set_status_code CONTINUE_2_31 a))"

lemma put_response:
  assumes "block1_req r num 1024 v mr" "check_blockwise_transfer_put env r response c = Inr (x, a, c')"
    "x = Uncompleted_Blockwise_Request \<or> (\<exists>m n. x = Completed_Blockwise_Request m n)"
  shows "a = put_answer response num mr"
proof -
  obtain off where b: "block_params (coap_get_header_block1 r) = (num, mr, 1024, off)" "IS_OPTION COAP_OPTION_BLOCK1 r"
    using assms(1) by (auto simp: block1_req_def block_params_def coap_get_header_block1_def REST_MAX_CHUNK_SIZE_def)
  have "a = put_answer response num mr" if "put_store r response num mr 1024 off b c0 = Inr (x, a, c')" for off b c0
    using that by (auto simp: put_store_def put_answer_def Let_def elim!: cbind_InrE split: if_splits)
  then show ?thesis using assms(2,3) b
    by (auto simp: check_blockwise_transfer_put_def Let_def elim!: cbind_InrE split: if_splits option.splits)
qed

lemma put_answer_fields:
  assumes "length (cp_options response) = 8" "num \<le> 0x0FFFFF"
  shows "IS_OPTION COAP_OPTION_BLOCK1 (put_answer response num mr)" "cp_block1_num (put_answer response num mr) = num"
    "cp_block1_more (put_answer response num mr) = mr" "cp_block1_size (put_answer response num mr) = 1024"
    "mr \<noteq> 0 \<Longrightarrow> cp_code (put_answer response num mr) = ucast CONTINUE_2_31"
proof -
  have c: "IS_OPTION n (cp_code_update f q) = IS_OPTION n q" for n f q by (simp add: IS_OPTION_def)
  have "cp_block1_num (set_opt n q) = cp_block1_num q" "cp_block1_more (set_opt n q) = cp_block1_more q"
    "cp_block1_size (set_opt n q) = cp_block1_size q" for n q by (simp_all add: set_opt_def SET_OPTION_def)
  note so = this
  have "\<not> 0x0FFFFF < num" using assms(2) by (simp add: not_less)
  note f = this put_answer_def coap_set_header_block1_def coap_set_status_code_def CONTINUE_2_31_def so c
  show "IS_OPTION COAP_OPTION_BLOCK1 (put_answer response num mr)" "cp_block1_num (put_answer response num mr) = num"
    "cp_block1_more (put_answer response num mr) = mr" "cp_block1_size (put_answer response num mr) = 1024"
    using assms by (simp_all add: f Let_def IS_OPTION_set_opt)
  show "mr \<noteq> 0 \<Longrightarrow> cp_code (put_answer response num mr) = ucast CONTINUE_2_31" by (simp add: f Let_def)
qed

lemma put_run_tail:
  assumes o: "owns p v" and x: "rs_request x = p" "rs_block_size x = 1024" and v: "length v < 65536"
    and u: "coap_get_full_url_alloc env p = Inr (Some url)"
    and c: "cache_ok (sv_blockwise c)" "cache_map (sv_blockwise c) k = Some b" "collecting url (take (1024 * Suc i) v @ w) (of_nat i) b"
      "k = (sv_src c, False, cstr url)"
    and w: "length w = length v - 1024 * Suc i" "1024 * Suc i \<le> length v" "n = length v div 1024 - i"
  shows "\<exists>c'. put_run env (map (\<lambda>j. as_received (put_block (x\<lparr>rs_block_num := of_nat j\<rparr>))) [Suc i..<Suc i + n]) response c =
      Inr (map (\<lambda>j. (Uncompleted_Blockwise_Request, put_answer response (of_nat j) 1)) [Suc i..<i + n] @
        [(Completed_Blockwise_Request (Some v) (int (length v)), put_answer response (of_nat (i + n)) 0)], c') \<and>
    cache_ok (sv_blockwise c') \<and> cache_map (sv_blockwise c') = (cache_map (sv_blockwise c))(k := None)"
  using c w
proof (induction n arbitrary: i c b w)
  case 0
  then have "length v div 1024 \<le> i" by simp
  then have "length v < 1024 * Suc i" by auto
  then show ?case using 0 by simp
next
  case (Suc n)
  let ?j = "Suc i" and ?r = "as_received (put_block (x\<lparr>rs_block_num := of_nat (Suc i)\<rparr>))"
  let ?m = "take (1024 * ?j) v @ w" and ?mr = "if 1024 * Suc ?j \<le> length v then 1 else 0 :: u8"
  define m' where "m' = take (1024 * ?j) ?m @ chunk v ?j @ drop (1024 * ?j + length (chunk v ?j)) ?m"
  have r: "block1_req ?r (of_nat i + 1) 1024 (chunk v ?j) ?mr"
    using put_block_req [of "x\<lparr>rs_block_num := of_nat ?j\<rparr>" v ?j] o x Suc.prems(6) by (simp add: add.commute)
  have ur: "coap_get_full_url_alloc env ?r = Inr (Some url)" using put_block_url [of "x\<lparr>rs_block_num := of_nat ?j\<rparr>" env] o x(1) u by (simp add: owns_def)
  have of_nat_j: "(of_nat i + 1 :: u32) = of_nat ?j" by simp
  have off: "unat ((of_nat i + 1 :: u32) * ucast (min (1024 :: u16) (of_nat REST_MAX_CHUNK_SIZE))) = 1024 * ?j"
  proof -
    have "ucast (min (1024 :: u16) (of_nat REST_MAX_CHUNK_SIZE)) = (1024 :: u32)" by (simp add: REST_MAX_CHUNK_SIZE_def)
    moreover have "(of_nat i + 1 :: u32) = of_nat ?j" by simp
    ultimately show ?thesis using block_numbers(1) [OF Suc.prems(6) v] by (simp only:)
  qed
  have nz: "(of_nat i + 1 :: u32) \<noteq> 0"
  proof
    assume "of_nat i + 1 = (0 :: u32)"
    with off show False by (simp del: mult_Suc_right)
  qed
  have lm: "length ?m = length v" "length (chunk v ?j) = min 1024 (length v - 1024 * ?j)" using Suc.prems(5,6) by (simp_all add: chunk_def)
  have le: "1024 * ?j + length (chunk v ?j) \<le> length ?m" "length ?m < 2 ^ 31" using lm Suc.prems(6) v by auto
  obtain response' c' where st: "check_blockwise_transfer_put env ?r response c =
      Inr (if ?mr = 0 then Completed_Blockwise_Request (Some m') (int (1024 * ?j + length (chunk v ?j))) else Uncompleted_Blockwise_Request, response', c')"
    "cache_ok (sv_blockwise c')" "sv_src c' = sv_src c" "?mr = 0 \<longrightarrow> cache_map (sv_blockwise c') = (cache_map (sv_blockwise c))(k := None)"
    "?mr \<noteq> 0 \<longrightarrow> (\<exists>b'. collecting url m' (of_nat i + 1) b' \<and> cache_map (sv_blockwise c') = (cache_map (sv_blockwise c))(k \<mapsto> b'))"
    by (rule put_next_step [OF r ur nz off le Suc.prems(1-4) m'_def])
  have an: "response' = put_answer response (of_nat ?j) ?mr"
    by (rule put_response [OF r [unfolded of_nat_j] st(1)]) auto
  have t: "take (1024 * ?j) ?m = take (1024 * ?j) v" using Suc.prems(6) by simp
  have up: "[Suc i..<Suc i + Suc n] = Suc i # [Suc ?j..<Suc ?j + n]" by (simp add: upt_rec)
  show ?case
  proof (cases "1024 * Suc ?j \<le> length v")
    case True
    have tv: "take (1024 * ?j) v @ chunk v ?j = take (1024 * Suc ?j) v" by (simp add: chunk_def take_add [symmetric] add.commute)
    have lc: "length (chunk v ?j) = 1024" using True lm(2) by simp
    have m': "m' = take (1024 * Suc ?j) v @ drop 1024 w" unfolding m'_def t lc append_assoc [symmetric] tv using Suc.prems(5,6) by simp
    from st(5) True obtain b' where b': "collecting url (take (1024 * Suc ?j) v @ drop 1024 w) (of_nat ?j) b'"
      "cache_map (sv_blockwise c') k = Some b'" "cache_map (sv_blockwise c') = (cache_map (sv_blockwise c))(k \<mapsto> b')" by (auto simp: m' add.commute)
    have n: "n = length v div 1024 - ?j" "0 < n" using Suc.prems(7) True by auto
    define rs where "rs = map (\<lambda>j. as_received (put_block (x\<lparr>rs_block_num := of_nat j\<rparr>))) [Suc ?j..<Suc ?j + n]"
    define as where "as = map (\<lambda>j. (Uncompleted_Blockwise_Request, put_answer response (of_nat j) 1)) [Suc ?j..<?j + n] @
        [(Completed_Blockwise_Request (Some v) (int (length v)), put_answer response (of_nat (?j + n)) 0)]"
    have "\<exists>c''. put_run env rs response c' = Inr (as, c'') \<and>
      cache_ok (sv_blockwise c'') \<and> cache_map (sv_blockwise c'') = (cache_map (sv_blockwise c'))(k := None)"
      unfolding rs_def as_def by (rule Suc.IH [OF st(2) b'(2,1)]) (use st(3) Suc.prems True n in auto)
    then obtain c'' where c'': "put_run env rs response c' = Inr (as, c'')"
      "cache_ok (sv_blockwise c'')" "cache_map (sv_blockwise c'') = (cache_map (sv_blockwise c))(k := None)" using b'(3) by auto
    have "[Suc i..<i + Suc n] = Suc i # [Suc ?j..<?j + n]" using n(2) by (simp add: upt_conv_Cons)
    then show ?thesis using st(1) True c'' an unfolding up list.map rs_def [symmetric] by (intro exI [of _ c'']) (simp add: as_def)
  next
    case False
    then have n: "n = 0" using Suc.prems(7) by auto
    have "length (chunk v ?j) = length v - 1024 * ?j" "chunk v ?j = drop (1024 * ?j) v" using False lm(2) by (simp_all add: chunk_def)
    then have "m' = v" using Suc.prems(5,6) unfolding m'_def t by simp
    then show ?thesis using st False n Suc.prems(6) an \<open>length (chunk v ?j) = length v - 1024 * ?j\<close> unfolding up by auto
  qed
qed

definition put_results :: "coap_packet \<Rightarrow> bytes \<Rightarrow> (bw_result \<times> coap_packet) list" where
  "put_results response v = map (\<lambda>j. (Uncompleted_Blockwise_Request, put_answer response (of_nat j) 1)) [0..<length v div 1024] @
     [(Completed_Blockwise_Request (Some v) (int (length v)), put_answer response (of_nat (length v div 1024)) 0)]"

lemma put_run_whole:
  assumes o: "owns p v" and v: "1024 < length v" and x: "rs_request x = p" "rs_block_size x = 1024"
    and u: "coap_get_full_url_alloc env p = Inr (Some url)" and m: "se_alloc env (length v) = Some m" "length m = length v"
    and c: "cache_ok (sv_blockwise c)" "cache_map (sv_blockwise c) (sv_src c, False, cstr url) = None"
  shows "\<exists>c'. put_run env (as_received (put_first p) #
      map (\<lambda>i. as_received (put_block (x\<lparr>rs_block_num := of_nat i\<rparr>))) [1..<Suc (length v div 1024)]) response c =
      Inr (put_results response v, c') \<and>
    cache_ok (sv_blockwise c') \<and> cache_map (sv_blockwise c') = cache_map (sv_blockwise c)"
proof -
  let ?r = "as_received (put_first p)" and ?k = "(sv_src c, False, cstr url)"
  have l: "length v < 65536" "length (cp_options p) = 8" using o by (simp_all add: owns_def)
  then have un: "unat (of_nat (length v) :: u32) = length v" by (simp add: unat_of_nat_small)
  note f = put_first_req [OF o v]
  have ur: "coap_get_full_url_alloc env ?r = Inr (Some url)" using put_first_url [OF l(2)] u by simp
  have ch: "length (chunk v 0) = 1024" "chunk v 0 = take 1024 v" using v by (simp_all add: chunk_def)
  have z: "se_alloc env (unat (of_nat (length v) :: u32)) = Some m" "length m = unat (of_nat (length v) :: u32)"
    "length (chunk v 0) \<le> unat (of_nat (length v) :: u32)" "unat (of_nat (length v) :: u32) < 2 ^ 31" using un m ch v l(1) by simp_all
  obtain response' c1 b where st: "check_blockwise_transfer_put env ?r response c = Inr (Uncompleted_Blockwise_Request, response', c1)"
    "cache_ok (sv_blockwise c1)" "sv_src c1 = sv_src c" "collecting url (chunk v 0 @ drop (length (chunk v 0)) m) 0 b"
    "cache_map (sv_blockwise c1) = (cache_map (sv_blockwise c))(?k \<mapsto> b)"
    by (rule put_first_step [OF f(1) _ ur f(2) z c refl]) simp_all
  have an: "response' = put_answer response 0 1" by (rule put_response [OF f(1) st(1)]) simp
  define rs where "rs = map (\<lambda>j. as_received (put_block (x\<lparr>rs_block_num := of_nat j\<rparr>))) [Suc 0..<Suc 0 + length v div 1024]"
  have c1: "cache_map (sv_blockwise c1) ?k = Some b" "collecting url (take (1024 * Suc 0) v @ drop 1024 m) (of_nat 0) b" "?k = (sv_src c1, False, cstr url)"
    using st ch by simp_all
  define as where "as = map (\<lambda>j. (Uncompleted_Blockwise_Request, put_answer response (of_nat j) 1)) [Suc 0..<0 + length v div 1024] @
     [(Completed_Blockwise_Request (Some v) (int (length v)), put_answer response (of_nat (0 + length v div 1024)) 0)]"
  have "\<exists>c'. put_run env rs response c1 = Inr (as, c') \<and>
    cache_ok (sv_blockwise c') \<and> cache_map (sv_blockwise c') = (cache_map (sv_blockwise c1))(?k := None)"
    unfolding rs_def as_def by (rule put_run_tail [OF o x l(1) u st(2) c1]) (use m(2) v in simp_all)
  then obtain c' where c': "put_run env rs response c1 = Inr (as, c')"
    "cache_ok (sv_blockwise c')" "cache_map (sv_blockwise c') = (cache_map (sv_blockwise c))(?k := None)" using st(5) by auto
  have "0 < length v div 1024" using v by auto
  then have "put_results response v = (Uncompleted_Blockwise_Request, put_answer response 0 1) # as"
    by (simp add: put_results_def as_def upt_conv_Cons)
  moreover have "cache_map (sv_blockwise c') = cache_map (sv_blockwise c)" unfolding c'(3) using c(2) by (rule fun_upd_idem)
  moreover have "map (\<lambda>i. as_received (put_block (x\<lparr>rs_block_num := of_nat i\<rparr>))) [1..<Suc (length v div 1024)] = rs" by (simp add: rs_def)
  ultimately show ?thesis using st(1) c' an by (intro exI [of _ c']) simp
qed

text \<open>C12.  A long payload from the client to the server: the requests with the blocks that the client cuts, first to last,
  bring the whole payload to the server, whatever its length; every block but the last is answered with
  the code \<open>continue\<close> and its own block number, size and more flag in the Block1 option, the last one completes
  the request with the whole payload and echoes its block; and the cache has the transfers it had before.
  The entry of the peer itself, without transfers, stays until the next clean-up.\<close>

theorem put_transfer_completes:
  assumes o: "owns p v" and v: "1024 < length v" and x: "rs_request x = p" "rs_block_size x = 1024"
    and u: "coap_get_full_url_alloc env p = Inr (Some url)" and m: "se_alloc env (length v) = Some m" "length m = length v"
    and c: "cache_ok (sv_blockwise c)" "cache_map (sv_blockwise c) (sv_src c, False, cstr url) = None"
    and re: "length (cp_options response) = 8"
  shows "\<exists>xs c'. put_run env (as_received (put_first p) #
      map (\<lambda>i. as_received (put_block (x\<lparr>rs_block_num := of_nat i\<rparr>))) [1..<Suc (length v div 1024)]) response c = Inr (xs, c') \<and>
    length xs = Suc (length v div 1024) \<and>
    (\<forall>i < length v div 1024. fst (xs ! i) = Uncompleted_Blockwise_Request \<and> cp_code (snd (xs ! i)) = ucast CONTINUE_2_31 \<and>
      IS_OPTION COAP_OPTION_BLOCK1 (snd (xs ! i)) \<and> cp_block1_num (snd (xs ! i)) = of_nat i \<and>
      cp_block1_more (snd (xs ! i)) = 1 \<and> cp_block1_size (snd (xs ! i)) = 1024) \<and>
    fst (last xs) = Completed_Blockwise_Request (Some v) (int (length v)) \<and>
    IS_OPTION COAP_OPTION_BLOCK1 (snd (last xs)) \<and> cp_block1_num (snd (last xs)) = of_nat (length v div 1024) \<and>
    cp_block1_more (snd (last xs)) = 0 \<and>
    cache_ok (sv_blockwise c') \<and> cache_map (sv_blockwise c') = cache_map (sv_blockwise c)"
proof -
  let ?N = "length v div 1024"
  obtain c' where c': "put_run env (as_received (put_first p) #
      map (\<lambda>i. as_received (put_block (x\<lparr>rs_block_num := of_nat i\<rparr>))) [1..<Suc ?N]) response c = Inr (put_results response v, c')"
    "cache_ok (sv_blockwise c')" "cache_map (sv_blockwise c') = cache_map (sv_blockwise c)"
    using put_run_whole [OF o v x u m c] by blast
  have n: "(of_nat i :: u32) \<le> 0x0FFFFF" if "i \<le> ?N" for i
  proof -
    have "i < 64" using that o by (auto simp: owns_def)
    then have "unat (of_nat i :: u32) = i" by (simp add: unat_of_nat_small)
    then show ?thesis using \<open>i < 64\<close> by (simp add: word_le_nat_alt)
  qed
  note f = put_answer_fields [OF re n]
  have "put_results response v ! i = (Uncompleted_Blockwise_Request, put_answer response (of_nat i) 1)" if "i < ?N" for i
    using that by (simp add: put_results_def nth_append)
  moreover have "last (put_results response v) = (Completed_Blockwise_Request (Some v) (int (length v)), put_answer response (of_nat ?N) 0)"
    by (simp add: put_results_def)
  moreover have "length (put_results response v) = Suc ?N" by (simp add: put_results_def)
  ultimately show ?thesis using c' f by (intro exI [of _ "put_results response v"] exI [of _ c']) simp
qed

text \<open>C39.  The first block of a transfer is not checked against the size it announces: a request whose payload is longer
  than its Size1 option makes the server write behind the buffer it has allocated.\<close>

theorem put_heap_overflow:
  assumes r: "block1_req r 0 sz v mr" "mr \<noteq> 0" "cp_code r = COAP_PUT" and u: "coap_get_full_url_alloc env r = Inr (Some url)"
    and z: "coap_get_header_size1 r = Some n" "se_alloc env (unat n) = Some m" "length m = unat n" "unat n < length v"
    and c: "cache_ok (sv_blockwise c)" "cache_map (sv_blockwise c) (sv_src c, False, cstr url) = None"
  shows "coap_request_handler env r c = Inl Out_Of_Bounds"
proof -
  have bad: "check_blockwise_transfer_put env r response c' = Inl Out_Of_Bounds" if c': "sv_blockwise c' = sv_blockwise c" "sv_src c' = sv_src c" for response c'
  proof -
    obtain ps where "find_block (sv_src c) (Some url) False True (sv_blockwise c) = Inr (None, ps)"
      by (rule find_block_map [OF c(1) refl, where src = "sv_src c" and is_get = False and url = url and rm = True]) (use c(2) in simp)
    moreover have "copy_block (Some m) 0 v = Inl Out_Of_Bounds" using z(3,4) by (auto simp: copy_block_def deref_def buf_write_def)
    ultimately show ?thesis using r u z c'
      by (simp add: check_blockwise_transfer_put_def block1_req_def block_params_def coap_get_header_block1_def put_store_def Let_def)
  qed
  show ?thesis using bad r(3)
    by (simp add: coap_request_handler_def Let_def split_def COAP_PUT_def COAP_GET_def COAP_POST_def COAP_DELETE_def coap_get_mid_def)
qed

lemma sample_cache_ok: "cache_ok (sv_blockwise sample_server)"
  by code_simp

text \<open>A payload of 2500 bytes for \<open>temp\<close>, and a first block that is longer than it says.\<close>

definition long_put :: coap_packet where
  "long_put = at_temp (sample_put 2500)"

definition liar_put :: coap_packet where
  "liar_put = snd (coap_set_header_block1 0 1 16 (coap_set_header_size1 4 (at_temp (sample_put 16))))"

theorem put_heap_overflow_witness: "coap_request_handler sample_env liar_put sample_server = Inl Out_Of_Bounds"
proof -
  have r: "block1_req liar_put 0 16 (replicate 16 1) 1" "(1 :: u8) \<noteq> 0" "cp_code liar_put = COAP_PUT" by code_simp+
  have u: "coap_get_full_url_alloc sample_env liar_put = Inr (Some (sample_path @ [0, 0]))" by code_simp
  have z: "coap_get_header_size1 liar_put = Some 4" "se_alloc sample_env (unat (4 :: u32)) = Some [0, 0, 0, 0]"
    "length [0, 0, 0, 0 :: u8] = unat (4 :: u32)" "unat (4 :: u32) < length (replicate 16 (1 :: u8))" by code_simp+
  have c: "cache_map (sv_blockwise sample_server) (sv_src sample_server, False, cstr (sample_path @ [0, 0])) = None" by code_simp
  show ?thesis by (rule put_heap_overflow [OF r u z sample_cache_ok c])
qed

theorem put_transfer_completes_witness:
  "\<exists>xs c'. put_run sample_env (as_received (put_first long_put) #
      map (\<lambda>i. as_received (put_block ((sample_state\<lparr>rs_request := long_put, rs_block_size := 1024\<rparr>)\<lparr>rs_block_num := of_nat i\<rparr>))) [1..<Suc (2500 div 1024)])
      cp_zero sample_server = Inr (xs, c') \<and> length xs = 3 \<and>
    fst (xs ! 1) = Uncompleted_Blockwise_Request \<and> cp_code (snd (xs ! 1)) = ucast CONTINUE_2_31 \<and> cp_block1_num (snd (xs ! 1)) = 1 \<and>
    fst (last xs) = Completed_Blockwise_Request (Some (replicate 2500 1)) 2500 \<and> cache_ok (sv_blockwise c')"
proof -
  let ?x = "sample_state\<lparr>rs_request := long_put, rs_block_size := 1024\<rparr>"
  have o: "owns long_put (replicate 2500 1)"
    using sample_put_owns [of 2500] by (simp add: owns_def long_put_def at_temp_def length_set_opt)
  have u: "coap_get_full_url_alloc sample_env long_put = Inr (Some (sample_path @ [0, 0]))"
  proof -
    have "coap_get_full_url_alloc sample_env long_put = coap_get_full_url_alloc sample_env (at_temp (sample_put 0))"
      by (intro full_url_cong) (simp_all add: long_put_def at_temp_def sample_put_def cp_zero_def set_opt_options IS_OPTION_def)
    moreover have "coap_get_full_url_alloc sample_env (at_temp (sample_put 0)) = Inr (Some (sample_path @ [0, 0]))" by code_simp
    ultimately show ?thesis by simp
  qed
  have c: "cache_map (sv_blockwise sample_server) (sv_src sample_server, False, cstr (sample_path @ [0, 0])) = None" by code_simp
  have m: "se_alloc sample_env (length (replicate 2500 (1 :: u8))) = Some (replicate 2500 0)" "length (replicate 2500 (0 :: u8)) = length (replicate 2500 (1 :: u8))"
    by (simp_all add: sample_env_def add_resource_handler_def)
  have "1024 < length (replicate 2500 (1 :: u8))" "rs_request ?x = long_put" "rs_block_size ?x = 1024" by simp_all
  note pc = put_transfer_completes [OF o this u m sample_cache_ok c, of cp_zero]
  have z: "length (cp_options cp_zero) = 8" by (simp add: cp_zero_def)
  obtain xs c' where xs: "put_run sample_env (as_received (put_first long_put) #
      map (\<lambda>i. as_received (put_block (?x\<lparr>rs_block_num := of_nat i\<rparr>))) [1..<Suc (2500 div 1024)]) cp_zero sample_server = Inr (xs, c')"
    "length xs = Suc (2500 div 1024)" "\<forall>i < 2500 div 1024. fst (xs ! i) = Uncompleted_Blockwise_Request \<and> cp_code (snd (xs ! i)) = ucast CONTINUE_2_31 \<and>
      cp_block1_num (snd (xs ! i)) = of_nat i" "fst (last xs) = Completed_Blockwise_Request (Some (replicate 2500 1)) 2500" "cache_ok (sv_blockwise c')"
    using pc [OF z] unfolding length_replicate of_nat_numeral by blast
  have "fst (xs ! 1) = Uncompleted_Blockwise_Request \<and> cp_code (snd (xs ! 1)) = ucast CONTINUE_2_31 \<and> cp_block1_num (snd (xs ! 1)) = of_nat 1"
    using xs(3) by (elim allE [of _ 1] impE) simp_all
  then show ?thesis using xs(1,2,4,5) by (intro exI [of _ xs] exI [of _ c']) simp
qed

end
