(* ===== verification/Coap_Serve.thy ===== *)
theory Coap_Serve
  imports Coap_Transfer
begin

text \<open>
  Responses of the CoAP server in blocks, and the life time of transfers.  The cached response of a resource is served
  block by block for any block size; old transfers are dropped and only those; and what a block number behind the end of a
  response does.
\<close>

section \<open>Cached responses\<close>

definition block2_req :: "coap_packet \<Rightarrow> u32 \<Rightarrow> u16 \<Rightarrow> bool" where
  "block2_req r i sz \<longleftrightarrow> IS_OPTION COAP_OPTION_BLOCK2 r \<and> cp_block2_num r = i \<and> cp_block2_size r = sz"

definition served :: "bytes \<Rightarrow> bytes \<Rightarrow> res_block_state \<Rightarrow> bool" where
  "served url m b \<longleftrightarrow> res_ok b \<and> res_key b = (True, cstr url) \<and> rb_buffer b = Some m \<and> rb_buffer_size b = int (length m)"

text \<open>The number of blocks of \<open>s\<close> bytes, and one of them.\<close>

definition blocks :: "nat \<Rightarrow> nat \<Rightarrow> nat" where
  "blocks s n = n div s + (if n mod s = 0 then 0 else 1)"

definition piece :: "bytes \<Rightarrow> nat \<Rightarrow> nat \<Rightarrow> bytes" where
  "piece m s i = take s (drop (i * s) m)"

lemma concat_pieces: "concat (map (piece m s) [0..<k]) = take (k * s) m"
  by (induction k) (simp_all add: piece_def take_add [symmetric] add.commute)

lemma blocks_cover:
  assumes "0 < s"
  shows "n \<le> blocks s n * s"
proof -
  have q: "n = n div s * s + n mod s" by simp
  have "n mod s < s" using assms by simp
  with q have "n \<le> n div s * s + s" by linarith
  then show ?thesis using q by (auto simp: blocks_def algebra_simps)
qed

lemma block_inside:
  assumes "0 < s" and "i < blocks s n"
  shows "i * s < n" and "i * s + s \<le> n \<or> Suc i = blocks s n \<and> n mod s \<noteq> 0 \<and> n = i * s + n mod s"
proof -
  have q: "n = n div s * s + n mod s" by simp
  show "i * s < n"
  proof (cases "n mod s = 0")
    case True
    then have "i < n div s" using assms(2) by (simp add: blocks_def)
    then show ?thesis using q True assms(1) by (metis add.right_neutral mult_less_cancel2)
  next
    case False
    then have "i \<le> n div s" using assms(2) by (simp add: blocks_def)
    then have "i * s \<le> n div s * s" by simp
    then show ?thesis using q False by linarith
  qed
  show "i * s + s \<le> n \<or> Suc i = blocks s n \<and> n mod s \<noteq> 0 \<and> n = i * s + n mod s"
  proof (cases "i < n div s")
    case True
    then have "Suc i * s \<le> n div s * s" by (intro mult_le_mono1) simp
    also have "n div s * s \<le> n" by simp
    finally have "i * s + s \<le> n" by simp
    then show ?thesis ..
  next
    case False
    then have "i = n div s" "n mod s \<noteq> 0" using assms(2) by (auto simp: blocks_def split: if_splits)
    then show ?thesis using q by (simp add: blocks_def)
  qed
qed

lemma length_piece:
  assumes "0 < s" and "i < blocks s (length m)"
  shows "length (piece m s i) = (if length m mod s \<noteq> 0 \<and> Suc i = blocks s (length m) then length m mod s else s)"
proof (cases "length m mod s \<noteq> 0 \<and> Suc i = blocks s (length m)")
  case True
  then have "i = length m div s" by (auto simp: blocks_def)
  then have "length m - i * s = length m mod s" by (simp add: minus_div_mult_eq_mod)
  then show ?thesis using True assms(1) by (simp add: piece_def less_imp_le)
next
  case False
  then show ?thesis using block_inside(2) [OF assms] by (auto simp: piece_def)
qed

lemma pieces_all: "0 < s \<Longrightarrow> concat (map (piece m s) [0..<blocks s (length m)]) = m"
  by (simp add: concat_pieces blocks_cover)

text \<open>The numbers of blocks as the server computes them.\<close>

lemma total_blocks:
  assumes "0 < s"
  shows "int n smod int s = int (n mod s)" and "int n sdiv int s + (if int n smod int s \<noteq> 0 then 1 else 0) = int (blocks s n)"
proof -
  show sm: "int n smod int s = int (n mod s)" by (cases "n = 0") (simp_all add: smod_int_alt_def zmod_int)
  have "int n sdiv int s = int (n div s)" using assms by (cases "n = 0") (simp_all add: signed_divide_int_def zdiv_int)
  then show "int n sdiv int s + (if int n smod int s \<noteq> 0 then 1 else 0) = int (blocks s n)" unfolding sm by (simp add: blocks_def)
qed

lemma chunk_word:
  assumes "s = min (unat sz) REST_MAX_CHUNK_SIZE"
  shows "unat (min sz (of_nat REST_MAX_CHUNK_SIZE) :: u16) = s"
  using assms by (simp add: min_def word_le_nat_alt REST_MAX_CHUNK_SIZE_def)

text \<open>The answer from the cache.\<close>

definition block_reply :: "res_block_state \<Rightarrow> u32 \<Rightarrow> u32 \<Rightarrow> u16 \<Rightarrow> nat \<Rightarrow> coap_packet \<Rightarrow> coap_packet" where
  "block_reply b n i bs len response =
     coap_set_header_content_format (ucast (rb_content_fmt b))
       (snd (coap_set_status_code (ucast CONTENT_2_05)
         (snd (coap_set_payload (at_buffer (rb_buffer b) (unat (i * ucast bs))) len
           (snd (coap_set_header_block2 i (if i + 1 < n then 1 else 0) bs response))))))"

lemma check_get_found:
  assumes r: "block2_req r i sz" "16 \<le> sz" and u: "coap_get_full_url_alloc env r = Inr (Some url)"
    and c: "cache_ok (sv_blockwise c)" "cache_map (sv_blockwise c) (sv_src c, True, cstr url) = Some b" "served url m b"
    and s: "s = min (unat sz) REST_MAX_CHUNK_SIZE" and bs: "bs = min sz (of_nat REST_MAX_CHUNK_SIZE)" and t: "t = of_nat (blocks s (length m))"
    and p: "cp_payload response \<noteq> None"
  shows "check_blockwise_transfer_get env r response c =
     (if t \<le> i then Inr (Invalid_Blockwise_Request, snd (coap_set_status_code REQUEST_ENTITY_TOO_LARGE_4_13 response), c)
      else cbind (find_peer (sv_src c) (Some url) True (\<lambda>b. [b\<lparr>rb_last_access := sv_now c, rb_block_num := i\<rparr>]) (sv_blockwise c)) (\<lambda>(_, ps).
        Inr (Get_from_Bockwise_Cache,
          block_reply b t i bs (if length m mod s \<noteq> 0 \<and> i = t - 1 then length m mod s else s) response, c\<lparr>sv_blockwise := ps\<rparr>)))"
proof -
  have s0: "0 < s" "s < 2 ^ 64" using r(2) s by (simp_all add: word_le_nat_alt REST_MAX_CHUNK_SIZE_def)
  obtain ps where ps: "find_block (sv_src c) (Some url) True False (sv_blockwise c) = Inr (Some b, ps)"
    by (rule find_block_map [OF c(1) refl, where src = "sv_src c" and is_get = True and url = url and rm = False]) (use c(2) in simp)
  have b: "rb_buffer_size b = int (length m)" using c(3) by (simp add: served_def)
  have bu: "int (unat bs) = int s" unfolding bs chunk_word [OF s] ..
  obtain mr off where bp: "block_params (coap_get_header_block2 r) = (i, mr, bs, off)"
    using r bs by (simp add: block2_req_def coap_get_header_block2_def block_params_def)
  have ml: "length m mod s < 2 ^ 64" using s0 mod_less_divisor [OF s0(1), of "length m"] by linarith
  have n: "nat (int k mod 2 ^ 64) = k" if "k < 2 ^ 64" for k using that by (simp add: nat_mod_as_int)
  have len: "nat ((if int (length m mod s) \<noteq> 0 \<and> i = of_int (int (blocks s (length m)) - 1) then int (length m mod s) else int s) mod 2 ^ 64) =
      (if length m mod s \<noteq> 0 \<and> i = t - 1 then length m mod s else s)"
    unfolding t using n [OF ml] n [OF s0(2)] by simp
  have t': "of_int (int (blocks s (length m))) = t" by (simp add: t)
  show ?thesis
    unfolding check_blockwise_transfer_get_def u cbind_simps ps prod.case option.case bp b bu Let_def total_blocks(2) [OF s0(1)]
    unfolding total_blocks(1) [OF s0(1)] t' len block_reply_def using p by (cases "cp_payload response") (simp_all split del: if_split)
qed

lemma get_beyond:
  assumes "block2_req r i sz" "16 \<le> sz" and "coap_get_full_url_alloc env r = Inr (Some url)"
    and "cache_ok (sv_blockwise c)" "cache_map (sv_blockwise c) (sv_src c, True, cstr url) = Some b" "served url m b"
    and "s = min (unat sz) REST_MAX_CHUNK_SIZE" and "cp_payload response \<noteq> None" and i: "blocks s (length m) \<le> unat i"
  shows "check_blockwise_transfer_get env r response c =
      Inr (Invalid_Blockwise_Request, snd (coap_set_status_code REQUEST_ENTITY_TOO_LARGE_4_13 response), c)"
proof -
  have "unat (of_nat (blocks s (length m)) :: u32) \<le> blocks s (length m)" by (simp add: unat_of_nat)
  then have "(of_nat (blocks s (length m)) :: u32) \<le> i" using i by (simp add: word_le_nat_alt)
  then show ?thesis using check_get_found [OF assms(1-7) refl refl assms(8)] by simp
qed

text \<open>What a client reads in an answer: the payload and the flag that more blocks follow.\<close>

definition block_body :: "coap_packet \<Rightarrow> bytes cres \<times> u32 \<times> u8" where
  "block_body p = (sref_at (cp_buffer p) (cp_payload p) 0 (cp_payload_len p), cp_block2_num p, cp_block2_more p)"

lemma set_opt_block2 [simp]: "cp_block2_num (set_opt n p) = cp_block2_num p" "cp_block2_more (set_opt n p) = cp_block2_more p"
  "cp_size2 (set_opt n p) = cp_size2 p"
  by (auto simp: set_opt_def SET_OPTION_def split: sum.splits if_splits)

lemma block_reply_body:
  assumes b: "rb_buffer b = Some m" and i: "i < blocks s (length m)" "blocks s (length m) \<le> 0x100000" "length m < 2 ^ 31"
    and s: "unat bs = s" "16 \<le> s" "s \<le> REST_MAX_CHUNK_SIZE"
    and len: "len = length (piece m s i)" and p: "length (cp_options response) = 8"
  shows "block_body (block_reply b (of_nat (blocks s (length m))) (of_nat i) bs len response) =
      (Inr (piece m s i), of_nat i, if Suc i < blocks s (length m) then 1 else 0)"
proof -
  have s0: "0 < s" using s by simp
  have in1: "i * s < length m" by (rule block_inside(1) [OF s0 i(1)])
  have i32: "i < 2 ^ 32" using i by simp
  have off: "unat (of_nat i * ucast bs :: u32) = i * s"
  proof -
    have "unat (of_nat i :: u32) = i" using i32 by (simp add: unat_of_nat)
    moreover have "unat (ucast bs :: u32) = s" using s by (simp add: unsigned_ucast_eq take_bit_nat_eq_self REST_MAX_CHUNK_SIZE_def)
    moreover have "i * s < 2 ^ 32" using in1 i(3) by simp
    ultimately show ?thesis by (simp add: unat_word_ariths)
  qed
  have big: "\<not> bs < 16" "\<not> bs > 2048" using s by (simp_all add: word_less_nat_alt REST_MAX_CHUNK_SIZE_def)
  have num: "\<not> (of_nat i :: u32) > 0x0FFFFF" using i by (simp add: word_less_nat_alt unat_of_nat del: of_nat_Suc)
  have nxt: "((of_nat i :: u32) + 1 < of_nat (blocks s (length m))) = (Suc i < blocks s (length m))"
  proof -
    have "(of_nat (Suc i) :: u32) < of_nat (blocks s (length m)) \<longleftrightarrow> Suc i < blocks s (length m)" using i by (simp add: word_less_nat_alt unat_of_nat del: of_nat_Suc)
    then show ?thesis by (simp add: add.commute)
  qed
  have l: "len \<le> s" "len \<le> REST_MAX_CHUNK_SIZE" using s by (auto simp: len piece_def)
  have "sref_at buf (Some (P_Ext (drop (i * s) m))) 0 len = Inr (piece m s i)" for buf
  proof -
    have l: "length (piece m s i) \<le> length (drop (i * s) m)" "take (length (piece m s i)) (drop (i * s) m) = piece m s i"
      by (simp_all add: piece_def take_take [symmetric] del: take_take)
    show ?thesis using l by (cases "piece m s i") (auto simp: sref_at_def sref_view_def len)
  qed
  then show ?thesis using big num nxt l p off b
    by (simp add: block_body_def block_reply_def coap_set_header_content_format_def coap_set_payload_def coap_set_status_code_def coap_set_header_block2_def
        at_buffer_def CONTENT_2_05_def)
qed

text \<open>The requests of a client one after the other, with what it reads in each answer.\<close>

fun get_run :: "server_env \<Rightarrow> coap_packet list \<Rightarrow> coap_packet \<Rightarrow> server_ctx \<Rightarrow> ((bw_result \<times> bytes cres \<times> u32 \<times> u8) list \<times> server_ctx) cres" where
  "get_run env [] response c = Inr ([], c)"
| "get_run env (r # rs) response c =
     cbind (check_blockwise_transfer_get env r response c) (\<lambda>(x, p, c). cbind (get_run env rs response c) (\<lambda>(xs, c). Inr ((x, block_body p) # xs, c)))"

lemma get_inside:
  assumes r: "block2_req r (of_nat i) sz" "16 \<le> sz" and u: "coap_get_full_url_alloc env r = Inr (Some url)"
    and c: "cache_ok (sv_blockwise c)" "cache_map (sv_blockwise c) (sv_src c, True, cstr url) = Some b" "served url m b"
    and s: "s = min (unat sz) REST_MAX_CHUNK_SIZE" and m: "blocks s (length m) \<le> 0x100000" "length m < 2 ^ 31" "i < blocks s (length m)"
    and p: "cp_payload response \<noteq> None" "length (cp_options response) = 8"
  obtains response' c' b' where "check_blockwise_transfer_get env r response c = Inr (Get_from_Bockwise_Cache, response', c')"
    and "block_body response' = (Inr (piece m s i), of_nat i, if Suc i < blocks s (length m) then 1 else 0)"
    and "cache_ok (sv_blockwise c')" "cache_map (sv_blockwise c') (sv_src c', True, cstr url) = Some b'" "served url m b'"
    and "sv_src c' = sv_src c" "\<And>k. k \<noteq> (sv_src c, True, cstr url) \<Longrightarrow> cache_map (sv_blockwise c') k = cache_map (sv_blockwise c) k"
proof -
  let ?k = "(sv_src c, True, cstr url)" and ?t = "of_nat (blocks s (length m)) :: u32" and ?bs = "min sz (of_nat REST_MAX_CHUNK_SIZE)"
  let ?h = "\<lambda>b. b\<lparr>rb_last_access := sv_now c, rb_block_num := of_nat i\<rparr>"
  define len where "len = (if length m mod s \<noteq> 0 \<and> (of_nat i :: u32) = ?t - 1 then length m mod s else s)"
  have s16: "16 \<le> s" "s \<le> REST_MAX_CHUNK_SIZE" "0 < s" using r(2) s by (simp_all add: word_le_nat_alt REST_MAX_CHUNK_SIZE_def)
  have lt: "\<not> ?t \<le> of_nat i" using m by (simp add: word_le_nat_alt unat_of_nat)
  have "(of_nat i :: u32) = ?t - 1 \<longleftrightarrow> (of_nat (Suc i) :: u32) = ?t" by (auto simp: algebra_simps)
  also have "\<dots> \<longleftrightarrow> Suc i = blocks s (length m)" using m by (simp add: word_unat_eq_iff unat_of_nat del: of_nat_Suc)
  finally have len': "len = length (piece m s i)" using length_piece [OF s16(3) m(3)] by (simp add: len_def)
  have "places (\<lambda>b. [?h b]) (\<lambda>b. Some (?h b))" by (simp add: places_def res_key_def res_ok_def)
  from find_peer_map [OF c(1) this refl] c(2) obtain ps where ps: "find_peer (sv_src c) (Some url) True (\<lambda>b. [?h b]) (sv_blockwise c) = Inr (Some b, ps)"
    "cache_ok ps" "cache_map ps = upd_opt (\<lambda>b. Some (?h b)) ?k (cache_map (sv_blockwise c))" by metis
  have st: "check_blockwise_transfer_get env r response c = Inr (Get_from_Bockwise_Cache, block_reply b ?t (of_nat i) ?bs len response, c\<lparr>sv_blockwise := ps\<rparr>)"
    using check_get_found [OF r u c s refl refl p(1)] lt ps(1) by (simp add: len_def)
  have bm: "rb_buffer b = Some m" using c(3) by (simp add: served_def)
  note body = block_reply_body [OF bm m(3) m(1) m(2) chunk_word [OF s] s16(1,2) len' p(2)]
  show ?thesis using ps(2,3) c(2,3)
    by (intro that [OF st body, where b' = "?h b"]) (auto simp: upd_opt_def served_def res_key_def res_ok_def)
qed

lemma get_run_from:
  assumes rs: "\<And>i. i < n \<Longrightarrow> block2_req (f i) (of_nat i) sz \<and> coap_get_full_url_alloc env (f i) = Inr (Some url)" and sz: "16 \<le> sz"
    and s: "s = min (unat sz) REST_MAX_CHUNK_SIZE" and n: "n = blocks s (length m)" "n \<le> 0x100000" "length m < 2 ^ 31"
    and p: "cp_payload response \<noteq> None" "length (cp_options response) = 8"
    and c: "cache_ok (sv_blockwise c)" "cache_map (sv_blockwise c) (sv_src c, True, cstr url) = Some b" "served url m b" and j: "j + k = n"
  shows "\<exists>c'. get_run env (map f [j..<j + k]) response c =
      Inr (map (\<lambda>i. (Get_from_Bockwise_Cache, Inr (piece m s i), of_nat i, if Suc i < n then 1 else 0)) [j..<j + k], c') \<and>
    cache_ok (sv_blockwise c') \<and> (\<forall>x. x \<noteq> (sv_src c, True, cstr url) \<longrightarrow> cache_map (sv_blockwise c') x = cache_map (sv_blockwise c) x)"
  using c j
proof (induction k arbitrary: j c b)
  case 0
  then show ?case by simp
next
  case (Suc k)
  have jn: "j < n" using Suc.prems(4) by simp
  have up: "[j..<j + Suc k] = j # [Suc j..<Suc j + k]" by (simp add: upt_rec)
  obtain response' c1 b1 where st: "check_blockwise_transfer_get env (f j) response c = Inr (Get_from_Bockwise_Cache, response', c1)"
    "block_body response' = (Inr (piece m s j), of_nat j, if Suc j < n then 1 else 0)"
    "cache_ok (sv_blockwise c1)" "cache_map (sv_blockwise c1) (sv_src c1, True, cstr url) = Some b1" "served url m b1" "sv_src c1 = sv_src c"
    "\<And>x. x \<noteq> (sv_src c, True, cstr url) \<Longrightarrow> cache_map (sv_blockwise c1) x = cache_map (sv_blockwise c) x"
    by (rule get_inside [of "f j" j sz env url c b m s response]) (use rs [OF jn] sz s n p Suc.prems jn in auto)
  from Suc.IH [OF st(3,4,5)] Suc.prems(4) obtain c' where "get_run env (map f [Suc j..<Suc j + k]) response c1 =
      Inr (map (\<lambda>i. (Get_from_Bockwise_Cache, Inr (piece m s i), of_nat i, if Suc i < n then 1 else 0)) [Suc j..<Suc j + k], c')"
    "cache_ok (sv_blockwise c')" "\<forall>x. x \<noteq> (sv_src c, True, cstr url) \<longrightarrow> cache_map (sv_blockwise c') x = cache_map (sv_blockwise c1) x"
    using st(6) by auto
  then show ?case using st unfolding up by (intro exI [of _ c']) simp
qed

text \<open>What the cache holds for a key has that key.\<close>

lemma cache_map_key:
  assumes "cache_ok ps" and "cache_map ps (src, g, u) = Some b"
  shows "res_ok b" and "res_key b = (g, u)"
proof -
  have rm: "b \<in> set bs \<and> res_key b = k" if "res_map bs k = Some b" for bs k
    using that by (induction bs) (auto split: if_splits)
  have "res_ok b \<and> res_key b = (g, u)" using assms
  proof (induction ps)
    case (Cons p ps)
    show ?case
    proof (cases "src = pb_addr p")
      case True
      then show ?thesis using Cons.prems rm [of "pb_list p" "(g, u)"] by (auto simp: cache_ok_def peer_ok_def list_all_iff)
    next
      case False
      then show ?thesis using Cons by (auto simp: cache_ok_def)
    qed
  qed simp
  then show "res_ok b" "res_key b = (g, u)" by simp_all
qed

section \<open>The first block\<close>

lemma send_response_ok:
  assumes "sendable p" and "length (wire p) \<le> COAP_MAX_PACKET_SIZE"
  shows "send_response p c = Inr (c\<lparr>sv_tx := sv_tx c @ [Tx_Data (sv_src c) (wire p)]\<rparr>)"
proof -
  let ?buf = "replicate COAP_MAX_PACKET_SIZE 0 :: bytes"
  have "\<exists>p'. coap_serialize_message p ?buf = Inr (length (wire p), wire p @ drop (length (wire p)) ?buf, p')"
    using serialize_message_wire(1) [of p ?buf] assms by (simp add: sendable_def wire_def)
  then show ?thesis by (auto simp: send_response_def)
qed

lemma set_res_blockwise_map:
  assumes c: "cache_ok (sv_blockwise c)" and k: "k = (sv_src c, True, cstr url)"
  obtains c' b where "set_res_blockwise (Some url) (Some m) (int (length m)) i fmt c = Inr c'" and "served url m b"
    and "sv_src c' = sv_src c" "sv_tx c' = sv_tx c" and "cache_ok (sv_blockwise c')" "cache_map (sv_blockwise c') = (cache_map (sv_blockwise c))(k \<mapsto> b)"
proof -
  obtain ps where ps: "find_block (sv_src c) (Some url) True True (sv_blockwise c) = Inr (cache_map (sv_blockwise c) k, ps)" "cache_ok ps"
    "cache_map ps = (cache_map (sv_blockwise c))(k := None)" by (rule find_block_map [OF c k, of True]) simp
  define b0 where "b0 = (case cache_map (sv_blockwise c) k of Some b \<Rightarrow> b
     | None \<Rightarrow> \<lparr>rb_url = Some url, rb_buffer = None, rb_buffer_size = 0, rb_block_num = 0, rb_block_size = 0, rb_content_fmt = 0,
                         rb_last_access = 0, rb_is_get = True\<rparr>)"
  define b where "b = b0\<lparr>rb_buffer := Some m, rb_content_fmt := fmt, rb_buffer_size := int (length m), rb_block_num := i, rb_last_access := sv_now c\<rparr>"
  have "res_ok b0 \<and> res_key b0 = (True, cstr url)"
  proof (cases "cache_map (sv_blockwise c) k")
    case (Some b)
    then show ?thesis using cache_map_key [OF c, of "sv_src c" True "cstr url" b] k by (simp add: b0_def)
  qed (simp add: b0_def res_ok_def res_key_def)
  then have sb: "served url m b" by (auto simp: served_def b_def res_ok_def res_key_def)
  then have kb: "k = (sv_src c, res_key b)" "res_ok b" using k by (simp_all add: served_def)
  have "cache_map ps (sv_src c, res_key b) = None" using ps(3) kb(1) by simp
  note ab = add_block_map [OF ps(2) this kb(2)]
  have st: "set_res_blockwise (Some url) (Some m) (int (length m)) i fmt c = Inr (c\<lparr>sv_blockwise := add_block (sv_src c) b ps\<rparr>)"
    using ps(1) by (simp add: set_res_blockwise_def b_def b0_def Let_def)
  show ?thesis using ab ps(3) kb(1) by (intro that [OF st sb]) auto
qed

text \<open>The first answer: the first block of the response, with its length.\<close>

definition first_reply :: "u8 \<Rightarrow> u16 \<Rightarrow> bytes \<Rightarrow> coap_packet \<Rightarrow> coap_packet" where
  "first_reply ret bs out response =
     snd (coap_set_payload (Some (P_Ext out)) (unat bs)
       (coap_set_header_size2 (of_nat (length out)) (snd (coap_set_header_block2 0 1 bs (snd (coap_set_status_code (ucast ret) response))))))"

lemma first_reply_body:
  assumes s: "unat bs = s" "16 \<le> s" "s \<le> REST_MAX_CHUNK_SIZE" "s < length out" and p: "length (cp_options response) = 8"
  shows "block_body (first_reply ret bs out response) = (Inr (piece out s 0), 0, 1)"
    and "coap_get_header_size2 (first_reply ret bs out response) = Some (of_nat (length out))"
proof -
  have big: "\<not> bs < 16" "\<not> bs > 2048" using s by (simp_all add: word_less_nat_alt REST_MAX_CHUNK_SIZE_def)
  have "sref_at buf (Some (P_Ext out)) 0 s = Inr (piece out s 0)" for buf using s by (simp add: sref_at_def sref_view_def piece_def)
  then show "block_body (first_reply ret bs out response) = (Inr (piece out s 0), 0, 1)" using big s
    by (simp add: block_body_def first_reply_def coap_set_payload_def coap_set_header_size2_def coap_set_header_block2_def)
  show "coap_get_header_size2 (first_reply ret bs out response) = Some (of_nat (length out))" using big p
    by (simp add: coap_get_header_size2_def first_reply_def coap_set_payload_def coap_set_header_size2_def coap_set_header_block2_def
        coap_set_status_code_def IS_OPTION_set_opt length_set_opt)
qed

text \<open>A result of a resource handler that is answered.\<close>

definition answers :: "u8 \<Rightarrow> bool" where
  "answers ret \<longleftrightarrow> int (unat ret) \<noteq> MANUAL_RESPONSE \<and> int (unat ret) \<noteq> NOT_IMPLEMENTED_5_01"

lemma serve_get:
  assumes "coap_handle_request_internal env r response = Inr (ret, response1, out)" and "answers ret" and "cp_code r = COAP_GET"
  shows "serve_request env r response c =
    cbind (get_response env r (snd (coap_set_status_code (ucast ret) response1)) out c) (\<lambda>c. Inr (int (unat ret), c))"
proof -
  have "(of_int (int (unat ret)) :: u32) = ucast ret" by (simp add: word_unat_eq_iff unat_of_nat unsigned_ucast_eq take_bit_eq_mod)
  then show ?thesis using assms by (simp add: serve_request_def answers_def Let_def split: option.split)
qed

lemma get_first_block:
  assumes h: "coap_handle_request_internal env r response = Inr (ret, response1, out)" "answers ret" "cp_code r = COAP_GET"
    and b: "block_params (coap_get_header_block2 r) = (0, mr, bs, 0)" "unat bs < length out" "length out < 2 ^ 31"
    and u: "coap_get_full_url_alloc env r = Inr (Some url)" and k: "k = (sv_src c, True, cstr url)"
    and p: "p = first_reply ret bs out response1" "sendable p" "length (wire p) \<le> COAP_MAX_PACKET_SIZE" and c: "cache_ok (sv_blockwise c)"
  obtains c' b where "serve_request env r response c = Inr (int (unat ret), c')" and "served url out b" and "sv_src c' = sv_src c"
    and "sv_tx c' = sv_tx c @ [Tx_Data (sv_src c) (wire p)]" and "cache_ok (sv_blockwise c')" "cache_map (sv_blockwise c') = (cache_map (sv_blockwise c))(k \<mapsto> b)"
proof -
  let ?c = "c\<lparr>sv_tx := sv_tx c @ [Tx_Data (sv_src c) (wire p)]\<rparr>"
  obtain c' b' where s: "set_res_blockwise (Some url) (Some out) (int (length out)) 0 (ucast (cp_content_format p)) ?c = Inr c'" "served url out b'"
    "sv_src c' = sv_src c" "sv_tx c' = sv_tx ?c" "cache_ok (sv_blockwise c')" "cache_map (sv_blockwise c') = (cache_map (sv_blockwise c))(k \<mapsto> b')"
    by (rule set_res_blockwise_map [of ?c k url out 0 "ucast (cp_content_format p)"]) (use c k in simp_all)
  have len: "unat (of_nat (length out) :: u32) = length out" using b(3) by (simp add: unat_of_nat)
  have out: "out \<noteq> []" using b(2) by auto
  have bu: "unat (ucast bs :: u32) = unat bs" using b(2,3) by (simp add: unsigned_ucast_eq take_bit_nat_eq_self)
  have lt: "(ucast bs :: u32) < of_nat (length out)" using b(2) by (simp only: word_less_nat_alt len bu)
  then have mn: "min (of_nat (length out) :: u32) (ucast bs) = ucast bs" by (simp add: min.absorb2 less_imp_le)
  have "get_response env r (snd (coap_set_status_code (ucast ret) response1)) out c = Inr c'"
    using out lt mn s(1) send_response_ok [OF p(2,3), of c] u unfolding p(1) first_reply_def
    by (simp add: get_response_def b(1) bu)
  then show ?thesis using serve_get [OF h] s by (intro that [of c' b']) simp_all
qed

text \<open>C13.  A long response from the server to the client: the first request is answered with the first block and the length of the
  response, and the requests for the blocks that follow with consecutive pieces of the block size, for every block size that a
  request can ask for and every length; each answer has the number of its block and says whether more blocks follow.  Together
  the blocks are the response of the resource handler.\<close>

theorem get_transfer_completes:
  assumes h: "coap_handle_request_internal env (f 0) response = Inr (ret, response1, out)" "answers ret" "cp_code (f 0) = COAP_GET"
    and rs: "\<And>i. i < n \<Longrightarrow> block2_req (f i) (of_nat i) sz \<and> coap_get_full_url_alloc env (f i) = Inr (Some url)"
    and f0: "cp_block2_offset (f 0) = 0" and sz: "16 \<le> sz" "s = min (unat sz) REST_MAX_CHUNK_SIZE"
    and n: "n = blocks s (length out)" "n \<le> 0x100000" "s < length out" "length out < 2 ^ 31"
    and p: "p = first_reply ret (min sz (of_nat REST_MAX_CHUNK_SIZE)) out response1" "sendable p" "length (wire p) \<le> COAP_MAX_PACKET_SIZE"
      "length (cp_options response1) = 8"
    and c: "cache_ok (sv_blockwise c)" and r: "cp_payload response2 \<noteq> None" "length (cp_options response2) = 8"
  shows "\<exists>c1 c2 v vs. serve_request env (f 0) response c = Inr (int (unat ret), c1) \<and>
      sv_tx c1 = sv_tx c @ [Tx_Data (sv_src c) (wire p)] \<and> block_body p = (Inr v, 0, 1) \<and> coap_get_header_size2 p = Some (of_nat (length out)) \<and>
      get_run env (map f [1..<n]) response2 c1 =
        Inr (map (\<lambda>(i, v). (Get_from_Bockwise_Cache, Inr v, of_nat i, if Suc i < n then 1 else 0)) (enumerate 1 vs), c2) \<and>
      v @ concat vs = out \<and> cache_ok (sv_blockwise c2)"
proof -
  let ?bs = "min sz (of_nat REST_MAX_CHUNK_SIZE)"
  have s0: "0 < s" "16 \<le> s" "s \<le> REST_MAX_CHUNK_SIZE" using sz by (simp_all add: word_le_nat_alt REST_MAX_CHUNK_SIZE_def)
  have bs: "unat ?bs = s" by (rule chunk_word [OF sz(2)])
  have n0: "0 < n" "Suc 0 + (n - 1) = n" using blocks_cover [OF s0(1), of "length out"] n by (cases n; simp)+
  obtain mr where bp: "block_params (coap_get_header_block2 (f 0)) = (0, mr, ?bs, 0)"
    using rs [OF n0(1)] f0 by (simp add: block2_req_def coap_get_header_block2_def block_params_def)
  obtain c1 b where st: "serve_request env (f 0) response c = Inr (int (unat ret), c1)" "served url out b" "sv_src c1 = sv_src c"
    "sv_tx c1 = sv_tx c @ [Tx_Data (sv_src c) (wire p)]" "cache_ok (sv_blockwise c1)"
    "cache_map (sv_blockwise c1) = (cache_map (sv_blockwise c))((sv_src c, True, cstr url) \<mapsto> b)"
    by (rule get_first_block [OF h bp _ n(4) _ refl p(1-3) c, of url]) (use bs n(3) rs [OF n0(1)] in simp_all)
  have bm: "cache_map (sv_blockwise c1) (sv_src c1, True, cstr url) = Some b" using st(3,6) by simp
  from get_run_from [where j = "Suc 0" and k = "n - 1", OF rs sz n(1,2,4) r st(5) bm st(2) n0(2)]
  obtain c2 where run: "get_run env (map f [1..<n]) response2 c1 =
      Inr (map (\<lambda>i. (Get_from_Bockwise_Cache, Inr (piece out s i), of_nat i, if Suc i < n then 1 else 0)) [1..<n], c2)" "cache_ok (sv_blockwise c2)"
    using n0(2) by auto
  have en: "enumerate 1 (map (piece out s) [1..<n]) = map (\<lambda>i. (i, piece out s i)) [1..<n]"
    by (intro nth_equalityI) (simp_all add: nth_enumerate_eq)
  have body: "block_body p = (Inr (piece out s 0), 0, 1)" "coap_get_header_size2 p = Some (of_nat (length out))"
    unfolding p(1) using first_reply_body [OF bs s0(2,3) n(3) p(4), of ret] by simp_all
  have "[0..<n] = 0 # [1..<n]" using n0(1) by (simp add: upt_rec)
  then have "piece out s 0 @ concat (map (piece out s) [1..<n]) = out" using pieces_all [OF s0(1), of out] n(1) by simp
  then show ?thesis using st(1,4) body run en
    by (intro exI [of _ c1] exI [of _ c2] exI [of _ "piece out s 0"] exI [of _ "map (piece out s) [1..<n]"]) (simp add: comp_def)
qed

text \<open>Requests for the blocks of \<open>temp\<close>, sixteen bytes each.\<close>

definition ask_block :: "nat \<Rightarrow> coap_packet" where
  "ask_block i = snd (coap_set_header_block2 (of_nat i) 0 16 (at_temp (cp_zero\<lparr>cp_code := COAP_GET\<rparr>)))"

lemma ask_block_req:
  assumes "i < 3"
  shows "block2_req (ask_block i) (of_nat i) 16 \<and> coap_get_full_url_alloc sample_env (ask_block i) = Inr (Some (sample_path @ [0, 0]))"
proof -
  have "block2_req (ask_block 0) (of_nat 0) 16" "block2_req (ask_block 1) (of_nat 1) 16" "block2_req (ask_block 2) (of_nat 2) 16" by code_simp+
  moreover have "coap_get_full_url_alloc sample_env (ask_block 0) = Inr (Some (sample_path @ [0, 0]))"
    "coap_get_full_url_alloc sample_env (ask_block 1) = Inr (Some (sample_path @ [0, 0]))"
    "coap_get_full_url_alloc sample_env (ask_block 2) = Inr (Some (sample_path @ [0, 0]))" by code_simp+
  moreover have "i = 0 \<or> i = 1 \<or> i = 2" using assms by auto
  ultimately show ?thesis by blast
qed

lemma sample_handled: "coap_handle_request_internal sample_env (ask_block i) cp_zero = Inr (69, cp_zero, replicate 40 1)" if "i < 3"
proof -
  have "coap_handle_request_internal sample_env (ask_block 0) cp_zero = Inr (69, cp_zero, replicate 40 1)"
    "coap_handle_request_internal sample_env (ask_block 1) cp_zero = Inr (69, cp_zero, replicate 40 1)"
    "coap_handle_request_internal sample_env (ask_block 2) cp_zero = Inr (69, cp_zero, replicate 40 1)" by code_simp+
  moreover have "i = 0 \<or> i = 1 \<or> i = 2" using that by auto
  ultimately show ?thesis by blast
qed

theorem get_transfer_completes_witness:
  "\<exists>c1 c2 v vs. serve_request sample_env (ask_block 0) cp_zero sample_server = Inr (69, c1) \<and> block_body (first_reply 69 16 (replicate 40 1) cp_zero) = (Inr v, 0, 1) \<and>
     get_run sample_env (map ask_block [1..<3]) (cp_zero\<lparr>cp_payload := Some (P_Ext [])\<rparr>) c1 =
       Inr (map (\<lambda>(i, v). (Get_from_Bockwise_Cache, Inr v, of_nat i, if Suc i < 3 then 1 else 0)) (enumerate 1 vs), c2) \<and>
     v @ concat vs = replicate 40 1"
proof -
  have p: "sendable (first_reply 69 16 (replicate 40 1) cp_zero)" "length (wire (first_reply 69 16 (replicate 40 1) cp_zero)) \<le> COAP_MAX_PACKET_SIZE"
    "answers 69" "cp_code (ask_block 0) = COAP_GET" "cp_block2_offset (ask_block 0) = 0" "16 = min (unat (16 :: u16)) REST_MAX_CHUNK_SIZE"
    "3 = blocks 16 (length (replicate 40 (1 :: u8)))" "length (cp_options cp_zero) = 8" "min 16 (of_nat REST_MAX_CHUNK_SIZE) = (16 :: u16)" by code_simp+
  from get_transfer_completes [where f = ask_block and env = sample_env and response = cp_zero and ?response1.0 = cp_zero and ret = 69 and n = 3 and sz = 16
      and url = "sample_path @ [0, 0]" and s = 16 and out = "replicate 40 1" and c = sample_server and ?response2.0 = "cp_zero\<lparr>cp_payload := Some (P_Ext [])\<rparr>"
      and p = "first_reply 69 16 (replicate 40 1) cp_zero", OF sample_handled p(3,4) ask_block_req p(5) _ p(6,7) _ _ _ _ p(1,2,8) sample_cache_ok]
  show ?thesis using p(8,9) by (fastforce simp del: upt_conv_Cons)
qed

end
