(* ===== verification/Coap_Expire.thy ===== *)
theory Coap_Expire
  imports Coap_Serve
begin

text \<open>
  What the CoAP server does with block numbers behind a response and with transfers that are not continued: a block number
  past the end makes it read behind the response; transfers that have not been used for the time limit are dropped, and
  only those, but the waiting time that the clean-up returns is not the time until the next one is due.
\<close>

section \<open>Blocks behind a response\<close>

lemma wrap_below:
  assumes "a < k" and "k < 2 ^ 31"
  shows "(int a - int k) mod 2 ^ 32 = int a - int k + 2 ^ 32"
proof -
  have "(int a - int k) mod 2 ^ 32 = (int a - int k + 2 ^ 32) mod 2 ^ 32" by (rule mod_add_self2 [symmetric])
  also have "\<dots> = int a - int k + 2 ^ 32" using assms by (intro mod_pos_pos_trivial) simp_all
  finally show ?thesis .
qed

lemma wrapped_big: "k < 2 ^ 31 \<Longrightarrow> m < 65536 \<Longrightarrow> int m < int a - int k + 2 ^ 32"
  by simp

text \<open>C40.  A block offset is not compared with the length of the response: for a first request with an offset behind its end the
  difference wraps around, and the answer is built from memory behind the response.\<close>

theorem get_overread:
  assumes h: "coap_handle_request_internal env r response = Inr (ret, response1, out)" "answers ret" "cp_code r = COAP_GET"
    and b: "block_params (coap_get_header_block2 r) = (num, mr, bs, off)" "0 < bs" "out \<noteq> []" "length out < unat off" "unat off < 2 ^ 31"
    and q: "q = snd (coap_set_payload (Some (P_Ext [])) (unat bs) (coap_set_header_size2 (of_nat (length out))
        (snd (coap_set_header_block2 num 1 bs (snd (coap_set_status_code (ucast ret) response1))))))"
      "head_ok q" "length (wire_head q) \<le> COAP_MAX_HEADER_SIZE"
  shows "serve_request env r response c = Inl Out_Of_Bounds"
proof -
  let ?d = "of_nat (length out) - off :: u32"
  have len: "unat (of_nat (length out) :: u32) = length out" using b(4,5) by (simp add: unat_of_nat)
  have bu: "unat (ucast bs :: u32) = unat bs" "unat bs < 65536"
    using unsigned_less [of bs, where 'a = nat] by (simp_all add: unsigned_ucast_eq take_bit_nat_eq_self)
  have d: "(ucast bs :: u32) < ?d"
  proof -
    let ?x = "int (length out) - int (unat off)"
    have "uint ?d = ?x mod 2 ^ 32" using uint_word_ariths(2) [of "of_nat (length out) :: u32" off] uint_nat [of "of_nat (length out) :: u32"]
      by (simp add: len)
    also have "\<dots> = ?x + 2 ^ 32" by (rule wrap_below [OF b(4,5)])
    finally have "int (unat ?d) = ?x + 2 ^ 32" by (simp only: uint_nat)
    then have "int (unat bs) < int (unat ?d)" using wrapped_big [OF b(5) bu(2)] by (simp only:)
    then show ?thesis using bu(1) by (simp only: word_less_nat_alt of_nat_less_iff)
  qed
  then have mn: "min ?d (ucast bs) = ucast bs" by (simp add: min.absorb2 less_imp_le)
  have "send_response q c = Inl Out_Of_Bounds"
  proof -
    have "cp_payload q = Some (P_Ext [])" "length ([] :: bytes) < cp_payload_len q"
      using b(2) by (simp_all add: q(1) coap_set_payload_def REST_MAX_CHUNK_SIZE_def unat_gt_0)
    from serialize_overread [OF q(2,3) _ this] show ?thesis by (simp add: send_response_def COAP_MAX_PACKET_SIZE_def REST_MAX_CHUNK_SIZE_def)
  qed
  then have "get_response env r (snd (coap_set_status_code (ucast ret) response1)) out c = Inl Out_Of_Bounds"
    using b d mn unfolding q(1) by (simp add: get_response_def bu)
  then show ?thesis using serve_get [OF h] by simp
qed

section \<open>Old transfers\<close>

definition old :: "int \<Rightarrow> int \<Rightarrow> res_block_state \<Rightarrow> bool" where
  "old now t b \<longleftrightarrow> now - int (unat (rb_last_access b)) > t"

text \<open>The comparison with the unset value is a minimum: the unset value is the largest.\<close>

lemma earliest: "(if n = - 1 \<or> n > a then a else n) = min n (a :: u32)"
  using word_order.extremum_unique [of a] by (auto simp: min_def)

lemma drop_old_filter:
  "drop_old now t n bs = (fold (\<lambda>b n. min n (rb_last_access b)) (filter (\<lambda>b. \<not> old now t b) bs) n, filter (\<lambda>b. \<not> old now t b) bs)"
  by (induction bs arbitrary: n) (auto simp: old_def earliest)

definition drop_peers :: "int \<Rightarrow> int \<Rightarrow> peer_block_state list \<Rightarrow> peer_block_state list" where
  "drop_peers now t ps = filter (\<lambda>p. pb_list p \<noteq> []) (map (\<lambda>p. p\<lparr>pb_list := filter (\<lambda>b. \<not> old now t b) (pb_list p)\<rparr>) ps)"

lemma drop_old_peers_filter:
  "drop_old_peers now t n ps =
    (fold (\<lambda>b n. min n (rb_last_access b)) (concat (map pb_list (drop_peers now t ps))) n, drop_peers now t ps)"
  by (induction ps arbitrary: n) (auto simp: drop_old_filter drop_peers_def)

lemma res_map_filter: "distinct (map res_key bs) \<Longrightarrow> res_map (filter P bs) k = (case res_map bs k of Some b \<Rightarrow> if P b then Some b else None | None \<Rightarrow> None)"
  by (induction bs) (auto simp: res_map_notin split: option.split)

lemma cache_ok_drop:
  assumes "cache_ok ps"
  shows "cache_ok (drop_peers now t ps)" and "cache_map (drop_peers now t ps) k = (case cache_map ps k of Some b \<Rightarrow> if old now t b then None else Some b | None \<Rightarrow> None)"
proof -
  have sub: "pb_addr ` set (drop_peers now t qs) \<subseteq> pb_addr ` set qs" for qs by (auto simp: drop_peers_def)
  have "cache_ok (drop_peers now t ps) \<and>
      cache_map (drop_peers now t ps) k = (case cache_map ps k of Some b \<Rightarrow> if old now t b then None else Some b | None \<Rightarrow> None)"
    using assms
  proof (induction ps)
    case Nil
    then show ?case by (simp add: drop_peers_def cache_ok_def)
  next
    case (Cons p ps)
    let ?bs = "filter (\<lambda>b. \<not> old now t b) (pb_list p)"
    have p: "cache_ok ps" "peer_ok p" "pb_addr p \<notin> pb_addr ` set ps" using Cons.prems by (auto simp: cache_ok_def)
    then have ok: "peer_ok (p\<lparr>pb_list := ?bs\<rparr>)" "pb_addr p \<notin> pb_addr ` set (drop_peers now t ps)"
      using sub [of ps] by (auto simp: peer_ok_def list_all_iff distinct_map_filter)
    have m: "res_map ?bs (snd k) = (case res_map (pb_list p) (snd k) of Some b \<Rightarrow> if old now t b then None else Some b | None \<Rightarrow> None)"
      using p(2) res_map_filter [of "pb_list p" "\<lambda>b. \<not> old now t b" "snd k"] by (simp add: peer_ok_def split: option.split)
    have dp: "drop_peers now t (p # ps) = (if ?bs = [] then drop_peers now t ps else p\<lparr>pb_list := ?bs\<rparr> # drop_peers now t ps)"
      by (simp add: drop_peers_def)
    have nk: "fst k = pb_addr p \<Longrightarrow> cache_map (drop_peers now t ps) k = None" using ok(2) by (intro cache_map_notin) simp
    show ?case
    proof (cases "?bs = []")
      case True
      then have "res_map ?bs (snd k) = None" by simp
      then show ?thesis using True dp Cons.IH [OF p(1)] nk m by simp
    next
      case False
      then show ?thesis using dp Cons.IH [OF p(1)] ok m by (simp add: cache_ok_def)
    qed
  qed
  then show "cache_ok (drop_peers now t ps)"
    "cache_map (drop_peers now t ps) k = (case cache_map ps k of Some b \<Rightarrow> if old now t b then None else Some b | None \<Rightarrow> None)" by blast+
qed

text \<open>C30.  The clean-up drops exactly the transfers that have not been used for longer than the limit, and the peers that have none left;
  every other transfer can still be continued.\<close>

theorem blockwise_timeout_spec:
  assumes "cache_ok (sv_blockwise c)" and "check_blockwise_timeout_ms t c = (wait, c')"
  shows "cache_ok (sv_blockwise c') \<and> (\<forall>p \<in> set (sv_blockwise c'). pb_list p \<noteq> []) \<and>
    (\<forall>k. cache_map (sv_blockwise c') k =
      (case cache_map (sv_blockwise c) k of
         None \<Rightarrow> None
       | Some b \<Rightarrow> if int (unat (sv_now c)) - int (unat (rb_last_access b)) > t then None else Some b))"
proof -
  have c': "sv_blockwise c' = drop_peers (int (unat (sv_now c))) t (sv_blockwise c)"
    using assms(2) by (auto simp: check_blockwise_timeout_ms_def drop_old_peers_filter)
  have "\<forall>p \<in> set (sv_blockwise c'). pb_list p \<noteq> []" unfolding c' by (auto simp: drop_peers_def)
  then show ?thesis unfolding c' using cache_ok_drop [OF assms(1), unfolded old_def] by blast
qed

lemma fold_min:
  "fold (\<lambda>b n. min n (rb_last_access b)) bs (n :: u32) \<le> n"
  "b \<in> set bs \<Longrightarrow> fold (\<lambda>b n. min n (rb_last_access b)) bs n \<le> rb_last_access b"
  "fold (\<lambda>b n. min n (rb_last_access b)) bs n \<noteq> n \<Longrightarrow> \<exists>b \<in> set bs. fold (\<lambda>b n. min n (rb_last_access b)) bs n = rb_last_access b"
proof -
  show le: "fold (\<lambda>b n. min n (rb_last_access b)) bs n \<le> n" for n bs
  proof (induction bs arbitrary: n)
    case (Cons b bs)
    have "fold (\<lambda>b n. min n (rb_last_access b)) bs (min n (rb_last_access b)) \<le> min n (rb_last_access b)" by (rule Cons.IH)
    also have "\<dots> \<le> n" by simp
    finally show ?case by simp
  qed simp
  show "b \<in> set bs \<Longrightarrow> fold (\<lambda>b n. min n (rb_last_access b)) bs n \<le> rb_last_access b"
  proof (induction bs arbitrary: n)
    case (Cons a bs)
    then show ?case using le [of bs "min n (rb_last_access a)"] by auto
  qed simp
  show "fold (\<lambda>b n. min n (rb_last_access b)) bs n \<noteq> n \<Longrightarrow> \<exists>b \<in> set bs. fold (\<lambda>b n. min n (rb_last_access b)) bs n = rb_last_access b"
  proof (induction bs arbitrary: n)
    case (Cons b bs)
    then show ?case by (cases "n \<le> rb_last_access b") (fastforce simp: min_def)+
  qed simp
qed

text \<open>The time that the clean-up returns is not the time until the next transfer is due.  While a transfer is kept, it is
  zero when all of them were used in this second, and otherwise a difference below zero taken as an unsigned number: within the
  limit of \<open>2\<^sup>3\<^sup>2\<close> milliseconds, 49 days.\<close>

theorem blockwise_timeout_wait:
  assumes c: "check_blockwise_timeout_ms t c = (wait, c')" "p \<in> set (sv_blockwise c')" "b \<in> set (pb_list p)" "rb_last_access b \<noteq> - 1"
    and now: "\<forall>p \<in> set (sv_blockwise c'). \<forall>b \<in> set (pb_list p). rb_last_access b \<le> sv_now c" and t: "0 \<le> t" "t < 4000000"
  shows "(wait = 0 \<longleftrightarrow> (\<forall>p \<in> set (sv_blockwise c'). \<forall>b \<in> set (pb_list p). rb_last_access b = sv_now c)) \<and>
    (wait = 0 \<or> 2 ^ 32 - 1000 * t \<le> int (unat wait))"
proof -
  define now where "now = int (unat (sv_now c))"
  define bs where "bs = concat (map pb_list (sv_blockwise c'))"
  define n where "n = fold (\<lambda>b n. min n (rb_last_access b)) bs (- 1)"
  have sb: "sv_blockwise c' = drop_peers now t (sv_blockwise c)"
    using c(1) by (auto simp: check_blockwise_timeout_ms_def drop_old_peers_filter now_def)
  have w: "wait = (if n = - 1 then - 1 else of_int ((int (unat n) - now) * 1000))"
    using c(1) unfolding n_def bs_def sb by (auto simp: check_blockwise_timeout_ms_def drop_old_peers_filter now_def)
  have b: "b \<in> set bs" using c(2,3) by (auto simp: bs_def)
  have "n \<le> rb_last_access b" unfolding n_def by (rule fold_min(2) [OF b])
  then have n1: "n \<noteq> - 1" using c(4) by (metis word_order.extremum_unique)
  then obtain b0 where b0: "b0 \<in> set bs" "n = rb_last_access b0" using fold_min(3) [of bs "- 1"] unfolding n_def by blast
  have inbs: "x \<in> set bs \<longleftrightarrow> (\<exists>p \<in> set (sv_blockwise c'). x \<in> set (pb_list p))" for x by (auto simp: bs_def)
  have le: "unat n \<le> unat (sv_now c)" using b0 assms(5) inbs by (auto simp: word_le_nat_alt)
  have "\<not> old now t b0" using b0(1) by (auto simp: bs_def sb drop_peers_def)
  then have g: "now - int (unat n) \<le> t" using b0(2) by (simp add: old_def)
  define d where "d = now - int (unat n)"
  have d: "0 \<le> d" "d \<le> t" unfolding d_def using g le by (simp_all only: now_def of_nat_le_iff diff_ge_0_iff_ge)
  have wd: "wait = of_int (- (d * 1000))" using w n1 by (simp add: d_def algebra_simps)
  have d0: "d = 0 \<longleftrightarrow> (\<forall>p \<in> set (sv_blockwise c'). \<forall>b \<in> set (pb_list p). rb_last_access b = sv_now c)"
  proof
    assume "d = 0"
    then have "n = sv_now c" by (simp add: d_def now_def word_uint_eq_iff)
    then have "rb_last_access x = sv_now c" if "x \<in> set bs" for x
      using fold_min(2) [OF that, of "- 1"] that assms(5) inbs by (fastforce simp: n_def)
    then show "\<forall>p \<in> set (sv_blockwise c'). \<forall>b \<in> set (pb_list p). rb_last_access b = sv_now c" using inbs by blast
  next
    assume "\<forall>p \<in> set (sv_blockwise c'). \<forall>b \<in> set (pb_list p). rb_last_access b = sv_now c"
    then have "n = sv_now c" using b0 inbs by auto
    then show "d = 0" by (simp add: d_def now_def)
  qed
  have "int (unat wait) = 2 ^ 32 - d * 1000" if "d \<noteq> 0"
  proof -
    have "int (unat wait) = uint (word_of_int (- (d * 1000)) :: u32)" unfolding wd by (simp only: uint_nat)
    also have "\<dots> = (- (d * 1000)) mod 2 ^ 32" by (subst uint_word_of_int) simp
    also have "\<dots> = (- (d * 1000) + 2 ^ 32) mod 2 ^ 32" by (rule mod_add_self2 [symmetric])
    also have "\<dots> = - (d * 1000) + 2 ^ 32" using d t that by (intro mod_pos_pos_trivial) simp_all
    finally show ?thesis by simp
  qed
  then have "d \<noteq> 0 \<Longrightarrow> wait \<noteq> 0 \<and> 2 ^ 32 - 1000 * t \<le> int (unat wait)" using d t by fastforce
  moreover have "d = 0 \<Longrightarrow> wait = 0" by (simp add: wd)
  ultimately show ?thesis using d0 by blast
qed

definition far_block :: coap_packet where
  "far_block = (ask_block 5)\<lparr>cp_block2_offset := 80\<rparr>"

theorem get_overread_witness: "serve_request sample_env far_block cp_zero sample_server = Inl Out_Of_Bounds"
proof -
  have h: "coap_handle_request_internal sample_env far_block cp_zero = Inr (69, cp_zero, replicate 40 1)" "answers 69" "cp_code far_block = COAP_GET"
    "block_params (coap_get_header_block2 far_block) = (5, 0, 16, 80)" by code_simp+
  have q: "head_ok (snd (coap_set_payload (Some (P_Ext [])) (unat (16 :: u16)) (coap_set_header_size2 (of_nat (length (replicate 40 (1 :: u8))))
        (snd (coap_set_header_block2 5 1 16 (snd (coap_set_status_code (ucast (69 :: u8)) cp_zero)))))))"
    "length (wire_head (snd (coap_set_payload (Some (P_Ext [])) (unat (16 :: u16)) (coap_set_header_size2 (of_nat (length (replicate 40 (1 :: u8))))
        (snd (coap_set_header_block2 5 1 16 (snd (coap_set_status_code (ucast (69 :: u8)) cp_zero)))))))) \<le> COAP_MAX_HEADER_SIZE" by code_simp+
  show ?thesis by (rule get_overread [OF h _ _ _ _ refl q]) simp_all
qed

text \<open>Two transfers, of which one is old after five seconds.\<close>

definition sample_transfer :: "bytes \<Rightarrow> u32 \<Rightarrow> res_block_state" where
  "sample_transfer url access = \<lparr>rb_url = Some url, rb_buffer = Some [], rb_buffer_size = 0, rb_block_num = 0, rb_block_size = 0, rb_content_fmt = 0,
     rb_last_access = access, rb_is_get = True\<rparr>"

definition busy_server :: server_ctx where
  "busy_server = sample_server\<lparr>sv_blockwise := [\<lparr>pb_addr = [10, 0], pb_list = [sample_transfer [97, 0] 90, sample_transfer [98, 0] 97]\<rparr>]\<rparr>"

definition idle_server :: server_ctx where
  "idle_server = sample_server\<lparr>sv_blockwise := [\<lparr>pb_addr = [10, 0], pb_list = [sample_transfer [98, 0] 97]\<rparr>]\<rparr>"

lemma busy_timeout: "check_blockwise_timeout_ms 5 busy_server = (4294964296, idle_server)"
  by code_simp

theorem blockwise_timeout_spec_witness:
  "cache_ok (sv_blockwise idle_server) \<and> cache_map (sv_blockwise idle_server) ([10, 0], True, [97]) = None \<and>
   cache_map (sv_blockwise idle_server) ([10, 0], True, [98]) = Some (sample_transfer [98, 0] 97)"
proof -
  have ok: "cache_ok (sv_blockwise busy_server)" by code_simp
  have l: "cache_map (sv_blockwise busy_server) ([10, 0], True, [97]) = Some (sample_transfer [97, 0] 90)"
    "cache_map (sv_blockwise busy_server) ([10, 0], True, [98]) = Some (sample_transfer [98, 0] 97)" 
    "unat (sv_now busy_server) = 100" "unat (rb_last_access (sample_transfer [97, 0] 90)) = 90" "unat (rb_last_access (sample_transfer [98, 0] 97)) = 97" by code_simp+
  show ?thesis using blockwise_timeout_spec [OF ok busy_timeout] l by simp
qed

theorem blockwise_timeout_wait_witness:
  "\<exists>wait c'. check_blockwise_timeout_ms 5 busy_server = (wait, c') \<and> (wait = 0 \<or> 2 ^ 32 - 1000 * 5 \<le> int (unat wait))"
proof -
  have b: "\<lparr>pb_addr = [10, 0], pb_list = [sample_transfer [98, 0] 97]\<rparr> \<in> set (sv_blockwise idle_server)"
    "sample_transfer [98, 0] 97 \<in> set (pb_list \<lparr>pb_addr = [10, 0], pb_list = [sample_transfer [98, 0] 97]\<rparr>)" by (simp_all add: idle_server_def)
  have n: "rb_last_access (sample_transfer [98, 0] 97) \<noteq> - 1" by code_simp
  have a: "\<forall>p \<in> set (sv_blockwise idle_server). \<forall>b \<in> set (pb_list p). rb_last_access b \<le> sv_now busy_server" by code_simp
  have "0 \<le> (5 :: int)" "(5 :: int) < 4000000" by simp_all
  from blockwise_timeout_wait [OF busy_timeout b n a this] show ?thesis using busy_timeout by blast
qed

end
