(* ===== verification/Agent_Session.thy ===== *)
theory Agent_Session
  imports Ilink_Frame Transactions
begin

text \<open>
  The cloud session of the agent: the handshake (\<open>src/framework/iagent-core/src/handshake.c\<close>), the
  provisioning of its identifier (\<open>provision.c\<close>), the keep-alive (\<open>ping.c\<close>), and the connection
  status and the sender thread (\<open>platforms/linux/ibroker_send.c\<close>), in the build that defines
  \<open>BUILTIN_IBROKER\<close> and \<open>RUN_AS_BROKER_MODULE\<close>.

  One record holds the global variables of these files.  The outgoing queue is its content, as the
  contract of the message queue has it; calls of other modules are appended to a list of events.  The
  clock is an argument: the value \<open>bh_get_tick_sec\<close> returns, one argument for every moment at which a
  function reads it.  \<open>ini_save\<close> stands for \<open>set_ini_key\<close> and the ini file parser: what is read back
  after an identifier was saved, \<open>None\<close> when the file cannot be read.
\<close>

section \<open>State\<close>

datatype handshake_status = S_Unit | S_First_Shake_Sent | S_Second_Shake_Sent | S_Failed | S_Success

record handshake_ctx =
  hs_status :: handshake_status
  hs_last_handshake :: u64
  hs_resend_cnt :: int
  hs_reason :: bytes

datatype cloud_status = iReady_To_Connect | iError_In_Connection | iSocket_Connected | iCloud_Provisioning
  | iCloud_Handshaking | iReady_For_Work

definition status_code :: "cloud_status \<Rightarrow> int" where
  "status_code s = (case s of iReady_To_Connect \<Rightarrow> 0 | iError_In_Connection \<Rightarrow> 1 | iSocket_Connected \<Rightarrow> 98
     | iCloud_Provisioning \<Rightarrow> 99 | iCloud_Handshaking \<Rightarrow> 100 | iReady_For_Work \<Rightarrow> 101)"

datatype agent_event =
    Call_Init_Resource_Directory
  | Call_Enable_Rd_Report
  | Call_Report_Rd
  | Call_Ams_Set_Product_Id bytes
  | Call_Ams_Add bytes bytes bool
  | Call_Settimeofday u32 u32
  | Call_Broad_Cloud_Status cloud_status
  | Call_Wakeup_Main_Thread
  | Call_Reboot

record agent =
  ag_handshake :: handshake_ctx
  ag_last_prov :: u64
  ag_provision_resend_cnt :: int
  ag_last_ping :: u64
  ag_ping_resend_cnt :: int
  ag_ping_expiry_sec :: int
  ag_cloud_status :: cloud_status
  ag_status_changed :: bool
  ag_status_change_time :: u64
  ag_max_connect_duration :: int
  ag_my_agent_id :: "bytes option"
  ag_ini_id :: "bytes option"
  ag_ilink_ctx :: sync_ctx
  ag_cloud_queue :: "bytes list"
  ag_cloud_sock :: "nat option"
  ag_next_try_time :: int
  ag_events :: "agent_event list"
  ag_wire :: bytes

definition K_TAG :: bytes where "K_TAG = str ''_tag''"
definition TAG_HANDSHAKE1 :: bytes where "TAG_HANDSHAKE1 = str ''handshake1''"
definition TAG_HANDSHAKE2 :: bytes where "TAG_HANDSHAKE2 = str ''handshake2''"
definition TAG_KEY_PROVISION :: bytes where "TAG_KEY_PROVISION = str ''key-prov''"
definition TAG_PING :: bytes where "TAG_PING = str ''ping''"
definition K_AGENT_ID :: bytes where "K_AGENT_ID = str ''_aid''"
definition K_EP :: bytes where "K_EP = str ''_ep''"
definition K_RESPONSE :: bytes where "K_RESPONSE = str ''_re''"
definition K_CLOUD_TM_SEC :: bytes where "K_CLOUD_TM_SEC = str ''_epoch_seconds''"
definition K_CLOUD_TM_MIC :: bytes where "K_CLOUD_TM_MIC = str ''_micro''"
definition COAP_OVER_TCP :: u32 where "COAP_OVER_TCP = 0"
definition INTEL_IAGENT :: u32 where "INTEL_IAGENT = 4"
definition COMMENT_SETTING :: u32 where "COMMENT_SETTING = 6"
definition REQUIRE_2ND_HANDSHAKE :: u32 where "REQUIRE_2ND_HANDSHAKE = 100"
definition TT_DEVICE :: bytes where "TT_DEVICE = str ''device''"
definition TT_DEVICE_ON_GW :: bytes where "TT_DEVICE_ON_GW = str ''device_on_gateway''"

section \<open>Sending and the connection status\<close>

definition emit :: "agent_event list \<Rightarrow> agent \<Rightarrow> agent" where
  "emit evs ag = ag\<lparr>ag_events := ag_events ag @ evs\<rparr>"

text \<open>\<open>post_msg\<close> on the content of the cloud queue, which holds at most 100 messages.\<close>

definition ilink_send :: "bytes \<Rightarrow> agent \<Rightarrow> agent" where
  "ilink_send frame ag =
     (if length (ag_cloud_queue ag) < 100 then ag\<lparr>ag_cloud_queue := ag_cloud_queue ag @ [frame]\<rparr> else ag)"

definition ilink_msg_send :: "ilink_message \<Rightarrow> agent \<Rightarrow> agent cres" where
  "ilink_msg_send msg ag = cbind (compose_ilink_frame msg) (\<lambda>frame. Inr (ilink_send frame ag))"

definition set_cloud_connection_status :: "u64 \<Rightarrow> cloud_status \<Rightarrow> agent \<Rightarrow> agent" where
  "set_cloud_connection_status now status ag =
     (let old = ag_cloud_status ag;
          ag = ag\<lparr>ag_status_change_time := now, ag_status_changed := (old \<noteq> status)\<rparr>;
          ag = (if iReady_For_Work = status \<and> iReady_For_Work \<noteq> old \<or> iReady_For_Work \<noteq> status \<and> iReady_For_Work = old
                then emit [Call_Broad_Cloud_Status status] ag else ag)
      in ag\<lparr>ag_cloud_status := status\<rparr>)"

definition prepare_reconnect_cloud :: "u64 \<Rightarrow> agent \<Rightarrow> agent" where
  "prepare_reconnect_cloud now ag =
     (if ag_cloud_status ag \<noteq> iReady_To_Connect
      then emit [Call_Wakeup_Main_Thread] (set_cloud_connection_status now iError_In_Connection ag) else ag)"

section \<open>The agent identifier\<close>

definition save_iagent_id :: "(bytes \<Rightarrow> bytes option) \<Rightarrow> bytes \<Rightarrow> agent \<Rightarrow> agent" where
  "save_iagent_id ini_save i ag = ag\<lparr>ag_ini_id := ini_save i\<rparr>"

definition load_iagent_id :: "agent \<Rightarrow> agent" where
  "load_iagent_id ag = ag\<lparr>ag_my_agent_id := ag_ini_id ag\<rparr>"

definition get_self_agent_id :: "agent \<Rightarrow> bytes option" where
  "get_self_agent_id ag = ag_my_agent_id ag"

definition is_my_agent_id :: "bytes \<Rightarrow> agent \<Rightarrow> bool" where
  "is_my_agent_id i ag = (case get_self_agent_id ag of None \<Rightarrow> True | Some aid \<Rightarrow> aid = i)"

section \<open>The handshake\<close>

definition post_handshake_action :: "agent \<Rightarrow> agent cres" where
  "post_handshake_action ag =
     (let ag = load_iagent_id (emit [Call_Init_Resource_Directory, Call_Enable_Rd_Report, Call_Report_Rd] ag) in
      case ag_my_agent_id ag of
        None \<Rightarrow> Inr ag
      | Some iagent_id \<Rightarrow>
          cbind (deref (get_self_agent_id ag)) (\<lambda>self.
          Inr (emit [Call_Ams_Set_Product_Id self, Call_Ams_Add TT_DEVICE iagent_id True, Call_Ams_Add TT_DEVICE_ON_GW self False] ag)))"

definition handshake_done :: "agent \<Rightarrow> bool" where
  "handshake_done ag \<longleftrightarrow> hs_status (ag_handshake ag) = S_Success"

definition init_handshake :: "agent \<Rightarrow> agent" where
  "init_handshake ag = ag\<lparr>ag_handshake := \<lparr>hs_status = S_Unit, hs_last_handshake = 0, hs_resend_cnt = 0, hs_reason = []\<rparr>\<rparr>"

text \<open>The message both handshakes build: \<open>None\<close> when no node could be added to the variable header.  The
  copy of the identifier dereferences it.\<close>

definition handshake_message :: "bytes \<Rightarrow> u32 \<Rightarrow> bytes option \<Rightarrow> ilink_message option cres" where
  "handshake_message tag mid self_id =
     (let msg = ilink_set_req_resp True (ucast mid) (init_ilink_message INTEL_IAGENT) in
      case vheader_find_node \<lparr>vh_num = 0, vh_nodes = [], vh_increase_num = 0\<rparr> K_TAG True False of
        (None, vh) \<Rightarrow> Inr None
      | (Some i, vh) \<Rightarrow>
          (case vheader_find_node (vh_upd_node vh i (\<lambda>n. vheader_set_node_str n tag False)) K_AGENT_ID True False of
             (None, vh) \<Rightarrow> Inr None
           | (Some j, vh) \<Rightarrow>
               cbind (deref self_id) (\<lambda>self.
               map_sum id Some (ilink_set_vheader (vh_upd_node vh j (\<lambda>n. vheader_set_node_str n self True)) msg))))"

definition send_handshake :: "bytes \<Rightarrow> handshake_status \<Rightarrow> u64 \<Rightarrow> agent \<Rightarrow> agent cres" where
  "send_handshake tag status now ag =
     (let (mid, ctx) = bh_gen_id (ag_ilink_ctx ag); ag = ag\<lparr>ag_ilink_ctx := ctx\<rparr> in
      cbind (handshake_message tag mid (get_self_agent_id ag)) (\<lambda>r.
      case r of
        None \<Rightarrow> Inr ag
      | Some msg \<Rightarrow>
          cbind (ilink_msg_send msg ag) (\<lambda>ag.
          Inr (ag\<lparr>ag_handshake := (ag_handshake ag)
            \<lparr>hs_resend_cnt := hs_resend_cnt (ag_handshake ag) + 1, hs_status := status, hs_last_handshake := now\<rparr>\<rparr>))))"

definition first_handshake :: "u64 \<Rightarrow> agent \<Rightarrow> agent cres" where
  "first_handshake = send_handshake TAG_HANDSHAKE1 S_First_Shake_Sent"

definition second_handshake :: "u64 \<Rightarrow> agent \<Rightarrow> agent cres" where
  "second_handshake = send_handshake TAG_HANDSHAKE2 S_Second_Shake_Sent"

definition set_shake :: "handshake_status \<Rightarrow> string \<Rightarrow> agent \<Rightarrow> agent" where
  "set_shake status reason ag = ag\<lparr>ag_handshake := (ag_handshake ag)\<lparr>hs_status := status, hs_reason := str reason\<rparr>\<rparr>"

definition on_handshake_message :: "u64 \<Rightarrow> ilink_message \<Rightarrow> agent \<Rightarrow> agent cres" where
  "on_handshake_message now message ag =
     cbind (get_key_value message K_TAG) (\<lambda>tag.
     if tag = Some TAG_HANDSHAKE1 then
       if hs_status (ag_handshake ag) \<noteq> S_First_Shake_Sent then Inr ag
       else
         cbind (get_key_value_i message K_RESPONSE) (\<lambda>r.
         case r of
           None \<Rightarrow> Inr (set_shake S_Failed ''no response field'' ag)
         | Some response \<Rightarrow>
             if response = 0 then Inr (set_shake S_Failed ''server reject'' ag)
             else if response = REQUIRE_2ND_HANDSHAKE then second_handshake now ag
             else post_handshake_action (set_cloud_connection_status now iReady_For_Work (set_shake S_Success ''success'' ag)))
     else if tag = Some TAG_HANDSHAKE2 then
       if hs_status (ag_handshake ag) \<noteq> S_Second_Shake_Sent then Inr ag
       else
         (let ag = set_cloud_connection_status now iReady_For_Work (set_shake S_Success ''success'' ag);
              ag = ag\<lparr>ag_handshake := (ag_handshake ag)\<lparr>hs_last_handshake := now\<rparr>\<rparr> in
          cbind (get_key_value_i message K_CLOUD_TM_SEC) (\<lambda>sec.
          cbind (if sec = None then Inr None else get_key_value_i message K_CLOUD_TM_MIC) (\<lambda>mic.
          post_handshake_action
            (case (sec, mic) of (Some s, Some u) \<Rightarrow> emit [Call_Settimeofday s u] ag | _ \<Rightarrow> ag))))
     else Inr ag)"

definition g_handshake_expiry :: int where "g_handshake_expiry = 15"

text \<open>The time left, as the conversion of an unsigned 64 bit value to \<open>int\<close> yields it.\<close>

definition time_left :: "u64 \<Rightarrow> int \<Rightarrow> u64 \<Rightarrow> int" where
  "time_left since expiry t = sint (ucast ((since + of_int expiry - t) * 1000) :: u32)"

text \<open>Returns the next timeout in milliseconds, -1 to disconnect the socket.\<close>

definition check_handshake_timeout :: "u64 \<Rightarrow> u64 \<Rightarrow> agent \<Rightarrow> (int \<times> agent) cres" where
  "check_handshake_timeout t now ag =
     (if t > hs_last_handshake (ag_handshake ag) + of_int g_handshake_expiry then
        if hs_resend_cnt (ag_handshake ag) > 5 then
          Inr (-1, init_handshake (set_cloud_connection_status now iReady_To_Connect ag))
        else cbind (first_handshake now ag) (\<lambda>ag. Inr (g_handshake_expiry * 1000, ag))
      else Inr (time_left (hs_last_handshake (ag_handshake ag)) g_handshake_expiry t, ag))"

section \<open>Provisioning\<close>

definition init_provision :: "u64 \<Rightarrow> agent \<Rightarrow> agent cres" where
  "init_provision now ag =
     cbind (ilink_set_vheader (vheader_set_value_s (vheader_init 1 0) K_TAG TAG_KEY_PROVISION) (init_ilink_message INTEL_IAGENT)) (\<lambda>msg.
     cbind (ilink_msg_send msg ag) (\<lambda>ag.
     Inr (ag\<lparr>ag_provision_resend_cnt := ag_provision_resend_cnt ag + 1, ag_last_prov := now\<rparr>)))"

definition on_prov_message :: "(bytes \<Rightarrow> bytes option) \<Rightarrow> u64 \<Rightarrow> ilink_message \<Rightarrow> agent \<Rightarrow> agent cres" where
  "on_prov_message ini_save now message ag =
     (if ag_cloud_status ag \<noteq> iCloud_Provisioning then Inr ag
      else
        cbind (get_key_value message K_TAG) (\<lambda>tag.
        if tag = None then Inr ag
        else if tag \<noteq> Some TAG_KEY_PROVISION then Inl Assert_Failed
        else
          cbind (get_key_value_i message K_RESPONSE) (\<lambda>response.
          if response = None \<or> response = Some 0 then Inr ag
          else
            cbind (get_key_value message K_AGENT_ID) (\<lambda>i.
            let ag = (case i of None \<Rightarrow> ag | Some i \<Rightarrow> load_iagent_id (save_iagent_id ini_save i ag)) in
            case get_self_agent_id ag of
              None \<Rightarrow> Inr ag
            | Some self \<Rightarrow>
                first_handshake now (init_handshake (set_cloud_connection_status now iCloud_Handshaking
                  (emit [Call_Ams_Set_Product_Id self, Call_Ams_Add TT_DEVICE self True]
                    (ag\<lparr>ag_provision_resend_cnt := 0\<rparr>))))))))"

definition g_prov_expiry :: int where "g_prov_expiry = 15"

definition check_provision_timeout :: "u64 \<Rightarrow> u64 \<Rightarrow> agent \<Rightarrow> (int \<times> agent) cres" where
  "check_provision_timeout t now ag =
     (if t > ag_last_prov ag + of_int g_prov_expiry then
        if ag_provision_resend_cnt ag > 5 then Inr (-1, set_cloud_connection_status now iReady_To_Connect ag)
        else cbind (init_provision now ag) (\<lambda>ag. Inr (g_prov_expiry * 1000, ag))
      else Inr (time_left (ag_last_prov ag) g_prov_expiry t, ag))"

section \<open>The keep-alive\<close>

definition init_ping :: "u64 \<Rightarrow> agent \<Rightarrow> agent cres" where
  "init_ping now ag =
     (let (mid, ctx) = bh_gen_id (ag_ilink_ctx ag); ag = ag\<lparr>ag_ilink_ctx := ctx\<rparr> in
      cbind (ilink_set_vheader (vheader_set_value_s (vheader_init 1 0) K_TAG TAG_PING)
        (ilink_set_req_resp True (ucast mid) (init_ilink_message INTEL_IAGENT))) (\<lambda>msg.
      cbind (ilink_msg_send msg ag) (\<lambda>ag.
      Inr (ag\<lparr>ag_ping_resend_cnt := ag_ping_resend_cnt ag + 1, ag_last_ping := now\<rparr>))))"

definition check_ping_timeout :: "u64 \<Rightarrow> u64 \<Rightarrow> agent \<Rightarrow> (int \<times> agent) cres" where
  "check_ping_timeout t now ag =
     (if ag_cloud_status ag \<noteq> iReady_For_Work then Inl Assert_Failed
      else if t \<ge> ag_last_ping ag + of_int (ag_ping_expiry_sec ag) then
        if ag_ping_resend_cnt ag \<ge> 3 then
          Inr (-1, (prepare_reconnect_cloud now ag)\<lparr>ag_ping_resend_cnt := 0, ag_last_ping := 0\<rparr>)
        else cbind (init_ping now ag) (\<lambda>ag. Inr (ag_ping_expiry_sec ag * 1000, ag))
      else Inr (time_left (ag_last_ping ag) (ag_ping_expiry_sec ag) t, ag))"

definition on_ping_message :: "agent \<Rightarrow> agent" where
  "on_ping_message ag = ag\<lparr>ag_ping_resend_cnt := 0\<rparr>"

end
