(* ===== verification/Agent_Link.thy ===== *)
theory Agent_Link
  imports Agent_Session
begin

text \<open>
  The two threads of the cloud link: the sender thread of \<open>platforms/linux/ibroker_send.c\<close> with the
  connection setup, and the loop of the port handler of \<open>platforms/linux/ports_handler.c\<close> with the
  dispatch of received messages of \<open>src/ilink_handler.c\<close>.

  What the socket calls return is an argument; \<open>ag_wire\<close> holds the bytes the connected socket accepted.
  The handler of CoAP messages is an argument of the dispatch.
\<close>

section \<open>The sender thread\<close>

text \<open>The result of one \<open>send\<close>: the number of bytes accepted, or the kind of \<open>errno\<close>.\<close>

datatype send_ret = Send_Ok nat | Send_Conn_Reset | Send_Again | Send_Other

text \<open>\<open>send_cloud_msg\<close> from its label \<open>resend\<close>; \<open>res cnt\<close> is the result of the try number \<open>cnt\<close>.\<close>

function send_loop :: "(nat \<Rightarrow> send_ret) \<Rightarrow> u64 \<Rightarrow> bytes \<Rightarrow> nat \<Rightarrow> agent \<Rightarrow> bool \<times> agent" where
  "send_loop res now msg cnt ag =
     (case res cnt of
        Send_Ok n \<Rightarrow> (n = length msg, ag\<lparr>ag_wire := ag_wire ag @ take n msg\<rparr>)
      | Send_Conn_Reset \<Rightarrow> (False, prepare_reconnect_cloud now ag)
      | Send_Again \<Rightarrow>
          if cnt + 1 > 10 then (False, prepare_reconnect_cloud now ag) else send_loop res now msg (cnt + 1) ag
      | Send_Other \<Rightarrow> (False, ag))"
  by pat_completeness auto
termination by (relation "measure (\<lambda>(res, now, msg, cnt, ag). 11 - cnt)") auto

definition send_cloud_msg :: "(nat \<Rightarrow> send_ret) \<Rightarrow> u64 \<Rightarrow> bytes \<Rightarrow> agent \<Rightarrow> (bool \<times> agent) cres" where
  "send_cloud_msg res now msg ag =
     (if ag_cloud_sock ag = None then Inl Assert_Failed else Inr (send_loop res now msg 0 ag))"

text \<open>The settings read from the ini file: the keep-alive interval and the reconnect limit.\<close>

definition load_ini :: "(int \<times> int) option \<Rightarrow> agent \<Rightarrow> agent" where
  "load_ini ini ag =
     (case ini of
        None \<Rightarrow> ag
      | Some (ping_expiry_sec, reconnect_sec) \<Rightarrow>
          ag\<lparr>ag_ping_expiry_sec := ping_expiry_sec,
             ag_max_connect_duration := (if reconnect_sec < 60 * 10 \<and> reconnect_sec \<noteq> 0 then 60 * 10 else reconnect_sec)\<rparr>)"

text \<open>What \<open>socket\<close>, \<open>gethostbyname\<close> and \<open>connect\<close> return, with the descriptor.\<close>

datatype connect_ret = Socket_Failed | Host_Failed nat | Connect_Failed nat | Connected nat

definition setup_cloud_connect :: "connect_ret \<Rightarrow> u64 \<Rightarrow> agent \<Rightarrow> bool \<times> agent" where
  "setup_cloud_connect conn now ag =
     (case conn of
        Socket_Failed \<Rightarrow> (False, ag\<lparr>ag_cloud_sock := None, ag_wire := []\<rparr>)
      | Host_Failed s \<Rightarrow> (False, ag\<lparr>ag_cloud_sock := Some s, ag_wire := []\<rparr>)
      | Connect_Failed s \<Rightarrow> (False, ag\<lparr>ag_cloud_sock := Some s, ag_wire := []\<rparr>)
      | Connected s \<Rightarrow>
          (True, emit [Call_Wakeup_Main_Thread]
             (set_cloud_connection_status now iSocket_Connected (ag\<lparr>ag_cloud_sock := Some s, ag_wire := []\<rparr>))))"

text \<open>The messages sent first on a new connection, before the status is set.\<close>

definition first_contact :: "u64 \<Rightarrow> agent \<Rightarrow> (cloud_status \<times> agent) cres" where
  "first_contact now ag =
     (if get_self_agent_id ag = None
      then map_sum id (Pair iCloud_Provisioning) (init_provision now (set_cloud_connection_status now iCloud_Provisioning ag))
      else map_sum id (Pair iCloud_Handshaking) (first_handshake now (init_handshake ag)))"

definition first_contact_end :: "u64 \<Rightarrow> cloud_status \<Rightarrow> agent \<Rightarrow> agent" where
  "first_contact_end now status ag =
     (if status = iCloud_Handshaking then set_cloud_connection_status now iCloud_Handshaking ag else ag)"

text \<open>The connection part of the sender's loop; the result says whether the iteration goes on to the
  queue.\<close>

definition sender_connect :: "(int \<times> int) option \<Rightarrow> connect_ret \<Rightarrow> u64 \<Rightarrow> u64 \<Rightarrow> agent \<Rightarrow> (bool \<times> agent) cres" where
  "sender_connect ini conn t now ag =
     (if status_code (ag_cloud_status ag) < status_code iSocket_Connected \<and> sint t > ag_next_try_time ag then
        let ag = ag\<lparr>ag_next_try_time := sint t + 10\<rparr> in
        if ag_cloud_status ag \<noteq> iReady_To_Connect then Inr (True, ag)
        else
          let ag = load_ini ini ag;
              ag = (if sint (t - ag_status_change_time ag) > ag_max_connect_duration ag \<and> ag_max_connect_duration ag \<noteq> 0
                    then emit [Call_Reboot] ag else ag)
          in case setup_cloud_connect conn now ag of
               (False, ag) \<Rightarrow> Inr (False, ag\<lparr>ag_next_try_time := sint t + 60\<rparr>)
             | (True, ag) \<Rightarrow>
                 cbind (first_contact now ag) (\<lambda>(status, ag). Inr (True, first_contact_end now status ag))
      else Inr (True, ag))"

definition sender_queue :: "(nat \<Rightarrow> send_ret) \<Rightarrow> u64 \<Rightarrow> agent \<Rightarrow> agent cres" where
  "sender_queue res now ag =
     (case ag_cloud_queue ag of
        [] \<Rightarrow> Inr ag
      | msg # q \<Rightarrow>
          let ag = ag\<lparr>ag_cloud_queue := q\<rparr> in
          if status_code (ag_cloud_status ag) > status_code iSocket_Connected
          then cbind (send_cloud_msg res now msg ag) (\<lambda>(_, ag). Inr ag)
          else Inr ag)"

definition thread_ilink_sender ::
  "(int \<times> int) option \<Rightarrow> connect_ret \<Rightarrow> (nat \<Rightarrow> send_ret) \<Rightarrow> u64 \<Rightarrow> u64 \<Rightarrow> agent \<Rightarrow> agent cres" where
  "thread_ilink_sender ini conn res t now ag =
     cbind (sender_connect ini conn t now ag) (\<lambda>(go, ag). if go then sender_queue res now ag else Inr ag)"

section \<open>Received messages\<close>

definition handle_type_iagent :: "(bytes \<Rightarrow> bytes option) \<Rightarrow> u64 \<Rightarrow> ilink_message \<Rightarrow> agent \<Rightarrow> (int \<times> agent) cres" where
  "handle_type_iagent ini_save now message ag =
     cbind (get_key_value message K_TAG) (\<lambda>tag.
     case tag of
       None \<Rightarrow> Inr (0, ag)
     | Some tag \<Rightarrow>
         map_sum id (Pair 0)
           (if take 9 tag = str ''handshake'' then on_handshake_message now message ag
            else if tag = TAG_KEY_PROVISION then on_prov_message ini_save now message ag
            else if tag = TAG_PING then Inr (on_ping_message ag)
            else Inr ag))"

definition send_to_sub_agent :: "bytes \<Rightarrow> int" where
  "send_to_sub_agent agent = 0"

type_synonym coap_handler = "ilink_message \<Rightarrow> agent \<Rightarrow> (int \<times> agent) cres"

definition handle_ilink_message ::
  "coap_handler \<Rightarrow> (bytes \<Rightarrow> bytes option) \<Rightarrow> u64 \<Rightarrow> ilink_message \<Rightarrow> agent \<Rightarrow> (int \<times> agent) cres" where
  "handle_ilink_message handle_coap ini_save now msg ag =
     (if im_msgType msg \<noteq> INTEL_IAGENT \<and> \<not> handshake_done ag then Inr (-1, ag)
      else if im_vheader msg = None then Inr (-1, ag)
      else
        cbind (get_key_value msg K_AGENT_ID) (\<lambda>agent.
        case agent of
          Some a \<Rightarrow>
            if \<not> is_my_agent_id a ag then Inr (send_to_sub_agent a, ag)
            else if im_msgType msg = COAP_OVER_TCP then handle_coap msg ag
            else if im_msgType msg = INTEL_IAGENT then handle_type_iagent ini_save now msg ag
            else Inr (if im_msgType msg \<le> COMMENT_SETTING then 0 else -1, ag)
        | None \<Rightarrow>
            if im_msgType msg = COAP_OVER_TCP then handle_coap msg ag
            else if im_msgType msg = INTEL_IAGENT then handle_type_iagent ini_save now msg ag
            else Inr (if im_msgType msg \<le> COMMENT_SETTING then 0 else -1, ag)))"

fun handle_messages ::
  "coap_handler \<Rightarrow> (bytes \<Rightarrow> bytes option) \<Rightarrow> u64 \<Rightarrow> ilink_message list \<Rightarrow> agent \<Rightarrow> agent cres" where
  "handle_messages handle_coap ini_save now [] ag = Inr ag"
| "handle_messages handle_coap ini_save now (m # ms) ag =
     cbind (handle_ilink_message handle_coap ini_save now m ag) (\<lambda>(_, ag). handle_messages handle_coap ini_save now ms ag)"

section \<open>The port handler\<close>

text \<open>\<open>if (next > 0 && (next_expiry_ms == -1 || next < next_expiry_ms)) next_expiry_ms = next\<close>.\<close>

definition min_expiry :: "int \<Rightarrow> u32 \<Rightarrow> u32" where
  "min_expiry next e = (if next > 0 \<and> (e = -1 \<or> of_int next < e) then of_int next else e)"

text \<open>The same for the unsigned results of the CoAP engine.\<close>

definition min_expiry_u :: "u32 \<Rightarrow> u32 \<Rightarrow> u32" where
  "min_expiry_u next e = (if next \<noteq> -1 \<and> (e = -1 \<or> next < e) then next else e)"

text \<open>The timers of the cloud link in one iteration of the loop.  \<open>ms\<close> is the millisecond clock of the
  transactions, \<open>t\<close> and \<open>now\<close> the clock in seconds.\<close>

definition link_timers :: "u64 \<Rightarrow> u64 \<Rightarrow> u64 \<Rightarrow> agent \<Rightarrow> (u32 \<times> agent \<times> trans_event list) cres" where
  "link_timers ms t now ag =
     (case bh_handle_expired_trans ms (ag_ilink_ctx ag) of
        (e, ctx, evs) \<Rightarrow>
          let ag = ag\<lparr>ag_ilink_ctx := ctx\<rparr> in
          cbind (if ag_cloud_status ag = iCloud_Provisioning
                 then cbind (check_provision_timeout t now ag) (\<lambda>(next, ag). Inr (min_expiry next e, ag)) else Inr (e, ag)) (\<lambda>(e, ag).
          cbind (if ag_cloud_status ag = iCloud_Handshaking \<and> \<not> handshake_done ag
                 then cbind (check_handshake_timeout t now ag) (\<lambda>(next, ag). Inr (min_expiry next e, ag)) else Inr (e, ag)) (\<lambda>(e, ag).
          cbind (if ag_cloud_status ag = iReady_For_Work
                 then cbind (check_ping_timeout t now ag) (\<lambda>(next, ag). Inr (min_expiry next e, ag)) else Inr (e, ag)) (\<lambda>(e, ag).
          Inr (e, if ag_cloud_status ag = iError_In_Connection then set_cloud_connection_status now iReady_To_Connect ag else ag, evs)))))"

text \<open>The timeout of \<open>select\<close> in milliseconds, with the results of the CoAP engine's own timers.\<close>

definition select_timeout :: "u32 \<Rightarrow> u32 \<Rightarrow> (u32 \<Rightarrow> u32) \<Rightarrow> u32 \<Rightarrow> nat" where
  "select_timeout coap_next block_next refresher e =
     (let e = refresher (min_expiry_u block_next (min_expiry_u coap_next e))
      in if e \<noteq> -1 then unat e else 30 * 1000)"

datatype recv_ret = Recv_Bytes bytes | Recv_Closed | Recv_Conn_Reset | Recv_Other

definition on_cloud_sock :: "agent \<Rightarrow> bool" where
  "on_cloud_sock ag \<longleftrightarrow> status_code (ag_cloud_status ag) \<ge> status_code iSocket_Connected"

definition cloud_sock_ready ::
  "coap_handler \<Rightarrow> (bytes \<Rightarrow> bytes option) \<Rightarrow> (nat \<Rightarrow> bytes option) \<Rightarrow> recv_ret \<Rightarrow> u64 \<Rightarrow> recv_context \<Rightarrow> agent \<Rightarrow>
   (recv_context \<times> agent) cres" where
  "cloud_sock_ready handle_coap ini_save malloc r now ctx ag =
     (case r of
        Recv_Closed \<Rightarrow> Inr (ctx, set_cloud_connection_status now iReady_To_Connect ag)
      | Recv_Conn_Reset \<Rightarrow> Inr (ctx, set_cloud_connection_status now iReady_To_Connect ag)
      | Recv_Other \<Rightarrow> Inr (ctx, ag)
      | Recv_Bytes bs \<Rightarrow>
          cbind (handle_cloud_packet malloc bs (-1) ctx) (\<lambda>(_, ctx, ds).
          cbind (handle_messages handle_coap ini_save now ds ag) (\<lambda>ag. Inr (ctx, ag))))"

end
