(* ===== verification/Agent_Messages.thy ===== *)
theory Agent_Messages
  imports Agent_Link
begin

text \<open>
  What the agent sends: the variable headers of its handshake, provisioning and keep-alive messages can
  always be composed and framed, so that sending one only adds a frame to the queue and updates the
  counters of its component.
\<close>

section \<open>Messages of the agent\<close>

text \<open>Any variable header of at most 0x7FFB bytes makes a message that can be sent.\<close>

lemma ilink_set_vheader_ok:
  assumes ok: "\<And>n. n \<in> set (vh_nodes vh) \<Longrightarrow> vn_used n \<Longrightarrow> vnode_ok n" and ne: "filter vn_used (vh_nodes vh) \<noteq> []"
    and len: "length (concat (map vnode_enc (filter vn_used (vh_nodes vh)))) + 4 < 0x8000"
    and m: "im_payload_len m = 0" "im_msgType m < 0x80"
  obtains buf where "vheader_compose vh = Inr (Some buf)" "length buf < 0x8000"
    "ilink_set_vheader vh m = Inr (m\<lparr>im_is_vheader_alloc := True, im_vheader := Some (buf, 0), im_vheader_len := of_nat (length buf)\<rparr>)"
    "ilink_sendable (m\<lparr>im_is_vheader_alloc := True, im_vheader := Some (buf, 0), im_vheader_len := of_nat (length buf)\<rparr>)"
    "ptr_read (Some (buf, 0)) (unat (of_nat (length buf) :: u32)) = Inr buf"
proof -
  let ?body = "concat (map vnode_enc (filter vn_used (vh_nodes vh)))"
  define buf where "buf = be16 (of_nat (length ?body + 4)) @ be16 (of_nat (length (filter vn_used (vh_nodes vh)))) @ ?body"
  have c: "vheader_compose vh = Inr (Some buf)" unfolding buf_def using ok ne by (rule vheader_compose_ok)
  have lb: "length buf = length ?body + 4" by (simp add: buf_def be16_def)
  then have l: "length buf < 0x8000" using len by linarith
  then have u: "unat (of_nat (length buf) :: u32) = length buf" by (simp add: codec_simps)
  have r: "ptr_read (Some (buf, 0)) (unat (of_nat (length buf) :: u32)) = Inr buf" by (simp add: u ptr_read_def)
  moreover have "take 2 buf = be16 (of_nat (length buf))" unfolding lb by (simp add: buf_def be16_def)
  ultimately show ?thesis using that [OF c l] c l m
    by (simp add: ilink_set_vheader_def ilink_sendable_def ptr_read_def)
qed

definition id_ok :: "bytes \<Rightarrow> bool" where
  "id_ok i \<longleftrightarrow> 0 \<notin> set i \<and> length i < 1024"

definition str_node :: "bytes \<Rightarrow> bytes \<Rightarrow> bool \<Rightarrow> vheader_node" where
  "str_node key v alloc = \<lparr>vn_key = Some key, vn_key_alloc = False, vn_value_alloc = alloc, vn_used = True, vn_type = T_Str, vn_value = V_Str v\<rparr>"

lemma str_node_ok: "0 \<notin> set k \<Longrightarrow> 0 \<notin> set v \<Longrightarrow> vnode_ok (str_node k v a)"
  by (simp add: vnode_ok_def str_node_def)

lemma str_node_enc: "vnode_enc (str_node k v a) = k @ 0 # 3 # v @ [0]" "vn_used (str_node k v a)"
  by (simp_all add: vnode_enc_def str_node_def vheader_node_bytes_def vtype_code_def)

lemmas agent_keys = K_TAG_def K_AGENT_ID_def K_RESPONSE_def K_EP_def TAG_HANDSHAKE1_def TAG_HANDSHAKE2_def TAG_PING_def
  TAG_KEY_PROVISION_def str_def

lemma tags_ok: "id_ok K_TAG" "id_ok K_AGENT_ID" "id_ok TAG_HANDSHAKE1" "id_ok TAG_HANDSHAKE2" "id_ok TAG_PING" "id_ok TAG_KEY_PROVISION"
  by (simp_all add: id_ok_def agent_keys)

definition shake_vheader :: "bytes \<Rightarrow> bytes \<Rightarrow> ilink_vheader" where
  "shake_vheader tag self = \<lparr>vh_num = 3, vh_nodes = [str_node K_TAG tag False, str_node K_AGENT_ID self True, vnode0], vh_increase_num = 0\<rparr>"

lemma handshake_message_eq:
  "handshake_message tag mid (Some self) =
     map_sum id Some (ilink_set_vheader (shake_vheader tag self) (ilink_set_req_resp True (ucast mid) (init_ilink_message INTEL_IAGENT)))"
  by (simp add: handshake_message_def vheader_find_node_def shake_vheader_def str_node_def Let_def deref_def vh_upd_node_def
      vnode0_def numeral_3_eq_3 vheader_set_node_str_def K_TAG_def K_AGENT_ID_def str_def)

definition tag_vheader :: "bytes \<Rightarrow> ilink_vheader" where
  "tag_vheader tag = \<lparr>vh_num = 1, vh_nodes = [str_node K_TAG tag True], vh_increase_num = 5\<rparr>"

lemma tag_vheader_eq: "vheader_set_value_s (vheader_init 1 0) K_TAG tag = tag_vheader tag"
  by (simp add: vheader_set_value_s_def vheader_init_def vheader_find_node_def tag_vheader_def str_node_def Let_def vh_upd_node_def
      vnode0_def vheader_set_node_str_def)

lemma sendable_frame:
  assumes "ilink_sendable m"
  obtains frame where "compose_ilink_frame m = Inr frame"
  using recv_frame [OF assms, of rc_zero malloc_sample] malloc_sample_ok by (auto simp: malloc_sample_def rc_zero_def)

text \<open>What sending a handshake message does: the agent afterwards, for the frame posted.\<close>

definition posted :: "bytes \<Rightarrow> agent \<Rightarrow> agent" where
  "posted frame ag = ilink_send frame (ag\<lparr>ag_ilink_ctx := snd (bh_gen_id (ag_ilink_ctx ag))\<rparr>)"

definition shaken :: "handshake_status \<Rightarrow> u64 \<Rightarrow> bytes \<Rightarrow> agent \<Rightarrow> agent" where
  "shaken status now frame ag = (posted frame ag)
     \<lparr>ag_handshake := (ag_handshake ag)\<lparr>hs_resend_cnt := hs_resend_cnt (ag_handshake ag) + 1, hs_status := status, hs_last_handshake := now\<rparr>\<rparr>"

lemma ilink_send_fields [simp]:
  "ag_handshake (ilink_send f ag) = ag_handshake ag" "ag_cloud_status (ilink_send f ag) = ag_cloud_status ag"
  "ag_my_agent_id (ilink_send f ag) = ag_my_agent_id ag" "ag_ini_id (ilink_send f ag) = ag_ini_id ag"
  "ag_cloud_sock (ilink_send f ag) = ag_cloud_sock ag" "ag_ping_resend_cnt (ilink_send f ag) = ag_ping_resend_cnt ag"
  "ag_provision_resend_cnt (ilink_send f ag) = ag_provision_resend_cnt ag" "ag_last_ping (ilink_send f ag) = ag_last_ping ag"
  "ag_last_prov (ilink_send f ag) = ag_last_prov ag" "ag_ping_expiry_sec (ilink_send f ag) = ag_ping_expiry_sec ag"
  "ag_wire (ilink_send f ag) = ag_wire ag" "ag_events (ilink_send f ag) = ag_events ag"
  by (simp_all add: ilink_send_def)

lemma send_handshake_ok:
  assumes "ag_my_agent_id ag = Some self" "id_ok self" "id_ok tag"
  obtains msg frame where "compose_ilink_frame msg = Inr frame" "ilink_sendable msg"
    "handshake_message tag (fst (bh_gen_id (ag_ilink_ctx ag))) (Some self) = Inr (Some msg)"
    "send_handshake tag status now ag = Inr (shaken status now frame ag)"
proof -
  let ?m = "ilink_set_req_resp True (ucast (fst (bh_gen_id (ag_ilink_ctx ag)))) (init_ilink_message INTEL_IAGENT)"
  let ?vh = "shake_vheader tag self"
  have n: "filter vn_used (vh_nodes ?vh) = [str_node K_TAG tag False, str_node K_AGENT_ID self True]"
    by (simp add: shake_vheader_def str_node_enc)
  obtain buf where b: "ilink_set_vheader ?vh ?m = Inr (?m\<lparr>im_is_vheader_alloc := True, im_vheader := Some (buf, 0), im_vheader_len := of_nat (length buf)\<rparr>)"
    "ilink_sendable (?m\<lparr>im_is_vheader_alloc := True, im_vheader := Some (buf, 0), im_vheader_len := of_nat (length buf)\<rparr>)"
  proof (rule ilink_set_vheader_ok [of ?vh ?m])
    show "length (concat (map vnode_enc (filter vn_used (vh_nodes ?vh)))) + 4 < 0x8000"
      unfolding n using assms(2,3) tags_ok by (simp add: str_node_enc id_ok_def)
    show "vnode_ok x" if "x \<in> set (vh_nodes ?vh)" "vn_used x" for x
      using that assms(2,3) tags_ok by (auto simp: shake_vheader_def id_ok_def intro!: str_node_ok)
  qed (simp_all add: n ilink_set_req_resp_def init_ilink_message_def im_zero_def INTEL_IAGENT_def)
  then obtain frame where f: "compose_ilink_frame (?m\<lparr>im_is_vheader_alloc := True, im_vheader := Some (buf, 0), im_vheader_len := of_nat (length buf)\<rparr>) = Inr frame"
    using sendable_frame by blast
  with b show ?thesis using assms(1)
    by (intro that [OF f b(2)]) (simp_all add: send_handshake_def handshake_message_eq Let_def split_beta get_self_agent_id_def ilink_msg_send_def shaken_def posted_def)
qed

lemma tag_message_ok:
  assumes "id_ok tag" "im_payload_len m = 0" "im_msgType m < 0x80"
  obtains msg frame where "ilink_set_vheader (vheader_set_value_s (vheader_init 1 0) K_TAG tag) m = Inr msg" "ilink_sendable msg"
    "compose_ilink_frame msg = Inr frame"
proof -
  have n: "filter vn_used (vh_nodes (tag_vheader tag)) = [str_node K_TAG tag True]" by (simp add: tag_vheader_def str_node_enc)
  have v: "vnode_ok x" if "x \<in> set (vh_nodes (tag_vheader tag))" for x
    using that assms(1) tags_ok by (auto simp: tag_vheader_def id_ok_def intro!: str_node_ok)
  obtain buf where b: "ilink_set_vheader (tag_vheader tag) m = Inr (m\<lparr>im_is_vheader_alloc := True, im_vheader := Some (buf, 0), im_vheader_len := of_nat (length buf)\<rparr>)"
    "ilink_sendable (m\<lparr>im_is_vheader_alloc := True, im_vheader := Some (buf, 0), im_vheader_len := of_nat (length buf)\<rparr>)"
  proof (rule ilink_set_vheader_ok [of "tag_vheader tag" m])
    show "length (concat (map vnode_enc (filter vn_used (vh_nodes (tag_vheader tag))))) + 4 < 0x8000"
      unfolding n using assms(1) tags_ok by (simp add: str_node_enc id_ok_def)
  qed (use assms v n in auto)
  from sendable_frame [OF b(2)] that b show ?thesis unfolding tag_vheader_eq by metis
qed

lemma init_provision_ok:
  obtains frame where "init_provision now ag =
    Inr ((ilink_send frame ag)\<lparr>ag_provision_resend_cnt := ag_provision_resend_cnt ag + 1, ag_last_prov := now\<rparr>)"
proof -
  obtain msg frame where "ilink_set_vheader (vheader_set_value_s (vheader_init 1 0) K_TAG TAG_KEY_PROVISION) (init_ilink_message INTEL_IAGENT) = Inr msg"
    "compose_ilink_frame msg = Inr frame"
    by (rule tag_message_ok [of TAG_KEY_PROVISION "init_ilink_message INTEL_IAGENT"])
      (simp_all add: tags_ok init_ilink_message_def im_zero_def INTEL_IAGENT_def)
  then show ?thesis by (intro that [of frame]) (simp add: init_provision_def ilink_msg_send_def)
qed

lemma init_ping_ok:
  obtains frame where "init_ping now ag =
    Inr ((posted frame ag)\<lparr>ag_ping_resend_cnt := ag_ping_resend_cnt ag + 1, ag_last_ping := now\<rparr>)"
proof -
  let ?m = "ilink_set_req_resp True (ucast (fst (bh_gen_id (ag_ilink_ctx ag)))) (init_ilink_message INTEL_IAGENT)"
  obtain msg frame where "ilink_set_vheader (vheader_set_value_s (vheader_init 1 0) K_TAG TAG_PING) ?m = Inr msg"
    "compose_ilink_frame msg = Inr frame"
    by (rule tag_message_ok [of TAG_PING ?m])
      (simp_all add: tags_ok ilink_set_req_resp_def init_ilink_message_def im_zero_def INTEL_IAGENT_def)
  then show ?thesis by (intro that [of frame]) (simp add: init_ping_def ilink_msg_send_def posted_def Let_def split_beta)
qed

lemma posted_fields [simp]:
  "ag_handshake (posted f ag) = ag_handshake ag" "ag_cloud_status (posted f ag) = ag_cloud_status ag"
  "ag_my_agent_id (posted f ag) = ag_my_agent_id ag" "ag_ini_id (posted f ag) = ag_ini_id ag"
  "ag_cloud_sock (posted f ag) = ag_cloud_sock ag" "ag_ping_resend_cnt (posted f ag) = ag_ping_resend_cnt ag"
  "ag_provision_resend_cnt (posted f ag) = ag_provision_resend_cnt ag" "ag_last_ping (posted f ag) = ag_last_ping ag"
  "ag_last_prov (posted f ag) = ag_last_prov ag" "ag_ping_expiry_sec (posted f ag) = ag_ping_expiry_sec ag"
  "ag_wire (posted f ag) = ag_wire ag" "ag_events (posted f ag) = ag_events ag"
  by (simp_all add: posted_def)

lemma set_status_fields [simp]:
  "ag_handshake (set_cloud_connection_status now s ag) = ag_handshake ag" "ag_cloud_status (set_cloud_connection_status now s ag) = s"
  "ag_my_agent_id (set_cloud_connection_status now s ag) = ag_my_agent_id ag" "ag_ini_id (set_cloud_connection_status now s ag) = ag_ini_id ag"
  "ag_cloud_sock (set_cloud_connection_status now s ag) = ag_cloud_sock ag" "ag_ping_resend_cnt (set_cloud_connection_status now s ag) = ag_ping_resend_cnt ag"
  "ag_provision_resend_cnt (set_cloud_connection_status now s ag) = ag_provision_resend_cnt ag" "ag_last_ping (set_cloud_connection_status now s ag) = ag_last_ping ag"
  "ag_last_prov (set_cloud_connection_status now s ag) = ag_last_prov ag" "ag_ping_expiry_sec (set_cloud_connection_status now s ag) = ag_ping_expiry_sec ag"
  "ag_wire (set_cloud_connection_status now s ag) = ag_wire ag" "ag_cloud_queue (set_cloud_connection_status now s ag) = ag_cloud_queue ag"
  by (simp_all add: set_cloud_connection_status_def Let_def emit_def)

lemma emit_fields [simp]:
  "ag_handshake (emit evs ag) = ag_handshake ag" "ag_cloud_status (emit evs ag) = ag_cloud_status ag"
  "ag_my_agent_id (emit evs ag) = ag_my_agent_id ag" "ag_ini_id (emit evs ag) = ag_ini_id ag"
  "ag_cloud_sock (emit evs ag) = ag_cloud_sock ag" "ag_ping_resend_cnt (emit evs ag) = ag_ping_resend_cnt ag"
  "ag_provision_resend_cnt (emit evs ag) = ag_provision_resend_cnt ag" "ag_wire (emit evs ag) = ag_wire ag"
  "ag_cloud_queue (emit evs ag) = ag_cloud_queue ag"
  by (simp_all add: emit_def)

end
