(* ===== verification/Agent_Invariant.thy ===== *)
theory Agent_Invariant
  imports Agent_Messages
begin

text \<open>
  The invariant of the cloud session: what holds of handshake, connection status, identifier, socket and
  counters between the steps of the two threads.  The steps of the agent itself, the sender's iteration and
  the timers, never fail and keep it; the handlers of received messages keep it.
\<close>

section \<open>The invariant\<close>

text \<open>The variables the invariant speaks about.\<close>

definition session_part :: "agent \<Rightarrow> handshake_ctx \<times> cloud_status \<times> bytes option \<times> bytes option \<times> nat option \<times> int" where
  "session_part ag = (ag_handshake ag, ag_cloud_status ag, ag_my_agent_id ag, ag_ini_id ag, ag_cloud_sock ag, ag_ping_resend_cnt ag)"

text \<open>The identifier is the one of the ini file; without one there is no handshake and with one no
  provisioning; a link that is ready for work has completed the handshake; a connected link has a socket;
  the retry counters are bounded.\<close>

definition session_inv :: "agent \<Rightarrow> bool" where
  "session_inv ag \<longleftrightarrow>
     ag_ini_id ag = ag_my_agent_id ag \<and>
     (ag_my_agent_id ag = None \<longrightarrow> hs_status (ag_handshake ag) = S_Unit \<and>
        ag_cloud_status ag \<noteq> iCloud_Handshaking \<and> ag_cloud_status ag \<noteq> iReady_For_Work) \<and>
     (ag_my_agent_id ag \<noteq> None \<longrightarrow> id_ok (the (ag_my_agent_id ag)) \<and> ag_cloud_status ag \<noteq> iCloud_Provisioning) \<and>
     (ag_cloud_status ag = iReady_For_Work \<longrightarrow> handshake_done ag) \<and>
     (on_cloud_sock ag \<longrightarrow> ag_cloud_sock ag \<noteq> None) \<and>
     0 \<le> hs_resend_cnt (ag_handshake ag) \<and> hs_resend_cnt (ag_handshake ag) \<le> 7 \<and>
     (hs_status (ag_handshake ag) = S_First_Shake_Sent \<longrightarrow> hs_resend_cnt (ag_handshake ag) \<le> 6) \<and>
     0 \<le> ag_ping_resend_cnt ag \<and> ag_ping_resend_cnt ag \<le> 3"

lemma session_inv_part: "session_part ag' = session_part ag \<Longrightarrow> session_inv ag' = session_inv ag"
  by (simp add: session_part_def session_inv_def handshake_done_def on_cloud_sock_def)

text \<open>What the ini file parser promises: its values are C strings shorter than its line buffer of 1024
  bytes.\<close>

definition ini_ok :: "(bytes \<Rightarrow> bytes option) \<Rightarrow> bool" where
  "ini_ok ini_save \<longleftrightarrow> (\<forall>i x. ini_save i = Some x \<longrightarrow> id_ok x)"

lemmas inv_defs = session_inv_def handshake_done_def on_cloud_sock_def status_code_def

lemma first_handshake_inv:
  assumes "session_inv ag" "ag_my_agent_id ag = Some self" "hs_resend_cnt (ag_handshake ag) \<le> 5" "ag_cloud_status ag \<noteq> iReady_For_Work"
  obtains frame where "first_handshake now ag = Inr (shaken S_First_Shake_Sent now frame ag)" "session_inv (shaken S_First_Shake_Sent now frame ag)"
proof -
  have "id_ok self" using assms by (simp add: session_inv_def)
  with assms(2) tags_ok obtain frame where f: "send_handshake TAG_HANDSHAKE1 S_First_Shake_Sent now ag = Inr (shaken S_First_Shake_Sent now frame ag)"
    by (metis send_handshake_ok)
  moreover have "session_inv (shaken S_First_Shake_Sent now frame ag)" using assms by (simp add: inv_defs shaken_def)
  ultimately show ?thesis using that by (simp add: first_handshake_def)
qed

lemma second_handshake_inv:
  assumes "session_inv ag" "hs_status (ag_handshake ag) = S_First_Shake_Sent" "ag_cloud_status ag \<noteq> iReady_For_Work"
  obtains frame where "second_handshake now ag = Inr (shaken S_Second_Shake_Sent now frame ag)" "session_inv (shaken S_Second_Shake_Sent now frame ag)"
proof -
  obtain self where s: "ag_my_agent_id ag = Some self" "id_ok self" using assms by (cases "ag_my_agent_id ag") (auto simp: session_inv_def)
  with tags_ok obtain frame where f: "send_handshake TAG_HANDSHAKE2 S_Second_Shake_Sent now ag = Inr (shaken S_Second_Shake_Sent now frame ag)"
    by (metis send_handshake_ok)
  moreover have "session_inv (shaken S_Second_Shake_Sent now frame ag)" using assms s by (simp add: inv_defs shaken_def)
  ultimately show ?thesis using that by (simp add: second_handshake_def)
qed

lemma lost_inv: "session_inv ag \<Longrightarrow> session_inv (set_cloud_connection_status now iReady_To_Connect ag)"
  "session_inv ag \<Longrightarrow> session_inv (set_cloud_connection_status now iError_In_Connection ag)"
  by (auto simp: inv_defs )

lemma emit_inv [simp]: "session_inv (emit evs ag) = session_inv ag" by (rule session_inv_part) (simp add: session_part_def)

lemma prepare_reconnect_inv: "session_inv ag \<Longrightarrow> session_inv (prepare_reconnect_cloud now ag)"
  using lost_inv(2) [of ag now] by (simp add: prepare_reconnect_cloud_def)

lemma load_inv: "session_inv ag \<Longrightarrow> load_iagent_id ag = ag" by (simp add: load_iagent_id_def session_inv_def)

lemma emit_emit: "emit a (emit b ag) = emit (b @ a) ag" by (simp add: emit_def)

lemma post_handshake_ok: "session_inv ag \<Longrightarrow> \<exists>evs. post_handshake_action ag = Inr (emit evs ag)"
  by (cases "ag_my_agent_id ag")
    (auto simp: post_handshake_action_def load_inv Let_def deref_def get_self_agent_id_def emit_emit)

lemma post_handshake_inv: "session_inv ag \<Longrightarrow> post_handshake_action ag = Inr ag' \<Longrightarrow> session_inv ag'"
  by (metis Inr_inject emit_inv post_handshake_ok)

lemma success_inv:
  "session_inv ag \<Longrightarrow> ag_my_agent_id ag \<noteq> None \<Longrightarrow> on_cloud_sock ag \<Longrightarrow> session_inv (set_cloud_connection_status now iReady_For_Work (set_shake S_Success r ag))"
  by (auto simp: inv_defs set_shake_def)

lemma failed_inv: "session_inv ag \<Longrightarrow> hs_status (ag_handshake ag) = S_First_Shake_Sent \<Longrightarrow> session_inv (set_shake S_Failed r ag)"
  by (auto simp: inv_defs set_shake_def)

lemma shake_id: "session_inv ag \<Longrightarrow> hs_status (ag_handshake ag) \<noteq> S_Unit \<Longrightarrow> ag_my_agent_id ag \<noteq> None"
  by (auto simp: session_inv_def)

lemma on_handshake_inv:
  assumes inv: "session_inv ag" "on_cloud_sock ag" and r: "on_handshake_message now m ag = Inr ag'"
  shows "session_inv ag'"
proof -
  obtain tag where t: "get_key_value m K_TAG = Inr tag" using r by (auto simp: on_handshake_message_def cbind_eq_Inr)
  consider (first) "tag = Some TAG_HANDSHAKE1" "hs_status (ag_handshake ag) = S_First_Shake_Sent"
    | (second) "tag = Some TAG_HANDSHAKE2" "tag \<noteq> Some TAG_HANDSHAKE1" "hs_status (ag_handshake ag) = S_Second_Shake_Sent"
    | (none) "ag' = ag" using r t by (auto simp: on_handshake_message_def split: if_splits)
  then show ?thesis
  proof cases
    case first
    have i: "ag_my_agent_id ag \<noteq> None" using shake_id [OF inv(1)] first by simp
    note s = success_inv [OF inv(1) i inv(2)]
    have "ag_cloud_status ag \<noteq> iReady_For_Work" using inv first by (auto simp: session_inv_def handshake_done_def)
    then have "session_inv ag'" if "second_handshake now ag = Inr ag'"
      using second_handshake_inv [OF inv(1) first(2)] that by (metis Inr_inject)
    then show ?thesis using r t first failed_inv [OF inv(1)] post_handshake_inv [OF s]
      by (auto simp: on_handshake_message_def cbind_eq_Inr split: option.splits if_splits)
  next
    case second
    have i: "ag_my_agent_id ag \<noteq> None" using shake_id [OF inv(1)] second by simp
    define ag1 where "ag1 = (let ag = set_cloud_connection_status now iReady_For_Work (set_shake S_Success ''success'' ag)
      in ag\<lparr>ag_handshake := (ag_handshake ag)\<lparr>hs_last_handshake := now\<rparr>\<rparr>)"
    have "session_inv ag1"
      using success_inv [OF inv(1) i inv(2), of now "''success''"] by (auto simp: inv_defs ag1_def Let_def)
    then have "session_inv (case (sec, mic) of (Some s, Some u) \<Rightarrow> emit [Call_Settimeofday s u] ag1 | _ \<Rightarrow> ag1)" for sec mic
      by (simp split: option.split)
    moreover have "cbind (get_key_value_i m K_CLOUD_TM_SEC) (\<lambda>sec.
      cbind (if sec = None then Inr None else get_key_value_i m K_CLOUD_TM_MIC) (\<lambda>mic.
      post_handshake_action (case (sec, mic) of (Some s, Some u) \<Rightarrow> emit [Call_Settimeofday s u] ag1 | _ \<Rightarrow> ag1))) = Inr ag'"
      using r t second unfolding on_handshake_message_def ag1_def Let_def by simp
    ultimately show ?thesis using post_handshake_inv unfolding cbind_eq_Inr by blast
  qed (use inv in simp)
qed

section \<open>Provisioning, timers and the sender\<close>

lemma unshaken_inv: "session_inv ag \<Longrightarrow> ag_cloud_status ag \<noteq> iReady_For_Work \<Longrightarrow> session_inv (init_handshake ag)"
  by (auto simp: inv_defs init_handshake_def)

lemma init_handshake_fields [simp]:
  "ag_my_agent_id (init_handshake ag) = ag_my_agent_id ag" "ag_cloud_status (init_handshake ag) = ag_cloud_status ag"
  "hs_resend_cnt (ag_handshake (init_handshake ag)) = 0" "hs_status (ag_handshake (init_handshake ag)) = S_Unit"
  "ag_cloud_sock (init_handshake ag) = ag_cloud_sock ag" "ag_wire (init_handshake ag) = ag_wire ag"
  "ag_cloud_queue (init_handshake ag) = ag_cloud_queue ag"
  by (simp_all add: init_handshake_def)

lemma provisioned_inv:
  assumes "session_inv ag" "ag_cloud_status ag = iCloud_Provisioning" "ini_save i = Some self" "id_ok self"
  shows "session_inv (init_handshake (set_cloud_connection_status now iCloud_Handshaking
    (emit evs ((load_iagent_id (save_iagent_id ini_save i ag))\<lparr>ag_provision_resend_cnt := 0\<rparr>))))"
  using assms by (auto simp: inv_defs init_handshake_def load_iagent_id_def save_iagent_id_def)

text \<open>A step of the agent itself keeps the invariant and never makes the link ready for work.\<close>

definition internal :: "agent \<Rightarrow> agent \<Rightarrow> bool" where
  "internal ag ag' \<longleftrightarrow> session_inv ag' \<and> (ag_cloud_status ag' = iReady_For_Work \<longrightarrow> ag_cloud_status ag = iReady_For_Work)"

lemma internalI: "session_inv ag' \<Longrightarrow> ag_cloud_status ag' \<noteq> iReady_For_Work \<or> ag_cloud_status ag' = ag_cloud_status ag \<Longrightarrow> internal ag ag'"
  by (auto simp: internal_def)

lemma internal_inv: "internal ag ag' \<Longrightarrow> session_inv ag'" by (simp add: internal_def)

lemma internal_trans: "internal a b \<Longrightarrow> internal b c \<Longrightarrow> internal a c" by (simp add: internal_def)

lemma internal_refl: "session_inv ag \<Longrightarrow> internal ag ag" by (simp add: internal_def)

lemma shaken_status [simp]: "ag_cloud_status (shaken st now f ag) = ag_cloud_status ag" by (simp add: shaken_def)

lemma on_prov_inv:
  assumes "session_inv ag" "ini_ok ini_save" and r: "on_prov_message ini_save now m ag = Inr ag'"
  shows "internal ag ag'"
proof (cases "ag_cloud_status ag = iCloud_Provisioning")
  case True
  then have none: "ag_my_agent_id ag = None" using assms(1) by (auto simp: session_inv_def)
  obtain tag where t: "get_key_value m K_TAG = Inr tag" using r True by (auto simp: on_prov_message_def cbind_eq_Inr)
  show ?thesis
  proof (cases "ag' = ag")
    case changed: False
    with r True t obtain resp where p: "tag = Some TAG_KEY_PROVISION" "get_key_value_i m K_RESPONSE = Inr resp" "resp \<noteq> None" "resp \<noteq> Some 0"
      by (auto simp: on_prov_message_def cbind_eq_Inr split: if_splits)
    with r True t obtain i' where i': "get_key_value m K_AGENT_ID = Inr i'" by (auto simp: on_prov_message_def cbind_eq_Inr)
    with r True t p none changed obtain i where i: "i' = Some i" by (cases i') (auto simp: on_prov_message_def Let_def get_self_agent_id_def)
    have self: "get_self_agent_id (load_iagent_id (save_iagent_id ini_save i ag)) = ini_save i"
      by (simp add: get_self_agent_id_def load_iagent_id_def save_iagent_id_def)
    show ?thesis
    proof (cases "ini_save i")
      case None
      then have "ag' = load_iagent_id (save_iagent_id ini_save i ag)" using r True t p i' i self by (simp add: on_prov_message_def Let_def)
      with None assms(1) none show ?thesis by (auto simp: load_iagent_id_def save_iagent_id_def inv_defs internal_def)
    next
      case (Some self')
      define evs where "evs = [Call_Ams_Set_Product_Id self', Call_Ams_Add TT_DEVICE self' True]"
      let ?ag = "init_handshake (set_cloud_connection_status now iCloud_Handshaking
          (emit evs ((load_iagent_id (save_iagent_id ini_save i ag))\<lparr>ag_provision_resend_cnt := 0\<rparr>)))"
      have r': "first_handshake now ?ag = Inr ag'" using r True t p i' i self Some by (simp add: on_prov_message_def Let_def evs_def)
      have "id_ok self'" using assms(2) Some by (simp add: ini_ok_def)
      then have "session_inv ?ag" using provisioned_inv [of ag ini_save i self'] assms(1) True Some by blast
      moreover have "ag_my_agent_id ?ag = Some self'" using Some by (simp add: load_iagent_id_def save_iagent_id_def)
      ultimately obtain frame where f: "first_handshake now ?ag = Inr (shaken S_First_Shake_Sent now frame ?ag)"
        "session_inv (shaken S_First_Shake_Sent now frame ?ag)" by (rule first_handshake_inv) simp_all
      with r' have e: "ag' = shaken S_First_Shake_Sent now frame ?ag" by simp
      show ?thesis unfolding e using f(2) by (simp add: internal_def)
    qed
  qed (use assms in \<open>simp add: internal_def\<close>)
qed (use r assms in \<open>simp add: on_prov_message_def internal_def\<close>)

lemma check_provision_ok:
  assumes "session_inv ag"
  shows "\<exists>next ag'. check_provision_timeout t now ag = Inr (next, ag') \<and> internal ag ag'"
proof -
  obtain frame where "init_provision now ag =
    Inr ((ilink_send frame ag)\<lparr>ag_provision_resend_cnt := ag_provision_resend_cnt ag + 1, ag_last_prov := now\<rparr>)" by (rule init_provision_ok)
  moreover have "session_inv ((ilink_send frame ag)\<lparr>ag_provision_resend_cnt := c, ag_last_prov := now\<rparr>)" for c
    using assms by (subst session_inv_part [of _ ag]) (simp_all add: session_part_def)
  ultimately show ?thesis using lost_inv(1) [OF assms] assms by (auto simp: check_provision_timeout_def internal_def)
qed

lemma check_handshake_ok:
  assumes "session_inv ag" "ag_cloud_status ag = iCloud_Handshaking"
  shows "\<exists>next ag'. check_handshake_timeout t now ag = Inr (next, ag') \<and> internal ag ag'"
proof -
  obtain self where "ag_my_agent_id ag = Some self" using assms by (auto simp: session_inv_def)
  then have "\<exists>frame. first_handshake now ag = Inr (shaken S_First_Shake_Sent now frame ag) \<and> session_inv (shaken S_First_Shake_Sent now frame ag)"
    if "\<not> hs_resend_cnt (ag_handshake ag) > 5"
    using first_handshake_inv [OF assms(1)] that assms(2) by (metis cloud_status.distinct(29) not_le)
  moreover have "session_inv (init_handshake (set_cloud_connection_status now iReady_To_Connect ag))"
    by (intro unshaken_inv lost_inv assms) simp
  ultimately show ?thesis using assms by (auto simp: check_handshake_timeout_def internal_def shaken_def)
qed

lemma check_ping_ok:
  assumes "session_inv ag" "ag_cloud_status ag = iReady_For_Work"
  shows "\<exists>next ag'. check_ping_timeout t now ag = Inr (next, ag') \<and> internal ag ag'"
proof -
  obtain frame where p: "init_ping now ag = Inr ((posted frame ag)\<lparr>ag_ping_resend_cnt := ag_ping_resend_cnt ag + 1, ag_last_ping := now\<rparr>)"
    by (rule init_ping_ok)
  have "session_inv ((posted frame ag)\<lparr>ag_ping_resend_cnt := ag_ping_resend_cnt ag + 1, ag_last_ping := now\<rparr>)" if "\<not> 3 \<le> ag_ping_resend_cnt ag"
    using assms that by (auto simp: inv_defs)
  moreover have "session_inv ((prepare_reconnect_cloud now ag)\<lparr>ag_ping_resend_cnt := 0, ag_last_ping := 0\<rparr>)"
    using prepare_reconnect_inv [OF assms(1), of now] by (auto simp: inv_defs)
  ultimately show ?thesis using p assms by (auto simp: check_ping_timeout_def internal_def)
qed

lemma timer_part:
  assumes "b \<Longrightarrow> \<exists>n ag'. c = Inr (n, ag') \<and> internal ag ag'" "session_inv ag"
  obtains e1 ag1 where "(if b then cbind c (\<lambda>(next, ag). Inr (min_expiry next e, ag)) else Inr (e, ag)) = Inr (e1, ag1)" "internal ag ag1"
  using assms internal_refl by (cases b) auto

lemma link_timers_ok:
  assumes "session_inv ag"
  shows "\<exists>e ag' evs. link_timers ms t now ag = Inr (e, ag', evs) \<and> internal ag ag'"
proof -
  obtain e0 ctx evs where ctx: "bh_handle_expired_trans ms (ag_ilink_ctx ag) = (e0, ctx, evs)" by (metis prod_cases3)
  define ag0 where "ag0 = ag\<lparr>ag_ilink_ctx := ctx\<rparr>"
  have i0: "session_inv ag0" using assms by (subst session_inv_part [of _ ag]) (simp_all add: session_part_def ag0_def)
  obtain e1 ag1 where s1: "(if ag_cloud_status ag0 = iCloud_Provisioning
      then cbind (check_provision_timeout t now ag0) (\<lambda>(next, ag). Inr (min_expiry next e0, ag)) else Inr (e0, ag0)) = Inr (e1, ag1)" "internal ag0 ag1"
    by (rule timer_part [OF check_provision_ok [OF i0] i0])
  note i1 = internal_inv [OF s1(2)]
  obtain e2 ag2 where s2: "(if ag_cloud_status ag1 = iCloud_Handshaking \<and> \<not> handshake_done ag1
      then cbind (check_handshake_timeout t now ag1) (\<lambda>(next, ag). Inr (min_expiry next e1, ag)) else Inr (e1, ag1)) = Inr (e2, ag2)" "internal ag1 ag2"
    by (rule timer_part [where b = "ag_cloud_status ag1 = iCloud_Handshaking \<and> \<not> handshake_done ag1" and e = e1
          and c = "check_handshake_timeout t now ag1", OF _ i1]) (use check_handshake_ok [OF i1] in auto)
  note i2 = internal_inv [OF s2(2)]
  obtain e3 ag3 where s3: "(if ag_cloud_status ag2 = iReady_For_Work
      then cbind (check_ping_timeout t now ag2) (\<lambda>(next, ag). Inr (min_expiry next e2, ag)) else Inr (e2, ag2)) = Inr (e3, ag3)" "internal ag2 ag3"
    by (rule timer_part [OF check_ping_ok [OF i2, of t now] i2])
  note i3 = internal_inv [OF s3(2)]
  have "link_timers ms t now ag =
      Inr (e3, if ag_cloud_status ag3 = iError_In_Connection then set_cloud_connection_status now iReady_To_Connect ag3 else ag3, evs)"
    by (simp only: link_timers_def ctx Let_def prod.case ag0_def [symmetric] s1(1) s2(1) s3(1) cbind_simps)
  moreover have "internal ag0 ag3" using s1(2) s2(2) s3(2) internal_trans by blast
  then have "internal ag ag3" by (simp add: internal_def ag0_def)
  moreover have "internal ag (set_cloud_connection_status now iReady_To_Connect ag3)" using lost_inv(1) [OF i3] by (simp add: internal_def)
  ultimately show ?thesis by simp
qed

declare send_loop.simps [simp del]

lemma send_loop_inv:
  "session_inv ag \<Longrightarrow> internal ag (snd (send_loop res now msg cnt ag))"
proof (induction res now msg cnt ag rule: send_loop.induct)
  case (1 res now msg cnt ag)
  have "internal ag (ag\<lparr>ag_wire := w\<rparr>)" for w
    using "1.prems" by (intro internalI, subst session_inv_part [of _ ag]) (simp_all add: session_part_def)
  moreover have "internal ag (prepare_reconnect_cloud now ag)"
    using "1.prems" by (intro internalI prepare_reconnect_inv) (simp_all add: prepare_reconnect_cloud_def)
  ultimately show ?case using 1 internal_refl by (subst send_loop.simps) (auto split: send_ret.split)
qed

lemma sender_queue_ok:
  assumes "session_inv ag"
  shows "\<exists>ag'. sender_queue res now ag = Inr ag' \<and> internal ag ag'"
proof (cases "ag_cloud_queue ag")
  case (Cons msg q)
  have i: "session_inv (ag\<lparr>ag_cloud_queue := q\<rparr>)" using assms by (subst session_inv_part [of _ ag]) (simp_all add: session_part_def)
  have "internal ag (snd (send_loop res now msg 0 (ag\<lparr>ag_cloud_queue := q\<rparr>)))"
    using send_loop_inv [OF i] by (simp add: internal_def)
  moreover have "ag_cloud_sock ag \<noteq> None" if "status_code (ag_cloud_status ag) > status_code iSocket_Connected"
    using assms that by (auto simp: session_inv_def on_cloud_sock_def)
  ultimately show ?thesis using Cons i
    by (auto simp: sender_queue_def send_cloud_msg_def Let_def internal_def split: prod.split)
qed (use assms in \<open>simp add: sender_queue_def internal_def\<close>)

lemma first_contact_ok:
  assumes "session_inv ag" "ag_cloud_status ag = iSocket_Connected"
  shows "\<exists>st ag'. first_contact now ag = Inr (st, ag') \<and> session_inv (first_contact_end now st ag') \<and> ag_cloud_status (first_contact_end now st ag') \<noteq> iReady_For_Work"
proof (cases "ag_my_agent_id ag")
  case None
  let ?ag = "set_cloud_connection_status now iCloud_Provisioning ag"
  obtain frame where "init_provision now ?ag = Inr ((ilink_send frame ?ag)\<lparr>ag_provision_resend_cnt := ag_provision_resend_cnt ?ag + 1, ag_last_prov := now\<rparr>)"
    by (rule init_provision_ok)
  moreover have "session_inv ?ag" using assms None by (auto simp: inv_defs)
  then have "session_inv ((ilink_send frame ?ag)\<lparr>ag_provision_resend_cnt := c, ag_last_prov := now\<rparr>)" for c
    by (subst session_inv_part [of _ ?ag]) (simp_all add: session_part_def)
  ultimately show ?thesis using None by (simp add: first_contact_def first_contact_end_def get_self_agent_id_def)
next
  case (Some self)
  have "session_inv (init_handshake ag)" using assms by (intro unshaken_inv) simp_all
  then obtain frame where "first_handshake now (init_handshake ag) = Inr (shaken S_First_Shake_Sent now frame (init_handshake ag))"
    "session_inv (shaken S_First_Shake_Sent now frame (init_handshake ag))"
    by (rule first_handshake_inv) (use Some assms in simp_all)
  moreover from this have "session_inv (set_cloud_connection_status now iCloud_Handshaking (shaken S_First_Shake_Sent now frame (init_handshake ag)))"
    using assms Some by (auto simp: inv_defs shaken_def)
  ultimately show ?thesis using Some by (simp add: first_contact_def first_contact_end_def get_self_agent_id_def)
qed

lemma sender_connect_ok:
  assumes "session_inv ag"
  shows "\<exists>go ag'. sender_connect ini conn t now ag = Inr (go, ag') \<and> internal ag ag'"
proof (cases "ag_cloud_status ag = iReady_To_Connect \<and> sint t > ag_next_try_time ag")
  case True
  define ag1 where "ag1 = (let ag = load_ini ini (ag\<lparr>ag_next_try_time := sint t + 10\<rparr>) in
     if sint (t - ag_status_change_time ag) > ag_max_connect_duration ag \<and> ag_max_connect_duration ag \<noteq> 0
     then emit [Call_Reboot] ag else ag)"
  have p: "session_part ag1 = session_part ag" by (simp add: ag1_def session_part_def load_ini_def Let_def split: option.split)
  then have i: "session_inv ag1" using assms session_inv_part by blast
  have st1: "ag_cloud_status ag1 = iReady_To_Connect" using p True by (simp add: session_part_def)
  then have f: "session_inv (ag1\<lparr>ag_cloud_sock := s, ag_wire := [], ag_next_try_time := n\<rparr>)" for s n
    using i by (simp add: inv_defs)
  have f2: "session_inv (emit es (set_cloud_connection_status now iSocket_Connected (ag1\<lparr>ag_cloud_sock := Some k, ag_wire := []\<rparr>)))" for es k
    using i by (simp add: inv_defs)
  have eq: "sender_connect ini conn t now ag = (case setup_cloud_connect conn now ag1 of
       (False, ag) \<Rightarrow> Inr (False, ag\<lparr>ag_next_try_time := sint t + 60\<rparr>)
     | (True, ag) \<Rightarrow> cbind (first_contact now ag) (\<lambda>(status, ag). Inr (True, first_contact_end now status ag)))"
    using True by (simp add: sender_connect_def ag1_def Let_def status_code_def)
  have "\<exists>st ag'. first_contact now (emit es (set_cloud_connection_status now iSocket_Connected (ag1\<lparr>ag_cloud_sock := Some k, ag_wire := []\<rparr>))) = Inr (st, ag')
     \<and> internal ag (first_contact_end now st ag')" for es k using first_contact_ok [OF f2] by (fastforce simp: internal_def)
  then have "\<exists>go ag'. cbind (first_contact now (emit es (set_cloud_connection_status now iSocket_Connected (ag1\<lparr>ag_cloud_sock := Some k, ag_wire := []\<rparr>))))
      (\<lambda>(status, ag). Inr (True, first_contact_end now status ag)) = Inr (go, ag') \<and> internal ag ag'" for es k by (metis case_prod_conv cbind_simps(2))
  with eq f show ?thesis using st1 by (cases conn) (auto simp: setup_cloud_connect_def internal_def)
next
  case False
  have "session_inv (ag\<lparr>ag_next_try_time := n\<rparr>)" for n using assms by (subst session_inv_part [of _ ag]) (simp_all add: session_part_def)
  with False assms show ?thesis by (auto simp: sender_connect_def Let_def internal_def)
qed

lemma sender_ok:
  assumes "session_inv ag"
  shows "\<exists>ag'. thread_ilink_sender ini conn res t now ag = Inr ag' \<and> internal ag ag'"
proof -
  obtain go ag1 where c: "sender_connect ini conn t now ag = Inr (go, ag1)" "internal ag ag1" using sender_connect_ok [OF assms] by metis
  obtain ag2 where "sender_queue res now ag1 = Inr ag2" "internal ag1 ag2" using sender_queue_ok internal_inv c(2) by blast
  with c show ?thesis using internal_trans by (auto simp: thread_ilink_sender_def)
qed

end
