(* ===== verification/Agent_Coap.thy ===== *)
theory Agent_Coap
  imports Agent_Invariant Url Coap_Tcp
begin

text \<open>
  CoAP messages from the cloud: \<open>handle_type_coap\<close> of \<open>src/framework/iagent-core/src/ilink_handler.c\<close> with
  the forwarding to end points of \<open>platforms/linux/coap_endpoint.c\<close>, to the bus of
  \<open>platforms/linux/coap_server.c\<close> and the rewriting of device URLs of \<open>src/devices/rd.cpp\<close>.

  What other modules contribute is a record of functions: the device registry, the resource services, the
  object representation of a parsed packet and the content of uninitialised stack memory.  Requests handed to
  other modules are returned as a list of calls.
\<close>

section \<open>Interfaces\<close>

record coap_endpoint_call =
  ec_origin_coap_id :: u16
  ec_origin_ilink_id :: u32
  ec_has_ilink_mid :: bool
  ec_token :: bytes

datatype coap_call =
    Send_To_Endpoint bytes coap_endpoint_call coap_packet
  | Publish_To_Bus u32 coap_endpoint_call coap_packet
  | Trans_Event trans_event

record coap_env =
  ce_mem :: "nat \<Rightarrow> bool"
  ce_raw :: "coap_packet \<Rightarrow> bytes"
  ce_stack :: coap_packet
  ce_find_client :: "bytes \<Rightarrow> (bytes \<times> bytes) option"
  ce_reachable :: "bytes \<Rightarrow> bool"
  ce_separate_url :: "bytes \<Rightarrow> bytes \<Rightarrow> u8 \<Rightarrow> (bytes \<times> bytes option) option"
  ce_bus_url :: "coap_packet \<Rightarrow> coap_packet"
  ce_observe :: "coap_packet \<Rightarrow> int"
  ce_serve :: "coap_packet \<Rightarrow> bytes option"
  ce_mid :: u16
  ce_clock :: u64
  ce_node :: nat
  ce_callback :: nat
  ce_data :: nat

definition IA_TEXT_PLAIN :: u32 where "IA_TEXT_PLAIN = 0"
definition T_Coap_Parsed :: u8 where "T_Coap_Parsed = 3"

text \<open>The object representation of integers on the little-endian host, and a 32 bit read.\<close>

definition le_bytes :: "nat \<Rightarrow> 'a::len word \<Rightarrow> bytes" where
  "le_bytes n w = map (\<lambda>i. ucast (drop_bit (8 * i) w)) [0..<n]"

definition le_u32 :: "bytes \<Rightarrow> u32" where
  "le_u32 bs = rd32 (bs ! 3) (bs ! 2) (bs ! 1) (bs ! 0)"

text \<open>The digits of \<open>sprintf("%d")\<close>.\<close>

fun dec_digits :: "nat \<Rightarrow> bytes" where
  "dec_digits n = (if n < 10 then [] else dec_digits (n div 10)) @ [of_nat (48 + n mod 10)]"

definition dec_int :: "int \<Rightarrow> bytes" where
  "dec_int i = (if i < 0 then 45 # dec_digits (nat (- i)) else dec_digits (nat i))"

section \<open>Device URLs\<close>

text \<open>\<open>strcpy\<close> into an array of \<open>n\<close> bytes.\<close>

definition c_strcpy :: "nat \<Rightarrow> bytes \<Rightarrow> bytes cres" where
  "c_strcpy n s = (if length s < n then Inr s else Inl Out_Of_Bounds)"

text \<open>The device identifier: the segment after \<open>dev/\<close>, at most 99 bytes of it, and the rest.\<close>

definition dev_segment :: "bytes \<Rightarrow> bytes \<times> bytes" where
  "dev_segment s = (let d = take 99 (takeWhile (\<lambda>c. c \<noteq> slash) s) in (d, drop (length d) s))"

definition check_url_generic_dev :: "coap_env \<Rightarrow> bytes \<Rightarrow> nat \<Rightarrow> coap_packet \<Rightarrow> coap_packet cres" where
  "check_url_generic_dev env url_buffer buffer_len p =
     (if \<not> c_strncmp_eq url_buffer (str ''dev/'') 4 then Inl Assert_Failed
      else if length url_buffer \<ge> 512 - 1 then Inr p
      else
        let (device_id, rest) = dev_segment (drop 4 url_buffer) in
        if length device_id = 99 then Inr p
        else
          (case ce_find_client env device_id of
             None \<Rightarrow> Inr p
           | Some (standard, alias_name) \<Rightarrow>
               cbind (c_strcpy buffer_len standard) (\<lambda>u.
               if alias_name \<noteq> [] then
                 cbind (c_strcpy buffer_len (u @ [slash])) (\<lambda>u.
                 cbind (c_strcpy buffer_len (u @ alias_name)) (\<lambda>u.
                 if buffer_len < length u + length rest then Inr p
                 else cbind (c_strcpy buffer_len (u @ rest)) (\<lambda>u. Inr (coap_set_header_uri_path u p))))
               else
                 if buffer_len < length u + length (drop 3 url_buffer) then Inr p
                 else cbind (c_strcpy buffer_len (u @ drop 3 url_buffer)) (\<lambda>u. Inr (coap_set_header_uri_path u p)))))"

section \<open>Forwarding\<close>

text \<open>The path of a packet as the bytes its length denotes.\<close>

definition uri_path_bytes :: "coap_packet \<Rightarrow> bytes option cres" where
  "uri_path_bytes p =
     (case coap_get_header_uri_path p of
        None \<Rightarrow> Inr None
      | Some (None, len) \<Rightarrow> Inr None
      | Some (Some r, len) \<Rightarrow> map_sum id Some (sref_at (cp_buffer p) (Some r) 0 len))"

text \<open>The path and query of a resource that has a URL of its own.\<close>

definition separate_url :: "(bytes \<times> bytes option) option \<Rightarrow> coap_packet \<Rightarrow> coap_packet" where
  "separate_url r p =
     (case r of
        None \<Rightarrow> p
      | Some (u, None) \<Rightarrow> coap_set_header_uri_path u p
      | Some (u, Some q) \<Rightarrow> coap_set_header_uri_query q (coap_set_header_uri_path u p))"

definition send_ilink_request_to_ep ::
  "coap_env \<Rightarrow> bytes \<Rightarrow> ilink_message \<Rightarrow> coap_packet \<Rightarrow> agent \<Rightarrow> (agent \<times> coap_call list) cres" where
  "send_ilink_request_to_ep env epname ilink_msg p ag =
     (if \<not> ce_reachable env epname then Inr (ag, [])
      else
        cbind (uri_path_bytes p) (\<lambda>url.
        case url of
          None \<Rightarrow> Inr (ag, [])
        | Some url \<Rightarrow>
            let p = separate_url (ce_separate_url env epname url (cp_code p)) p;
                (msg_id, ctx) = bh_gen_id (ag_ilink_ctx ag);
                p = snd (coap_set_token (le_bytes 8 (ucast msg_id :: u64)) p);
                data = \<lparr>ec_origin_coap_id = cp_mid p,
                        ec_origin_ilink_id = (if im_has_mid ilink_msg then ucast (im_msgID ilink_msg) else 0),
                        ec_has_ilink_mid = im_has_mid ilink_msg, ec_token = cp_token p\<rparr>
            in Inr (ag\<lparr>ag_ilink_ctx := ctx\<rparr>,
                 [Send_To_Endpoint epname data (p\<lparr>cp_mid := ce_mid env, cp_type := COAP_TYPE_CON\<rparr>)])))"

definition publish_cloud_request_to_gw_bus ::
  "coap_env \<Rightarrow> ilink_message \<Rightarrow> coap_packet \<Rightarrow> agent \<Rightarrow> agent \<times> coap_call list" where
  "publish_cloud_request_to_gw_bus env ilink_msg p ag =
     (case coap_get_header_uri_path p of
        None \<Rightarrow> (ag, [])
      | Some (None, len) \<Rightarrow> (ag, [])
      | Some (Some _, len) \<Rightarrow>
          let p = ce_bus_url env p;
              data = \<lparr>ec_origin_coap_id = 0,
                      ec_origin_ilink_id = (if im_has_mid ilink_msg then ucast (im_msgID ilink_msg) else 0),
                      ec_has_ilink_mid = im_has_mid ilink_msg, ec_token = cp_token p\<rparr>;
              (broker_msg_id, ctx) = bh_gen_id (ag_ilink_ctx ag);
              (_, ctx) = bh_wait_response_async (ce_clock env) (ce_node env) broker_msg_id (Some (ce_callback env)) (ce_data env)
                           (10 * 1000) None ctx
          in (ag\<lparr>ag_ilink_ctx := ctx\<rparr>, [Publish_To_Bus broker_msg_id data p]))"

text \<open>The callback that forwards a response of an end point; the response keeps what the callback's data
  holds of the request.\<close>

definition cb_foward_ep_response_to_cloud :: "coap_endpoint_call \<Rightarrow> coap_packet option \<Rightarrow> agent \<Rightarrow> agent cres" where
  "cb_foward_ep_response_to_cloud ctx data ag =
     (case data of
        None \<Rightarrow> Inr ag
      | Some p \<Rightarrow>
          let msg = (init_ilink_message COAP_OVER_TCP)
                      \<lparr>im_has_mid := ec_has_ilink_mid ctx, im_msgID := ucast (ec_origin_ilink_id ctx), im_is_req := False\<rparr>;
              p = (if ec_token ctx \<noteq> [] then snd (coap_set_token (ec_token ctx) p)
                   else if ec_has_ilink_mid ctx then snd (coap_set_token (le_bytes 4 (ec_origin_ilink_id ctx)) p) else p)
          in cbind (coap_serialize_message_tcp p) (\<lambda>(packet_len, packet, p).
             if packet_len = 0 then Inr ag
             else ilink_msg_send (ilink_set_payload (Some (packet, 0)) (of_nat packet_len) msg) ag))"

section \<open>The refresher\<close>

definition refresher_response :: "coap_env \<Rightarrow> coap_packet \<Rightarrow> coap_packet" where
  "refresher_response env p =
     (let i = ce_observe env p in
      if cp_code p = COAP_POST then
        if i = -1 then coap_init_message COAP_TYPE_ACK INTERNAL_SERVER_ERROR_5_00 (cp_mid p)
        else
          let buffer = dec_int i @ [0] in
          coap_set_header_content_format IA_TEXT_PLAIN
            (snd (coap_set_payload_tcp (Some (P_Ext buffer)) (length buffer) (coap_init_message COAP_TYPE_ACK CHANGED_2_04 (cp_mid p))))
      else if cp_code p = COAP_DELETE then
        if i = 0 then coap_init_message COAP_TYPE_ACK INTERNAL_SERVER_ERROR_5_00 (cp_mid p)
        else coap_init_message COAP_TYPE_ACK CHANGED_2_04 (cp_mid p)
      else ce_stack env)"

definition handle_cloud_coap_refresher_request :: "coap_env \<Rightarrow> coap_packet \<Rightarrow> ilink_message \<Rightarrow> agent \<Rightarrow> agent cres" where
  "handle_cloud_coap_refresher_request env p ilink_msg ag =
     (let response = refresher_response env p;
          response = (if cp_token p \<noteq> [] then snd (coap_set_token (cp_token p) response)
                      else if im_has_mid ilink_msg then snd (coap_set_token (le_bytes 8 (im_msgID ilink_msg)) response)
                      else response)
      in cbind (coap_serialize_message_tcp response) (\<lambda>(packet_len, packet, _).
         if packet_len = 0 then Inr ag
         else ilink_msg_send (ilink_set_payload (Some (packet, 0)) (of_nat packet_len)
           ((init_ilink_message COAP_OVER_TCP)\<lparr>im_has_mid := im_has_mid ilink_msg, im_is_req := False, im_msgID := im_msgID ilink_msg\<rparr>)) ag))"

section \<open>The handler\<close>

definition feed_coap :: "coap_env \<Rightarrow> u32 \<Rightarrow> coap_packet \<Rightarrow> agent \<Rightarrow> (int \<times> agent \<times> coap_call list) cres" where
  "feed_coap env i p ag =
     cbind (bh_feed_response (ce_mem env) i (Some (ce_raw env p)) 8 T_Coap_Parsed (ag_ilink_ctx ag)) (\<lambda>(ctx, evs).
     Inr (0, ag\<lparr>ag_ilink_ctx := ctx\<rparr>, map Trans_Event evs))"

text \<open>The answer of a built-in resource.\<close>

definition buildin_response :: "bytes \<Rightarrow> ilink_message \<Rightarrow> agent \<Rightarrow> agent cres" where
  "buildin_response response_buf ilink_msg ag =
     (let res = init_ilink_message COAP_OVER_TCP;
          res = (if im_has_mid ilink_msg then ilink_set_req_resp False (im_msgID ilink_msg) res else res);
          res = ilink_set_payload (Some (response_buf, 0)) (of_nat (length response_buf)) res
      in cbind (deref (get_self_agent_id ag)) (\<lambda>self_id.
         cbind (ilink_set_vheader (vheader_set_value_s (vheader_init 1 0) K_AGENT_ID self_id) res) (\<lambda>res.
         ilink_msg_send res ag)))"

text \<open>The part of the handler after the URL was copied and rewritten: \<open>url\<close> is the bytes its length
  denotes in the zero-filled array, its C string ends at the first zero.\<close>

definition route_coap ::
  "coap_env \<Rightarrow> ilink_message \<Rightarrow> bytes option \<Rightarrow> bytes \<Rightarrow> coap_packet \<Rightarrow> agent \<Rightarrow> (int \<times> agent \<times> coap_call list) cres" where
  "route_coap env ilink_msg ep url p ag =
     (let s = takeWhile (\<lambda>c. c \<noteq> 0) url in
      if check_url_start url (str ''refresher'') \<noteq> 0 then
        cbind (handle_cloud_coap_refresher_request env p ilink_msg ag) (\<lambda>ag. Inr (0, ag, []))
      else if check_url_start url (str ''ep/'') \<noteq> 0 then
        let name = takeWhile (\<lambda>c. c \<noteq> slash) (drop 3 s); rest = drop (3 + length name) s in
        if rest = [] then Inr (-1, ag, [])
        else cbind (send_ilink_request_to_ep env name ilink_msg (coap_set_header_uri_path (tl rest) p) ag) (\<lambda>(ag, calls). Inr (0, ag, calls))
      else
        (case ep of
           Some ep \<Rightarrow>
             if c_strncmp_eq s (str ''ep/'') 3 then Inl Assert_Failed
             else cbind (send_ilink_request_to_ep env ep ilink_msg p ag) (\<lambda>(ag, calls). Inr (0, ag, calls))
         | None \<Rightarrow>
             if check_url_start url (str ''rd/'') \<noteq> 0 then Inr (0, ag, [])
             else
               (case ce_serve env p of
                  Some response \<Rightarrow>
                    if response = [] then Inr (0, ag, [])
                    else cbind (buildin_response response ilink_msg ag) (\<lambda>ag. Inr (0, ag, []))
                | None \<Rightarrow>
                    (case publish_cloud_request_to_gw_bus env ilink_msg p ag of (ag, calls) \<Rightarrow> Inr (0, ag, calls)))))"

definition coap_request :: "coap_env \<Rightarrow> ilink_message \<Rightarrow> coap_packet \<Rightarrow> agent \<Rightarrow> (int \<times> agent \<times> coap_call list) cres" where
  "coap_request env ilink_msg p ag =
     cbind (get_key_value ilink_msg K_EP) (\<lambda>ep.
     cbind (uri_path_bytes p) (\<lambda>url.
     case url of
       None \<Rightarrow> Inr (-2, ag, [])
     | Some url \<Rightarrow>
         if length url + 1 \<ge> 256 then Inr (-2, ag, [])
         else
           cbind (deref (get_self_agent_id ag)) (\<lambda>self.
           let url_str = takeWhile (\<lambda>c. c \<noteq> 0) url;
               iagent_id = take 63 (str ''iagent/'' @ self)
           in cbind (if take (length iagent_id) url_str = iagent_id
                     then let p = coap_set_header_uri_path (drop (length iagent_id) url_str) p
                          in cbind (uri_path_bytes p) (\<lambda>u. cbind (deref u) (\<lambda>url. Inr (url, p)))
                     else Inr (url, p)) (\<lambda>(url, p).
              cbind (if check_url_start url (str ''dev/'') \<noteq> 0
                     then cbind (check_url_generic_dev env url_str 256 p) (\<lambda>p.
                          cbind (uri_path_bytes p) (\<lambda>u. cbind (deref u) (\<lambda>url. Inr (url, p))))
                     else Inr (url, p)) (\<lambda>(url, p).
              route_coap env ilink_msg ep url p ag)))))"

definition handle_type_coap :: "coap_env \<Rightarrow> ilink_message \<Rightarrow> agent \<Rightarrow> (int \<times> agent \<times> coap_call list) cres" where
  "handle_type_coap env ilink_msg ag =
     cbind (ptr_view (im_payload ilink_msg)) (\<lambda>payload.
     cbind (coap_parse_message_tcp payload (ucast (im_payload_len ilink_msg))) (\<lambda>(status, p).
     if status \<noteq> 0 then Inr (0, ag, [])
     else if im_leading_byte ilink_msg = FIXEDCHAR_RESPINSE then feed_coap env (ucast (im_msgID ilink_msg)) p ag
     else if im_leading_byte ilink_msg = FIXEDCHAR_NO_MSGID \<and> (cp_code p < COAP_GET \<or> cp_code p > COAP_DELETE) then
       if length (cp_token p) \<noteq> 4 then Inr (0, ag, [])
       else feed_coap env (le_u32 (cp_token p)) p ag
     else if \<not> (cp_code p \<ge> COAP_GET \<and> cp_code p \<le> COAP_DELETE) then Inl Assert_Failed
     else coap_request env ilink_msg p ag))"

text \<open>The handler as the dispatch calls it.\<close>

definition cloud_coap :: "coap_env \<Rightarrow> coap_handler" where
  "cloud_coap env m ag = map_sum id (\<lambda>(r, ag, calls). (r, ag)) (handle_type_coap env m ag)"

section \<open>The handler leaves the session alone\<close>

lemma ilink_msg_send_part: "ilink_msg_send m ag = Inr ag' \<Longrightarrow> session_part ag' = session_part ag"
  by (auto simp: ilink_msg_send_def cbind_eq_Inr session_part_def)

lemma ctx_part [simp]: "session_part (ag\<lparr>ag_ilink_ctx := c\<rparr>) = session_part ag" by (simp add: session_part_def)

lemma refresher_part: "handle_cloud_coap_refresher_request env p m ag = Inr ag' \<Longrightarrow> session_part ag' = session_part ag"
  unfolding handle_cloud_coap_refresher_request_def Let_def
  by (erule cbind_InrE) (auto dest: ilink_msg_send_part split: if_split_asm)

lemma to_ep_part: "send_ilink_request_to_ep env n m p ag = Inr (ag', calls) \<Longrightarrow> session_part ag' = session_part ag"
  unfolding send_ilink_request_to_ep_def Let_def split_beta
  by (auto elim!: cbind_InrE split: if_split_asm option.split_asm)

lemma to_bus_part: "publish_cloud_request_to_gw_bus env m p ag = (ag', calls) \<Longrightarrow> session_part ag' = session_part ag"
  unfolding publish_cloud_request_to_gw_bus_def Let_def split_beta by (auto split: option.split_asm prod.split_asm)

lemma buildin_part: "buildin_response b m ag = Inr ag' \<Longrightarrow> session_part ag' = session_part ag"
  unfolding buildin_response_def Let_def by (auto elim!: cbind_InrE dest: ilink_msg_send_part)

lemma feed_part: "feed_coap env i p ag = Inr (r, ag', calls) \<Longrightarrow> session_part ag' = session_part ag"
  unfolding feed_coap_def by (auto elim!: cbind_InrE split: prod.split_asm)

lemma route_part: "route_coap env m ep url p ag = Inr (r, ag', calls) \<Longrightarrow> session_part ag' = session_part ag"
  unfolding route_coap_def Let_def
  by (auto elim!: cbind_InrE dest: refresher_part to_ep_part to_bus_part buildin_part split: if_split_asm option.split_asm prod.split_asm)

lemma coap_request_part: "coap_request env m p ag = Inr (r, ag', calls) \<Longrightarrow> session_part ag' = session_part ag"
  unfolding coap_request_def Let_def
  by (auto elim!: cbind_InrE dest: route_part split: option.split_asm if_split_asm prod.split_asm)

lemma handle_type_coap_part: "handle_type_coap env m ag = Inr (r, ag', calls) \<Longrightarrow> session_part ag' = session_part ag"
  unfolding handle_type_coap_def
  by (auto elim!: cbind_InrE dest: feed_part coap_request_part split: if_split_asm prod.split_asm)

lemma cloud_coap_part: "cloud_coap env m ag = Inr (r, ag') \<Longrightarrow> session_part ag' = session_part ag"
  by (cases "handle_type_coap env m ag") (auto simp: cloud_coap_def handle_type_coap_part)

end
