(* ===== verification/Agent_Run.thy ===== *)
theory Agent_Run
  imports Agent_Coap
begin

text \<open>
  The cloud session over time: the iterations of the sender thread and of the port handler, received
  messages and lost connections as steps of a labelled relation, with what other modules do to the shared
  queue and transactions as further steps.  One iteration of a thread is one step.  No lock enforces this:
  the runs are those in which the iterations of the two threads do not overlap, and the interleavings of
  their single accesses to the status and the socket are in \<open>Link_Threads\<close>.  The theorems hold for every
  such run from the start of the agent, whatever the cloud sends.
\<close>

section \<open>Steps of the threads\<close>

text \<open>\<open>Message\<close> and \<open>Lost\<close> are what the port handler does when the cloud socket is readable, \<open>Ams_Ready\<close> is the
  status callback of the AMS client, \<open>Post\<close> and \<open>Trans\<close> are frames and transactions of other modules.\<close>

datatype link_step =
    Sender "(int \<times> int) option" connect_ret "nat \<Rightarrow> send_ret" u64 u64
  | Timers u64 u64 u64
  | Message u64 ilink_message
  | Lost u64
  | Ams_Ready
  | Post bytes
  | Trans sync_ctx

inductive agent_step :: "coap_handler \<Rightarrow> (bytes \<Rightarrow> bytes option) \<Rightarrow> link_step \<Rightarrow> agent \<Rightarrow> agent \<Rightarrow> bool"
  for hc ini_save where
  sender: "thread_ilink_sender ini conn res t now ag = Inr ag' \<Longrightarrow> agent_step hc ini_save (Sender ini conn res t now) ag ag'"
| timers: "link_timers ms t now ag = Inr (e, ag', evs) \<Longrightarrow> agent_step hc ini_save (Timers ms t now) ag ag'"
| message: "on_cloud_sock ag \<Longrightarrow> handle_ilink_message hc ini_save now m ag = Inr (r, ag') \<Longrightarrow> agent_step hc ini_save (Message now m) ag ag'"
| lost: "on_cloud_sock ag \<Longrightarrow> agent_step hc ini_save (Lost now) ag (set_cloud_connection_status now iReady_To_Connect ag)"
| ams: "agent_step hc ini_save Ams_Ready ag (load_iagent_id ag)"
| post: "agent_step hc ini_save (Post frame) ag (ilink_send frame ag)"
| trans: "agent_step hc ini_save (Trans ctx) ag (ag\<lparr>ag_ilink_ctx := ctx\<rparr>)"

inductive_cases agent_stepE: "agent_step hc ini_save l ag ag'"
inductive_simps agent_step_simps:
  "agent_step hc ini_save (Sender ini conn res t now) ag ag'" "agent_step hc ini_save (Timers ms t now) ag ag'"
  "agent_step hc ini_save (Message now m) ag ag'" "agent_step hc ini_save (Lost now) ag ag'"
  "agent_step hc ini_save Ams_Ready ag ag'" "agent_step hc ini_save (Post frame) ag ag'" "agent_step hc ini_save (Trans ctx) ag ag'"

text \<open>A run is the list of its steps with the states they lead to.\<close>

definition last_state :: "agent \<Rightarrow> (link_step \<times> agent) list \<Rightarrow> agent" where
  "last_state ag tr = (if tr = [] then ag else snd (last tr))"

inductive agent_run :: "coap_handler \<Rightarrow> (bytes \<Rightarrow> bytes option) \<Rightarrow> agent \<Rightarrow> (link_step \<times> agent) list \<Rightarrow> bool"
  for hc ini_save start where
  run_nil: "agent_run hc ini_save start []"
| run_step: "agent_run hc ini_save start tr \<Longrightarrow> agent_step hc ini_save l (last_state start tr) ag \<Longrightarrow>
    agent_run hc ini_save start (tr @ [(l, ag)])"

lemma last_state_simps [simp]: "last_state ag [] = ag" "last_state ag (tr @ [(l, ag')]) = ag'"
  by (simp_all add: last_state_def)

text \<open>The state after \<open>init_agent\<close> loaded the identifier.\<close>

definition agent_start :: "bytes option \<Rightarrow> u64 \<Rightarrow> agent" where
  "agent_start ini_id ms = \<lparr>ag_handshake = \<lparr>hs_status = S_Unit, hs_last_handshake = 0, hs_resend_cnt = 0, hs_reason = []\<rparr>,
     ag_last_prov = 0, ag_provision_resend_cnt = 0, ag_last_ping = 0, ag_ping_resend_cnt = 0, ag_ping_expiry_sec = 30,
     ag_cloud_status = iReady_To_Connect, ag_status_changed = False, ag_status_change_time = 0, ag_max_connect_duration = 3600,
     ag_my_agent_id = ini_id, ag_ini_id = ini_id, ag_ilink_ctx = create_sync_ctx ms, ag_cloud_queue = [], ag_cloud_sock = None,
     ag_next_try_time = 0, ag_events = [], ag_wire = []\<rparr>"

text \<open>The answers of the cloud that complete the handshake.\<close>

definition accepts :: "ilink_message \<Rightarrow> bool" where
  "accepts m \<longleftrightarrow> get_key_value m K_TAG = Inr (Some TAG_HANDSHAKE1) \<and>
     (case get_key_value_i m K_RESPONSE of Inr (Some r) \<Rightarrow> r \<noteq> 0 \<and> r \<noteq> REQUIRE_2ND_HANDSHAKE | _ \<Rightarrow> False)"

definition confirms :: "ilink_message \<Rightarrow> bool" where
  "confirms m \<longleftrightarrow> get_key_value m K_TAG = Inr (Some TAG_HANDSHAKE2)"

lemma post_handshake_status: "post_handshake_action ag = Inr ag' \<Longrightarrow> ag_cloud_status ag' = ag_cloud_status ag"
  by (auto simp: post_handshake_action_def Let_def load_iagent_id_def elim!: cbind_InrE split: option.split_asm)

lemma on_handshake_ready:
  assumes "on_handshake_message now m ag = Inr ag'" "ag_cloud_status ag' = iReady_For_Work" "ag_cloud_status ag \<noteq> iReady_For_Work" "session_inv ag"
  shows "hs_status (ag_handshake ag) = S_First_Shake_Sent \<and> accepts m \<or> hs_status (ag_handshake ag) = S_Second_Shake_Sent \<and> confirms m"
proof -
  obtain tag where t: "get_key_value m K_TAG = Inr tag" using assms(1) by (auto simp: on_handshake_message_def elim: cbind_InrE)
  consider (first) "tag = Some TAG_HANDSHAKE1" "hs_status (ag_handshake ag) = S_First_Shake_Sent"
    | (second) "tag = Some TAG_HANDSHAKE2" "hs_status (ag_handshake ag) = S_Second_Shake_Sent"
    using assms t by (auto simp: on_handshake_message_def split: if_splits)
  then show ?thesis
  proof cases
    case first
    have "ag_cloud_status ag'' \<noteq> iReady_For_Work" if "second_handshake now ag = Inr ag''" for ag''
      using second_handshake_inv [OF assms(4) first(2) assms(3)] that assms(3) by (metis Inr_inject shaken_status)
    then have "accepts m" using assms t first
      by (auto simp: on_handshake_message_def accepts_def set_shake_def elim!: cbind_InrE split: option.split_asm if_split_asm)
    with first show ?thesis by simp
  qed (use t in \<open>simp add: confirms_def\<close>)
qed

section \<open>Any service of CoAP messages\<close>

text \<open>The contract the session relies on: a handler of CoAP messages leaves the session alone.\<close>

locale agent_services =
  fixes hc :: coap_handler
  assumes coap_keeps: "hc m ag = Inr (r, ag') \<Longrightarrow> session_part ag' = session_part ag"
begin

lemma iagent_inv:
  assumes "session_inv ag" "on_cloud_sock ag" and ini: "ini_ok ini_save" and h: "handle_type_iagent ini_save now m ag = Inr (r, ag')"
  shows "session_inv ag'"
proof -
  have "session_inv (on_ping_message ag)" using assms(1) by (auto simp: on_ping_message_def inv_defs)
  moreover obtain tag where "get_key_value m K_TAG = Inr tag" using h by (auto simp: handle_type_iagent_def elim: cbind_InrE)
  moreover have "map_sum id (Pair 0) x = Inr (r, ag') \<longleftrightarrow> x = Inr ag' \<and> r = (0 :: int)" for x :: "agent cres" by (cases x) auto
  ultimately show ?thesis
    using assms on_handshake_inv [OF assms(1,2), of now m ag'] internal_inv [OF on_prov_inv [OF assms(1) ini, of now m ag']]
    by (auto simp: handle_type_iagent_def split: option.split_asm if_split_asm)
qed

lemma message_inv:
  assumes "session_inv ag" "on_cloud_sock ag" "ini_ok ini_save" "handle_ilink_message hc ini_save now m ag = Inr (r, ag')"
  shows "session_inv ag'"
proof -
  have "session_inv ag'" if "hc m ag = Inr (r, ag')" using coap_keeps [OF that] session_inv_part assms(1) by blast
  with assms iagent_inv show ?thesis
    by (auto simp: handle_ilink_message_def split: if_split_asm option.split_asm elim!: cbind_InrE)
qed

lemma step_inv: "agent_step hc ini_save l ag ag' \<Longrightarrow> session_inv ag \<Longrightarrow> ini_ok ini_save \<Longrightarrow> session_inv ag'"
proof (induction rule: agent_step.induct)
  case (sender ini conn res t now ag ag')
  then show ?case using sender_ok internal_inv by (metis Inr_inject)
next
  case (timers ms t now ag e ag' evs)
  then show ?case using link_timers_ok internal_inv by (metis Inr_inject Pair_inject)
next
  case (message ag now m r ag')
  then show ?case using message_inv by blast
next
  case (post frame ag)
  then show ?case by (subst session_inv_part [of _ ag]) (simp_all add: session_part_def)
next
  case (trans ctx ag)
  then show ?case by (subst session_inv_part [of _ ag]) simp_all
qed (simp_all add: lost_inv load_inv)

lemma message_to_ready:
  assumes "session_inv ag" "handle_ilink_message hc ini_save now m ag = Inr (r, ag')"
    "ag_cloud_status ag' = iReady_For_Work" "ag_cloud_status ag \<noteq> iReady_For_Work" and ini: "ini_ok ini_save"
  shows "hs_status (ag_handshake ag) = S_First_Shake_Sent \<and> accepts m \<or> hs_status (ag_handshake ag) = S_Second_Shake_Sent \<and> confirms m"
proof -
  have "ag_cloud_status ag' = ag_cloud_status ag" if "hc m ag = Inr (r, ag')" using coap_keeps [OF that] by (simp add: session_part_def)
  then have h: "handle_type_iagent ini_save now m ag = Inr (r, ag')"
    using assms by (auto simp: handle_ilink_message_def split: if_split_asm option.split_asm elim!: cbind_InrE)
  have "map_sum id (Pair 0) x = Inr (r, ag') \<longleftrightarrow> x = Inr ag' \<and> r = (0 :: int)" for x :: "agent cres" by (cases x) auto
  then have "on_handshake_message now m ag = Inr ag'"
    using h assms(3,4) on_prov_inv [OF assms(1) ini]
    by (auto simp: handle_type_iagent_def on_ping_message_def internal_def split: if_split_asm option.split_asm elim!: cbind_InrE)
  then show ?thesis using assms on_handshake_ready by blast
qed

lemma step_to_ready:
  assumes "agent_step hc ini_save l ag ag'" "session_inv ag" "ag_cloud_status ag' = iReady_For_Work" "ag_cloud_status ag \<noteq> iReady_For_Work" "ini_ok ini_save"
  obtains now m where "l = Message now m"
    "hs_status (ag_handshake ag) = S_First_Shake_Sent \<and> accepts m \<or> hs_status (ag_handshake ag) = S_Second_Shake_Sent \<and> confirms m"
  using assms(1)
proof (cases rule: agent_step.cases)
  case (sender ini conn res t now)
  then have "internal ag ag'" using sender_ok [OF assms(2), of ini conn res t now] by simp
  with assms show ?thesis by (simp add: internal_def)
next
  case (timers ms t now e evs)
  then have "internal ag ag'" using link_timers_ok [OF assms(2), of ms t now] by simp
  with assms show ?thesis by (simp add: internal_def)
next
  case (message now m r)
  show ?thesis by (rule that [OF message(1)], rule message_to_ready) (use assms message in auto)
next
  case (lost now)
  with assms show ?thesis by simp
next
  case ams
  with assms show ?thesis by (simp add: load_inv)
next
  case (post frame)
  with assms show ?thesis by simp
next
  case (trans ctx)
  with assms show ?thesis by simp
qed

lemma run_inv: "agent_run hc ini_save start tr \<Longrightarrow> session_inv start \<Longrightarrow> ini_ok ini_save \<Longrightarrow> session_inv (last_state start tr)"
  by (induction rule: agent_run.induct) (auto dest: step_inv)

text \<open>A ready link was made ready by an accepting message, and stayed ready since.\<close>

lemma run_ready:
  assumes "agent_run hc ini_save start tr" "session_inv start" "ini_ok ini_save" "ag_cloud_status start \<noteq> iReady_For_Work"
    "ag_cloud_status (last_state start tr) = iReady_For_Work"
  shows "\<exists>pre now m ag post. tr = pre @ (Message now m, ag) # post \<and> list_all (\<lambda>(l, a). ag_cloud_status a = iReady_For_Work) post \<and>
    (let s = hs_status (ag_handshake (last_state start pre)) in s = S_First_Shake_Sent \<and> accepts m \<or> s = S_Second_Shake_Sent \<and> confirms m)"
  using assms
proof (induction rule: agent_run.induct)
  case (run_step tr l ag)
  show ?case
  proof (cases "ag_cloud_status (last_state start tr) = iReady_For_Work")
    case True
    with run_step obtain pre now m a post where "tr = pre @ (Message now m, a) # post" "list_all (\<lambda>(l, a). ag_cloud_status a = iReady_For_Work) post"
      "let s = hs_status (ag_handshake (last_state start pre)) in s = S_First_Shake_Sent \<and> accepts m \<or> s = S_Second_Shake_Sent \<and> confirms m"
      by blast
    then show ?thesis using run_step.prems
      by - (rule exI [of _ pre], rule exI [of _ now], rule exI [of _ m], rule exI [of _ a], rule exI [of _ "post @ [(l, ag)]"], auto simp: last_state_def)
  next
    case False
    have "session_inv (last_state start tr)" using run_step run_inv by blast
    moreover have "ag_cloud_status ag = iReady_For_Work" using run_step.prems by simp
    ultimately obtain now m where "l = Message now m"
      "hs_status (ag_handshake (last_state start tr)) = S_First_Shake_Sent \<and> accepts m \<or> hs_status (ag_handshake (last_state start tr)) = S_Second_Shake_Sent \<and> confirms m"
      using False run_step.prems(2) by (rule step_to_ready [OF run_step.hyps(2)])
    then show ?thesis
      by - (rule exI [of _ tr], rule exI [of _ now], rule exI [of _ m], rule exI [of _ ag], rule exI [of _ "[]"], simp add: Let_def)
  qed
qed simp

end

interpretation cloud: agent_services "cloud_coap env" for env
  by unfold_locales (rule cloud_coap_part)

section \<open>Properties of every run\<close>

lemma agent_start_inv: "(\<And>i. ini_id = Some i \<Longrightarrow> id_ok i) \<Longrightarrow> session_inv (agent_start ini_id ms)"
  by (cases ini_id) (simp_all add: inv_defs agent_start_def)

text \<open>A run used as example: the agent connects, sends its handshake and is accepted.\<close>

definition ini_sample :: "bytes \<Rightarrow> bytes option" where
  "ini_sample i = (if id_ok i then Some i else None)"

definition env_sample :: coap_env where
  "env_sample = \<lparr>ce_mem = \<lambda>n. True, ce_raw = \<lambda>p. replicate 8 0, ce_stack = cp_zero, ce_find_client = \<lambda>d. None, ce_reachable = \<lambda>e. True,
     ce_separate_url = \<lambda>e u c. None, ce_bus_url = \<lambda>p. p, ce_observe = \<lambda>p. 1, ce_serve = \<lambda>p. None, ce_mid = 0, ce_clock = 0,
     ce_node = 0, ce_callback = 0, ce_data = 0\<rparr>"

definition start_sample :: agent where "start_sample = agent_start (Some [97]) 0"

definition or_start :: "agent cres \<Rightarrow> agent" where
  "or_start r = (case r of Inl e \<Rightarrow> start_sample | Inr ag \<Rightarrow> ag)"

definition connected_sample :: agent where
  "connected_sample = or_start (thread_ilink_sender None (Connected 5) (\<lambda>i. Send_Ok 40) 1 1 start_sample)"

definition accept_sample :: ilink_message where
  "accept_sample = (case vheader_compose (vheader_set_value_i (vheader_set_value_s (vheader_init 2 0) K_TAG TAG_HANDSHAKE1) K_RESPONSE 1) of
     Inr (Some b) \<Rightarrow> im_zero\<lparr>im_msgType := INTEL_IAGENT, im_vheader := Some (b, 0), im_vheader_len := of_nat (length b)\<rparr> | _ \<Rightarrow> im_zero)"

definition ready_sample :: agent where
  "ready_sample = or_start (map_sum id snd (handle_ilink_message (cloud_coap env_sample) ini_sample 2 accept_sample connected_sample))"

definition run_sample :: "(link_step \<times> agent) list" where
  "run_sample = [(Sender None (Connected 5) (\<lambda>i. Send_Ok 40) 1 1, connected_sample), (Message 2 accept_sample, ready_sample)]"

lemma ini_sample_ok: "ini_ok ini_sample" by (simp add: ini_ok_def ini_sample_def)

lemma id_sample_ok: "id_ok [97]" by (simp add: id_ok_def)

lemma run_sample_run: "agent_run (cloud_coap env_sample) ini_sample start_sample run_sample"
proof -
  have "session_inv start_sample" unfolding start_sample_def by (rule agent_start_inv) (simp add: id_sample_ok)
  then have "thread_ilink_sender None (Connected 5) (\<lambda>i. Send_Ok 40) 1 1 start_sample = Inr connected_sample"
    using sender_ok [of start_sample None "Connected 5" "\<lambda>i. Send_Ok 40" 1 1] by (auto simp: connected_sample_def or_start_def)
  then have r: "agent_run (cloud_coap env_sample) ini_sample start_sample ([] @ [(Sender None (Connected 5) (\<lambda>i. Send_Ok 40) 1 1, connected_sample)])"
    by (intro run_step run_nil) (simp add: agent_step_simps)
  have "case handle_ilink_message (cloud_coap env_sample) ini_sample 2 accept_sample connected_sample of Inl e \<Rightarrow> False | Inr (r, ag) \<Rightarrow> r = 0"
    "on_cloud_sock connected_sample" by code_simp+
  then have "agent_step (cloud_coap env_sample) ini_sample (Message 2 accept_sample) connected_sample ready_sample"
    by (auto simp: agent_step_simps ready_sample_def or_start_def split: sum.splits)
  with r show ?thesis using run_step [OF r, of "Message 2 accept_sample" ready_sample] by (simp add: run_sample_def last_state_def)
qed

text \<open>C5.  In every run in which the iterations of the two threads do not overlap, with any handler of CoAP messages
  the model has and whatever messages arrive: a link ready for work has completed the handshake, the handshake
  and the keep-alive only run with an identifier, provisioning only without one, a connected link has a
  socket, the handshake counter stays at most seven, six while the first answer is awaited, and at most three
  keep-alives stay unanswered.  The counter of provisioning requests is not bounded, see \<open>provision_retries_exhausted\<close>.  No
  lock keeps iterations apart; what holds of the status and the socket in every interleaving is in
  \<open>Link_Threads\<close>.\<close>

theorem session_invariant:
  assumes "ini_ok ini_save" "\<And>i. ini_id = Some i \<Longrightarrow> id_ok i" "agent_run (cloud_coap env) ini_save (agent_start ini_id ms) tr"
  shows "session_inv (last_state (agent_start ini_id ms) tr)"
  using cloud.run_inv [OF assms(3) _ assms(1)] agent_start_inv assms(2) by blast

theorem session_invariant_witness: "session_inv (last_state (agent_start (Some [97]) 0) run_sample)"
  by (rule session_invariant [OF ini_sample_ok _ run_sample_run [unfolded start_sample_def]]) (simp add: id_sample_ok)

text \<open>In every state of such a run the next iteration of the sender thread and the next timers of the port handler
  complete, whatever the socket calls return.\<close>

lemma iterations_complete:
  assumes "ini_ok ini_save" "\<And>i. ini_id = Some i \<Longrightarrow> id_ok i" "agent_run (cloud_coap env) ini_save (agent_start ini_id ms) tr"
  shows "(\<exists>ag'. thread_ilink_sender ini conn res t now (last_state (agent_start ini_id ms) tr) = Inr ag') \<and>
    (\<exists>e ag' evs. link_timers ms' t now (last_state (agent_start ini_id ms) tr) = Inr (e, ag', evs))"
proof -
  have "session_inv (last_state (agent_start ini_id ms) tr)" using cloud.run_inv [OF assms(3) _ assms(1)] agent_start_inv assms(2) by blast
  then show ?thesis using sender_ok link_timers_ok by blast
qed

text \<open>C6.  No work without an accepted handshake: when a link is ready for work, a message of the cloud made it
  ready and it stayed ready since; the message accepted the first handshake while the agent was waiting for
  its answer, or confirmed the second one while the agent was waiting for that.\<close>

theorem ready_needs_acceptance:
  assumes "ini_ok ini_save" "\<And>i. ini_id = Some i \<Longrightarrow> id_ok i" "agent_run (cloud_coap env) ini_save (agent_start ini_id ms) tr"
    and "ag_cloud_status (last_state (agent_start ini_id ms) tr) = iReady_For_Work"
  shows "\<exists>pre now m ag post. tr = pre @ (Message now m, ag) # post \<and> list_all (\<lambda>(l, a). ag_cloud_status a = iReady_For_Work) post \<and>
    (let s = hs_status (ag_handshake (last_state (agent_start ini_id ms) pre))
     in s = S_First_Shake_Sent \<and> accepts m \<or> s = S_Second_Shake_Sent \<and> confirms m)"
proof -
  have "ag_cloud_status (agent_start ini_id ms) \<noteq> iReady_For_Work" by (simp add: agent_start_def)
  then show ?thesis using cloud.run_ready [OF assms(3) _ assms(1) _ assms(4)] agent_start_inv assms(2) by blast
qed

theorem ready_needs_acceptance_witness:
  "\<exists>pre now m ag post. run_sample = pre @ (Message now m, ag) # post \<and> list_all (\<lambda>(l, a). ag_cloud_status a = iReady_For_Work) post \<and>
    (let s = hs_status (ag_handshake (last_state (agent_start (Some [97]) 0) pre))
     in s = S_First_Shake_Sent \<and> accepts m \<or> s = S_Second_Shake_Sent \<and> confirms m)"
proof (rule ready_needs_acceptance [OF ini_sample_ok _ run_sample_run [unfolded start_sample_def]])
  show "ag_cloud_status (last_state (agent_start (Some [97]) 0) run_sample) = iReady_For_Work" by code_simp
qed (simp add: id_sample_ok)

section \<open>Giving up\<close>

fun expired_clocks :: "u64 \<Rightarrow> (u64 \<times> u64 \<times> u64) list \<Rightarrow> bool" where
  "expired_clocks since [] \<longleftrightarrow> True"
| "expired_clocks since ((ms, t, now) # cs) \<longleftrightarrow> t > since + 15 \<and> expired_clocks now cs"

fun timer_rounds :: "(u64 \<times> u64 \<times> u64) list \<Rightarrow> agent \<Rightarrow> agent cres" where
  "timer_rounds [] ag = Inr ag"
| "timer_rounds ((ms, t, now) # cs) ag = cbind (link_timers ms t now ag) (\<lambda>(_, ag, _). timer_rounds cs ag)"

lemma link_timers_handshaking:
  assumes "ag_cloud_status ag = iCloud_Handshaking" "\<not> handshake_done ag"
    and "check_handshake_timeout t now (ag\<lparr>ag_ilink_ctx := ctx\<rparr>) = Inr (next, ag')" "bh_handle_expired_trans ms (ag_ilink_ctx ag) = (e, ctx, evs)"
    and "ag_cloud_status ag' = iCloud_Handshaking \<or> ag_cloud_status ag' = iReady_To_Connect"
  shows "link_timers ms t now ag = Inr (min_expiry next e, ag', evs)"
  using assms by (auto simp: link_timers_def handshake_done_def Let_def)

text \<open>A frame of the first handshake with the agent's identifier.\<close>

definition shake_frame :: "agent \<Rightarrow> bytes \<Rightarrow> bool" where
  "shake_frame ag frame \<longleftrightarrow> (\<exists>mid msg. handshake_message TAG_HANDSHAKE1 mid (get_self_agent_id ag) = Inr (Some msg) \<and>
     compose_ilink_frame msg = Inr frame)"

lemma first_handshake_frame:
  assumes "first_handshake now ag = Inr ag'" "hs_resend_cnt (ag_handshake ag') \<noteq> hs_resend_cnt (ag_handshake ag)"
  shows "\<exists>frame. shake_frame ag frame \<and> ag_cloud_queue ag' = ag_cloud_queue (ilink_send frame ag)"
proof -
  obtain mid ctx where g: "bh_gen_id (ag_ilink_ctx ag) = (mid, ctx)" by force
  from assms obtain msg frame where "handshake_message TAG_HANDSHAKE1 mid (get_self_agent_id ag) = Inr (Some msg)"
    "compose_ilink_frame msg = Inr frame" "ag_cloud_queue ag' = ag_cloud_queue (ilink_send frame ag)"
    by (auto simp: first_handshake_def send_handshake_def g get_self_agent_id_def ilink_msg_send_def ilink_send_def Let_def
        elim!: cbind_InrE split: option.splits)
  then show ?thesis by (auto simp: shake_frame_def)
qed

lemma retry_or_give_up:
  assumes "session_inv ag" "ag_cloud_status ag = iCloud_Handshaking" "\<not> handshake_done ag"
    and t: "t > hs_last_handshake (ag_handshake ag) + 15"
  shows "\<exists>e ag' evs. link_timers ms t now ag = Inr (e, ag', evs) \<and> session_inv ag' \<and>
    (if hs_resend_cnt (ag_handshake ag) > 5
     then ag_cloud_status ag' = iReady_To_Connect \<and> hs_status (ag_handshake ag') = S_Unit \<and> ag_cloud_queue ag' = ag_cloud_queue ag
     else ag_cloud_status ag' = iCloud_Handshaking \<and> hs_status (ag_handshake ag') = S_First_Shake_Sent \<and>
       hs_resend_cnt (ag_handshake ag') = hs_resend_cnt (ag_handshake ag) + 1 \<and> hs_last_handshake (ag_handshake ag') = now \<and>
       (\<exists>frame. shake_frame ag frame \<and> ag_cloud_queue ag' = ag_cloud_queue (ilink_send frame ag)))"
proof -
  obtain e ctx evs where ctx: "bh_handle_expired_trans ms (ag_ilink_ctx ag) = (e, ctx, evs)" by (metis prod_cases3)
  let ?ag = "ag\<lparr>ag_ilink_ctx := ctx\<rparr>"
  have i: "session_inv ?ag" using assms(1) by (subst session_inv_part [of _ ag]) simp_all
  have t': "hs_last_handshake (ag_handshake ?ag) + of_int g_handshake_expiry < t" using t by (simp add: g_handshake_expiry_def)
  show ?thesis
  proof (cases "hs_resend_cnt (ag_handshake ag) > 5")
    case True
    let ?ag' = "init_handshake (set_cloud_connection_status now iReady_To_Connect ?ag)"
    have "check_handshake_timeout t now ?ag = Inr (-1, ?ag')" using t' True by (simp add: check_handshake_timeout_def)
    then have "link_timers ms t now ag = Inr (min_expiry (-1) e, ?ag', evs)"
      by (rule link_timers_handshaking [OF assms(2,3) _ ctx]) simp
    moreover have "session_inv ?ag'" by (intro unshaken_inv lost_inv i) simp
    ultimately show ?thesis using True by simp
  next
    case False
    obtain self where "ag_my_agent_id ?ag = Some self" using assms by (auto simp: session_inv_def)
    then obtain frame where f: "first_handshake now ?ag = Inr (shaken S_First_Shake_Sent now frame ?ag)"
      "session_inv (shaken S_First_Shake_Sent now frame ?ag)"
      by (rule first_handshake_inv [OF i]) (use False assms in auto)
    let ?ag' = "shaken S_First_Shake_Sent now frame ?ag"
    have "check_handshake_timeout t now ?ag = Inr (g_handshake_expiry * 1000, ?ag')" using t' False f by (simp add: check_handshake_timeout_def)
    then have "link_timers ms t now ag = Inr (min_expiry (g_handshake_expiry * 1000) e, ?ag', evs)"
      by (rule link_timers_handshaking [OF assms(2,3) _ ctx]) (simp add: assms)
    moreover have "\<exists>frame. shake_frame ag frame \<and> ag_cloud_queue ?ag' = ag_cloud_queue (ilink_send frame ag)"
    proof -
      obtain frame' where "shake_frame ?ag frame'" "ag_cloud_queue ?ag' = ag_cloud_queue (ilink_send frame' ?ag)"
        using first_handshake_frame [OF f(1)] by (auto simp: shaken_def)
      then show ?thesis by (intro exI [of _ frame']) (simp add: shake_frame_def get_self_agent_id_def ilink_send_def)
    qed
    ultimately show ?thesis using False f(2) assms by (auto simp: shaken_def)
  qed
qed

text \<open>One retry: the state before and after.\<close>

definition retried :: "agent \<Rightarrow> agent \<Rightarrow> bool" where
  "retried ag ag' \<longleftrightarrow> ag_cloud_status ag' = iCloud_Handshaking \<and> hs_status (ag_handshake ag') = S_First_Shake_Sent \<and>
     hs_resend_cnt (ag_handshake ag') = hs_resend_cnt (ag_handshake ag) + 1 \<and>
     (\<exists>frame. shake_frame ag frame \<and> ag_cloud_queue ag' = ag_cloud_queue (ilink_send frame ag))"

lemma retry_rounds:
  assumes "session_inv ag" "ag_cloud_status ag = iCloud_Handshaking" "\<not> handshake_done ag"
    "expired_clocks (hs_last_handshake (ag_handshake ag)) (cs @ ds)" "int (length cs) = 6 - hs_resend_cnt (ag_handshake ag)" "i < length cs"
  shows "\<exists>a a'. timer_rounds (take i cs) ag = Inr a \<and> timer_rounds (take (Suc i) cs) ag = Inr a' \<and> retried a a' \<and>
    session_inv a' \<and> hs_resend_cnt (ag_handshake a') = hs_resend_cnt (ag_handshake ag) + int (Suc i) \<and>
    expired_clocks (hs_last_handshake (ag_handshake a')) (drop (Suc i) cs @ ds)"
  using assms
proof (induction cs arbitrary: ag i)
  case (Cons c cs)
  obtain ms t now where c: "c = (ms, t, now)" by (metis prod_cases3)
  have "t > hs_last_handshake (ag_handshake ag) + 15" "\<not> hs_resend_cnt (ag_handshake ag) > 5" using Cons.prems(4,5) c by simp_all
  with retry_or_give_up [OF Cons.prems(1-3), of t ms now] obtain e ag1 evs where
    s: "link_timers ms t now ag = Inr (e, ag1, evs)" "session_inv ag1" "retried ag ag1" "hs_last_handshake (ag_handshake ag1) = now"
    by (auto simp: retried_def)
  have e: "expired_clocks (hs_last_handshake (ag_handshake ag1)) (cs @ ds)" using Cons.prems(4) c s(4) by simp
  show ?case
  proof (cases i)
    case 0
    then show ?thesis using s e c by (auto simp: retried_def)
  next
    case (Suc j)
    have "\<exists>a a'. timer_rounds (take j cs) ag1 = Inr a \<and> timer_rounds (take (Suc j) cs) ag1 = Inr a' \<and> retried a a' \<and>
      session_inv a' \<and> hs_resend_cnt (ag_handshake a') = hs_resend_cnt (ag_handshake ag1) + int (Suc j) \<and>
      expired_clocks (hs_last_handshake (ag_handshake a')) (drop (Suc j) cs @ ds)"
      by (rule Cons.IH) (use s e Cons.prems(5,6) Suc in \<open>auto simp: retried_def handshake_done_def\<close>)
    then show ?thesis using s(1,3) Suc c by (auto simp: retried_def)
  qed
qed simp

lemma timer_rounds_append: "timer_rounds (as @ bs) ag = cbind (timer_rounds as ag) (timer_rounds bs)"
  by (induction as arbitrary: ag) (auto simp: cbind_def split: sum.splits prod.splits)

lemma give_up_round:
  assumes "session_inv ag" "ag_cloud_status ag = iCloud_Handshaking" "\<not> handshake_done ag"
    "expired_clocks (hs_last_handshake (ag_handshake ag)) [c]" "hs_resend_cnt (ag_handshake ag) > 5"
  shows "\<exists>ag'. timer_rounds [c] ag = Inr ag' \<and> ag_cloud_status ag' = iReady_To_Connect \<and> hs_status (ag_handshake ag') = S_Unit \<and>
    ag_cloud_queue ag' = ag_cloud_queue ag"
proof -
  obtain ms t now where c: "c = (ms, t, now)" by (metis prod_cases3)
  have "t > hs_last_handshake (ag_handshake ag) + 15" using assms(4) c by simp
  from retry_or_give_up [OF assms(1-3) this, of ms now] assms(5) show ?thesis by (auto simp: c)
qed

text \<open>C21.  The handshake is retried, and only so often: when no answer comes and the timers run after each deadline,
  every round but the last leaves the agent handshaking, adds one to the counter and queues one more frame of
  the first handshake with the agent's identifier, until the counter is six; the last round resets the
  handshake, returns to connecting and queues nothing.\<close>

theorem handshake_gives_up:
  assumes "session_inv ag" "ag_cloud_status ag = iCloud_Handshaking" "\<not> handshake_done ag"
    and "hs_resend_cnt (ag_handshake ag) \<le> 6" "expired_clocks (hs_last_handshake (ag_handshake ag)) (cs @ [c])"
    and "int (length cs) = 6 - hs_resend_cnt (ag_handshake ag)"
  shows "(\<forall>i < length cs. \<exists>a a' frame. timer_rounds (take i cs) ag = Inr a \<and> timer_rounds (take (Suc i) cs) ag = Inr a' \<and>
      ag_cloud_status a' = iCloud_Handshaking \<and> hs_status (ag_handshake a') = S_First_Shake_Sent \<and>
      hs_resend_cnt (ag_handshake a') = hs_resend_cnt (ag_handshake a) + 1 \<and>
      shake_frame a frame \<and> ag_cloud_queue a' = ag_cloud_queue (ilink_send frame a)) \<and>
    (\<exists>a ag'. timer_rounds cs ag = Inr a \<and> hs_resend_cnt (ag_handshake a) = 6 \<and> timer_rounds (cs @ [c]) ag = Inr ag' \<and>
      ag_cloud_status ag' = iReady_To_Connect \<and> hs_status (ag_handshake ag') = S_Unit \<and> ag_cloud_queue ag' = ag_cloud_queue a)"
proof
  note rounds = retry_rounds [OF assms(1-3,5,6)]
  show "\<forall>i < length cs. \<exists>a a' frame. timer_rounds (take i cs) ag = Inr a \<and> timer_rounds (take (Suc i) cs) ag = Inr a' \<and>
      ag_cloud_status a' = iCloud_Handshaking \<and> hs_status (ag_handshake a') = S_First_Shake_Sent \<and>
      hs_resend_cnt (ag_handshake a') = hs_resend_cnt (ag_handshake a) + 1 \<and>
      shake_frame a frame \<and> ag_cloud_queue a' = ag_cloud_queue (ilink_send frame a)"
    using rounds by (fastforce simp: retried_def)
  have "\<exists>a. timer_rounds cs ag = Inr a \<and> hs_resend_cnt (ag_handshake a) = 6 \<and> session_inv a \<and>
      ag_cloud_status a = iCloud_Handshaking \<and> \<not> handshake_done a \<and> expired_clocks (hs_last_handshake (ag_handshake a)) [c]"
  proof (cases cs)
    case Nil
    then show ?thesis using assms by simp
  next
    case (Cons d ds)
    then have "length cs - 1 < length cs" "Suc (length cs - 1) = length cs" by simp_all
    with rounds [of "length cs - 1"] show ?thesis using assms(6) by (auto simp: retried_def handshake_done_def)
  qed
  then show "\<exists>a ag'. timer_rounds cs ag = Inr a \<and> hs_resend_cnt (ag_handshake a) = 6 \<and> timer_rounds (cs @ [c]) ag = Inr ag' \<and>
      ag_cloud_status ag' = iReady_To_Connect \<and> hs_status (ag_handshake ag') = S_Unit \<and> ag_cloud_queue ag' = ag_cloud_queue a"
    using give_up_round unfolding timer_rounds_append by (fastforce simp: cbind_def)
qed

definition clock_sample :: "(u64 \<times> u64 \<times> u64) list" where
  "clock_sample = [(0, 20, 20), (0, 40, 40), (0, 60, 60), (0, 80, 80), (0, 100, 100)]"

theorem handshake_gives_up_witness:
  "\<exists>a ag'. timer_rounds clock_sample connected_sample = Inr a \<and> hs_resend_cnt (ag_handshake a) = 6 \<and>
     timer_rounds (clock_sample @ [(0, 120, 120)]) connected_sample = Inr ag' \<and> ag_cloud_status ag' = iReady_To_Connect \<and>
     hs_status (ag_handshake ag') = S_Unit \<and> ag_cloud_queue ag' = ag_cloud_queue a"
proof -
  have "session_inv start_sample" unfolding start_sample_def by (rule agent_start_inv) (simp add: id_sample_ok)
  then have i: "session_inv connected_sample"
    using sender_ok [of start_sample None "Connected 5" "\<lambda>i. Send_Ok 40" 1 1] by (auto simp: connected_sample_def or_start_def internal_def)
  have "ag_cloud_status connected_sample = iCloud_Handshaking" "\<not> handshake_done connected_sample"
    "hs_resend_cnt (ag_handshake connected_sample) \<le> 6"
    "expired_clocks (hs_last_handshake (ag_handshake connected_sample)) (clock_sample @ [(0, 120, 120)])"
    "int (length clock_sample) = 6 - hs_resend_cnt (ag_handshake connected_sample)"
    by code_simp+
  from handshake_gives_up [OF i this] show ?thesis by blast
qed

section \<open>Provisioning\<close>

text \<open>Giving up provisioning does not reset its counter: once more than five requests were sent, every
  later connection sends a single request and is given up at its first deadline.\<close>

theorem provision_retries_exhausted:
  assumes "session_inv ag" "ag_my_agent_id ag = None" "ag_cloud_status ag = iReady_To_Connect" "ag_provision_resend_cnt ag > 5"
    and "sint t0 > ag_next_try_time ag" "t > now0 + 15"
  shows "\<exists>ag1 ag2. sender_connect ini (Connected s) t0 now0 ag = Inr (True, ag1) \<and> ag_cloud_status ag1 = iCloud_Provisioning \<and>
     length (ag_cloud_queue ag1) \<le> length (ag_cloud_queue ag) + 1 \<and>
     check_provision_timeout t now ag1 = Inr (-1, ag2) \<and> ag_cloud_status ag2 = iReady_To_Connect \<and> ag_cloud_queue ag2 = ag_cloud_queue ag1 \<and>
     ag_provision_resend_cnt ag2 > 5"
proof -
  define ag0 where "ag0 = (let ag = load_ini ini (ag\<lparr>ag_next_try_time := sint t0 + 10\<rparr>) in
     if sint (t0 - ag_status_change_time ag) > ag_max_connect_duration ag \<and> ag_max_connect_duration ag \<noteq> 0
     then emit [Call_Reboot] ag else ag)"
  have a0: "ag_my_agent_id ag0 = None" "ag_cloud_queue ag0 = ag_cloud_queue ag" "ag_provision_resend_cnt ag0 = ag_provision_resend_cnt ag"
    using assms(2) by (simp_all add: ag0_def load_ini_def Let_def split: option.split)
  define agc where "agc = set_cloud_connection_status now0 iCloud_Provisioning (emit [Call_Wakeup_Main_Thread]
    (set_cloud_connection_status now0 iSocket_Connected (ag0\<lparr>ag_cloud_sock := Some s, ag_wire := []\<rparr>)))"
  obtain frame where p: "init_provision now0 agc = Inr ((ilink_send frame agc)\<lparr>ag_provision_resend_cnt := ag_provision_resend_cnt agc + 1, ag_last_prov := now0\<rparr>)"
    by (rule init_provision_ok)
  define ag1 where "ag1 = (ilink_send frame agc)\<lparr>ag_provision_resend_cnt := ag_provision_resend_cnt agc + 1, ag_last_prov := now0\<rparr>"
  have "sender_connect ini (Connected s) t0 now0 ag = Inr (True, ag1)"
    using assms p a0 unfolding ag1_def
    by (simp add: sender_connect_def ag0_def [unfolded Let_def, symmetric] Let_def status_code_def setup_cloud_connect_def first_contact_def get_self_agent_id_def
        agc_def [symmetric] first_contact_end_def)
  moreover have c: "ag_provision_resend_cnt agc = ag_provision_resend_cnt ag" "ag_cloud_queue agc = ag_cloud_queue ag" "ag_cloud_status agc = iCloud_Provisioning"
    by (simp_all add: agc_def a0)
  have "check_provision_timeout t now ag1 = Inr (-1, set_cloud_connection_status now iReady_To_Connect ag1)"
    using assms(4,6) by (simp add: check_provision_timeout_def ag1_def c g_prov_expiry_def)
  moreover have "length (ag_cloud_queue ag1) \<le> length (ag_cloud_queue ag) + 1" "ag_cloud_status ag1 = iCloud_Provisioning"
    by (simp_all add: ag1_def ilink_send_def c)
  moreover have "ag_provision_resend_cnt ag1 > 5" using assms(4) by (simp add: ag1_def c)
  ultimately show ?thesis by simp
qed

definition unnamed_sample :: agent where
  "unnamed_sample = (agent_start None 0)\<lparr>ag_provision_resend_cnt := 6\<rparr>"

theorem provision_retries_exhausted_witness:
  "\<exists>ag1 ag2. sender_connect None (Connected 5) 100 100 unnamed_sample = Inr (True, ag1) \<and> ag_cloud_status ag1 = iCloud_Provisioning \<and>
     length (ag_cloud_queue ag1) \<le> length (ag_cloud_queue unnamed_sample) + 1 \<and>
     check_provision_timeout 120 120 ag1 = Inr (-1, ag2) \<and> ag_cloud_status ag2 = iReady_To_Connect \<and> ag_cloud_queue ag2 = ag_cloud_queue ag1 \<and>
     ag_provision_resend_cnt ag2 > 5"
proof (rule provision_retries_exhausted)
  show "session_inv unnamed_sample" by (simp add: unnamed_sample_def agent_start_def inv_defs)
qed (simp_all add: unnamed_sample_def agent_start_def)

section \<open>The deadline\<close>

text \<open>At the tick of its deadline the handshake is neither repeated nor waited for: the remaining time is
  zero, which the port handler ignores, so that without other timers it sleeps for its default of thirty
  seconds.\<close>

theorem handshake_deadline_ignored:
  assumes "ag_cloud_status ag = iCloud_Handshaking" "\<not> handshake_done ag" "sc_list (ag_ilink_ctx ag) = []"
    and "t = hs_last_handshake (ag_handshake ag) + 15"
  shows "\<exists>ag'. link_timers ms t now ag = Inr (-1, ag', []) \<and> ag_cloud_queue ag' = ag_cloud_queue ag \<and> session_part ag' = session_part ag \<and>
    select_timeout (-1) (-1) (\<lambda>e. e) (-1) = 30 * 1000"
proof -
  obtain ctx where ctx: "bh_handle_expired_trans ms (ag_ilink_ctx ag) = (-1, ctx, [])"
    using assms(3) by (simp add: bh_handle_expired_trans_def bh_remove_expired_trans_def split_beta)
  have "check_handshake_timeout t now (ag\<lparr>ag_ilink_ctx := ctx\<rparr>) = Inr (0, ag\<lparr>ag_ilink_ctx := ctx\<rparr>)"
    by (simp add: check_handshake_timeout_def assms(4) g_handshake_expiry_def time_left_def)
  then have "link_timers ms t now ag = Inr (min_expiry 0 (-1), ag\<lparr>ag_ilink_ctx := ctx\<rparr>, [])"
    by (rule link_timers_handshaking [OF assms(1,2) _ ctx]) (simp add: assms)
  then show ?thesis by (simp add: min_expiry_def select_timeout_def min_expiry_u_def)
qed

theorem handshake_deadline_ignored_witness:
  "\<exists>ag'. link_timers 0 16 16 connected_sample = Inr (-1, ag', []) \<and> ag_cloud_queue ag' = ag_cloud_queue connected_sample \<and>
    session_part ag' = session_part connected_sample \<and> select_timeout (-1) (-1) (\<lambda>e. e) (-1) = 30 * 1000"
  by (rule handshake_deadline_ignored; code_simp)

section \<open>Delivery\<close>

fun sender_rounds :: "((nat \<Rightarrow> send_ret) \<times> u64 \<times> u64) list \<Rightarrow> agent \<Rightarrow> agent cres" where
  "sender_rounds [] ag = Inr ag"
| "sender_rounds ((res, t, now) # rs) ag =
     cbind (thread_ilink_sender None Socket_Failed res t now ag) (\<lambda>ag. sender_rounds rs ag)"

lemma sender_round_sends:
  assumes "status_code (ag_cloud_status ag) > status_code iSocket_Connected" "ag_cloud_sock ag \<noteq> None" "ag_cloud_queue ag = f # q"
    "res 0 = Send_Ok (length f)"
  shows "thread_ilink_sender ini conn res t now ag = Inr (ag\<lparr>ag_cloud_queue := q, ag_wire := ag_wire ag @ f\<rparr>)"
  using assms by (simp add: thread_ilink_sender_def sender_connect_def sender_queue_def send_cloud_msg_def send_loop.simps)

lemma sender_rounds_send:
  assumes "status_code (ag_cloud_status ag) > status_code iSocket_Connected" "ag_cloud_sock ag \<noteq> None" "ag_cloud_queue ag = fs"
    "map (\<lambda>r. fst r 0) rs = map (\<lambda>f. Send_Ok (length f)) fs"
  shows "sender_rounds rs ag = Inr (ag\<lparr>ag_cloud_queue := [], ag_wire := ag_wire ag @ concat fs\<rparr>)"
  using assms
proof (induction fs arbitrary: ag rs)
  case (Cons f fs)
  obtain res t now rs' where rs: "rs = (res, t, now) # rs'" "res 0 = Send_Ok (length f)"
    "map (\<lambda>r. fst r 0) rs' = map (\<lambda>f. Send_Ok (length f)) fs"
    using Cons.prems(4) by (cases rs) auto
  let ?ag = "ag\<lparr>ag_cloud_queue := fs, ag_wire := ag_wire ag @ f\<rparr>"
  have "sender_rounds rs' ?ag = Inr (?ag\<lparr>ag_cloud_queue := [], ag_wire := ag_wire ?ag @ concat fs\<rparr>)"
    by (rule Cons.IH) (use Cons.prems rs in simp_all)
  then show ?case using sender_round_sends [of ag f fs res] Cons.prems rs by simp
qed simp

lemma compose_all_frames: "map compose_ilink_frame ms = map Inr fs \<Longrightarrow> compose_all ms = Inr (concat fs)"
  by (induction ms arbitrary: fs) auto

text \<open>C11.  From the queue to the peer: when the socket accepts every frame whole, one iteration of the sender per
  queued frame empties the queue in order, and a receiver that gets the bytes in packets cut anywhere
  delivers the queued messages in order, once each, with their contents.\<close>

theorem sender_delivers:
  assumes "status_code (ag_cloud_status ag) > status_code iSocket_Connected" "ag_cloud_sock ag \<noteq> None"
    and "map compose_ilink_frame ms = map Inr (ag_cloud_queue ag)" "list_all ilink_sendable ms"
    and "map (\<lambda>r. fst r 0) rs = map (\<lambda>f. Send_Ok (length f)) (ag_cloud_queue ag)"
    and "malloc_ok malloc" "\<forall>n. malloc n \<noteq> None" "rc_phase ctx = P_Not_Start" "concat pks = concat (ag_cloud_queue ag)"
  shows "\<exists>ag' ctx' ds. sender_rounds rs ag = Inr ag' \<and> ag_cloud_queue ag' = [] \<and> ag_wire ag' = ag_wire ag @ concat pks \<and>
    recv_packets malloc pks ctx = Inr (ctx', ds) \<and> map ilink_view ds = map ilink_view ms"
proof -
  have "\<And>m. m \<in> set ms \<Longrightarrow> ilink_sendable m" using assms(4) by (simp add: list_all_iff)
  with recv_frames [OF _ assms(8,6,7)] obtain ctx' ds where
    "recv_bytes malloc (concat pks) ctx = Inr (ctx', ds)" "map ilink_view ds = map ilink_view ms"
    using compose_all_frames [OF assms(3)] assms(9) by (metis Inr_inject)
  moreover have "recv_inv ctx" using assms(8) by (simp add: recv_inv_def Let_def)
  ultimately show ?thesis using sender_rounds_send [OF assms(1,2) refl assms(5)] recv_packets_bytes [OF assms(6)] assms(9) by simp
qed

definition ping_sample :: ilink_message where
  "ping_sample = (case ilink_set_vheader (tag_vheader TAG_PING) (ilink_set_req_resp True 7 (init_ilink_message INTEL_IAGENT)) of Inr m \<Rightarrow> m | _ \<Rightarrow> im_zero)"

definition ping_frame :: bytes where
  "ping_frame = (case compose_ilink_frame ping_sample of Inr f \<Rightarrow> f | _ \<Rightarrow> [])"

theorem sender_delivers_witness:
  "\<exists>ag' ctx' ds. sender_rounds [(\<lambda>i. Send_Ok (length ping_frame), 1, 1)] (ready_sample\<lparr>ag_cloud_queue := [ping_frame]\<rparr>) = Inr ag' \<and> ag_cloud_queue ag' = [] \<and>
    ag_wire ag' = ag_wire (ready_sample\<lparr>ag_cloud_queue := [ping_frame]\<rparr>) @ concat [take 5 ping_frame, drop 5 ping_frame] \<and>
    recv_packets malloc_sample [take 5 ping_frame, drop 5 ping_frame] rc_zero = Inr (ctx', ds) \<and> map ilink_view ds = map ilink_view [ping_sample]"
proof (rule sender_delivers)
  show "map compose_ilink_frame [ping_sample] = map Inr (ag_cloud_queue (ready_sample\<lparr>ag_cloud_queue := [ping_frame]\<rparr>))" by code_simp
  show "list_all ilink_sendable [ping_sample]" by code_simp
  show "status_code iSocket_Connected < status_code (ag_cloud_status (ready_sample\<lparr>ag_cloud_queue := [ping_frame]\<rparr>))" by code_simp
  show "ag_cloud_sock (ready_sample\<lparr>ag_cloud_queue := [ping_frame]\<rparr>) \<noteq> None" by code_simp
qed (simp_all add: malloc_sample_ok malloc_sample_def rc_zero_def)

section \<open>A connection lost inside a frame\<close>


lemma payload_done_body:
  assumes "payload_recieve_done ctx = Inr ctx'" "im_payload (rc_msg ctx) = Some (obj, 0)"
  shows "\<exists>b. im_payload (rc_msg ctx') = Some (obj, b) \<and>
    im_vheader (rc_msg ctx') = (if im_has_vheader (rc_msg ctx) then Some (obj, 0) else im_vheader (rc_msg ctx)) \<and>
    (\<not> im_has_vheader (rc_msg ctx) \<longrightarrow> b = 0 \<and> im_payload_len (rc_msg ctx') = im_payload_len (rc_msg ctx)) \<and>
    im_msgType (rc_msg ctx') = im_msgType (rc_msg ctx) \<and> im_msgID (rc_msg ctx') = im_msgID (rc_msg ctx)"
  using assms by (auto simp: payload_recieve_done_def Let_def split: if_splits sum.splits)

text \<open>C38.  The receive context survives the connection: when the link is lost inside the body of a frame, the first
  bytes of the next connection, whatever they are, are taken for the rest of that body, and a message made
  of the old and the new bytes, with the type and identifier of the old frame, is handled.\<close>

theorem stale_receive_context:
  assumes "malloc_ok malloc" "recv_inv ctx" "rc_phase ctx = P_In_Payload" "im_payload (rc_msg ctx) = Some (obj, 0)"
    and "int (length bs) = rc_phase_len ctx"
  shows "\<exists>ctx1 m ctx2 obj' b.
    cloud_sock_ready hc ini_save malloc Recv_Closed now ctx ag = Inr (ctx1, set_cloud_connection_status now iReady_To_Connect ag) \<and>
    cloud_sock_ready hc ini_save malloc (Recv_Bytes bs) now' ctx1 ag' =
      cbind (handle_messages hc ini_save now' [m] ag') (\<lambda>ag. Inr (ctx2, ag)) \<and>
    im_payload m = Some (obj', b) \<and> take (rc_offset ctx + length bs) obj' = take (rc_offset ctx) obj @ bs \<and>
    im_vheader m = (if im_has_vheader (rc_msg ctx) then Some (obj', 0) else im_vheader (rc_msg ctx)) \<and>
    (\<not> im_has_vheader (rc_msg ctx) \<longrightarrow> b = 0 \<and> unat (im_payload_len m) = rc_offset ctx + length bs) \<and>
    im_msgType m = im_msgType (rc_msg ctx) \<and> im_msgID m = im_msgID (rc_msg ctx)"
proof -
  let ?c = "payload_adv bs ctx" and ?obj = "take (rc_offset ctx) obj @ bs @ drop (rc_offset ctx + length bs) obj"
  obtain ctx2 where d: "payload_recieve_done ?c = Inr ctx2" using payload_done_adv [OF assms(2,3), of bs] assms(5) by auto
  have l: "int (rc_offset ctx) + int (length bs) = uint (im_payload_len (rc_msg ctx))" "rc_offset ctx \<le> length obj"
  proof -
    obtain o' where "im_payload (rc_msg ctx) = Some (o', 0)" "0 < rc_phase_len ctx"
      "int (rc_offset ctx) + rc_phase_len ctx = uint (im_payload_len (rc_msg ctx))" "uint (im_payload_len (rc_msg ctx)) \<le> int (length o')"
      by (rule payload_invE [OF assms(2,3)])
    then show "int (rc_offset ctx) + int (length bs) = uint (im_payload_len (rc_msg ctx))" "rc_offset ctx \<le> length obj"
      using assms(4,5) by auto
  qed
  have p: "im_payload (rc_msg ?c) = Some (?obj, 0)" using assms(4) by (simp add: payload_adv_def)
  from payload_done_body [OF d p] obtain b where b: "im_payload (rc_msg ctx2) = Some (?obj, b)"
    "im_vheader (rc_msg ctx2) = (if im_has_vheader (rc_msg ctx) then Some (?obj, 0) else im_vheader (rc_msg ctx))"
    "\<not> im_has_vheader (rc_msg ctx) \<longrightarrow> b = 0 \<and> im_payload_len (rc_msg ctx2) = im_payload_len (rc_msg ctx)"
    "im_msgType (rc_msg ctx2) = im_msgType (rc_msg ctx)" "im_msgID (rc_msg ctx2) = im_msgID (rc_msg ctx)"
    by (auto simp: payload_adv_def)
  have "recv_bytes malloc bs ctx = Inr (ctx2, [rc_msg ctx2])" using recv_bytes_block [OF assms(2,3), of bs malloc] assms(5) d by simp
  moreover from handle_cloud_packet_eq [OF assms(1,2), of bs "-1"] obtain r ctx' ms where
    "handle_cloud_packet malloc bs (-1) ctx = Inr (r, ctx', ms)" "recv_bytes malloc bs ctx = Inr (ctx', ms)" by blast
  ultimately have "cloud_sock_ready hc ini_save malloc (Recv_Bytes bs) now' ctx ag' =
      cbind (handle_messages hc ini_save now' [rc_msg ctx2] ag') (\<lambda>ag. Inr (ctx2, ag))"
    by (simp add: cloud_sock_ready_def)
  moreover have "take (rc_offset ctx + length bs) ?obj = take (rc_offset ctx) obj @ bs" using l(2) by simp
  moreover have "unat (im_payload_len (rc_msg ctx)) = rc_offset ctx + length bs" using l(1) by (metis nat_int of_nat_add unat_eq_nat_uint)
  ultimately show ?thesis using b by (intro exI [of _ ctx] exI [of _ "rc_msg ctx2"] exI [of _ ctx2] exI [of _ ?obj] exI [of _ b])
    (simp add: cloud_sock_ready_def)
qed

definition cut_sample :: recv_context where
  "cut_sample = (case recv_bytes malloc_sample [0xBA, 4, 0, 40, 1, 2] rc_zero of Inr (c, ds) \<Rightarrow> c | _ \<Rightarrow> rc_zero)"

theorem stale_receive_context_witness:
  "\<exists>ctx1 m ctx2 obj' b.
    cloud_sock_ready (cloud_coap env_sample) ini_sample malloc_sample Recv_Closed 1 cut_sample ready_sample =
      Inr (ctx1, set_cloud_connection_status 1 iReady_To_Connect ready_sample) \<and>
    cloud_sock_ready (cloud_coap env_sample) ini_sample malloc_sample (Recv_Bytes (replicate 38 7)) 2 ctx1 connected_sample =
      cbind (handle_messages (cloud_coap env_sample) ini_sample 2 [m] connected_sample) (\<lambda>ag. Inr (ctx2, ag)) \<and>
    im_payload m = Some (obj', b) \<and> take 40 obj' = [1, 2] @ replicate 38 7"
proof -
  have "recv_inv rc_zero" by (simp add: recv_inv_def rc_zero_def Let_def)
  from recv_bytes_inv [OF malloc_sample_ok this] have i: "recv_inv cut_sample"
    unfolding cut_sample_def by (metis (no_types, lifting) case_prod_conv old.sum.simps(6))
  have c: "rc_phase cut_sample = P_In_Payload" "rc_offset cut_sample = 2" "int (length (replicate 38 (7 :: u8))) = rc_phase_len cut_sample"
    "case im_payload (rc_msg cut_sample) of None \<Rightarrow> False | Some (obj, b) \<Rightarrow> b = 0 \<and> take 2 obj = [1, 2]" by code_simp+
  then obtain obj where o: "im_payload (rc_msg cut_sample) = Some (obj, 0)" "take 2 obj = [1, 2]" by (auto split: option.splits)
  from stale_receive_context [OF malloc_sample_ok i c(1) o(1) c(3), where hc = "cloud_coap env_sample" and ini_save = ini_sample
      and now = 1 and ag = ready_sample and now' = 2 and ag' = connected_sample]
  show ?thesis using o(2) c(2) by auto
qed

section \<open>CoAP requests from the cloud\<close>

lemma uri_path_set:
  assumes "length (cp_options p) = 8"
  shows "uri_path_bytes (coap_set_header_uri_path path p) = Inr (Some (dropWhile (\<lambda>c. c = 47) path))"
proof -
  define s where "s = dropWhile (\<lambda>c. c = 47) path"
  let ?q = "p\<lparr>cp_uri_path := c_string s, cp_uri_path_len := length s\<rparr>"
  have "IS_OPTION COAP_OPTION_URI_PATH (set_opt COAP_OPTION_URI_PATH ?q)"
    using assms by (subst IS_OPTION_set_opt) simp_all
  moreover have "set_opt COAP_OPTION_URI_PATH ?q = ?q\<lparr>cp_options := cp_options (set_opt COAP_OPTION_URI_PATH ?q)\<rparr>"
    using assms by (simp add: set_opt_options)
  then have "cp_uri_path (set_opt COAP_OPTION_URI_PATH ?q) = c_string s" "cp_uri_path_len (set_opt COAP_OPTION_URI_PATH ?q) = length s"
    using assms by (simp_all add: set_opt_options)
  ultimately show ?thesis
    by (simp add: uri_path_bytes_def coap_get_header_uri_path_def coap_set_header_uri_path_def c_string_def sref_at_def sref_view_def Let_def s_def [symmetric])
qed

text \<open>A request for a device under the name of the agent, \<open>iagent/<id>/dev/...\<close>, ends in a failed assertion: the
  prefix is removed from the path, but the function that looks up the device is given the unchanged URL.\<close>

theorem dev_url_aborts:
  assumes "length (cp_options p) = 8" "get_key_value m K_EP = Inr ep" "ag_my_agent_id ag = Some self" "0 \<notin> set self" "length self \<le> 56"
    and "uri_path_bytes p = Inr (Some (str ''iagent/'' @ self @ str ''/dev/'' @ x))" "length self + length x < 243" "0 \<notin> set x"
  shows "coap_request env m p ag = Inl Assert_Failed"
proof -
  define pre u where "pre = str ''iagent/'' @ self" and "u = pre @ str ''/dev/'' @ x"
  have u: "takeWhile (\<lambda>c. c \<noteq> 0) u = u" "take 63 (str ''iagent/'' @ self) = pre" "take (length pre) u = pre" "drop (length pre) u = str ''/dev/'' @ x"
    "\<not> 255 \<le> length u" "uri_path_bytes p = Inr (Some u)" "\<not> c_strncmp_eq u (str ''dev/'') 4"
    using assms(4-8) by (auto simp: pre_def u_def str_def c_strncmp_eq_def)
  let ?p = "coap_set_header_uri_path (str ''/dev/'' @ x) p"
  have p: "uri_path_bytes ?p = Inr (Some (str ''dev/'' @ x))" unfolding uri_path_set [OF assms(1)] by (simp add: str_def)
  have "check_url_start (str ''dev/'' @ x) (str ''dev/'') \<noteq> 0" by (simp add: check_url_start_def str_def slash_def)
  moreover have "check_url_generic_dev env u 256 ?p = Inl Assert_Failed" using u(7) by (simp add: check_url_generic_dev_def)
  ultimately show ?thesis
    by (simp add: coap_request_def deref_def get_self_agent_id_def Let_def assms(2,3) u p del: take_append drop_append length_take)
qed

definition path_sample :: "bytes \<Rightarrow> coap_packet" where
  "path_sample path = coap_set_header_uri_path path (coap_init_message 0 1 7)"

theorem dev_url_aborts_witness:
  "coap_request env_sample accept_sample (path_sample (str ''iagent/a/dev/x'')) connected_sample = Inl Assert_Failed"
proof (rule dev_url_aborts [where self = "[97]" and x = "str ''x''"])
  show "get_key_value accept_sample K_EP = Inr None" by code_simp
  show "length (cp_options (path_sample (str ''iagent/a/dev/x''))) = 8" by code_simp
  show "ag_my_agent_id connected_sample = Some [97]" by code_simp
  show "uri_path_bytes (path_sample (str ''iagent/a/dev/x'')) = Inr (Some (str ''iagent/'' @ [97] @ str ''/dev/'' @ str ''x''))" by code_simp
qed (simp_all add: str_def)

text \<open>A response sent as a request ends in a failed assertion: a message with the leading byte of requests whose
  CoAP code is not a method is not refused but aborts the agent.\<close>

theorem coap_response_aborts:
  assumes "handshake_done ag" "im_msgType m = COAP_OVER_TCP" "im_vheader m \<noteq> None" "get_key_value m K_AGENT_ID = Inr None"
    and "im_leading_byte m = FIXEDCHAR_REQUEST" "ptr_view (im_payload m) = Inr bs"
    and "coap_parse_message_tcp bs (ucast (im_payload_len m)) = Inr (0, p)" "cp_code p = 0 \<or> cp_code p > COAP_DELETE"
  shows "handle_ilink_message (cloud_coap env) ini_save now m ag = Inl Assert_Failed"
proof -
  have "\<not> (COAP_GET \<le> cp_code p \<and> cp_code p \<le> COAP_DELETE)" using assms(8) by (auto simp: COAP_GET_def)
  then show ?thesis using assms(1-7)
    by (simp add: handle_ilink_message_def cloud_coap_def handle_type_coap_def lead_defs)
qed

definition response_sample :: ilink_message where
  "response_sample = accept_sample\<lparr>im_msgType := COAP_OVER_TCP, im_leading_byte := FIXEDCHAR_REQUEST, im_payload := Some ([0, 69], 0), im_payload_len := 2\<rparr>"

theorem coap_response_aborts_witness: "handle_ilink_message (cloud_coap env_sample) ini_sample 3 response_sample ready_sample = Inl Assert_Failed"
proof (rule coap_response_aborts [where bs = "[0, 69]" and p = "snd (case coap_parse_message_tcp [0, 69] 2 of Inr r \<Rightarrow> r | _ \<Rightarrow> (0, cp_zero))"])
  show "handshake_done ready_sample" by code_simp
qed code_simp+

text \<open>A request forwarded to an end point loses its token: the token kept for the answer is read after the
  agent has put its own identifier into the packet, so the answer to the cloud carries the agent's token and
  not the one of the request.\<close>

theorem ep_request_loses_token:
  assumes "ce_reachable env name" "uri_path_bytes p = Inr (Some url)" "length (cp_token p) \<noteq> 8"
  shows "\<exists>data q. send_ilink_request_to_ep env name m p ag =
      Inr (ag\<lparr>ag_ilink_ctx := snd (bh_gen_id (ag_ilink_ctx ag))\<rparr>, [Send_To_Endpoint name data q]) \<and>
    ec_token data = le_bytes 8 (ucast (fst (bh_gen_id (ag_ilink_ctx ag))) :: u64) \<and> ec_token data \<noteq> cp_token p"
proof -
  have "length (le_bytes 8 (ucast (fst (bh_gen_id (ag_ilink_ctx ag))) :: u64)) = 8" by (simp add: le_bytes_def)
  with assms show ?thesis
    by (auto simp: send_ilink_request_to_ep_def Let_def split_beta coap_set_token_def COAP_TOKEN_LEN_def)
qed

theorem ep_request_loses_token_witness:
  "\<exists>data q. send_ilink_request_to_ep env_sample (str ''e'') accept_sample (snd (coap_set_token [1, 2, 3, 4] (path_sample (str ''r'')))) ready_sample =
      Inr (ready_sample\<lparr>ag_ilink_ctx := snd (bh_gen_id (ag_ilink_ctx ready_sample))\<rparr>, [Send_To_Endpoint (str ''e'') data q]) \<and>
    ec_token data = le_bytes 8 (ucast (fst (bh_gen_id (ag_ilink_ctx ready_sample))) :: u64) \<and>
    ec_token data \<noteq> cp_token (snd (coap_set_token [1, 2, 3, 4] (path_sample (str ''r''))))"
proof (rule ep_request_loses_token [where url = "str ''r''"])
  show "uri_path_bytes (snd (coap_set_token [1, 2, 3, 4] (path_sample (str ''r'')))) = Inr (Some (str ''r''))" by code_simp
qed code_simp+

end
