(* ===== verification/Link_Threads.thy ===== *)
theory Link_Threads
  imports Agent_Link
begin

text \<open>
  The interleaving of the two threads of the cloud link on the variables they share without a lock,
  \<open>g_cloud_status\<close> and \<open>g_cloud_sock\<close>: the sender thread of \<open>platforms/linux/ibroker_send.c\<close> and the port
  handler of \<open>platforms/linux/ports_handler.c\<close> with the functions it calls (\<open>ping.c\<close>, \<open>handshake.c\<close>,
  \<open>provision.c\<close>).

  A step of a thread is one access to a shared variable, with the test or the call that uses it; between
  two steps the other thread may run.  A program counter names the place by the line of its access.  What
  does not depend on the shared variables - the clock, the results of socket calls, the messages received,
  the retry counters - is the choice given to the step, so every behaviour of the rest of the program is
  allowed.
\<close>

section \<open>The threads\<close>

datatype sender_pc =
    Sd_Top      \<comment> \<open>line 358: status and time for a new try\<close>
  | Sd_Test     \<comment> \<open>line 362: has the port handler cleaned up?\<close>
  | Sd_Close    \<comment> \<open>lines 283-287\<close>
  | Sd_Socket   \<comment> \<open>line 291\<close>
  | Sd_Connect  \<comment> \<open>lines 301-322\<close>
  | Sd_Up       \<comment> \<open>line 324\<close>
  | Sd_Contact  \<comment> \<open>line 390\<close>
  | Sd_Prov     \<comment> \<open>line 392\<close>
  | Sd_Shake    \<comment> \<open>line 399\<close>
  | Sd_Get      \<comment> \<open>line 405\<close>
  | Sd_Msg      \<comment> \<open>line 409\<close>
  | Sd_Send     \<comment> \<open>lines 243-248\<close>
  | Sd_Fail     \<comment> \<open>line 230\<close>
  | Sd_Error    \<comment> \<open>line 232\<close>
  | Sd_Abort    \<comment> \<open>the assertion of line 243 failed\<close>

datatype port_pc =
    Pt_Prov               \<comment> \<open>\<open>ports_handler.c\<close> line 220\<close>
  | Pt_Prov_Timeout       \<comment> \<open>line 222, \<open>provision.c\<close> line 166\<close>
  | Pt_Shake              \<comment> \<open>line 228\<close>
  | Pt_Shake_Timeout      \<comment> \<open>line 231, \<open>handshake.c\<close> line 256\<close>
  | Pt_Ping               \<comment> \<open>line 237\<close>
  | Pt_Ping_Assert        \<comment> \<open>line 239, \<open>ping.c\<close> line 58\<close>
  | Pt_Ping_Fail          \<comment> \<open>\<open>ping.c\<close> line 65, \<open>ibroker_send.c\<close> line 230\<close>
  | Pt_Ping_Error         \<comment> \<open>\<open>ibroker_send.c\<close> line 232\<close>
  | Pt_Check              \<comment> \<open>line 245\<close>
  | Pt_Reset              \<comment> \<open>line 246\<close>
  | Pt_Fds                \<comment> \<open>line 275\<close>
  | Pt_Fdset              \<comment> \<open>line 277\<close>
  | Pt_Select "nat option"  \<comment> \<open>line 282, with the cloud descriptor in the set\<close>
  | Pt_Isset nat          \<comment> \<open>line 299\<close>
  | Pt_Recv nat           \<comment> \<open>line 301\<close>
  | Pt_Lost               \<comment> \<open>lines 304 and 309\<close>
  | Pt_Handle             \<comment> \<open>line 315: messages of the packet, \<open>handshake.c\<close> lines 217 and 231, \<open>provision.c\<close> line 116\<close>
  | Pt_Handle_Prov        \<comment> \<open>\<open>provision.c\<close> line 150\<close>
  | Pt_Abort              \<comment> \<open>the assertion of \<open>ping.c\<close> line 58 failed\<close>
  | Pt_Fault              \<comment> \<open>the descriptor -1 was used\<close>

record link_sys =
  lk_status :: cloud_status
  lk_sock :: "nat option"
  lk_sender :: sender_pc
  lk_port :: port_pc

text \<open>What the rest of the program decides in a step.\<close>

datatype choice = Yes | No | Other | Fd nat

definition sender_next :: "choice \<Rightarrow> link_sys \<Rightarrow> link_sys" where
  "sender_next c s =
     (case lk_sender s of
        Sd_Top \<Rightarrow> s\<lparr>lk_sender := if status_code (lk_status s) < status_code iSocket_Connected \<and> c = Yes then Sd_Test else Sd_Get\<rparr>
      | Sd_Test \<Rightarrow> s\<lparr>lk_sender := if lk_status s \<noteq> iReady_To_Connect then Sd_Get else Sd_Close\<rparr>
      | Sd_Close \<Rightarrow> s\<lparr>lk_sock := None, lk_sender := Sd_Socket\<rparr>
      | Sd_Socket \<Rightarrow>
          (case c of Fd d \<Rightarrow> s\<lparr>lk_sock := Some d, lk_sender := Sd_Connect\<rparr> | _ \<Rightarrow> s\<lparr>lk_sock := None, lk_sender := Sd_Top\<rparr>)
      | Sd_Connect \<Rightarrow> s\<lparr>lk_sender := if c = Yes then Sd_Up else Sd_Top\<rparr>
      | Sd_Up \<Rightarrow> s\<lparr>lk_status := iSocket_Connected, lk_sender := Sd_Contact\<rparr>
      | Sd_Contact \<Rightarrow> s\<lparr>lk_sender := if c = Yes then Sd_Shake else Sd_Prov\<rparr>
      | Sd_Prov \<Rightarrow> s\<lparr>lk_status := iCloud_Provisioning, lk_sender := Sd_Get\<rparr>
      | Sd_Shake \<Rightarrow> s\<lparr>lk_status := iCloud_Handshaking, lk_sender := Sd_Get\<rparr>
      | Sd_Get \<Rightarrow> s\<lparr>lk_sender := if c = Yes then Sd_Msg else Sd_Top\<rparr>
      | Sd_Msg \<Rightarrow> s\<lparr>lk_sender := if status_code (lk_status s) > status_code iSocket_Connected then Sd_Send else Sd_Top\<rparr>
      | Sd_Send \<Rightarrow> s\<lparr>lk_sender := if lk_sock s = None then Sd_Abort else if c = Yes then Sd_Top else Sd_Fail\<rparr>
      | Sd_Fail \<Rightarrow> s\<lparr>lk_sender := if lk_status s \<noteq> iReady_To_Connect then Sd_Error else Sd_Top\<rparr>
      | Sd_Error \<Rightarrow> s\<lparr>lk_status := iError_In_Connection, lk_sender := Sd_Top\<rparr>
      | Sd_Abort \<Rightarrow> s)"

definition port_next :: "choice \<Rightarrow> link_sys \<Rightarrow> link_sys" where
  "port_next c s =
     (case lk_port s of
        Pt_Prov \<Rightarrow> s\<lparr>lk_port := if lk_status s = iCloud_Provisioning then Pt_Prov_Timeout else Pt_Shake\<rparr>
      | Pt_Prov_Timeout \<Rightarrow> (if c = Yes then s\<lparr>lk_status := iReady_To_Connect, lk_port := Pt_Shake\<rparr> else s\<lparr>lk_port := Pt_Shake\<rparr>)
      | Pt_Shake \<Rightarrow> s\<lparr>lk_port := if lk_status s = iCloud_Handshaking \<and> c = Yes then Pt_Shake_Timeout else Pt_Ping\<rparr>
      | Pt_Shake_Timeout \<Rightarrow> (if c = Yes then s\<lparr>lk_status := iReady_To_Connect, lk_port := Pt_Ping\<rparr> else s\<lparr>lk_port := Pt_Ping\<rparr>)
      | Pt_Ping \<Rightarrow> s\<lparr>lk_port := if lk_status s = iReady_For_Work then Pt_Ping_Assert else Pt_Check\<rparr>
      | Pt_Ping_Assert \<Rightarrow>
          s\<lparr>lk_port := if lk_status s \<noteq> iReady_For_Work then Pt_Abort else if c = Yes then Pt_Ping_Fail else Pt_Check\<rparr>
      | Pt_Ping_Fail \<Rightarrow> s\<lparr>lk_port := if lk_status s \<noteq> iReady_To_Connect then Pt_Ping_Error else Pt_Check\<rparr>
      | Pt_Ping_Error \<Rightarrow> s\<lparr>lk_status := iError_In_Connection, lk_port := Pt_Check\<rparr>
      | Pt_Check \<Rightarrow> s\<lparr>lk_port := if lk_status s = iError_In_Connection then Pt_Reset else Pt_Fds\<rparr>
      | Pt_Reset \<Rightarrow> s\<lparr>lk_status := iReady_To_Connect, lk_port := Pt_Fds\<rparr>
      | Pt_Fds \<Rightarrow> s\<lparr>lk_port := if status_code (lk_status s) \<ge> status_code iSocket_Connected then Pt_Fdset else Pt_Select None\<rparr>
      | Pt_Fdset \<Rightarrow> s\<lparr>lk_port := case lk_sock s of None \<Rightarrow> Pt_Fault | Some d \<Rightarrow> Pt_Select (Some d)\<rparr>
      | Pt_Select fd \<Rightarrow>
          s\<lparr>lk_port := case fd of None \<Rightarrow> Pt_Prov | Some d \<Rightarrow> if c = Yes then Pt_Isset d else Pt_Prov\<rparr>
      | Pt_Isset d \<Rightarrow>
          s\<lparr>lk_port := case lk_sock s of None \<Rightarrow> Pt_Fault | Some d' \<Rightarrow> if d' = d \<and> c = Yes then Pt_Recv d else Pt_Prov\<rparr>
      | Pt_Recv d \<Rightarrow>
          s\<lparr>lk_port := case lk_sock s of None \<Rightarrow> Pt_Fault
             | Some d' \<Rightarrow> (case c of Yes \<Rightarrow> Pt_Handle | No \<Rightarrow> Pt_Lost | _ \<Rightarrow> Pt_Prov)\<rparr>
      | Pt_Lost \<Rightarrow> s\<lparr>lk_status := iReady_To_Connect, lk_port := Pt_Prov\<rparr>
      | Pt_Handle \<Rightarrow>
          (case c of
             Yes \<Rightarrow> s\<lparr>lk_status := iReady_For_Work\<rparr>
           | Other \<Rightarrow> s\<lparr>lk_port := if lk_status s = iCloud_Provisioning then Pt_Handle_Prov else Pt_Handle\<rparr>
           | _ \<Rightarrow> s\<lparr>lk_port := Pt_Prov\<rparr>)
      | Pt_Handle_Prov \<Rightarrow> (if c = Yes then s\<lparr>lk_status := iCloud_Handshaking, lk_port := Pt_Handle\<rparr> else s\<lparr>lk_port := Pt_Handle\<rparr>)
      | Pt_Abort \<Rightarrow> s
      | Pt_Fault \<Rightarrow> s)"

datatype link_thread = Sender_Thread | Port_Thread

fun link_run :: "(link_thread \<times> choice) list \<Rightarrow> link_sys \<Rightarrow> link_sys" where
  "link_run [] s = s"
| "link_run ((Sender_Thread, c) # cs) s = link_run cs (sender_next c s)"
| "link_run ((Port_Thread, c) # cs) s = link_run cs (port_next c s)"

definition link_start :: link_sys where
  "link_start = \<lparr>lk_status = iReady_To_Connect, lk_sock = None, lk_sender = Sd_Top, lk_port = Pt_Prov\<rparr>"

section \<open>The protocol of the status\<close>

text \<open>The sender may close and open the socket only when the status says so, and while it says so the
  port handler is at a place where it holds no decision about the connection.\<close>

definition connecting :: "sender_pc \<Rightarrow> bool" where
  "connecting p \<longleftrightarrow> p \<in> {Sd_Close, Sd_Socket, Sd_Connect, Sd_Up}"

definition port_idle :: "port_pc \<Rightarrow> bool" where
  "port_idle p \<longleftrightarrow> p \<in> {Pt_Prov, Pt_Shake, Pt_Ping, Pt_Check, Pt_Fds, Pt_Select None, Pt_Abort}"

definition uses_fd :: "port_pc \<Rightarrow> nat option" where
  "uses_fd p = (case p of Pt_Select fd \<Rightarrow> fd | Pt_Isset d \<Rightarrow> Some d | Pt_Recv d \<Rightarrow> Some d | _ \<Rightarrow> None)"

definition needs_sock :: "sender_pc \<Rightarrow> bool" where
  "needs_sock p \<longleftrightarrow> p \<in> {Sd_Connect, Sd_Up, Sd_Contact, Sd_Prov, Sd_Shake, Sd_Send, Sd_Fail, Sd_Error}"

definition link_inv :: "link_sys \<Rightarrow> bool" where
  "link_inv s \<longleftrightarrow> lk_sender s \<noteq> Sd_Abort \<and> lk_port s \<noteq> Pt_Fault \<and>
     (connecting (lk_sender s) \<longrightarrow> lk_status s = iReady_To_Connect) \<and>
     (\<not> port_idle (lk_port s) \<longrightarrow> lk_status s \<noteq> iReady_To_Connect) \<and>
     (lk_sock s = None \<longrightarrow> lk_status s = iReady_To_Connect \<and> \<not> needs_sock (lk_sender s)) \<and>
     (\<forall>d. uses_fd (lk_port s) = Some d \<longrightarrow> lk_sock s = Some d)"

lemmas link_defs = link_inv_def connecting_def port_idle_def uses_fd_def needs_sock_def status_code_def

lemma sender_next_inv: "link_inv s \<Longrightarrow> link_inv (sender_next c s)"
  by (cases "lk_sender s"; cases "lk_port s")
    (auto simp: sender_next_def link_defs split: choice.splits cloud_status.splits option.splits if_splits)

lemma port_next_inv: "link_inv s \<Longrightarrow> link_inv (port_next c s)"
  by (cases "lk_port s"; cases "lk_sender s")
    (auto simp: port_next_def link_defs split: choice.splits cloud_status.splits option.splits if_splits)

lemma link_run_inv: "link_inv s \<Longrightarrow> link_inv (link_run cs s)"
  by (induction cs s rule: link_run.induct) (auto intro: sender_next_inv port_next_inv)

section \<open>An undisturbed iteration\<close>

text \<open>When the other thread stands still, the steps of a thread do to the shared variables what one
  iteration of \<open>Agent_Link\<close> does.\<close>

definition link_view :: "agent \<Rightarrow> sender_pc \<Rightarrow> port_pc \<Rightarrow> link_sys" where
  "link_view ag sp pp = \<lparr>lk_status = ag_cloud_status ag, lk_sock = ag_cloud_sock ag, lk_sender = sp, lk_port = pp\<rparr>"

abbreviation link_part :: "agent \<Rightarrow> cloud_status \<times> nat option" where
  "link_part ag \<equiv> (ag_cloud_status ag, ag_cloud_sock ag)"

definition thread_run :: "link_thread \<Rightarrow> link_sys \<Rightarrow> link_sys \<Rightarrow> bool" where
  "thread_run th s s' \<longleftrightarrow> (\<exists>cs. link_run (map (Pair th) cs) s = s')"

lemma link_run_append: "link_run (as @ bs) s = link_run bs (link_run as s)"
  by (induction as s rule: link_run.induct) auto

lemma thread_run_trans: "thread_run th s s1 \<Longrightarrow> thread_run th s1 s2 \<Longrightarrow> thread_run th s s2"
  unfolding thread_run_def by (metis link_run_append map_append)

lemma sender_runs: "link_run (map (Pair Sender_Thread) cs) s = s' \<Longrightarrow> thread_run Sender_Thread s s'"
  and port_runs: "link_run (map (Pair Port_Thread) cs) s = s' \<Longrightarrow> thread_run Port_Thread s s'"
  by (auto simp: thread_run_def)

lemma set_status_part: "link_part (set_cloud_connection_status now st ag) = (st, ag_cloud_sock ag)"
  by (simp add: set_cloud_connection_status_def Let_def emit_def)

lemma send_handshake_part: "send_handshake tag st now ag = Inr ag' \<Longrightarrow> link_part ag' = link_part ag"
  by (auto simp: send_handshake_def ilink_msg_send_def ilink_send_def Let_def split: option.splits prod.splits elim!: cbind_InrE)

lemma init_provision_part: "init_provision now ag = Inr ag' \<Longrightarrow> link_part ag' = link_part ag"
  by (auto simp: init_provision_def ilink_msg_send_def ilink_send_def elim!: cbind_InrE)

lemma init_ping_part: "init_ping now ag = Inr ag' \<Longrightarrow> link_part ag' = link_part ag"
  by (auto simp: init_ping_def ilink_msg_send_def ilink_send_def Let_def split: prod.splits elim!: cbind_InrE)

lemma prepare_reconnect_part:
  "link_part (prepare_reconnect_cloud now ag) =
     (if ag_cloud_status ag = iReady_To_Connect then iReady_To_Connect else iError_In_Connection, ag_cloud_sock ag)"
  by (simp add: prepare_reconnect_cloud_def emit_def set_cloud_connection_status_def Let_def)

lemma send_loop_part:
  "link_part (snd (send_loop res now msg cnt ag)) = link_part ag \<or>
   link_part (snd (send_loop res now msg cnt ag)) = link_part (prepare_reconnect_cloud now ag)"
proof (induction res now msg cnt ag rule: send_loop.induct)
  case (1 res now msg cnt ag)
  then show ?case by (subst (1 2) send_loop.simps) (auto split: send_ret.splits)
qed

lemma sender_queue_runs:
  assumes "sender_queue res now ag = Inr ag'"
  shows "thread_run Sender_Thread (link_view ag Sd_Get p) (link_view ag' Sd_Top p)"
proof (cases "ag_cloud_queue ag")
  case Nil
  then show ?thesis using assms
    by (intro sender_runs [of "[No]"]) (simp add: sender_queue_def sender_next_def link_view_def)
next
  case (Cons msg q)
  let ?ag = "ag\<lparr>ag_cloud_queue := q\<rparr>"
  show ?thesis
  proof (cases "status_code (ag_cloud_status ag) > status_code iSocket_Connected")
    case True
    have s: "ag_cloud_sock ag \<noteq> None" "ag' = snd (send_loop res now msg 0 ?ag)"
      using assms Cons True by (auto simp: sender_queue_def send_cloud_msg_def split: if_splits prod.splits)
    have nr: "ag_cloud_status ag \<noteq> iReady_To_Connect" using True by (auto simp: status_code_def)
    from send_loop_part [of res now msg 0 ?ag] show ?thesis
    proof
      assume "link_part (snd (send_loop res now msg 0 ?ag)) = link_part ?ag"
      then show ?thesis using s True
        by (intro sender_runs [of "[Yes, Yes, Yes]"]) (simp add: sender_next_def link_view_def)
    next
      assume "link_part (snd (send_loop res now msg 0 ?ag)) = link_part (prepare_reconnect_cloud now ?ag)"
      then show ?thesis using s True nr prepare_reconnect_part [of now ?ag]
        by (intro sender_runs [of "[Yes, Yes, No, No, No]"]) (simp add: sender_next_def link_view_def)
    qed
  next
    case False
    then have "ag' = ?ag" using assms Cons by (simp add: sender_queue_def)
    then show ?thesis using False by (intro sender_runs [of "[Yes, Yes]"]) (simp add: sender_next_def link_view_def)
  qed
qed

lemma first_contact_runs:
  assumes "first_contact now ag = Inr (st, ag')" "ag_cloud_sock ag \<noteq> None"
  shows "thread_run Sender_Thread (link_view ag Sd_Contact p) (link_view (first_contact_end now st ag') Sd_Get p)"
proof (cases "get_self_agent_id ag = None")
  case True
  then have "init_provision now (set_cloud_connection_status now iCloud_Provisioning ag) = Inr ag'" "st = iCloud_Provisioning"
    using assms(1) by (auto simp: first_contact_def map_sum_def split: sum.splits)
  then have "link_part (first_contact_end now st ag') = (iCloud_Provisioning, ag_cloud_sock ag)"
    using init_provision_part [of now "set_cloud_connection_status now iCloud_Provisioning ag" ag'] by (simp add: first_contact_end_def set_status_part)
  then show ?thesis by (intro sender_runs [of "[No, No]"]) (simp add: sender_next_def link_view_def)
next
  case False
  then have "first_handshake now (init_handshake ag) = Inr ag'" "st = iCloud_Handshaking"
    using assms(1) by (auto simp: first_contact_def map_sum_def split: sum.splits)
  then have "link_part (first_contact_end now st ag') = (iCloud_Handshaking, ag_cloud_sock ag)"
    using send_handshake_part [of TAG_HANDSHAKE1 S_First_Shake_Sent now "init_handshake ag" ag']
    by (simp add: first_contact_end_def set_status_part first_handshake_def init_handshake_def)
  then show ?thesis by (intro sender_runs [of "[Yes, No]"]) (simp add: sender_next_def link_view_def)
qed

lemma setup_runs:
  assumes "setup_cloud_connect conn now ag = (ok, ag')" "ag_cloud_status ag = iReady_To_Connect"
  shows "thread_run Sender_Thread (link_view ag Sd_Close p) (link_view ag' (if ok then Sd_Contact else Sd_Top) p)"
proof (cases conn)
  case Socket_Failed
  then show ?thesis using assms
    by (intro sender_runs [of "[No, No]"]) (auto simp: setup_cloud_connect_def sender_next_def link_view_def)
next
  case (Host_Failed d)
  then show ?thesis using assms
    by (intro sender_runs [of "[No, Fd d, No]"]) (auto simp: setup_cloud_connect_def sender_next_def link_view_def)
next
  case (Connect_Failed d)
  then show ?thesis using assms
    by (intro sender_runs [of "[No, Fd d, No]"]) (auto simp: setup_cloud_connect_def sender_next_def link_view_def)
next
  case (Connected d)
  then show ?thesis using assms
    by (intro sender_runs [of "[No, Fd d, Yes, No]"])
      (auto simp: setup_cloud_connect_def sender_next_def link_view_def emit_def set_cloud_connection_status_def Let_def)
qed

lemma sender_connect_runs:
  assumes "sender_connect ini conn t now ag = Inr (go, ag')"
  shows "thread_run Sender_Thread (link_view ag Sd_Top p) (link_view ag' (if go then Sd_Get else Sd_Top) p)"
proof (cases "status_code (ag_cloud_status ag) < status_code iSocket_Connected \<and> sint t > ag_next_try_time ag")
  case False
  have "sender_connect ini conn t now ag = Inr (True, ag)" unfolding sender_connect_def by (rule if_not_P [OF False])
  then show ?thesis using assms by (intro sender_runs [of "[No]"]) (simp add: sender_next_def link_view_def)
next
  case due: True
  let ?ag = "ag\<lparr>ag_next_try_time := sint t + 10\<rparr>"
  show ?thesis
  proof (cases "ag_cloud_status ag = iReady_To_Connect")
    case False
    then have "go" "ag' = ?ag" using assms due by (auto simp: sender_connect_def)
    then show ?thesis using False due by (intro sender_runs [of "[Yes, No]"]) (simp add: sender_next_def link_view_def)
  next
    case True
    define ag1 where "ag1 = (let a = load_ini ini ?ag in if sint (t - ag_status_change_time a) > ag_max_connect_duration a \<and>
      ag_max_connect_duration a \<noteq> 0 then emit [Call_Reboot] a else a)"
    obtain ok ag2 where su: "setup_cloud_connect conn now ag1 = (ok, ag2)" by force
    have p1: "link_part ag1 = link_part ag" by (auto simp: ag1_def Let_def load_ini_def emit_def split: option.splits)
    have r1: "thread_run Sender_Thread (link_view ag Sd_Top p) (link_view ag1 Sd_Close p)"
      using True due p1 by (intro sender_runs [of "[Yes, No]"]) (simp add: sender_next_def link_view_def)
    have r2: "thread_run Sender_Thread (link_view ag1 Sd_Close p) (link_view ag2 (if ok then Sd_Contact else Sd_Top) p)"
      using setup_runs [OF su] True p1 by simp
    have c: "sender_connect ini conn t now ag = (case (ok, ag2) of (False, ag) \<Rightarrow> Inr (False, ag\<lparr>ag_next_try_time := sint t + 60\<rparr>)
        | (True, ag) \<Rightarrow> cbind (first_contact now ag) (\<lambda>(status, ag). Inr (True, first_contact_end now status ag)))"
      using True due su unfolding sender_connect_def Let_def ag1_def by simp
    show ?thesis
    proof (cases ok)
      case False
      then have "\<not> go" "ag' = ag2\<lparr>ag_next_try_time := sint t + 60\<rparr>" using assms c by auto
      then show ?thesis using thread_run_trans [OF r1 r2] False by (simp add: link_view_def)
    next
      case ok: True
      then obtain st ag3 where f: "first_contact now ag2 = Inr (st, ag3)" "ag' = first_contact_end now st ag3" "go"
        using assms c by (auto elim!: cbind_InrE)
      have "ag_cloud_sock ag2 \<noteq> None"
        using su ok by (auto simp: setup_cloud_connect_def emit_def set_cloud_connection_status_def Let_def split: connect_ret.splits)
      then have "thread_run Sender_Thread (link_view ag2 Sd_Contact p) (link_view ag' Sd_Get p)"
        unfolding f(2) by (rule first_contact_runs [OF f(1)])
      from thread_run_trans [OF thread_run_trans [OF r1 r2 [unfolded if_P [OF ok]]] this] show ?thesis using f(3) by simp
    qed
  qed
qed

text \<open>An iteration of the sender thread with the port handler standing still.\<close>

lemma sender_alone:
  assumes "thread_ilink_sender ini conn res t now ag = Inr ag'"
  shows "thread_run Sender_Thread (link_view ag Sd_Top p) (link_view ag' Sd_Top p)"
proof -
  obtain go ag1 where c: "sender_connect ini conn t now ag = Inr (go, ag1)" "if go then sender_queue res now ag1 = Inr ag' else ag' = ag1"
    using assms by (auto simp: thread_ilink_sender_def elim!: cbind_InrE split: if_splits)
  then show ?thesis using sender_connect_runs [OF c(1), of p] sender_queue_runs [of res now ag1 ag' p] thread_run_trans
    by (cases go) auto
qed

lemma provision_timeout_part:
  "check_provision_timeout t now ag = Inr (n, ag') \<Longrightarrow>
   link_part ag' = link_part ag \<or> link_part ag' = (iReady_To_Connect, ag_cloud_sock ag)"
  by (auto simp: check_provision_timeout_def set_cloud_connection_status_def Let_def emit_def elim!: cbind_InrE
      split: if_splits dest!: init_provision_part)

lemma handshake_timeout_part:
  "check_handshake_timeout t now ag = Inr (n, ag') \<Longrightarrow>
   link_part ag' = link_part ag \<or> link_part ag' = (iReady_To_Connect, ag_cloud_sock ag)"
  by (auto simp: check_handshake_timeout_def first_handshake_def init_handshake_def set_cloud_connection_status_def Let_def emit_def
      elim!: cbind_InrE split: if_splits dest!: send_handshake_part)

lemma ping_timeout_part:
  "check_ping_timeout t now ag = Inr (n, ag') \<Longrightarrow>
   ag_cloud_status ag = iReady_For_Work \<and> (link_part ag' = link_part ag \<or> link_part ag' = (iError_In_Connection, ag_cloud_sock ag))"
  using prepare_reconnect_part [of now ag]
  by (auto simp: check_ping_timeout_def elim!: cbind_InrE split: if_splits dest!: init_ping_part)

text \<open>One conditional timer check: skipped, or run with the status kept or changed.\<close>

lemma timer_check_runs:
  assumes "cbind (if b then cbind (chk ag) (\<lambda>(next, ag). Inr (min_expiry next e, ag)) else Inr (e, ag)) k = Inr r"
    and "\<not> b \<Longrightarrow> thread_run Port_Thread (link_view ag sp p) (link_view ag sp p')"
    and "\<And>n ag1. b \<Longrightarrow> chk ag = Inr (n, ag1) \<Longrightarrow> thread_run Port_Thread (link_view ag sp p) (link_view ag1 sp p')"
  obtains e1 ag1 where "k (e1, ag1) = Inr r" "thread_run Port_Thread (link_view ag sp p) (link_view ag1 sp p')"
  using assms by (cases b) (auto elim!: cbind_InrE)

text \<open>The timers of the port handler with the sender standing still.\<close>

lemma timers_alone:
  assumes "link_timers ms t now ag = Inr (e', ag', evs)"
  shows "thread_run Port_Thread (link_view ag sp Pt_Prov) (link_view ag' sp Pt_Fds)"
proof -
  obtain e ctx evs' where c: "bh_handle_expired_trans ms (ag_ilink_ctx ag) = (e, ctx, evs')" by (metis prod_cases3)
  let ?ag = "ag\<lparr>ag_ilink_ctx := ctx\<rparr>"
  note l = assms [unfolded link_timers_def c Let_def prod.case]
  from l obtain e1 ag1 where r1: "thread_run Port_Thread (link_view ?ag sp Pt_Prov) (link_view ag1 sp Pt_Shake)"
    and l1: "cbind (if ag_cloud_status ag1 = iCloud_Handshaking \<and> \<not> handshake_done ag1
                 then cbind (check_handshake_timeout t now ag1) (\<lambda>(next, ag). Inr (min_expiry next e1, ag)) else Inr (e1, ag1)) (\<lambda>(e, ag).
          cbind (if ag_cloud_status ag = iReady_For_Work
                 then cbind (check_ping_timeout t now ag) (\<lambda>(next, ag). Inr (min_expiry next e, ag)) else Inr (e, ag)) (\<lambda>(e, ag).
          Inr (e, if ag_cloud_status ag = iError_In_Connection then set_cloud_connection_status now iReady_To_Connect ag else ag, evs'))) =
        Inr (e', ag', evs)"
  proof (rule timer_check_runs)
    assume "ag_cloud_status ?ag \<noteq> iCloud_Provisioning"
    then show "thread_run Port_Thread (link_view ?ag sp Pt_Prov) (link_view ?ag sp Pt_Shake)"
      by (intro port_runs [of "[No]"]) (simp add: port_next_def link_view_def)
  next
    fix n ag1 assume b: "ag_cloud_status ?ag = iCloud_Provisioning" "check_provision_timeout t now ?ag = Inr (n, ag1)"
    from provision_timeout_part [OF b(2)] show "thread_run Port_Thread (link_view ?ag sp Pt_Prov) (link_view ag1 sp Pt_Shake)"
      using b(1) port_runs [of "[No, No]" "link_view ?ag sp Pt_Prov"] port_runs [of "[No, Yes]" "link_view ?ag sp Pt_Prov"]
      by (auto simp: port_next_def link_view_def)
  qed (use that in auto)
  from l1 obtain e2 ag2 where r2: "thread_run Port_Thread (link_view ag1 sp Pt_Shake) (link_view ag2 sp Pt_Ping)"
    and l2: "cbind (if ag_cloud_status ag2 = iReady_For_Work
                 then cbind (check_ping_timeout t now ag2) (\<lambda>(next, ag). Inr (min_expiry next e2, ag)) else Inr (e2, ag2)) (\<lambda>(e, ag).
          Inr (e, if ag_cloud_status ag = iError_In_Connection then set_cloud_connection_status now iReady_To_Connect ag else ag, evs')) =
        Inr (e', ag', evs)"
  proof (rule timer_check_runs)
    assume "\<not> (ag_cloud_status ag1 = iCloud_Handshaking \<and> \<not> handshake_done ag1)"
    then show "thread_run Port_Thread (link_view ag1 sp Pt_Shake) (link_view ag1 sp Pt_Ping)"
      by (intro port_runs [of "[No]"]) (simp add: port_next_def link_view_def)
  next
    fix n ag2 assume b: "ag_cloud_status ag1 = iCloud_Handshaking \<and> \<not> handshake_done ag1" "check_handshake_timeout t now ag1 = Inr (n, ag2)"
    from handshake_timeout_part [OF b(2)] show "thread_run Port_Thread (link_view ag1 sp Pt_Shake) (link_view ag2 sp Pt_Ping)"
      using b(1) port_runs [of "[Yes, No]" "link_view ag1 sp Pt_Shake"] port_runs [of "[Yes, Yes]" "link_view ag1 sp Pt_Shake"]
      by (auto simp: port_next_def link_view_def)
  qed (use that in auto)
  from l2 obtain e3 ag3 where r3: "thread_run Port_Thread (link_view ag2 sp Pt_Ping) (link_view ag3 sp Pt_Check)"
    and l3: "ag' = (if ag_cloud_status ag3 = iError_In_Connection then set_cloud_connection_status now iReady_To_Connect ag3 else ag3)"
  proof (rule timer_check_runs)
    assume "ag_cloud_status ag2 \<noteq> iReady_For_Work"
    then show "thread_run Port_Thread (link_view ag2 sp Pt_Ping) (link_view ag2 sp Pt_Check)"
      by (intro port_runs [of "[No]"]) (simp add: port_next_def link_view_def)
  next
    fix n ag3 assume b: "check_ping_timeout t now ag2 = Inr (n, ag3)"
    from ping_timeout_part [OF b] show "thread_run Port_Thread (link_view ag2 sp Pt_Ping) (link_view ag3 sp Pt_Check)"
      using port_runs [of "[No, No]" "link_view ag2 sp Pt_Ping"] port_runs [of "[No, Yes, No, No]" "link_view ag2 sp Pt_Ping"]
      by (auto simp: port_next_def link_view_def)
  qed (use that in auto)
  have r4: "thread_run Port_Thread (link_view ag3 sp Pt_Check) (link_view ag' sp Pt_Fds)"
    using l3 port_runs [of "[No]" "link_view ag3 sp Pt_Check"] port_runs [of "[No, No]" "link_view ag3 sp Pt_Check"]
    by (auto simp: port_next_def link_view_def set_cloud_connection_status_def Let_def emit_def)
  have "link_view ?ag sp Pt_Prov = link_view ag sp Pt_Prov" by (simp add: link_view_def)
  then show ?thesis
    using thread_run_trans [OF thread_run_trans [OF thread_run_trans [OF r1 r2] r3] r4] by simp
qed

section \<open>Safety, and the race that is left\<close>

lemma link_start_inv: "link_inv link_start"
  by (simp add: link_start_def link_defs)

text \<open>C10.  The status protocol keeps the threads apart on the socket, without a lock: in every interleaving of
  single accesses to the status and the socket, the assertion of \<open>send_cloud_msg\<close> never fails and no
  descriptor -1 is put into the select set or read; while the sender closes, opens and connects the
  socket the status is ready-to-connect and the port handler is outside the part that has decided to use
  the connection; and from \<open>FD_SET\<close> to \<open>recv\<close> the port handler works on the descriptor that is open, the one
  it put into the set.\<close>

theorem link_threads_safe:
  "lk_sender (link_run cs link_start) \<noteq> Sd_Abort \<and> lk_port (link_run cs link_start) \<noteq> Pt_Fault \<and>
   (lk_sender (link_run cs link_start) \<in> {Sd_Close, Sd_Socket, Sd_Connect, Sd_Up} \<longrightarrow>
      lk_status (link_run cs link_start) = iReady_To_Connect \<and>
      lk_port (link_run cs link_start) \<in> {Pt_Prov, Pt_Shake, Pt_Ping, Pt_Check, Pt_Fds, Pt_Select None, Pt_Abort}) \<and>
   (lk_sender (link_run cs link_start) = Sd_Send \<longrightarrow> lk_sock (link_run cs link_start) \<noteq> None) \<and>
   (\<forall>d. lk_port (link_run cs link_start) \<in> {Pt_Select (Some d), Pt_Isset d, Pt_Recv d} \<longrightarrow> lk_sock (link_run cs link_start) = Some d)"
  using link_run_inv [OF link_start_inv, of cs] by (auto simp: link_defs)

text \<open>The sender connects and the cloud accepts the handshake; then the port handler waits for the next packet.\<close>

definition recv_schedule :: "(link_thread \<times> choice) list" where
  "recv_schedule = map (Pair Sender_Thread) [Yes, No, No, Fd 5, Yes, No, Yes, No] @
     map (Pair Port_Thread) [No, No, No, No, No, No, Yes, Yes]"

theorem link_threads_safe_witness:
  "lk_port (link_run recv_schedule link_start) = Pt_Recv 5 \<and> lk_sock (link_run recv_schedule link_start) = Some 5"
proof -
  have "lk_port (link_run recv_schedule link_start) = Pt_Recv 5" by code_simp
  with link_threads_safe [of recv_schedule] show ?thesis by simp
qed

text \<open>The assertion of \<open>check_ping_timeout\<close> can fail: the port handler finds the link ready for work (line 237 of
  \<open>ports_handler.c\<close>), a send of the sender thread meets a reset connection and sets the status to error,
  and the port handler then tests the status again in the assertion (\<open>ping.c\<close> line 58).\<close>

definition race_schedule :: "(link_thread \<times> choice) list" where
  "race_schedule = recv_schedule @ map (Pair Port_Thread) [Yes, Yes, No, No, No] @ map (Pair Sender_Thread) [Yes, Yes, No, No] @
     [(Port_Thread, No), (Sender_Thread, No), (Port_Thread, No)]"

theorem ping_assert_race:
  "lk_port (link_run race_schedule link_start) = Pt_Abort \<and> lk_status (link_run race_schedule link_start) = iError_In_Connection"
  by code_simp

end
