(* ===== verification/Spec2Isabelle.thy ===== *)
theory Spec2Isabelle
  imports Ilink_Frame Trans_Threads Queue_Threads Task_Scheduler Url Coap_Accessors Coap_Tcp Coap_Typed Coap_Receive
    Coap_Partial Coap_Expire Agent_Run Link_Threads
begin

text \<open>
  \<^bold>\<open>A verification development for the Intel device resource management library.\<close>

  \<^bold>\<open>The program.\<close>  The repository holds a gateway agent for the Internet of Things.  Its core, the
  \<open>iagent\<close> (\<open>src/framework/iagent-core\<close>), keeps one TCP connection to a cloud server and speaks \<^emph>\<open>iLink\<close> on it:
  frames with a fixed leading part, a table of typed keys (the variable header) and a payload that is often a
  CoAP message.  The agent shakes hands with the cloud or provisions itself, keeps the link alive with pings,
  routes CoAP requests of the cloud to built-in resources, to end points on the local network or to modules on
  the gateway bus, and matches the answers.  It is built from shared libraries (\<open>src/idr-mgt-shared-libs\<close>):
  pending transactions with timeouts, message queues between threads, a task scheduler, URL helpers and a CoAP
  stack derived from Erbium (\<open>coap/er-coap\<close> and \<open>coap/extension\<close>).

  \<^bold>\<open>How the parts interact.\<close>  The sender thread takes frames from a queue and owns the connection; the port
  handler thread receives bytes, cuts them into frames, dispatches them and runs the timers; both share the
  handshake and connection status and the list of pending transactions.  A frame is composed from a variable
  header and a payload; a CoAP frame is parsed, routed, and answered with a new frame.  On the local network the
  agent is a CoAP client, which retransmits its requests and cuts long payloads into blocks, and a CoAP server, which
  routes requests to resource handlers and keeps the block-wise transfers of its peers.

  \<^bold>\<open>Theories and sources.\<close>

  \<^item> \<open>Prelude\<close>: words, bytes, byte order, C strings, the faults of C and the lemmas the components share.
  \<^item> \<open>Kv_Store\<close>, \<open>Fifo_Queue\<close>: the contracts of a keyed store and of a bounded queue, as locales.
  \<^item> \<open>Ilink_Vheader\<close>: \<open>variable_header.c\<close>.  The table is a record with its node list; \<open>vheader_compose\<close>,
    \<open>vheader_decompose\<close> and the single-key decoder follow the code byte by byte.  Shown: decoding a composed header
    gives its nodes back, the single-key decoder agrees with the table, decoding arbitrary bytes of a buffer
    of at most 65532 bytes is memory safe (longer ones wrap the 16 bit offset, \<open>vheader_decompose_wraps\<close>), and the
    table is a \<open>kv_store\<close>.
  \<^item> \<open>Ilink_Frame\<close>: \<open>ilink_frame.c\<close> and the key readers of \<open>ilink_handler.c\<close>.  The receiver is a state machine
    over \<open>recv_context\<close>; \<open>handle_cloud_packet\<close> is equal to byte-wise reception, any cut of composed frames into
    packets delivers the frames in order and once each, and arbitrary bytes never fault it.
  \<^item> \<open>Transactions\<close>: \<open>lib/transaction.c\<close> and \<open>lib/linux/sync_bsp.c\<close>, one function per operation.  \<open>Trans_Threads\<close>: the
    threads that share a context, as a step relation with one step per locked region (a feeder holds its node
    between two of them, a waiter may give up meanwhile); each function is a sequence of these steps, every
    transaction is in one place and freed once, and its callback runs at most once.
  \<^item> \<open>Message_Queue\<close>: \<open>lib/message_queue.c\<close> over an explicit store of list nodes; used by one thread it implements
    \<open>fifo_queue\<close>, and the handler loop returns by its deadline while others post.  \<open>Queue_Threads\<close>: concurrent posters
    and readers; first-in first-out and memory safe in every interleaving, but the count is tested before the
    lock, so the bound is 99 plus the number of posters and two posters exceed the configured maximum
    (\<open>queue_bound_exceeded\<close>).
  \<^item> \<open>Task_Scheduler\<close>: \<open>lib/task.c\<close>.  The list stays ordered, due tasks run in order, polling drains them.
  \<^item> \<open>Url\<close>: \<open>lib/url_match.c\<close> and the parsers of \<open>utils/url_util.c\<close>.
  \<^item> \<open>Coap_Packet\<close>, \<open>Coap_Accessors\<close>: the packet structure, the option bitmap, and every getter and setter of
    \<open>er-coap.c\<close>; setters act as map updates on the abstract message (locale \<open>option_slot\<close>).
  \<^item> \<open>Coap_Codec\<close>, \<open>Coap_Serialize\<close>, \<open>Coap_Parse\<close>, \<open>Coap_Roundtrip\<close>: the serialiser and the parser of
    \<open>er-coap.c\<close> with every buffer access bounds checked; the wire image, what the option loop computes, and the
    round trip.
  \<^item> \<open>Coap_Typed\<close>: every packet that the parser or the setters make respects the array bounds and ranges of the
    C structure.  \<open>Coap_Partial\<close>: \<open>extension/coap_partial_parse.c\<close>, access to a message in its buffer, which agrees
    with the serialiser.
  \<^item> \<open>Coap_List\<close>: \<open>extension/list.c\<close> on an explicit store of next pointers; each operation refines its counterpart
    on sequences.
  \<^item> \<open>Coap_Transactions\<close>, \<open>Coap_Retransmit\<close>: \<open>er-coap-transactions.c\<close>, with transactions and pending requests as objects
    of two stores that refer to each other.  A check of the timers sends what has expired once and in order and keeps
    the invariant, for every handler that meets the locale \<open>timeout_handlers\<close>.
  \<^item> \<open>Coap_Request\<close>, \<open>Coap_Blockwise\<close>, \<open>Coap_Start\<close>, \<open>Coap_Put\<close>, \<open>Coap_Receive\<close>: \<open>extension/coap_request.c\<close>, the requests of
    the client with their callbacks.  Callbacks start transactions and transactions run callbacks; \<open>engine n\<close> ties the
    knot to the depth \<open>n\<close>, and every depth above zero is enough for the callbacks under a check of the
    timers.  With user handlers as in the locale \<open>user_handlers\<close> the engine is a \<open>timeout_handlers\<close> (a
    sublocale, interpreted on the handler \<open>ep_handler\<close>).  Shown: starting a request, its retransmission, continuing
    it block by block, and completing it, which delivers the response once and frees all of its objects.
  \<^item> \<open>Coap_Server\<close>, \<open>Coap_Transfer\<close>, \<open>Coap_Serve\<close>, \<open>Coap_Expire\<close>: \<open>extension/request_handler.c\<close>, the server.  The lists of
    peers and transfers act as a map (\<open>cache_map\<close>, under \<open>cache_ok\<close>); the payload that the client cuts arrives whole at the
    server, a long response arrives whole at a client that asks for its blocks, and old transfers are dropped.
    Further the requests with which a peer makes the server access memory outside of its buffers.
  \<^item> \<open>Coap_Tcp\<close>: the framing of \<open>extension/coap_over_tcp.c\<close>.  \<open>Coap_Block1\<close>: \<open>er-coap-block1.c\<close>.
  \<^item> \<open>Agent_Session\<close>: \<open>handshake.c\<close>, \<open>provision.c\<close>, \<open>ping.c\<close> and the connection status.  \<open>Agent_Link\<close>: the sender
    thread of \<open>ibroker_send.c\<close>, the dispatch of \<open>ilink_handler.c\<close> and the timers of \<open>ports_handler.c\<close>.
    \<open>Agent_Coap\<close>: \<open>handle_type_coap\<close> and its routes.  \<open>Agent_Messages\<close>, \<open>Agent_Invariant\<close>, \<open>Agent_Run\<close>: what the
    agent sends can always be framed, the invariant of the session, and the runs of the two threads with received
    messages, lost connections and foreign users of the queue as steps (locale \<open>agent_services\<close> for what the
    CoAP services promise, interpreted on the model of the routes).
  \<^item> \<open>Link_Threads\<close>: the sender thread and the port handler interleaved by single accesses to the status and the
    socket, which they share without a lock.  The protocol of the status keeps them apart on the socket; the
    assertion of \<open>ping.c\<close> can fail (\<open>ping_assert_race\<close>).  A thread that is not disturbed does there what its
    iteration in \<open>Agent_Link\<close> does.

  \<^bold>\<open>Conventions.\<close>  Integers keep their width as words.  A pointer into a byte object is the list of bytes from its
  address to the end of the object, \<open>None\<close> is \<open>NULL\<close>; where the code links objects, the objects live in an
  explicit store and pointers are addresses.  An operation that can fault returns \<open>'a cres\<close>: a failed assertion, an
  access outside of an object or through a pointer to a freed one, a dereferenced \<open>NULL\<close> and a shift by the width or more are values, so that a theorem
  that it returns \<open>Inr\<close> is a safety statement.  The host is little-endian.  Memory allocation succeeds unless its
  result is an argument: the CoAP client takes the addresses that \<open>malloc\<close> returns from the list \<open>rq_mem\<close>, where an
  empty list is \<open>NULL\<close>, and the server the memory from \<open>se_alloc\<close>.  The clock, the results of system calls and received bytes are arguments of the steps.
  Messages to the log are left out.  The agent is modelled in the build with \<open>BUILTIN_IBROKER\<close> and as a module of
  the broker.

  \<^bold>\<open>Atomicity.\<close>  Where the source has locks, a step of a thread is a locked region (\<open>Trans_Threads\<close>,
  \<open>Queue_Threads\<close>).  The two threads of the cloud link have none: \<open>g_sock_mutex1\<close> of \<open>ibroker_send.c\<close> is declared and
  never taken.  In \<open>Agent_Run\<close> one iteration of a thread is one step, so its theorems speak of runs in which
  iterations do not overlap; \<open>Link_Threads\<close> drops this assumption for the status and the socket, not for the
  handshake and provisioning data.  \<open>load_iagent_id\<close> is one step, although the source frees the identifier and sets it to
  \<open>NULL\<close> before it reads it again, and so is the increment of the drop counter of a message queue.  A CoAP
  context is used by one thread, as the comment above \<open>coap_get_transaction_by_mid\<close> demands (its lock only covers the
  accesses to the list).

  \<^bold>\<open>Parameters.\<close>  The ini file (\<open>ini_save\<close>, with \<open>ini_ok\<close> for a written value that reads back), the registry of
  devices and the built-in resources (the record \<open>coap_env\<close>), task and message handlers, the response handlers of a CoAP
  client, the resource handlers of a CoAP server (the record \<open>server_env\<close>), and what other threads do to a queue while a
  thread waits on it.

  \<^bold>\<open>Loops and bounds.\<close>  Every loop is a terminating function with the measure of the code's own bound: a word
  counter below a length, the rest of a buffer, the list that gets shorter.  \<open>poll_rounds n\<close> and the handler loop
  take the number of rounds as an argument, and theorems say which number is enough (for the handler loop, two more
  than the number of the iteration whose handler returns after the deadline); the sender's retry loop
  makes at most eleven tries as the code does.  The loops over the linked lists of the CoAP stack do not end on a
  cyclic list; they are partial functions with \<open>None\<close> for that, and on the lists of the invariants they return.

  \<^bold>\<open>Not modelled.\<close>  The device registry and its refreshers and the resource values (C++ classes, \<open>devices/*.cpp\<close>);
  blocking CoAP requests, a wait on a condition variable around the client that is modelled; the creation and release
  of a CoAP context, a slot of a static table; the C++ and Java bindings; the modules of the gateway broker other than
  the agent (LWM2M server, proxy, database); the plugin SDK; the AMS client SDK; logging; the vendored libraries under
  \<open>src/external\<close>, cJSON and iniparser; sockets and threads as such, whose results are arguments.  Parts of
  the Erbium engine that this build does not compile (observe client, separate responses, the old engine) are left
  out as well.
\<close>

end
